(* ===== verification/Norte_Prelude.thy ===== *)
theory Norte_Prelude
  imports Main "HOL-Library.Sublist"
begin

text \<open>
  Shared vocabulary of the development. A Rust \<^verbatim>\<open>u8\<close> is an Isabelle \<open>char\<close> (eight bits), a
  \<^verbatim>\<open>Vec<u8>\<close>, a \<^verbatim>\<open>&[u8]\<close> and a \<^verbatim>\<open>String\<close> are lists of them: a Rust string is its UTF-8
  bytes, and string literals of the sources are written as HOL strings. A \<^verbatim>\<open>Result<T, E>\<close> is
  \<open>'e + 'a\<close> with \<open>Inl\<close> for the error, and the \<^verbatim>\<open>?\<close> operator is \<open>and_then\<close>.
  The theory holds the string operations of the Rust standard library that the components call
  (\<^verbatim>\<open>split_once\<close>, \<^verbatim>\<open>split\<close>, \<^verbatim>\<open>join\<close>) and the lemmas they share.
\<close>

type_synonym byte = char
type_synonym bytes = "char list"

abbreviation u8 :: "byte \<Rightarrow> nat" where
  "u8 b \<equiv> of_char b"

lemma u8_less: "u8 b < 256"
  by simp

lemma u8_eq_iff: "u8 a = u8 b \<longleftrightarrow> a = b"
  by simp

lemma char_of_u8 [simp]: "char_of (u8 b) = b"
  by simp

section \<open>Results\<close>

fun and_then :: "'e + 'a \<Rightarrow> ('a \<Rightarrow> 'e + 'b) \<Rightarrow> 'e + 'b" where
  "and_then (Inl e) f = Inl e"
| "and_then (Inr x) f = f x"

lemma and_then_Inr_iff: "and_then r f = Inr y \<longleftrightarrow> (\<exists>x. r = Inr x \<and> f x = Inr y)"
  by (cases r) auto

lemma and_then_Inl_iff:
  "and_then r f = Inl e \<longleftrightarrow> r = Inl e \<or> (\<exists>x. r = Inr x \<and> f x = Inl e)"
  by (cases r) auto

fun ok_or :: "'a option \<Rightarrow> 'e \<Rightarrow> 'e + 'a" where
  "ok_or None e = Inl e"
| "ok_or (Some x) e = Inr x"

lemma ok_or_Inr_iff [simp]: "ok_or o' e = Inr x \<longleftrightarrow> o' = Some x"
  by (cases o') auto

fun is_ok :: "'e + 'a \<Rightarrow> bool" where
  "is_ok (Inl e) = False"
| "is_ok (Inr x) = True"

lemma is_ok_iff: "is_ok r \<longleftrightarrow> (\<exists>x. r = Inr x)"
  by (cases r) auto

lemma pred_option_code [code]: "pred_option P None \<longleftrightarrow> True" "pred_option P (Some x) \<longleftrightarrow> P x"
  by simp_all

text \<open>\<^verbatim>\<open>iter.map(f).collect::<Result<Vec<_>, _>>()\<close>: the first error wins.\<close>

fun try_map :: "('a \<Rightarrow> 'e + 'b) \<Rightarrow> 'a list \<Rightarrow> 'e + 'b list" where
  "try_map f [] = Inr []"
| "try_map f (x # xs) = and_then (f x) (\<lambda>y. and_then (try_map f xs) (\<lambda>ys. Inr (y # ys)))"

lemma try_map_Inr_iff:
  "try_map f xs = Inr ys \<longleftrightarrow> list_all2 (\<lambda>x y. f x = Inr y) xs ys"
  by (induction xs arbitrary: ys) (auto simp: and_then_Inr_iff list_all2_Cons1)

lemma try_map_map_Inr:
  assumes "\<And>x. x \<in> set xs \<Longrightarrow> f (g x) = Inr x"
  shows "try_map f (map g xs) = Inr xs"
  using assms by (induction xs) auto

section \<open>Strings of the Rust standard library\<close>

text \<open>\<^verbatim>\<open>str::split_once\<close>: at the first occurrence of a non-empty pattern.\<close>

fun split_once :: "bytes \<Rightarrow> bytes \<Rightarrow> (bytes \<times> bytes) option" where
  "split_once pat [] = (if pat = [] then Some ([], []) else None)"
| "split_once pat (c # cs) =
     (if prefix pat (c # cs) then Some ([], drop (length pat) (c # cs))
      else map_option (\<lambda>(a, b). (c # a, b)) (split_once pat cs))"

lemma split_once_Some_append: "split_once pat s = Some (a, b) \<Longrightarrow> s = a @ pat @ b"
proof (induction pat s arbitrary: a rule: split_once.induct)
  case (1 pat)
  then show ?case by (simp split: if_splits)
next
  case (2 pat c cs)
  then show ?case
    by (auto split: if_splits simp: prefix_def append_eq_conv_conj)
qed

lemma split_once_char_None_iff: "split_once [c] s = None \<longleftrightarrow> c \<notin> set s"
  by (induction s) auto

lemma split_once_char_hit: "c \<notin> set a \<Longrightarrow> split_once [c] (a @ c # b) = Some (a, b)"
  by (induction a) auto

lemma split_once_char_SomeD: "split_once [c] s = Some (a, b) \<Longrightarrow> s = a @ c # b \<and> c \<notin> set a"
proof (induction s arbitrary: a)
  case Nil
  then show ?case by simp
next
  case (Cons d s)
  then show ?case by (cases "d = c") auto
qed

lemma split_once_hit:
  assumes "pat \<noteq> []" and "hd pat \<notin> set a"
  shows "split_once pat (a @ pat @ b) = Some (a, b)"
  using assms
proof (induction a)
  case Nil
  then show ?case by (cases pat) auto
next
  case (Cons c a)
  then have "\<not> prefix pat (c # a @ pat @ b)"
    by (cases pat) auto
  with Cons show ?case by simp
qed

lemma split_once_None:
  assumes "\<And>u v. s \<noteq> u @ pat @ v"
  shows "split_once pat s = None"
proof (cases "split_once pat s")
  case (Some p)
  then have "s = fst p @ pat @ snd p"
    by (intro split_once_Some_append) simp
  with assms show ?thesis by blast
qed

text \<open>\<^verbatim>\<open>str::split(c)\<close>: never empty; an empty string is one empty piece.\<close>

fun split_on :: "byte \<Rightarrow> bytes \<Rightarrow> bytes list" where
  "split_on c [] = [[]]"
| "split_on c (x # xs) =
     (if x = c then [] # split_on c xs
      else (case split_on c xs of [] \<Rightarrow> [[x]] | p # ps \<Rightarrow> (x # p) # ps))"

text \<open>\<^verbatim>\<open>[T]::join(c)\<close>, and the push loops of the sources that put a separator before every
  item but the first.\<close>

fun join_with :: "bytes \<Rightarrow> bytes list \<Rightarrow> bytes" where
  "join_with sep [] = []"
| "join_with sep [p] = p"
| "join_with sep (p # q # ps) = p @ sep @ join_with sep (q # ps)"

lemma join_with_Cons: "join_with sep (p # ps) = p @ (if ps = [] then [] else sep @ join_with sep ps)"
  by (cases ps) auto

lemma join_with_eq_Nil_iff:
  "(\<forall>p \<in> set ps. p \<noteq> []) \<Longrightarrow> join_with sep ps = [] \<longleftrightarrow> ps = []"
  by (cases ps) (auto simp: join_with_Cons)

lemma split_on_not_Nil [simp]: "split_on c s \<noteq> []"
  by (induction s) (auto split: list.splits)

lemma split_on_plain: "c \<notin> set s \<Longrightarrow> split_on c s = [s]"
  by (induction s) auto

lemma split_on_append: "c \<notin> set a \<Longrightarrow> split_on c (a @ c # s) = a # split_on c s"
  by (induction a) auto

lemma split_on_pieces: "p \<in> set (split_on c s) \<Longrightarrow> c \<notin> set p"
proof (induction s arbitrary: p)
  case Nil
  then show ?case by simp
next
  case (Cons x s)
  then show ?case by (cases "split_on c s") (auto split: if_splits)
qed

lemma split_on_join_with:
  assumes "ps \<noteq> []" and "\<And>p. p \<in> set ps \<Longrightarrow> c \<notin> set p"
  shows "split_on c (join_with [c] ps) = ps"
  using assms
proof (induction ps)
  case Nil
  then show ?case by simp
next
  case (Cons p ps)
  show ?case
  proof (cases "ps = []")
    case True
    with Cons.prems show ?thesis by (simp add: split_on_plain)
  next
    case False
    with Cons show ?thesis by (simp add: join_with_Cons split_on_append)
  qed
qed

lemma join_with_split_on: "join_with [c] (split_on c s) = s"
proof (induction s)
  case Nil
  then show ?case by simp
next
  case (Cons x s)
  then show ?case by (cases "split_on c s") (auto simp: join_with_Cons split: if_splits)
qed

lemma split_on_append_any:
  "split_on c (x @ y) =
     butlast (split_on c x) @ (last (split_on c x) @ hd (split_on c y)) # tl (split_on c y)"
proof (induction x)
  case Nil
  show ?case by (cases "split_on c y") auto
next
  case (Cons a x)
  obtain p ps where "split_on c x = p # ps" by (cases "split_on c x") auto
  with Cons show ?case by simp
qed

lemma last_split_on_append: "last (split_on c (x @ y)) = last (split_on c (last (split_on c x) @ y))"
proof -
  have "c \<notin> set (last (split_on c x))"
    using split_on_pieces [of "last (split_on c x)" c x] by simp
  then show ?thesis
    by (simp add: split_on_append_any [of c x] split_on_append_any [of c "last (split_on c x)"] split_on_plain)
qed

lemma set_join_with: "set (join_with sep ps) \<subseteq> set sep \<union> (\<Union>p \<in> set ps. set p)"
  by (induction ps) (auto simp: join_with_Cons)

section \<open>Lists\<close>

text \<open>\<^verbatim>\<open>Iterator::position\<close>, \<^verbatim>\<open>rposition\<close> and \<^verbatim>\<open>max_by_key\<close> (the last of the greatest).\<close>

fun position :: "('a \<Rightarrow> bool) \<Rightarrow> 'a list \<Rightarrow> nat option" where
  "position P [] = None"
| "position P (x # xs) = (if P x then Some 0 else map_option Suc (position P xs))"

fun rposition :: "('a \<Rightarrow> bool) \<Rightarrow> 'a list \<Rightarrow> nat option" where
  "rposition P [] = None"
| "rposition P (x # xs) =
     (case rposition P xs of Some i \<Rightarrow> Some (Suc i) | None \<Rightarrow> if P x then Some 0 else None)"

fun max_by_key :: "('a \<Rightarrow> nat) \<Rightarrow> 'a list \<Rightarrow> 'a option" where
  "max_by_key f [] = None"
| "max_by_key f (x # xs) =
     (case max_by_key f xs of None \<Rightarrow> Some x | Some y \<Rightarrow> if f y < f x then Some x else Some y)"

lemma position_None_iff: "position P xs = None \<longleftrightarrow> (\<forall>x \<in> set xs. \<not> P x)"
  by (induction xs) auto

lemma rposition_None_iff: "rposition P xs = None \<longleftrightarrow> (\<forall>x \<in> set xs. \<not> P x)"
  by (induction xs) (auto split: option.splits)

lemma position_SomeD:
  "position P xs = Some i \<Longrightarrow> i < length xs \<and> P (xs ! i) \<and> (\<forall>x \<in> set (take i xs). \<not> P x)"
  by (induction xs arbitrary: i) (auto split: if_splits)

lemma rposition_SomeD:
  "rposition P xs = Some i \<Longrightarrow> i < length xs \<and> P (xs ! i) \<and> (\<forall>x \<in> set (drop (Suc i) xs). \<not> P x)"
  by (induction xs arbitrary: i) (auto split: if_splits option.splits simp: rposition_None_iff)

lemma position_middle:
  "(\<And>x. x \<in> set xs \<Longrightarrow> \<not> P x) \<Longrightarrow> P y \<Longrightarrow> position P (xs @ y # zs) = Some (length xs)"
  by (induction xs) auto

lemma rposition_middle:
  "(\<And>z. z \<in> set zs \<Longrightarrow> \<not> P z) \<Longrightarrow> P y \<Longrightarrow> rposition P (xs @ y # zs) = Some (length xs)"
proof (induction xs)
  case Nil
  then have "rposition P zs = None" by (simp add: rposition_None_iff)
  with Nil show ?case by simp
qed simp

lemma max_by_key_None_iff [simp]: "max_by_key f xs = None \<longleftrightarrow> xs = []"
  by (cases xs) (auto split: option.splits)

lemma max_by_key_SomeD:
  "max_by_key f xs = Some x \<Longrightarrow> x \<in> set xs \<and> (\<forall>y \<in> set xs. f y \<le> f x)"
proof (induction xs arbitrary: x)
  case Nil
  then show ?case by simp
next
  case (Cons a xs)
  show ?case
  proof (cases "max_by_key f xs")
    case None
    with Cons.prems show ?thesis by simp
  next
    case (Some y)
    with Cons.IH [OF Some] Cons.prems show ?thesis
      by (force split: if_splits)
  qed
qed

lemma list_all_butlast: "list_all P xs \<Longrightarrow> list_all P (butlast xs)"
  by (auto simp: list_all_iff dest: in_set_butlastD)

lemma list_all2_map_left: "list_all2 P (map f xs) ys \<longleftrightarrow> list_all2 (\<lambda>x. P (f x)) xs ys"
  by (auto simp: list_all2_map1)

lemma take_drop_decompose: "n \<le> length xs \<Longrightarrow> \<exists>ys zs. xs = ys @ zs \<and> length ys = n"
  by (metis append_take_drop_id length_take min.absorb2)

text \<open>No two adjacent occurrences of a byte.\<close>

fun no_double :: "'a \<Rightarrow> 'a list \<Rightarrow> bool" where
  "no_double c (x # y # zs) \<longleftrightarrow> \<not> (x = c \<and> y = c) \<and> no_double c (y # zs)"
| "no_double c _ \<longleftrightarrow> True"

lemma no_double_append:
  "no_double c (a @ b) \<longleftrightarrow>
     no_double c a \<and> no_double c b \<and> (a = [] \<or> b = [] \<or> last a \<noteq> c \<or> hd b \<noteq> c)"
proof (induction a rule: induct_list012)
  case (2 x)
  show ?case by (cases b) auto
qed auto

lemma no_double_absent: "c \<notin> set s \<Longrightarrow> no_double c s"
  by (induction c s rule: no_double.induct) auto

lemma no_doubleD: "no_double c (u @ c # c # v) \<Longrightarrow> False"
  by (simp add: no_double_append)

lemma no_double_join_with:
  assumes "\<And>p. p \<in> set ps \<Longrightarrow> p \<noteq> [] \<and> c \<notin> set p"
  shows "no_double c (join_with [c] ps) \<and> (ps \<noteq> [] \<longrightarrow> hd (join_with [c] ps) \<noteq> c)"
  using assms
proof (induction ps)
  case Nil
  then show ?case by simp
next
  case (Cons p ps)
  have p: "p \<noteq> []" "c \<notin> set p" using Cons.prems by auto
  have "hd p \<noteq> c" "last p \<noteq> c" using p hd_in_set [of p] last_in_set [of p] by auto
  moreover have "ps \<noteq> [] \<Longrightarrow> join_with [c] ps \<noteq> []"
    using Cons.prems by (simp add: join_with_eq_Nil_iff)
  moreover have "no_double c [c]" by simp
  ultimately show ?case
    using Cons p by (auto simp: join_with_Cons no_double_append no_double_absent hd_append
        simp flip: append_Cons)
qed

section \<open>Decimal numbers\<close>

text \<open>\<^verbatim>\<open>to_string\<close> of an unsigned integer, and the number that a run of digits stands for.\<close>

fun decimal :: "nat \<Rightarrow> bytes" where
  "decimal n = (if n < 10 then [char_of (48 + n)] else decimal (n div 10) @ [char_of (48 + n mod 10)])"

declare decimal.simps [simp del]

lemma u8_char_of: "u8 (char_of (n :: nat)) = n mod 256"
  by simp

definition undecimal :: "bytes \<Rightarrow> nat" where
  "undecimal = foldl (\<lambda>a b. a * 10 + (u8 b - 48)) 0"

lemma undecimal_decimal: "undecimal (decimal n) = n"
proof (induction n rule: decimal.induct)
  case (1 n)
  show ?case
  proof (cases "n < 10")
    case True
    then show ?thesis by (simp add: decimal.simps [of n] undecimal_def)
  next
    case False
    with 1 show ?thesis by (simp add: decimal.simps [of n] undecimal_def)
  qed
qed

lemma decimal_bytes: "b \<in> set (decimal n) \<Longrightarrow> 48 \<le> u8 b \<and> u8 b \<le> 57"
proof (induction n rule: decimal.induct)
  case (1 n)
  then show ?case by (cases "n < 10") (auto simp: decimal.simps [of n])
qed

end
