(* ===== verification/Framing.thy ===== *)
theory Framing
  imports Norte_Prelude
begin

text \<open>
  The NDJSON frame decoder of the wire protocol (\<^verbatim>\<open>norte-proto/src/wire/framing.rs\<close>). The
  decoder keeps a buffer and three counters into it; \<open>push\<close> and \<open>next_frame\<close> are translated with
  their index arithmetic. The abstract view of a decoder is the byte stream not yet delivered
  (\<open>unread\<close>) and the frames it holds (\<open>frames_of\<close>); the invariant \<open>decoder_ok\<close> ties the counters to
  the buffer. The interface \<open>frame_source\<close> states what a reader relies on, and its lemma about a
  whole session of calls is used through the interpretation on the decoder. Buffer lengths are
  natural numbers: a \<^verbatim>\<open>usize\<close> cannot overflow on bytes that are held in memory.
\<close>

section \<open>The decoder\<close>

definition NL :: byte where "NL = CHR 0x0A"
definition CR :: byte where "CR = CHR 0x0D"

definition MAX_FRAME_BYTES :: nat where
  "MAX_FRAME_BYTES = 16 * 1024 * 1024"

datatype frame_oversized = FrameOversized

record frame_decoder =
  buf :: bytes
  start :: nat
  scanned :: nat
  pending_newlines :: nat

definition FrameDecoder_new :: frame_decoder where
  "FrameDecoder_new = \<lparr>buf = [], start = 0, scanned = 0, pending_newlines = 0\<rparr>"

definition compact :: "frame_decoder \<Rightarrow> frame_decoder" where
  "compact d =
     (if start d > 0
      then d\<lparr>buf := drop (start d) (buf d), scanned := scanned d - start d, start := 0\<rparr>
      else d)"

definition push :: "frame_decoder \<Rightarrow> bytes \<Rightarrow> frame_decoder \<times> (frame_oversized + unit)" where
  "push d bs =
     (let d = compact d;
          d = d\<lparr>pending_newlines := pending_newlines d +
                 fold (\<lambda>b acc. acc + (if b = NL then 1 else 0)) bs 0\<rparr>;
          d = d\<lparr>buf := buf d @ bs\<rparr>
      in (d, if length (buf d) > MAX_FRAME_BYTES \<and> pending_newlines d = 0
             then Inl FrameOversized else Inr ()))"

function trim_cr :: "bytes \<Rightarrow> bytes" where
  "trim_cr line = (if line \<noteq> [] \<and> last line = CR then trim_cr (butlast line) else line)"
  by auto

termination trim_cr
  by (relation "measure length") auto

declare trim_cr.simps [simp del]

function next_frame :: "frame_decoder \<Rightarrow> frame_decoder \<times> bytes option" where
  "next_frame d =
     (case map_option (\<lambda>i. i + scanned d) (position (\<lambda>b. b = NL) (drop (scanned d) (buf d))) of
        None \<Rightarrow> (d\<lparr>scanned := length (buf d)\<rparr>, None)
      | Some nl \<Rightarrow>
          let line = drop (start d) (take nl (buf d));
              d' = d\<lparr>start := nl + 1, scanned := nl + 1,
                     pending_newlines := pending_newlines d - 1\<rparr>;
              line = trim_cr line
          in if line = [] then next_frame d' else (d', Some line))"
  by auto

termination next_frame
proof (relation "measure (\<lambda>d. length (buf d) - scanned d)", goal_cases)
  case (2 d nl line d' line')
  then obtain i where "position (\<lambda>b. b = NL) (drop (scanned d) (buf d)) = Some i" "nl = i + scanned d"
    by auto
  then have "nl < length (buf d)" "scanned d \<le> nl"
    by (auto dest: position_SomeD)
  with 2 show ?case by simp
qed simp

declare next_frame.simps [simp del]

text \<open>\<^verbatim>\<open>encode_frame\<close>; \<^verbatim>\<open>serde_json::to_vec\<close> is the parameter \<open>to_vec\<close>.\<close>

definition encode_frame :: "('m \<Rightarrow> 'e + bytes) \<Rightarrow> 'm \<Rightarrow> 'e + bytes" where
  "encode_frame to_vec msg = and_then (to_vec msg) (\<lambda>out. Inr (out @ [NL]))"

section \<open>The stream a decoder stands for\<close>

definition frames_of :: "bytes \<Rightarrow> bytes list" where
  "frames_of s = filter (\<lambda>f. f \<noteq> []) (map trim_cr (butlast (split_on NL s)))"

definition unread :: "frame_decoder \<Rightarrow> bytes" where
  "unread d = drop (start d) (buf d)"

definition decoder_ok :: "frame_decoder \<Rightarrow> bool" where
  "decoder_ok d \<longleftrightarrow> start d \<le> scanned d \<and> scanned d \<le> length (buf d) \<and>
     NL \<notin> set (drop (start d) (take (scanned d) (buf d))) \<and>
     pending_newlines d = count_list (unread d) NL"

lemma trim_cr_plain: "last line \<noteq> CR \<Longrightarrow> trim_cr line = line"
  by (subst trim_cr.simps) simp

lemma fold_count: "fold (\<lambda>b acc. acc + (if b = c then 1 else 0)) bs n = n + count_list bs c"
  by (induction bs arbitrary: n) auto

lemma frames_of_no_newline: "NL \<notin> set s \<Longrightarrow> frames_of s = []"
  by (simp add: frames_of_def split_on_plain)

lemma frames_of_line:
  assumes "NL \<notin> set line"
  shows "frames_of (line @ NL # s) = (if trim_cr line = [] then [] else [trim_cr line]) @ frames_of s"
  using assms by (simp add: frames_of_def split_on_append)

lemma frames_of_append_line:
  "frames_of (s @ t) = frames_of s @ frames_of (last (split_on NL s) @ t)"
proof (induction "count_list s NL" arbitrary: s)
  case 0
  then have "NL \<notin> set s" by (simp add: count_list_0_iff)
  then show ?case by (simp add: split_on_plain frames_of_no_newline)
next
  case (Suc n)
  then have "NL \<in> set s" by (metis count_list_0_iff nat.distinct(1))
  then obtain l s' where s: "s = l @ NL # s'" "NL \<notin> set l" by (meson split_list_first)
  with Suc.hyps(2) have "n = count_list s' NL" by (simp add: count_list_0_iff)
  from Suc.hyps(1) [OF this] s show ?case
    by (simp add: frames_of_line split_on_append)
qed

section \<open>The operations on the stream\<close>

lemma unread_compact [simp]: "unread (compact d) = unread d" "start (compact d) = 0"
  by (auto simp: compact_def unread_def)

lemma compact_buf: "buf (compact d) = unread d"
  by (auto simp: compact_def unread_def)

lemma push_unread: "unread (fst (push d bs)) = unread d @ bs"
proof -
  have "start (fst (push d bs)) = 0" by (simp add: push_def Let_def)
  moreover have "buf (fst (push d bs)) = unread d @ bs" by (simp add: push_def Let_def compact_buf)
  ultimately show ?thesis by (simp add: unread_def)
qed

lemma push_ok:
  assumes "decoder_ok d"
  shows "decoder_ok (fst (push d bs))"
proof -
  have "scanned d - start d \<le> length (buf d) - start d" "start d \<le> scanned d"
    using assms by (auto simp: decoder_ok_def)
  moreover have "take (scanned d - start d) (drop (start d) (buf d)) =
      drop (start d) (take (scanned d) (buf d))"
    using \<open>start d \<le> scanned d\<close> by (simp add: drop_take)
  moreover have "pending_newlines (compact d) = count_list (unread d) NL"
    using assms by (simp add: decoder_ok_def compact_def)
  ultimately show ?thesis
    using assms unfolding decoder_ok_def push_unread
    by (simp add: push_def Let_def fold_count) (auto simp: compact_def unread_def)
qed

lemma push_result:
  assumes "decoder_ok d"
  shows "snd (push d bs) =
    (if length (unread d @ bs) > MAX_FRAME_BYTES \<and> NL \<notin> set (unread d @ bs)
     then Inl FrameOversized else Inr ())"
proof -
  have "pending_newlines (compact d) = count_list (unread d) NL"
    using assms by (simp add: decoder_ok_def compact_def)
  then show ?thesis
    by (simp add: push_def Let_def fold_count compact_buf count_list_0_iff)
qed

lemma next_frame_none:
  assumes "decoder_ok d" "NL \<notin> set (unread d)"
  shows "next_frame d = (d\<lparr>scanned := length (buf d)\<rparr>, None)"
proof -
  have "drop (scanned d) (buf d) = drop (scanned d - start d) (unread d)"
    using assms(1) by (simp add: unread_def decoder_ok_def)
  then have "NL \<notin> set (drop (scanned d) (buf d))"
    using assms(2) by (metis in_set_dropD)
  then have "position (\<lambda>b. b = NL) (drop (scanned d) (buf d)) = None"
    by (auto simp: position_None_iff)
  then show ?thesis by (simp add: next_frame.simps [of d])
qed

text \<open>One round of the loop: the first line of the stream leaves the decoder.\<close>

definition after_line :: "frame_decoder \<Rightarrow> nat \<Rightarrow> frame_decoder" where
  "after_line d n = d\<lparr>start := start d + n + 1, scanned := start d + n + 1,
     pending_newlines := pending_newlines d - 1\<rparr>"

lemma decoder_ok_after_line:
  assumes "decoder_ok d" "unread d = line @ NL # rest" "NL \<notin> set line"
  shows "decoder_ok (after_line d (length line))" "unread (after_line d (length line)) = rest"
proof -
  have len: "length (buf d) - start d = length line + 1 + length rest"
    using arg_cong [OF assms(2), of length] by (simp add: unread_def)
  have "unread (after_line d (length line)) = drop (length line + 1) (unread d)"
    by (simp add: after_line_def unread_def add.commute)
  then show rest: "unread (after_line d (length line)) = rest"
    by (simp add: assms(2))
  have "pending_newlines d = Suc (count_list rest NL)"
    using assms by (simp add: decoder_ok_def count_list_0_iff)
  then show "decoder_ok (after_line d (length line))"
    using rest len unfolding decoder_ok_def by (simp add: after_line_def)
qed

lemma next_frame_line:
  assumes "decoder_ok d" "unread d = line @ NL # rest" "NL \<notin> set line"
  shows "next_frame d =
    (if trim_cr line = [] then next_frame (after_line d (length line))
     else (after_line d (length line), Some (trim_cr line)))"
proof -
  let ?k = "scanned d - start d"
  have ok: "start d \<le> scanned d" "scanned d \<le> length (buf d)"
    and seen: "NL \<notin> set (take ?k (unread d))"
    using assms(1) by (auto simp: decoder_ok_def unread_def drop_take)
  have k: "?k \<le> length line"
  proof (rule ccontr)
    assume "\<not> ?k \<le> length line"
    then have "length line < ?k" by simp
    then have "NL \<in> set (take ?k (unread d))"
      unfolding assms(2) by (cases "?k - length line") auto
    with seen show False by blast
  qed
  have "drop (scanned d) (buf d) = drop ?k (unread d)"
    using ok by (simp add: unread_def)
  also have "\<dots> = drop ?k line @ NL # rest" using k by (simp add: assms(2))
  also have "position (\<lambda>b. b = NL) \<dots> = Some (length (drop ?k line))"
    using assms(3) in_set_dropD [of _ ?k line] by (intro position_middle) auto
  finally have "position (\<lambda>b. b = NL) (drop (scanned d) (buf d)) = Some (length (drop ?k line))" .
  moreover have "length (drop ?k line) + scanned d = start d + length line" using k ok by simp
  moreover have "drop (start d) (take (start d + length line) (buf d)) = line"
    using assms(2) by (simp add: drop_take unread_def)
  ultimately have hit: "map_option (\<lambda>i. i + scanned d)
      (position (\<lambda>b. b = NL) (drop (scanned d) (buf d))) = Some (start d + length line)"
    and line: "drop (start d) (take (start d + length line) (buf d)) = line"
    by simp_all
  show ?thesis
    unfolding next_frame.simps [of d] hit by (simp add: line after_line_def)
qed

lemma next_frame_spec:
  assumes "decoder_ok d"
  shows "decoder_ok (fst (next_frame d)) \<and>
    (case snd (next_frame d) of
       None \<Rightarrow> frames_of (unread d) = [] \<and> frames_of (unread (fst (next_frame d))) = []
     | Some f \<Rightarrow> frames_of (unread d) = f # frames_of (unread (fst (next_frame d)))) \<and>
    last (split_on NL (unread (fst (next_frame d)))) = last (split_on NL (unread d))"
  using assms
proof (induction "count_list (unread d) NL" arbitrary: d)
  case 0
  then have "NL \<notin> set (unread d)" by (simp add: count_list_0_iff)
  moreover from this have "decoder_ok (d\<lparr>scanned := length (buf d)\<rparr>)"
    using "0.prems" by (simp add: decoder_ok_def unread_def)
  moreover have "unread (d\<lparr>scanned := length (buf d)\<rparr>) = unread d" by (simp add: unread_def)
  ultimately show ?case
    using "0.prems" by (simp add: next_frame_none frames_of_no_newline)
next
  case (Suc n)
  then have "NL \<in> set (unread d)" by (metis count_list_0_iff nat.distinct(1))
  then obtain line rest where s: "unread d = line @ NL # rest" "NL \<notin> set line"
    by (meson split_list_first)
  note after = decoder_ok_after_line [OF Suc.prems s]
  have "n = count_list (unread (after_line d (length line))) NL"
    using Suc.hyps(2) s by (simp add: after count_list_0_iff)
  from Suc.hyps(1) [OF this after(1)] show ?case
    using after s by (simp add: next_frame_line [OF Suc.prems s] frames_of_line split_on_append
        split: option.splits)
qed

section \<open>What a reader relies on\<close>

text \<open>The interface of a frame source: feeding appends to the stream, pulling removes the first
  frame of it, and pulling says \<open>None\<close> only when no complete frame is left.\<close>

datatype frame_call = Feed bytes | Pull

fun fed_bytes :: "frame_call list \<Rightarrow> bytes" where
  "fed_bytes [] = []"
| "fed_bytes (Feed bs # cs) = bs @ fed_bytes cs"
| "fed_bytes (Pull # cs) = fed_bytes cs"

fun session :: "('d \<Rightarrow> bytes \<Rightarrow> 'd \<times> ('e + unit)) \<Rightarrow> ('d \<Rightarrow> 'd \<times> bytes option) \<Rightarrow>
    'd \<Rightarrow> frame_call list \<Rightarrow> bytes list \<times> 'd" where
  "session feed pull d [] = ([], d)"
| "session feed pull d (Feed bs # cs) = session feed pull (fst (feed d bs)) cs"
| "session feed pull d (Pull # cs) =
     (let (d', f) = pull d; (out, d'') = session feed pull d' cs
      in (case f of None \<Rightarrow> out | Some x \<Rightarrow> x # out, d''))"

locale frame_source =
  fixes feed :: "'d \<Rightarrow> bytes \<Rightarrow> 'd \<times> ('e + unit)"
    and pull :: "'d \<Rightarrow> 'd \<times> bytes option"
    and src_ok :: "'d \<Rightarrow> bool"
    and stream :: "'d \<Rightarrow> bytes"
  assumes feed_ok: "src_ok d \<Longrightarrow> src_ok (fst (feed d bs))"
    and feed_stream: "src_ok d \<Longrightarrow> stream (fst (feed d bs)) = stream d @ bs"
    and pull_ok: "src_ok d \<Longrightarrow> src_ok (fst (pull d))"
    and pull_none: "src_ok d \<Longrightarrow> snd (pull d) = None \<Longrightarrow> frames_of (stream d) = []"
    and pull_frames: "src_ok d \<Longrightarrow> frames_of (stream d) =
      (case snd (pull d) of None \<Rightarrow> [] | Some f \<Rightarrow> [f]) @ frames_of (stream (fst (pull d)))"
    and pull_tail: "src_ok d \<Longrightarrow>
      last (split_on NL (stream (fst (pull d)))) = last (split_on NL (stream d))"
begin

lemma frames_of_pull_append:
  assumes "src_ok d"
  shows "frames_of (stream d @ bs) =
    (case snd (pull d) of None \<Rightarrow> [] | Some f \<Rightarrow> [f]) @ frames_of (stream (fst (pull d)) @ bs)"
  using assms unfolding frames_of_append_line [of "stream d" bs]
    frames_of_append_line [of "stream (fst (pull d))" bs]
  by (simp only: pull_frames pull_tail append_assoc)

lemma session_frames:
  assumes "src_ok d" "session feed pull d cs = (out, d')"
  shows "src_ok d' \<and> out @ frames_of (stream d') = frames_of (stream d @ fed_bytes cs)"
  using assms
proof (induction cs arbitrary: d out)
  case Nil
  then show ?case by simp
next
  case (Cons c cs)
  show ?case
  proof (cases c)
    case (Feed bs)
    with Cons.prems(2) have "session feed pull (fst (feed d bs)) cs = (out, d')" by simp
    from Cons.IH [OF feed_ok [OF Cons.prems(1)] this] show ?thesis
      using Feed Cons.prems(1) by (simp add: feed_stream)
  next
    case Pull
    obtain d1 f where pull: "pull d = (d1, f)" by (cases "pull d")
    obtain rest where rest: "session feed pull d1 cs = (rest, d')"
      "out = (case f of None \<Rightarrow> rest | Some x \<Rightarrow> x # rest)"
      using Cons.prems(2) Pull pull by (auto split: prod.splits)
    have "src_ok d1" using pull_ok [OF Cons.prems(1)] pull by simp
    from Cons.IH [OF this rest(1)] rest(2) show ?thesis
      using Pull frames_of_pull_append [OF Cons.prems(1)] pull by (simp split: option.splits)
  qed
qed

end

interpretation dec: frame_source push next_frame decoder_ok unread
proof (unfold_locales, goal_cases)
  case (1 d bs)
  then show ?case by (rule push_ok)
next
  case (2 d bs)
  show ?case by (rule push_unread)
next
  case (3 d)
  then show ?case using next_frame_spec by blast
next
  case (4 d)
  then show ?case using next_frame_spec [of d] by simp
next
  case (5 d)
  then show ?case using next_frame_spec [of d] by (simp split: option.splits)
next
  case (6 d)
  then show ?case using next_frame_spec by blast
qed

lemma decoder_ok_new [simp]: "decoder_ok FrameDecoder_new"
  by (simp add: decoder_ok_def FrameDecoder_new_def unread_def)

lemma unread_new [simp]: "unread FrameDecoder_new = []"
  by (simp add: FrameDecoder_new_def unread_def)

section \<open>The read loop of a connection\<close>

text \<open>\<^verbatim>\<open>read_frames\<close> of the daemon. The JSON parser is the parameter \<open>from_slice\<close>; what the socket
  and the shutdown token do is a list of \<open>read_event\<close>s (an empty read is the end of the stream),
  and \<open>accepts n\<close> says whether the inbox takes the value sent after \<open>n\<close> others.\<close>

definition MAX_PARSE_ERRORS :: nat where
  "MAX_PARSE_ERRORS = 16"

datatype read_event = Read bytes | ReadFailed | ShutdownRequested

datatype 'v reader_output = Queued 'v | ParseErrorResponse | TooLargeResponse

datatype reader_status = Reading | Closed | IoError

record 'v reader =
  decoder :: frame_decoder
  parse_errors :: nat
  outputs :: "'v reader_output list"
  queued :: nat

definition reader_new :: "'v reader" where
  "reader_new = \<lparr>decoder = FrameDecoder_new, parse_errors = 0, outputs = [], queued = 0\<rparr>"

definition emit :: "'v reader_output \<Rightarrow> 'v reader \<Rightarrow> 'v reader" where
  "emit out r = r\<lparr>outputs := outputs r @ [out]\<rparr>"

text \<open>The body of the inner loop for one frame.\<close>

definition handle_frame :: "(bytes \<Rightarrow> 'v option) \<Rightarrow> (nat \<Rightarrow> bool) \<Rightarrow> bytes \<Rightarrow> 'v reader \<Rightarrow>
    'v reader \<times> reader_status" where
  "handle_frame from_slice accepts frame r =
     (case from_slice frame of
        None \<Rightarrow>
          let r = r\<lparr>parse_errors := parse_errors r + 1\<rparr>
          in if parse_errors r > MAX_PARSE_ERRORS then (r, Closed)
             else (emit ParseErrorResponse r, Reading)
      | Some v \<Rightarrow>
          let r = r\<lparr>parse_errors := 0\<rparr>
          in if accepts (queued r) then ((emit (Queued v) r)\<lparr>queued := queued r + 1\<rparr>, Reading)
             else (r, Closed))"

lemma next_frame_progress:
  "snd (next_frame d) = Some f \<Longrightarrow>
     length (buf (fst (next_frame d))) - scanned (fst (next_frame d)) < length (buf d) - scanned d"
proof (induction d rule: next_frame.induct)
  case (1 d)
  show ?case
  proof (cases "position (\<lambda>b. b = NL) (drop (scanned d) (buf d))")
    case None
    with "1.prems" show ?thesis by (simp add: next_frame.simps [of d])
  next
    case (Some i)
    let ?nl = "i + scanned d"
    let ?d = "d\<lparr>start := ?nl + 1, scanned := ?nl + 1, pending_newlines := pending_newlines d - 1\<rparr>"
    have "?nl < length (buf d)" using position_SomeD [OF Some] by auto
    moreover have eq: "next_frame d = (if trim_cr (drop (start d) (take ?nl (buf d))) = []
        then next_frame ?d else (?d, Some (trim_cr (drop (start d) (take ?nl (buf d))))))"
      using Some by (simp add: next_frame.simps [of d] Let_def)
    moreover have "length (buf (fst (next_frame ?d))) - scanned (fst (next_frame ?d))
        < length (buf ?d) - scanned ?d"
      if "trim_cr (drop (start d) (take ?nl (buf d))) = []"
      using "1.IH" [of ?nl "drop (start d) (take ?nl (buf d))" ?d] Some that "1.prems" eq by simp
    ultimately show ?thesis by (auto split: if_splits)
  qed
qed

lemma decoder_handle_frame:
  "decoder (fst (handle_frame from_slice accepts f r)) = decoder r"
  by (simp add: handle_frame_def emit_def Let_def split: option.splits)

function drain_frames :: "(bytes \<Rightarrow> 'v option) \<Rightarrow> (nat \<Rightarrow> bool) \<Rightarrow> 'v reader \<Rightarrow>
    'v reader \<times> reader_status" where
  "drain_frames from_slice accepts r =
     (case next_frame (decoder r) of
        (d, None) \<Rightarrow> (r\<lparr>decoder := d\<rparr>, Reading)
      | (d, Some frame) \<Rightarrow>
          (case handle_frame from_slice accepts frame (r\<lparr>decoder := d\<rparr>) of
             (r', Reading) \<Rightarrow> drain_frames from_slice accepts r'
           | (r', Closed) \<Rightarrow> (r', Closed)
           | (r', IoError) \<Rightarrow> (r', IoError)))"
  by pat_completeness auto

termination drain_frames
proof (relation "measure (\<lambda>(_, _, r). length (buf (decoder r)) - scanned (decoder r))", goal_cases)
  case (2 from_slice accepts r d f frame r' st)
  have n: "next_frame (decoder r) = (d, Some frame)"
    and h: "handle_frame from_slice accepts frame (r\<lparr>decoder := d\<rparr>) = (r', Reading)"
    using 2 by simp_all
  have "decoder r' = d"
    using decoder_handle_frame [of from_slice accepts frame "r\<lparr>decoder := d\<rparr>"] h by simp
  with n next_frame_progress [of "decoder r" frame] show ?case by simp
qed simp

declare drain_frames.simps [simp del]

fun read_frames :: "(bytes \<Rightarrow> 'v option) \<Rightarrow> (nat \<Rightarrow> bool) \<Rightarrow> read_event list \<Rightarrow> 'v reader \<Rightarrow>
    'v reader \<times> reader_status" where
  "read_frames from_slice accepts [] r = (r, Reading)"
| "read_frames from_slice accepts (ShutdownRequested # es) r = (r, Closed)"
| "read_frames from_slice accepts (ReadFailed # es) r = (r, IoError)"
| "read_frames from_slice accepts (Read bs # es) r =
     (if bs = [] then (r, Closed)
      else case push (decoder r) bs of
        (d, Inl _) \<Rightarrow> (emit TooLargeResponse (r\<lparr>decoder := d\<rparr>), Closed)
      | (d, Inr _) \<Rightarrow>
          (case drain_frames from_slice accepts (r\<lparr>decoder := d\<rparr>) of
             (r', Reading) \<Rightarrow> read_frames from_slice accepts es r'
           | (r', Closed) \<Rightarrow> (r', Closed)
           | (r', IoError) \<Rightarrow> (r', IoError)))"


text \<open>The same on the stream: the frames are handled in order until one stops the reader.\<close>

fun handle_frames :: "(bytes \<Rightarrow> 'v option) \<Rightarrow> (nat \<Rightarrow> bool) \<Rightarrow> bytes list \<Rightarrow> 'v reader \<Rightarrow>
    'v reader \<times> reader_status" where
  "handle_frames from_slice accepts [] r = (r, Reading)"
| "handle_frames from_slice accepts (f # fs) r =
     (case handle_frame from_slice accepts f r of
        (r', Reading) \<Rightarrow> handle_frames from_slice accepts fs r'
      | (r', Closed) \<Rightarrow> (r', Closed)
      | (r', IoError) \<Rightarrow> (r', IoError))"

text \<open>Handling frames does not look at the decoder, so two readers that differ in it only behave
  alike.\<close>

definition same_reader :: "'v reader \<Rightarrow> 'v reader \<Rightarrow> bool" where
  "same_reader r s \<longleftrightarrow> parse_errors r = parse_errors s \<and> outputs r = outputs s \<and> queued r = queued s"

lemma handle_frame_same:
  assumes "same_reader r s"
  shows "same_reader (fst (handle_frame from_slice accepts f r)) (fst (handle_frame from_slice accepts f s))
    \<and> snd (handle_frame from_slice accepts f r) = snd (handle_frame from_slice accepts f s)"
  using assms by (auto simp: same_reader_def handle_frame_def emit_def Let_def split: option.splits)

lemma handle_frame_not_IoError: "snd (handle_frame from_slice accepts f r) \<noteq> IoError"
  by (auto simp: handle_frame_def Let_def split: option.splits)

lemma handle_frames_append:
  "handle_frames from_slice accepts (fs @ gs) r =
     (case handle_frames from_slice accepts fs r of
        (r', Reading) \<Rightarrow> handle_frames from_slice accepts gs r'
      | stopped \<Rightarrow> stopped)"
  by (induction fs arbitrary: r) (auto split: prod.splits reader_status.splits)

definition drained :: "'v reader \<times> reader_status \<Rightarrow> 'v reader \<times> reader_status \<Rightarrow> bytes \<Rightarrow> bool" where
  "drained p q tail \<longleftrightarrow> same_reader (fst p) (fst q) \<and> snd p = snd q \<and>
     (snd p = Reading \<longrightarrow> decoder_ok (decoder (fst p)) \<and> frames_of (unread (decoder (fst p))) = [] \<and>
        last (split_on NL (unread (decoder (fst p)))) = tail)"

lemma drain_frames_spec:
  assumes "decoder_ok (decoder r)" "same_reader r s"
  shows "drained (drain_frames from_slice accepts r)
    (handle_frames from_slice accepts (frames_of (unread (decoder r))) s)
    (last (split_on NL (unread (decoder r))))"
  using assms
proof (induction "frames_of (unread (decoder r))" arbitrary: r s)
  case Nil
  obtain d f where n: "next_frame (decoder r) = (d, f)" by (cases "next_frame (decoder r)")
  have "f = None"
    using dec.pull_frames [OF Nil.prems(1)] Nil.hyps n by (cases f) auto
  then show ?case
    using next_frame_spec [OF Nil.prems(1)] Nil n
    by (simp add: drain_frames.simps [of _ _ r] drained_def same_reader_def flip: Nil.hyps)
next
  case (Cons f fs)
  obtain d g where n: "next_frame (decoder r) = (d, g)" by (cases "next_frame (decoder r)")
  have spec: "g = Some f" "frames_of (unread d) = fs" "decoder_ok d"
    "last (split_on NL (unread d)) = last (split_on NL (unread (decoder r)))"
    using next_frame_spec [OF Cons.prems(1)] Cons.hyps(2) n by (auto split: option.splits)
  let ?r = "r\<lparr>decoder := d\<rparr>"
  have same: "same_reader ?r s" using Cons.prems(2) by (simp add: same_reader_def)
  obtain r' st where h: "handle_frame from_slice accepts f ?r = (r', st)"
    by (cases "handle_frame from_slice accepts f ?r")
  obtain s' where h': "handle_frame from_slice accepts f s = (s', st)" "same_reader r' s'"
    using handle_frame_same [OF same, of from_slice accepts f] h
    by (cases "handle_frame from_slice accepts f s") auto
  have d: "decoder r' = d" using decoder_handle_frame [of from_slice accepts f ?r] h by simp
  show ?case
  proof (cases st)
    case Reading
    have "drained (drain_frames from_slice accepts r')
        (handle_frames from_slice accepts (frames_of (unread (decoder r'))) s')
        (last (split_on NL (unread (decoder r'))))"
      using Cons.hyps(1) [of r' s'] d spec h'(2) by simp
    with Reading show ?thesis
      using spec d h h' n by (simp add: drain_frames.simps [of _ _ r] flip: Cons.hyps(2))
  next
    case Closed
    with h h' n spec show ?thesis
      by (simp add: drain_frames.simps [of _ _ r] drained_def flip: Cons.hyps(2))
  next
    case IoError
    with h handle_frame_not_IoError [of from_slice accepts f ?r] show ?thesis by simp
  qed
qed

definition lines_bounded :: "bytes \<Rightarrow> bool" where
  "lines_bounded s \<longleftrightarrow> list_all (\<lambda>l. length l \<le> MAX_FRAME_BYTES) (split_on NL s)"

lemma lines_bounded_append:
  assumes "lines_bounded (s @ t)"
  shows "lines_bounded (last (split_on NL s) @ t)" "length (last (split_on NL s)) \<le> MAX_FRAME_BYTES"
proof -
  have "NL \<notin> set (last (split_on NL s))"
    using split_on_pieces [of "last (split_on NL s)" NL s] by simp
  then show "lines_bounded (last (split_on NL s) @ t)" "length (last (split_on NL s)) \<le> MAX_FRAME_BYTES"
    using assms unfolding lines_bounded_def
    by (simp_all add: split_on_append_any [of NL s] split_on_append_any [of NL "last (split_on NL s)"]
        split_on_plain)
qed

lemma push_bounded:
  assumes "decoder_ok d" "lines_bounded (last (split_on NL (unread d)) @ bs @ t)"
  shows "snd (push d bs) = Inr ()"
proof (cases "NL \<in> set (unread d @ bs)")
  case False
  then have "last (split_on NL (last (split_on NL (unread d)) @ bs)) = unread d @ bs"
    by (simp add: split_on_plain)
  with lines_bounded_append(2) [of "last (split_on NL (unread d)) @ bs" t] assms(2)
  have "length (unread d @ bs) \<le> MAX_FRAME_BYTES" by simp
  then show ?thesis by (simp add: push_result [OF assms(1)])
qed (auto simp: push_result [OF assms(1)])

lemma read_frames_spec:
  assumes "decoder_ok (decoder r)" "frames_of (unread (decoder r)) = []" "same_reader r s"
    and "[] \<notin> set chunks"
    and "lines_bounded (last (split_on NL (unread (decoder r))) @ concat chunks)"
  defines "tail \<equiv> last (split_on NL (unread (decoder r)))"
  shows "\<exists>r'. same_reader r' (fst (handle_frames from_slice accepts (frames_of (tail @ concat chunks)) s)) \<and>
    read_frames from_slice accepts (map Read chunks) r =
      (r', snd (handle_frames from_slice accepts (frames_of (tail @ concat chunks)) s))"
  using assms(1-5) unfolding tail_def
proof (induction chunks arbitrary: r s)
  case Nil
  have "frames_of (last (split_on NL (unread (decoder r)))) = []"
    using split_on_pieces [of "last (split_on NL (unread (decoder r)))" NL "unread (decoder r)"]
    by (simp add: frames_of_no_newline)
  with Nil.prems(3) show ?case by auto
next
  case (Cons c cs)
  let ?tail = "last (split_on NL (unread (decoder r)))"
  obtain d where p: "push (decoder r) c = (d, Inr ())"
    using push_bounded [OF Cons.prems(1), of c "concat cs"] Cons.prems(5)
    by (cases "push (decoder r) c") auto
  have d: "decoder_ok d" "unread d = unread (decoder r) @ c"
    using push_ok [OF Cons.prems(1), of c] push_unread [of "decoder r" c] p by simp_all
  have fr: "frames_of (unread d) = frames_of (?tail @ c)"
    using frames_of_append_line [of "unread (decoder r)" c] Cons.prems(2) d(2) by simp
  have tail: "last (split_on NL (unread d)) = last (split_on NL (?tail @ c))"
    using last_split_on_append [of NL "unread (decoder r)" c] d(2) by simp
  obtain s' st where h: "handle_frames from_slice accepts (frames_of (?tail @ c)) s = (s', st)"
    by (cases "handle_frames from_slice accepts (frames_of (?tail @ c)) s")
  have "same_reader (r\<lparr>decoder := d\<rparr>) s" using Cons.prems(3) by (simp add: same_reader_def)
  then have "drained (drain_frames from_slice accepts (r\<lparr>decoder := d\<rparr>)) (s', st)
      (last (split_on NL (?tail @ c)))"
    using drain_frames_spec [of "r\<lparr>decoder := d\<rparr>" s from_slice accepts] d(1) fr tail h by simp
  then obtain r' where dr: "drain_frames from_slice accepts (r\<lparr>decoder := d\<rparr>) = (r', st)"
      "same_reader r' s'"
    and ok: "st = Reading \<Longrightarrow> decoder_ok (decoder r') \<and> frames_of (unread (decoder r')) = [] \<and>
      last (split_on NL (unread (decoder r'))) = last (split_on NL (?tail @ c))"
    by (cases "drain_frames from_slice accepts (r\<lparr>decoder := d\<rparr>)") (auto simp: drained_def)
  have split: "handle_frames from_slice accepts (frames_of (?tail @ concat (c # cs))) s =
    (if st = Reading
     then handle_frames from_slice accepts (frames_of (last (split_on NL (?tail @ c)) @ concat cs)) s'
     else (s', st))"
    using frames_of_append_line [of "?tail @ c" "concat cs"] h
    by (cases st) (simp_all add: handle_frames_append)
  have "c \<noteq> []" "[] \<notin> set cs" using Cons.prems(4) by auto
  show ?case
  proof (cases "st = Reading")
    case True
    have "lines_bounded (last (split_on NL (unread (decoder r'))) @ concat cs)"
      using lines_bounded_append(1) [of "?tail @ c" "concat cs"] Cons.prems(5) ok [OF True] by simp
    from Cons.IH [OF _ _ dr(2) \<open>[] \<notin> set cs\<close> this] ok [OF True] show ?thesis
      unfolding split using True \<open>c \<noteq> []\<close> p dr(1) by simp
  next
    case False
    with \<open>c \<noteq> []\<close> p dr show ?thesis
      unfolding split by (cases st) (auto simp: same_reader_def)
  qed
qed

text \<open>What the protocol relies on of the JSON library for the messages of a conversation: they
  serialize to one non-empty line within the cap, without a carriage return at its end, and parse
  back to themselves.\<close>

definition json_message :: "('v \<Rightarrow> 'e + bytes) \<Rightarrow> (bytes \<Rightarrow> 'v option) \<Rightarrow> 'v \<Rightarrow> bool" where
  "json_message to_vec from_slice m \<longleftrightarrow>
     (case to_vec m of
        Inl _ \<Rightarrow> False
      | Inr j \<Rightarrow> j \<noteq> [] \<and> NL \<notin> set j \<and> last j \<noteq> CR \<and> length j \<le> MAX_FRAME_BYTES \<and>
          from_slice j = Some m)"

definition json_of :: "('v \<Rightarrow> 'e + bytes) \<Rightarrow> 'v \<Rightarrow> bytes" where
  "json_of to_vec m = (case to_vec m of Inl _ \<Rightarrow> [] | Inr j \<Rightarrow> j)"

lemma json_messageD:
  assumes "json_message to_vec from_slice m"
  shows "encode_frame to_vec m = Inr (json_of to_vec m @ [NL])"
    "trim_cr (json_of to_vec m) = json_of to_vec m" "json_of to_vec m \<noteq> []"
    "NL \<notin> set (json_of to_vec m)" "length (json_of to_vec m) \<le> MAX_FRAME_BYTES"
    "from_slice (json_of to_vec m) = Some m"
  using assms by (auto simp: json_message_def json_of_def encode_frame_def trim_cr_plain split: sum.splits)

lemma encoded_stream:
  assumes "list_all (json_message to_vec from_slice) msgs" "try_map (encode_frame to_vec) msgs = Inr frames"
  shows "frames_of (concat frames) = map (json_of to_vec) msgs" "lines_bounded (concat frames)"
  using assms
proof (induction msgs arbitrary: frames)
  case Nil
  case 1
  with Nil show ?case by (simp add: frames_of_def)
next
  case Nil
  case 2
  with Nil show ?case by (simp add: lines_bounded_def)
next
  case (Cons m msgs)
  {
    case 1
    with Cons json_messageD [of to_vec from_slice m] show ?case
      by (auto simp: and_then_Inr_iff frames_of_line)
  next
    case 2
    with Cons json_messageD [of to_vec from_slice m] show ?case
      by (auto simp: and_then_Inr_iff lines_bounded_def split_on_append)
  }
qed

lemma handle_frames_messages:
  assumes "list_all (json_message to_vec from_slice) msgs" "parse_errors r = 0"
  shows "handle_frames from_slice (\<lambda>_. True) (map (json_of to_vec) msgs) r =
    (r\<lparr>outputs := outputs r @ map Queued msgs, queued := queued r + length msgs\<rparr>, Reading)"
  using assms
  by (induction msgs arbitrary: r) (simp_all add: handle_frame_def emit_def json_messageD(6))

section \<open>Properties\<close>

text \<open>C4: however the calls of \<open>push\<close> and \<open>next_frame\<close> interleave and however the bytes are cut into
  chunks, the frames delivered so far followed by the frames still held are the frames of the byte
  stream: its complete lines without trailing carriage returns, less the empty ones, in order.\<close>

theorem framing_session:
  "case session push next_frame FrameDecoder_new calls of
     (delivered, d) \<Rightarrow> delivered @ frames_of (unread d) = frames_of (fed_bytes calls) \<and>
       (snd (next_frame d) = None \<longleftrightarrow> frames_of (unread d) = [])"
proof (cases "session push next_frame FrameDecoder_new calls")
  case (Pair delivered d)
  have ok: "decoder_ok d" and fr: "delivered @ frames_of (unread d) = frames_of (fed_bytes calls)"
    using dec.session_frames [OF _ Pair] by simp_all
  have "snd (next_frame d) = None \<longleftrightarrow> frames_of (unread d) = []"
    using next_frame_spec [OF ok] by (auto split: option.splits)
  with fr Pair show ?thesis by simp
qed

text \<open>after any calls, a push is refused exactly when the bytes not yet delivered exceed the cap
  and hold no line end: the counter that replaces the scan of the buffer is exact.\<close>

theorem push_oversized_exact:
  "snd (push (snd (session push next_frame FrameDecoder_new calls)) bs) =
     (let pending = unread (snd (session push next_frame FrameDecoder_new calls)) @ bs
      in if MAX_FRAME_BYTES < length pending \<and> NL \<notin> set pending
         then Inl FrameOversized else Inr ())"
proof -
  have "decoder_ok (snd (session push next_frame FrameDecoder_new calls))"
    using dec.session_frames [of FrameDecoder_new calls] by (metis decoder_ok_new prod.collapse)
  then show ?thesis by (simp only: push_result Let_def)
qed

text \<open>C19: the read loop of a connection treats a stream whose lines keep to the cap the same however
  the socket cuts it: it answers and queues as if the frames of the whole stream were handled one
  after the other.\<close>

theorem read_loop_chunking:
  assumes "[] \<notin> set chunks" "lines_bounded (concat chunks)"
  shows "(let (r, st) = read_frames from_slice accepts (map Read chunks) reader_new
          in (outputs r, parse_errors r, queued r, st)) =
         (let (r, st) = handle_frames from_slice accepts (frames_of (concat chunks)) reader_new
          in (outputs r, parse_errors r, queued r, st))"
proof -
  obtain r' where "read_frames from_slice accepts (map Read chunks) reader_new =
      (r', snd (handle_frames from_slice accepts (frames_of (concat chunks)) reader_new))"
    "same_reader r' (fst (handle_frames from_slice accepts (frames_of (concat chunks)) reader_new))"
    using read_frames_spec [of "reader_new :: 'a reader" reader_new chunks from_slice accepts] assms
    by (auto simp: reader_new_def frames_of_def same_reader_def)
  then show ?thesis by (auto simp: same_reader_def split: prod.splits)
qed

theorem read_loop_chunking_witness:
  "(let (r, st) = read_frames Some (\<lambda>_. True) (map Read [''a'', [CHR ''b'', CR], [NL, NL, CHR ''c'', NL]])
        reader_new in (outputs r, parse_errors r, queued r, st)) =
     ([Queued ''ab'', Queued ''c''], 0, 2, Reading)"
proof -
  have "[] \<notin> set [''a'', [CHR ''b'', CR], [NL, NL, CHR ''c'', NL]]"
    "lines_bounded (concat [''a'', [CHR ''b'', CR], [NL, NL, CHR ''c'', NL]])"
    by (simp_all add: lines_bounded_def MAX_FRAME_BYTES_def NL_def CR_def)
  note chunking = read_loop_chunking [OF this, of Some "\<lambda>_. True"]
  have "(let (r, st) = handle_frames Some (\<lambda>_. True)
        (frames_of (concat [''a'', [CHR ''b'', CR], [NL, NL, CHR ''c'', NL]])) reader_new
      in (outputs r, parse_errors r, queued r, st)) = ([Queued ''ab'', Queued ''c''], 0, 2, Reading)"
    by code_simp
  with chunking show ?thesis by (rule trans)
qed

text \<open>messages encoded as frames and sent over a connection are queued by the read loop of the
  daemon, all of them, once and in order, however the bytes are cut on the way.\<close>

theorem encode_read_roundtrip:
  assumes "list_all (json_message to_vec from_slice) msgs"
    and "try_map (encode_frame to_vec) msgs = Inr frames"
    and "concat chunks = concat frames" "[] \<notin> set chunks"
  shows "(let (r, st) = read_frames from_slice (\<lambda>_. True) (map Read chunks) reader_new
          in (outputs r, st)) = (map Queued msgs, Reading)"
proof -
  note stream = encoded_stream [OF assms(1,2)]
  obtain r' where "read_frames from_slice (\<lambda>_. True) (map Read chunks) reader_new =
      (r', snd (handle_frames from_slice (\<lambda>_. True) (frames_of (concat chunks)) reader_new))"
    "same_reader r' (fst (handle_frames from_slice (\<lambda>_. True) (frames_of (concat chunks)) reader_new))"
    using read_frames_spec [of "reader_new :: 'a reader" reader_new chunks from_slice] assms(3,4) stream(2)
    by (auto simp: reader_new_def frames_of_def same_reader_def)
  then show ?thesis
    unfolding assms(3) stream(1)
    by (simp add: handle_frames_messages [OF assms(1)] reader_new_def same_reader_def)
qed

theorem encode_read_roundtrip_witness:
  "(let (r, st) = read_frames Some (\<lambda>_. True) (map Read [''{}'', [NL, CHR ''['', CHR '']''], [NL]]) reader_new
    in (outputs r, st)) = (map Queued [''{}'', ''[]''], Reading)"
  by (rule encode_read_roundtrip [of "Inr :: bytes \<Rightarrow> unit + bytes" Some _ "[''{}'' @ [NL], ''[]'' @ [NL]]"])
    (simp_all add: json_message_def encode_frame_def NL_def CR_def MAX_FRAME_BYTES_def)

end
