(* ===== verification/Rust_Utf8.thy ===== *)
theory Rust_Utf8
  imports Norte_Prelude
begin

text \<open>
  The UTF-8 validation of the Rust standard library, as far as the sources use it:
  \<^verbatim>\<open>std::str::from_utf8\<close> with the \<^verbatim>\<open>valid_up_to\<close> and \<^verbatim>\<open>error_len\<close> of its error,
  \<^verbatim>\<open>str::chars\<close> (a character is represented by the slice of bytes that encodes it) and
  \<^verbatim>\<open>String::from_utf8_lossy\<close>. The lemmas say that the characters of a valid string concatenate
  to it, that a character is one ASCII byte or only bytes from 128 on, and that validity is
  compositional.
\<close>

section \<open>One item of the validation loop\<close>

text \<open>\<open>Scalar n\<close>: the next \<open>n\<close> bytes encode a character. \<open>Invalid e\<close>: they do not, and \<open>e\<close> is
  \<^verbatim>\<open>Utf8Error::error_len\<close> (\<open>None\<close> for an input that ends too early).\<close>

datatype utf8_item = Scalar nat | Invalid "nat option"

definition utf8_cont :: "byte \<Rightarrow> bool" where
  "utf8_cont b \<longleftrightarrow> 128 \<le> u8 b \<and> u8 b \<le> 191"

definition utf8_second3 :: "nat \<Rightarrow> nat \<Rightarrow> bool" where
  "utf8_second3 f s \<longleftrightarrow>
     f = 224 \<and> 160 \<le> s \<and> s \<le> 191 \<or>
     225 \<le> f \<and> f \<le> 236 \<and> 128 \<le> s \<and> s \<le> 191 \<or>
     f = 237 \<and> 128 \<le> s \<and> s \<le> 159 \<or>
     238 \<le> f \<and> f \<le> 239 \<and> 128 \<le> s \<and> s \<le> 191"

definition utf8_second4 :: "nat \<Rightarrow> nat \<Rightarrow> bool" where
  "utf8_second4 f s \<longleftrightarrow>
     f = 240 \<and> 144 \<le> s \<and> s \<le> 191 \<or>
     241 \<le> f \<and> f \<le> 243 \<and> 128 \<le> s \<and> s \<le> 191 \<or>
     f = 244 \<and> 128 \<le> s \<and> s \<le> 143"

definition utf8_item :: "byte \<Rightarrow> bytes \<Rightarrow> utf8_item" where
  "utf8_item b rest =
     (if u8 b < 128 then Scalar 1
      else if 194 \<le> u8 b \<and> u8 b \<le> 223 then
        (case rest of
           [] \<Rightarrow> Invalid None
         | c # _ \<Rightarrow> if utf8_cont c then Scalar 2 else Invalid (Some 1))
      else if 224 \<le> u8 b \<and> u8 b \<le> 239 then
        (case rest of
           [] \<Rightarrow> Invalid None
         | c # r \<Rightarrow>
             if \<not> utf8_second3 (u8 b) (u8 c) then Invalid (Some 1)
             else (case r of
                 [] \<Rightarrow> Invalid None
               | d # _ \<Rightarrow> if utf8_cont d then Scalar 3 else Invalid (Some 2)))
      else if 240 \<le> u8 b \<and> u8 b \<le> 244 then
        (case rest of
           [] \<Rightarrow> Invalid None
         | c # r \<Rightarrow>
             if \<not> utf8_second4 (u8 b) (u8 c) then Invalid (Some 1)
             else (case r of
                 [] \<Rightarrow> Invalid None
               | d # r' \<Rightarrow>
                   if \<not> utf8_cont d then Invalid (Some 2)
                   else (case r' of
                       [] \<Rightarrow> Invalid None
                     | e # _ \<Rightarrow> if utf8_cont e then Scalar 4 else Invalid (Some 3))))
      else Invalid (Some 1))"

lemma utf8_second_high:
  "utf8_second3 f s \<Longrightarrow> 128 \<le> s" "utf8_second4 f s \<Longrightarrow> 128 \<le> s"
  by (auto simp: utf8_second3_def utf8_second4_def)

text \<open>The shape of a character: one ASCII byte, or two to four bytes all from 128 on.\<close>

lemma utf8_item_Scalar:
  assumes "utf8_item b rest = Scalar n"
  shows "n = 1 \<and> u8 b < 128 \<or>
    1 < n \<and> n \<le> Suc (length rest) \<and> (\<forall>x \<in> set (take n (b # rest)). 128 \<le> u8 x)"
  using assms
  by (auto simp: utf8_item_def utf8_cont_def take_Cons'
      dest: utf8_second_high split: if_splits list.splits)

lemma utf8_item_Scalar_bounds:
  assumes "utf8_item b rest = Scalar n"
  shows "0 < n" "n \<le> Suc (length rest)"
  using utf8_item_Scalar [OF assms] by auto

lemma utf8_item_Invalid:
  assumes "utf8_item b rest = Invalid (Some k)"
  shows "0 < k" "k \<le> Suc (length rest)"
  using assms by (auto simp: utf8_item_def split: if_splits list.splits)

text \<open>An item depends only on the bytes it consumes.\<close>

lemma utf8_item_prefix:
  assumes "utf8_item b rest = Scalar n" and "n \<le> Suc m"
  shows "utf8_item b (take m rest) = Scalar n"
  using assms
  by (auto simp: utf8_item_def take_Cons' split: if_splits list.splits)

lemma utf8_item_append:
  assumes "utf8_item b rest = Scalar n"
  shows "utf8_item b (rest @ s) = Scalar n"
  using assms by (auto simp: utf8_item_def split: if_splits list.splits)

section \<open>Validation and characters\<close>

text \<open>\<^verbatim>\<open>from_utf8\<close>: \<open>None\<close> is \<^verbatim>\<open>Ok\<close>, \<open>Some (v, e)\<close> the error with \<^verbatim>\<open>valid_up_to\<close> and
  \<^verbatim>\<open>error_len\<close>.\<close>

fun from_utf8 :: "bytes \<Rightarrow> (nat \<times> nat option) option" where
  "from_utf8 [] = None"
| "from_utf8 (b # bs) =
     (case utf8_item b bs of
        Scalar n \<Rightarrow> map_option (\<lambda>(v, e). (n + v, e)) (from_utf8 (drop (n - 1) bs))
      | Invalid e \<Rightarrow> Some (0, e))"

fun utf8_chars :: "bytes \<Rightarrow> bytes list" where
  "utf8_chars [] = []"
| "utf8_chars (b # bs) =
     (case utf8_item b bs of
        Scalar n \<Rightarrow> take n (b # bs) # utf8_chars (drop (n - 1) bs)
      | Invalid e \<Rightarrow> [])"

abbreviation utf8_valid :: "bytes \<Rightarrow> bool" where
  "utf8_valid bs \<equiv> from_utf8 bs = None"

definition utf8_char_ok :: "bytes \<Rightarrow> bool" where
  "utf8_char_ok c \<longleftrightarrow> (\<exists>b. c = [b] \<and> u8 b < 128) \<or> 1 < length c \<and> (\<forall>x \<in> set c. 128 \<le> u8 x)"

lemma from_utf8_Some_bounds:
  assumes "from_utf8 bs = Some (v, e)"
  shows "v < length bs" and "e = Some k \<Longrightarrow> 0 < k \<and> v + k \<le> length bs"
proof -
  have "v < length bs \<and> (\<forall>k. e = Some k \<longrightarrow> 0 < k \<and> v + k \<le> length bs)"
    using assms
  proof (induction bs arbitrary: v rule: from_utf8.induct)
    case 1
    then show ?case by simp
  next
    case (2 b bs)
    show ?case
    proof (cases "utf8_item b bs")
      case (Scalar n)
      with 2 obtain w where w: "from_utf8 (drop (n - 1) bs) = Some (w, e)" "v = n + w"
        by auto
      from Scalar w(1) have "w < length (drop (n - 1) bs) \<and>
          (\<forall>k. e = Some k \<longrightarrow> 0 < k \<and> w + k \<le> length (drop (n - 1) bs))"
        by (rule 2)
      with utf8_item_Scalar_bounds [OF Scalar] w(2) show ?thesis by auto
    next
      case (Invalid e')
      with 2 utf8_item_Invalid show ?thesis by fastforce
    qed
  qed
  then show "v < length bs" and "e = Some k \<Longrightarrow> 0 < k \<and> v + k \<le> length bs"
    by auto
qed

lemma utf8_chars_ok: "c \<in> set (utf8_chars bs) \<Longrightarrow> utf8_char_ok c"
proof (induction bs rule: utf8_chars.induct)
  case 1
  then show ?case by simp
next
  case (2 b bs)
  show ?case
  proof (cases "utf8_item b bs")
    case (Scalar n)
    from 2 Scalar consider "c = take n (b # bs)" | "c \<in> set (utf8_chars (drop (n - 1) bs))"
      by auto
    then show ?thesis
    proof cases
      case 1
      with utf8_item_Scalar [OF Scalar] show ?thesis
        by (auto simp: utf8_char_ok_def)
    next
      case 2
      with "2.IH" Scalar show ?thesis by blast
    qed
  next
    case (Invalid e)
    with 2 show ?thesis by simp
  qed
qed

lemma concat_utf8_chars_prefix:
  "concat (utf8_chars bs) =
     (case from_utf8 bs of None \<Rightarrow> bs | Some (v, e) \<Rightarrow> take v bs)"
proof (induction bs rule: from_utf8.induct)
  case 1
  then show ?case by simp
next
  case (2 b bs)
  show ?case
  proof (cases "utf8_item b bs")
    case (Scalar n)
    have n: "0 < n" using utf8_item_Scalar_bounds [OF Scalar] by simp
    then have "take (n + v - Suc 0) bs = take (n - Suc 0) bs @ take v (drop (n - Suc 0) bs)" for v
      using take_add [of "n - Suc 0" v bs] by simp
    with n Scalar "2.IH" [OF Scalar] show ?thesis
      by (auto simp: take_Cons' split: option.splits)
  next
    case (Invalid e)
    then show ?thesis by simp
  qed
qed

lemma concat_utf8_chars: "utf8_valid bs \<Longrightarrow> concat (utf8_chars bs) = bs"
  by (simp add: concat_utf8_chars_prefix)

text \<open>What precedes \<^verbatim>\<open>valid_up_to\<close> is valid, and validity composes.\<close>

lemma from_utf8_append:
  assumes "utf8_valid a"
  shows "from_utf8 (a @ b) = map_option (\<lambda>(v, e). (length a + v, e)) (from_utf8 b)"
  using assms
proof (induction a rule: from_utf8.induct)
  case 1
  then show ?case by (cases "from_utf8 b") auto
next
  case (2 x a)
  from "2.prems" obtain n where n: "utf8_item x a = Scalar n"
      and v: "utf8_valid (drop (n - 1) a)"
    by (auto split: utf8_item.splits)
  have len: "0 < n" "n - 1 \<le> length a"
    using utf8_item_Scalar_bounds [OF n] by auto
  have "from_utf8 ((x # a) @ b) =
      map_option (\<lambda>(v, e). (n + v, e)) (from_utf8 (drop (n - 1) a @ b))"
    using utf8_item_append [OF n, of b] len by simp
  also have "\<dots> = map_option (\<lambda>(v, e). (length (x # a) + v, e)) (from_utf8 b)"
    using len by (subst "2.IH" [OF n v]) (simp add: option.map_comp comp_def case_prod_unfold)
  finally show ?case .
qed

lemma from_utf8_take_valid_up_to:
  "from_utf8 bs = Some (v, e) \<Longrightarrow> utf8_valid (take v bs)"
proof (induction bs arbitrary: v rule: from_utf8.induct)
  case 1
  then show ?case by simp
next
  case (2 b bs)
  show ?case
  proof (cases "utf8_item b bs")
    case (Scalar n)
    with 2 obtain w where w: "from_utf8 (drop (n - 1) bs) = Some (w, e)" "v = n + w"
      by auto
    have n: "0 < n" using utf8_item_Scalar_bounds [OF Scalar] by simp
    have item: "utf8_item b (take (v - 1) bs) = Scalar n"
      using Scalar w(2) by (intro utf8_item_prefix) auto
    have "take w (drop (n - 1) bs) = drop (n - 1) (take (v - 1) bs)"
      using w(2) n by (simp add: drop_take)
    with "2.IH" [OF Scalar w(1)] item n w(2) show ?thesis
      by (simp add: take_Cons')
  next
    case (Invalid e')
    with 2 show ?thesis by simp
  qed
qed

lemma utf8_valid_append: "utf8_valid a \<Longrightarrow> utf8_valid b \<Longrightarrow> utf8_valid (a @ b)"
  by (simp add: from_utf8_append)

lemma utf8_valid_concat: "(\<And>a. a \<in> set as \<Longrightarrow> utf8_valid a) \<Longrightarrow> utf8_valid (concat as)"
  by (induction as) (auto intro: utf8_valid_append)

lemma utf8_valid_ascii: "(\<And>b. b \<in> set bs \<Longrightarrow> u8 b < 128) \<Longrightarrow> utf8_valid bs"
  by (induction bs) (auto simp: utf8_item_def)

lemma utf8_chars_valid: "c \<in> set (utf8_chars bs) \<Longrightarrow> utf8_valid c"
proof (induction bs rule: utf8_chars.induct)
  case 1
  then show ?case by simp
next
  case (2 b bs)
  show ?case
  proof (cases "utf8_item b bs")
    case (Scalar n)
    note n = utf8_item_Scalar_bounds [OF Scalar]
    from 2 Scalar consider "c = take n (b # bs)" | "c \<in> set (utf8_chars (drop (n - 1) bs))"
      by auto
    then show ?thesis
    proof cases
      case 1
      with n utf8_item_prefix [OF Scalar, of "n - 1"] show ?thesis
        by (simp add: take_Cons')
    next
      case 2
      with "2.IH" Scalar show ?thesis by blast
    qed
  next
    case (Invalid e)
    with 2 show ?thesis by simp
  qed
qed

text \<open>The code point of an encoded character.\<close>

fun utf8_code :: "bytes \<Rightarrow> nat" where
  "utf8_code [a] = u8 a"
| "utf8_code [a, b] = (u8 a mod 32) * 64 + u8 b mod 64"
| "utf8_code [a, b, c] = (u8 a mod 16) * 4096 + (u8 b mod 64) * 64 + u8 c mod 64"
| "utf8_code [a, b, c, d] =
     (u8 a mod 8) * 262144 + (u8 b mod 64) * 4096 + (u8 c mod 64) * 64 + u8 d mod 64"
| "utf8_code _ = 0"

section \<open>Lossy conversion\<close>

text \<open>\<^verbatim>\<open>String::from_utf8_lossy(bytes).chars()\<close>: every maximal invalid run reported by the
  validation becomes one U+FFFD.\<close>

text \<open>\<^verbatim>\<open>char::is_whitespace\<close>: the Unicode property \<^verbatim>\<open>White_Space\<close>.\<close>

definition is_whitespace :: "nat \<Rightarrow> bool" where
  "is_whitespace c \<longleftrightarrow> 0x09 \<le> c \<and> c \<le> 0x0D \<or> 0x2000 \<le> c \<and> c \<le> 0x200A \<or>
     c \<in> set [0x20, 0x85, 0xA0, 0x1680, 0x2028, 0x2029, 0x202F, 0x205F, 0x3000]"

text \<open>\<^verbatim>\<open>str::trim\<close>.\<close>

definition trim :: "bytes \<Rightarrow> bytes" where
  "trim s = concat (rev (dropWhile (\<lambda>c. is_whitespace (utf8_code c))
     (rev (dropWhile (\<lambda>c. is_whitespace (utf8_code c)) (utf8_chars s)))))"

definition replacement_char :: bytes where
  "replacement_char = [CHR 0xEF, CHR 0xBF, CHR 0xBD]"

function lossy_chars :: "bytes \<Rightarrow> bytes list" where
  "lossy_chars bs =
     (case from_utf8 bs of
        None \<Rightarrow> utf8_chars bs
      | Some (v, e) \<Rightarrow>
          utf8_chars (take v bs) @ replacement_char #
            (case e of None \<Rightarrow> [] | Some k \<Rightarrow> lossy_chars (drop (v + k) bs)))"
  by pat_completeness auto
termination
  by (relation "measure length") (auto dest: from_utf8_Some_bounds)

declare lossy_chars.simps [simp del]

lemma lossy_chars_ok: "c \<in> set (lossy_chars bs) \<Longrightarrow> utf8_char_ok c"
proof (induction bs rule: lossy_chars.induct)
  case (1 bs)
  have rep: "utf8_char_ok replacement_char"
    by (simp add: replacement_char_def utf8_char_ok_def)
  show ?case
  proof (cases "from_utf8 bs")
    case None
    with "1.prems" show ?thesis
      by (auto simp: lossy_chars.simps [of bs] intro: utf8_chars_ok)
  next
    case (Some p)
    obtain v e where p: "p = (v, e)" by fastforce
    show ?thesis
    proof (cases e)
      case None
      with Some p "1.prems" rep show ?thesis
        by (auto simp: lossy_chars.simps [of bs] intro: utf8_chars_ok)
    next
      case (Some k)
      with \<open>from_utf8 bs = Some p\<close> p "1.prems" rep show ?thesis
        by (auto simp: lossy_chars.simps [of bs] intro: utf8_chars_ok "1.IH")
    qed
  qed
qed

end
