(* ===== verification/Vpath_Codec.thy ===== *)
theory Vpath_Codec
  imports Rust_Utf8
begin

unbundle bit_operations_syntax

text \<open>
  The percent-encoding of path segments (\<^verbatim>\<open>norte-proto/src/wire/vpath_codec.rs\<close>): \<open>encode_segment\<close>
  and \<open>decode_segment\<close> with their helpers, in the order of the source, and the interface
  \<open>segment_codec\<close> that the path formats (\<^verbatim>\<open>VPath\<close> and \<^verbatim>\<open>RelPath\<close>) rely on: an encoded item
  decodes back to itself, is not empty and never holds the separator. The codec lemmas show that
  decoding undoes encoding on every byte string, and that an encoded string is valid UTF-8, free
  of control bytes and at most three times as long.
\<close>

datatype vpath_error =
    MissingScheme
  | InvalidScheme
  | InvalidAuthority
  | EmptySegment
  | DotSegment
  | NulByte
  | InvalidByte
  | BadEscape
  | ArchiveAddressing

section \<open>The codec\<close>

definition HEX_UPPER :: bytes where
  "HEX_UPPER = ''0123456789ABCDEF''"

definition push_escape :: "byte \<Rightarrow> bytes" where
  "push_escape b = [CHR ''%'', HEX_UPPER ! drop_bit 4 (u8 b), HEX_UPPER ! (u8 b AND 15)]"

definition is_ascii_control :: "byte \<Rightarrow> bool" where
  "is_ascii_control b \<longleftrightarrow> u8 b < 32 \<or> u8 b = 127"

text \<open>\<open>push_utf8\<close> walks the characters; one that is \<^verbatim>\<open>%\<close> or an ASCII control is a single byte.\<close>

fun push_char :: "bytes \<Rightarrow> bytes" where
  "push_char [b] = (if b = CHR ''%'' \<or> is_ascii_control b then push_escape b else [b])"
| "push_char c = c"

definition push_utf8 :: "bytes \<Rightarrow> bytes" where
  "push_utf8 s = concat (map push_char (utf8_chars s))"

function encode_segment :: "bytes \<Rightarrow> bytes" where
  "encode_segment rest =
     (if rest = [] then []
      else (case from_utf8 rest of
          None \<Rightarrow> push_utf8 rest
        | Some (v, e) \<Rightarrow>
            let valid = take v rest;
                invalid = drop v rest;
                bad_len = (case e of Some k \<Rightarrow> k | None \<Rightarrow> length invalid)
            in push_utf8 valid @ concat (map push_escape (take bad_len invalid)) @
               encode_segment (drop bad_len invalid)))"
  by pat_completeness auto
termination
  by (relation "measure length") (auto dest: from_utf8_Some_bounds split: option.splits)

declare encode_segment.simps [simp del]

definition hex_val :: "byte \<Rightarrow> vpath_error + nat" where
  "hex_val b =
     (if 48 \<le> u8 b \<and> u8 b \<le> 57 then Inr (u8 b - 48)
      else if 97 \<le> u8 b \<and> u8 b \<le> 102 then Inr (u8 b - 97 + 10)
      else if 65 \<le> u8 b \<and> u8 b \<le> 70 then Inr (u8 b - 65 + 10)
      else Inl BadEscape)"

fun decode_segment :: "bytes \<Rightarrow> vpath_error + bytes" where
  "decode_segment [] = Inr []"
| "decode_segment (c # cs) =
     (if c = CHR ''%'' then
        (case cs of
           h # l # rest \<Rightarrow>
             and_then (hex_val h) (\<lambda>hi.
             and_then (hex_val l) (\<lambda>lo.
             and_then (decode_segment rest) (\<lambda>out.
               Inr (char_of (push_bit 4 hi OR lo) # out))))
         | [h] \<Rightarrow> and_then (hex_val h) (\<lambda>hi. Inl BadEscape)
         | [] \<Rightarrow> Inl BadEscape)
      else and_then (decode_segment cs) (\<lambda>out. Inr (c # out)))"

section \<open>Nibbles\<close>

lemma nibble_cases: "n < 16 \<Longrightarrow> n \<in> {0, 1, 2, 3, 4, 5, 6, 7, 8, 9, 10, 11, 12, 13, 14, 15}" for n :: nat
  by simp presburger

lemma hex_val_HEX_UPPER: "n < 16 \<Longrightarrow> hex_val (HEX_UPPER ! n) = Inr n"
  using nibble_cases [of n] by (auto simp: hex_val_def HEX_UPPER_def)

lemma HEX_UPPER_plain:
  "n < 16 \<Longrightarrow> HEX_UPPER ! n \<noteq> CHR ''/'' \<and> 32 \<le> u8 (HEX_UPPER ! n) \<and> u8 (HEX_UPPER ! n) < 127"
  using nibble_cases [of n] by (auto simp: HEX_UPPER_def)

lemma drop_bit_u8: "drop_bit 4 (u8 b) = u8 b div 16"
  by (simp add: drop_bit_eq_div)

lemma and_15_u8: "u8 b AND 15 = u8 b mod 16"
  using take_bit_eq_mask [of 4 "u8 b"] by (simp add: take_bit_eq_mod mask_eq_exp_minus_1)

lemma nibble_bounds: "drop_bit 4 (u8 b) < 16" "u8 b AND 15 < 16"
  using u8_less [of b] by (auto simp: drop_bit_u8 and_15_u8 intro: less_mult_imp_div_less)

lemma push_bit_or_nibble: "l < 16 \<Longrightarrow> push_bit 4 h OR l = 16 * h + l" for h l :: nat
proof -
  assume "l < 16"
  then have l: "take_bit 4 l = l"
    by (simp add: take_bit_eq_mod)
  have "push_bit 4 h AND l = push_bit 4 h AND take_bit 4 l"
    by (simp add: l)
  also have "\<dots> = 0"
    by (auto simp: bit_eq_iff bit_simps)
  finally have "push_bit 4 h + l = push_bit 4 h OR l"
    by (rule disjunctive_add_eq_or)
  then show ?thesis
    by (simp add: push_bit_eq_mult)
qed

lemma decode_push_escape:
  "decode_segment (push_escape b @ w) = and_then (decode_segment w) (\<lambda>out. Inr (b # out))"
proof -
  have "push_bit 4 (drop_bit 4 (u8 b)) OR (u8 b AND 15) = u8 b"
    using nibble_bounds [of b] by (simp add: push_bit_or_nibble) (simp add: drop_bit_u8 and_15_u8)
  then show ?thesis
    by (simp add: push_escape_def hex_val_HEX_UPPER nibble_bounds)
qed

section \<open>Decoding undoes encoding\<close>

lemma decode_plain:
  "CHR ''%'' \<notin> set s \<Longrightarrow>
     decode_segment (s @ w) = and_then (decode_segment w) (\<lambda>out. Inr (s @ out))"
proof (induction s)
  case Nil
  then show ?case by (cases "decode_segment w") auto
next
  case (Cons c s)
  then show ?case by (cases "decode_segment w") auto
qed

lemma decode_push_char:
  assumes "utf8_char_ok c"
  shows "decode_segment (push_char c @ w) = and_then (decode_segment w) (\<lambda>out. Inr (c @ out))"
proof (cases "length c = 1")
  case True
  then obtain b where "c = [b]" by (auto simp: length_Suc_conv)
  then show ?thesis by (auto simp: decode_push_escape simp del: decode_segment.simps) auto
next
  case False
  with assms have "\<forall>x \<in> set c. 128 \<le> u8 x"
    by (auto simp: utf8_char_ok_def)
  then have "CHR ''%'' \<notin> set c" by auto
  moreover from False have "push_char c = c"
    by (cases c rule: push_char.cases) auto
  ultimately show ?thesis by (simp add: decode_plain)
qed

lemma decode_concat_push_char:
  assumes "\<And>c. c \<in> set cs \<Longrightarrow> utf8_char_ok c"
  shows "decode_segment (concat (map push_char cs) @ w) =
    and_then (decode_segment w) (\<lambda>out. Inr (concat cs @ out))"
  using assms
proof (induction cs)
  case Nil
  then show ?case by (cases "decode_segment w") auto
next
  case (Cons c cs)
  then show ?case by (cases "decode_segment w") (auto simp: decode_push_char)
qed

lemma decode_push_utf8:
  assumes "utf8_valid s"
  shows "decode_segment (push_utf8 s @ w) = and_then (decode_segment w) (\<lambda>out. Inr (s @ out))"
proof -
  have "decode_segment (push_utf8 s @ w) =
      and_then (decode_segment w) (\<lambda>out. Inr (concat (utf8_chars s) @ out))"
    unfolding push_utf8_def by (rule decode_concat_push_char) (rule utf8_chars_ok)
  with assms show ?thesis by (simp add: concat_utf8_chars)
qed

lemma decode_concat_push_escape:
  "decode_segment (concat (map push_escape bs) @ w) =
     and_then (decode_segment w) (\<lambda>out. Inr (bs @ out))"
proof (induction bs)
  case Nil
  then show ?case by (cases "decode_segment w") auto
next
  case (Cons b bs)
  then show ?case by (cases "decode_segment w") (auto simp: decode_push_escape)
qed

text \<open>One turn of the encoder's loop, with its pieces named.\<close>

lemma encode_segment_Nil [simp]: "encode_segment [] = []"
  by (simp add: encode_segment.simps)

lemma encode_segment_valid: "utf8_valid s \<Longrightarrow> encode_segment s = push_utf8 s"
  by (auto simp: encode_segment.simps [of s] push_utf8_def)

lemma encode_segment_step:
  assumes "from_utf8 s = Some (v, e)"
  obtains n where "0 < n" "n \<le> length (drop v s)"
    "encode_segment s = push_utf8 (take v s) @
       concat (map push_escape (take n (drop v s))) @ encode_segment (drop n (drop v s))"
proof
  let ?n = "case e of Some k \<Rightarrow> k | None \<Rightarrow> length (drop v s)"
  note b = from_utf8_Some_bounds [OF assms]
  show "0 < ?n" "?n \<le> length (drop v s)"
    using b by (auto split: option.splits)
  show "encode_segment s = push_utf8 (take v s) @
      concat (map push_escape (take ?n (drop v s))) @ encode_segment (drop ?n (drop v s))"
    using assms b(1) by (subst encode_segment.simps) (auto simp: Let_def)
qed

lemma encode_segment_induct [case_names valid step]:
  assumes valid: "\<And>s. utf8_valid s \<Longrightarrow> P s (push_utf8 s)"
    and step: "\<And>s t u w. utf8_valid s \<Longrightarrow> t \<noteq> [] \<Longrightarrow> P u w \<Longrightarrow>
      P (s @ t @ u) (push_utf8 s @ concat (map push_escape t) @ w)"
  shows "P bs (encode_segment bs)"
proof (induction "length bs" arbitrary: bs rule: less_induct)
  case less
  show ?case
  proof (cases "from_utf8 bs")
    case None
    then show ?thesis using valid by (simp add: encode_segment_valid)
  next
    case (Some p)
    then obtain v e where p: "from_utf8 bs = Some (v, e)" by (cases p) auto
    from p obtain n where n: "0 < n" "n \<le> length (drop v bs)"
      and enc: "encode_segment bs = push_utf8 (take v bs) @
        concat (map push_escape (take n (drop v bs))) @ encode_segment (drop n (drop v bs))"
      by (rule encode_segment_step)
    let ?t = "take n (drop v bs)" and ?u = "drop n (drop v bs)"
    have bs: "bs = take v bs @ ?t @ ?u" by (simp del: drop_drop)
    have "length ?u < length bs" using n by auto
    then have "P ?u (encode_segment ?u)" by (rule less)
    moreover have "utf8_valid (take v bs)" by (rule from_utf8_take_valid_up_to [OF p])
    moreover have "?t \<noteq> []" using n by auto
    ultimately have "P (take v bs @ ?t @ ?u) (encode_segment bs)"
      unfolding enc by (intro step)
    with bs show ?thesis by simp
  qed
qed

lemma decode_encode_segment_append:
  "decode_segment (encode_segment bs @ w) = and_then (decode_segment w) (\<lambda>out. Inr (bs @ out))"
proof (rule encode_segment_induct [where P = "\<lambda>s e. decode_segment (e @ w) =
    and_then (decode_segment w) (\<lambda>out. Inr (s @ out))"], goal_cases)
  case (1 s)
  then show ?case by (rule decode_push_utf8)
next
  case (2 s t u w')
  then show ?case
    by (cases "decode_segment w") (auto simp: decode_push_utf8 decode_concat_push_escape)
qed

lemma decode_encode_segment: "decode_segment (encode_segment bs) = Inr bs"
  using decode_encode_segment_append [of bs "[]"] by simp

section \<open>What an encoded string is made of\<close>

lemma push_escape_plain:
  "x \<in> set (push_escape b) \<Longrightarrow> x \<noteq> CHR ''/'' \<and> 32 \<le> u8 x \<and> u8 x < 127"
  using HEX_UPPER_plain [OF nibble_bounds(1) [of b]] HEX_UPPER_plain [OF nibble_bounds(2) [of b]]
  by (auto simp: push_escape_def)

lemma push_char_plain:
  assumes "utf8_char_ok c" "x \<in> set (push_char c)"
  shows "32 \<le> u8 x \<and> u8 x \<noteq> 127 \<and> (x = CHR ''/'' \<longrightarrow> x \<in> set c)"
proof (cases "length c = 1")
  case True
  then obtain b where "c = [b]" by (auto simp: length_Suc_conv)
  with assms(2) push_escape_plain show ?thesis
    by (fastforce simp: is_ascii_control_def split: if_splits)
next
  case False
  then have "push_char c = c"
    by (cases c rule: push_char.cases) auto
  with False assms show ?thesis by (force simp: utf8_char_ok_def)
qed

lemma push_utf8_plain:
  assumes "utf8_valid s" "x \<in> set (push_utf8 s)"
  shows "32 \<le> u8 x \<and> u8 x \<noteq> 127 \<and> (x = CHR ''/'' \<longrightarrow> x \<in> set s)"
proof -
  from assms(2) obtain c where c: "c \<in> set (utf8_chars s)" "x \<in> set (push_char c)"
    by (auto simp: push_utf8_def)
  have "set c \<subseteq> set (concat (utf8_chars s))" using c(1) by auto
  then have "set c \<subseteq> set s" using assms(1) by (simp add: concat_utf8_chars)
  with push_char_plain [OF utf8_chars_ok [OF c(1)] c(2)] show ?thesis by auto
qed

lemma encode_segment_plain:
  "\<forall>x \<in> set (encode_segment bs). 32 \<le> u8 x \<and> u8 x \<noteq> 127 \<and> (x = CHR ''/'' \<longrightarrow> x \<in> set bs)"
proof (rule encode_segment_induct [where P = "\<lambda>s e. \<forall>x \<in> set e.
    32 \<le> u8 x \<and> u8 x \<noteq> 127 \<and> (x = CHR ''/'' \<longrightarrow> x \<in> set s)"], goal_cases)
  case (1 s)
  then show ?case using push_utf8_plain by blast
next
  case (2 s t u w)
  show ?case
  proof
    fix x assume "x \<in> set (push_utf8 s @ concat (map push_escape t) @ w)"
    then consider "x \<in> set (push_utf8 s)" | b where "x \<in> set (push_escape b)" | "x \<in> set w"
      by auto
    then show "32 \<le> u8 x \<and> u8 x \<noteq> 127 \<and> (x = CHR ''/'' \<longrightarrow> x \<in> set (s @ t @ u))"
    proof cases
      case 1
      with push_utf8_plain [OF 2(1)] show ?thesis by auto
    next
      case (2 b)
      with push_escape_plain [of x b] show ?thesis by auto
    next
      case 3
      with 2(3) show ?thesis by auto
    qed
  qed
qed

lemma push_escape_valid: "utf8_valid (push_escape b)"
  using push_escape_plain [of _ b] by (intro utf8_valid_ascii) force

lemma push_utf8_valid: "utf8_valid (push_utf8 s)"
  unfolding push_utf8_def
proof (rule utf8_valid_concat)
  fix a assume "a \<in> set (map push_char (utf8_chars s))"
  then obtain c where c: "c \<in> set (utf8_chars s)" "a = push_char c" by auto
  then have "utf8_valid c" by (intro utf8_chars_valid)
  with c(2) show "utf8_valid a"
    by (cases c rule: push_char.cases) (auto simp del: from_utf8.simps intro: push_escape_valid)
qed

lemma encode_segment_utf8: "utf8_valid (encode_segment bs)"
proof (rule encode_segment_induct [where P = "\<lambda>s e. utf8_valid e"], goal_cases)
  case (1 s)
  show ?case by (rule push_utf8_valid)
next
  case (2 s t u w)
  have "utf8_valid (concat (map push_escape t))"
    by (rule utf8_valid_concat) (auto intro: push_escape_valid)
  with 2(3) show ?case by (intro utf8_valid_append push_utf8_valid)
qed

lemma encode_segment_eq_Nil_iff [simp]: "encode_segment bs = [] \<longleftrightarrow> bs = []"
  using decode_encode_segment [of bs] by auto

section \<open>The interface of a segment codec\<close>

text \<open>What a path format needs of the codec of its items: on valid items, encoding can be
  decoded, is not empty and never holds the separator.\<close>

locale segment_codec =
  fixes enc :: "'a \<Rightarrow> bytes"
    and dec :: "bytes \<Rightarrow> 'e + 'a"
    and ok :: "'a \<Rightarrow> bool"
    and sep :: byte
  assumes dec_enc: "ok x \<Longrightarrow> dec (enc x) = Inr x"
    and enc_not_Nil: "ok x \<Longrightarrow> enc x \<noteq> []"
    and enc_no_sep: "ok x \<Longrightarrow> sep \<notin> set (enc x)"
    and dec_ok: "dec w = Inr x \<Longrightarrow> ok x"
begin

definition path_ok :: "'a list \<Rightarrow> bool" where
  "path_ok xs \<longleftrightarrow> (\<forall>x \<in> set xs. ok x)"

definition print_path :: "'a list \<Rightarrow> bytes" where
  "print_path xs = join_with [sep] (map enc xs)"

definition parse_path :: "bytes \<Rightarrow> 'e + 'a list" where
  "parse_path w = (if w = [] then Inr [] else try_map dec (split_on sep w))"

lemma print_path_eq_Nil_iff: "path_ok xs \<Longrightarrow> print_path xs = [] \<longleftrightarrow> xs = []"
  unfolding print_path_def path_ok_def
  by (subst join_with_eq_Nil_iff) (auto simp: enc_not_Nil)

lemma split_print_path:
  assumes "path_ok xs" "xs \<noteq> []"
  shows "split_on sep (print_path xs) = map enc xs"
  using assms enc_no_sep unfolding print_path_def path_ok_def
  by (intro split_on_join_with) auto

lemma parse_print_path: "path_ok xs \<Longrightarrow> parse_path (print_path xs) = Inr xs"
  using split_print_path [of xs]
  by (cases "xs = []")
    (auto simp: parse_path_def print_path_eq_Nil_iff path_ok_def dec_enc intro!: try_map_map_Inr)

lemma parse_path_ok: "parse_path w = Inr xs \<Longrightarrow> path_ok xs"
  by (auto simp: parse_path_def path_ok_def try_map_Inr_iff list_all2_conv_all_nth in_set_conv_nth
      split: if_splits) (metis dec_ok)

lemma print_path_inj: "path_ok xs \<Longrightarrow> path_ok ys \<Longrightarrow> print_path xs = print_path ys \<Longrightarrow> xs = ys"
  by (metis parse_print_path sum.inject(2))

end

section \<open>Property\<close>

text \<open>every byte string survives the segment codec, and its encoding is valid UTF-8 with no
  control byte and no slash that the byte string did not have.\<close>

theorem segment_codec_lossless:
  "decode_segment (encode_segment bs) = Inr bs \<and> utf8_valid (encode_segment bs) \<and>
   (\<forall>b \<in> set (encode_segment bs). 32 \<le> u8 b \<and> u8 b \<noteq> 127 \<and> (b = CHR ''/'' \<longrightarrow> b \<in> set bs))"
  by (intro conjI decode_encode_segment encode_segment_utf8 encode_segment_plain)

theorem segment_codec_lossless_witness:
  "decode_segment (encode_segment [CHR 0xFF, CHR 0x0A]) = Inr [CHR 0xFF, CHR 0x0A] \<and>
   CHR ''/'' \<notin> set (encode_segment [CHR 0xFF, CHR 0x0A])"
  using segment_codec_lossless [of "[CHR 0xFF, CHR 0x0A]"] by force

end
