(* ===== verification/Vpath.thy ===== *)
theory Vpath
  imports Vpath_Codec
begin

text \<open>
  The path type of the virtual file system (\<^verbatim>\<open>norte-proto/src/vpath.rs\<close>) and the relative
  paths (\<^verbatim>\<open>RelPath\<close> of \<^verbatim>\<open>norte-proto/src/methods.rs\<close>). \<^verbatim>\<open>Scheme\<close>, \<^verbatim>\<open>Authority\<close> and
  \<^verbatim>\<open>Segment\<close> are newtypes over validated bytes: here they are the bytes, the smart constructors
  are \<open>Scheme_new\<close>, \<open>Authority_new\<close> and \<open>Segment_new\<close>, and \<open>vpath_ok\<close> is the invariant that
  every path built through them has. Operations follow in the order of the source; the lemmas
  show that they keep \<open>vpath_ok\<close>, that printing and parsing the wire form are inverse, that the
  display form never parses, and how archive paths compose and split.
\<close>

section \<open>Components of a path\<close>

definition is_ascii_lowercase :: "byte \<Rightarrow> bool" where
  "is_ascii_lowercase b \<longleftrightarrow> 97 \<le> u8 b \<and> u8 b \<le> 122"

definition is_ascii_digit :: "byte \<Rightarrow> bool" where
  "is_ascii_digit b \<longleftrightarrow> 48 \<le> u8 b \<and> u8 b \<le> 57"

definition is_ascii_graphic :: "byte \<Rightarrow> bool" where
  "is_ascii_graphic b \<longleftrightarrow> 33 \<le> u8 b \<and> u8 b \<le> 126"

definition scheme_byte :: "byte \<Rightarrow> bool" where
  "scheme_byte b \<longleftrightarrow> is_ascii_lowercase b \<or> is_ascii_digit b \<or> b \<in> {CHR ''+'', CHR ''.'', CHR ''-''}"

definition Scheme_new :: "bytes \<Rightarrow> vpath_error + bytes" where
  "Scheme_new s =
     (let head_ok = (case s of [] \<Rightarrow> False | b # _ \<Rightarrow> is_ascii_lowercase b);
          tail_ok = list_all scheme_byte s
      in if head_ok \<and> tail_ok then Inr s else Inl InvalidScheme)"

definition Authority_new :: "bytes \<Rightarrow> vpath_error + bytes" where
  "Authority_new s =
     (let charset_ok = s \<noteq> [] \<and>
            list_all (\<lambda>b. is_ascii_graphic b \<and> b \<noteq> CHR ''/'' \<and> b \<noteq> CHR ''%'') s;
          no_inline_password =
            (case rposition (\<lambda>b. b = CHR ''@'') s of
               Some at \<Rightarrow> CHR '':'' \<notin> set (take at s)
             | None \<Rightarrow> True)
      in if charset_ok \<and> no_inline_password then Inr s else Inl InvalidAuthority)"

definition Segment_new :: "bytes \<Rightarrow> vpath_error + bytes" where
  "Segment_new bs =
     (if bs = [] then Inl EmptySegment
      else if CHR 0x00 \<in> set bs then Inl NulByte
      else if CHR ''/'' \<in> set bs then Inl InvalidByte
      else if bs = ''.'' \<or> bs = ''..'' then Inl DotSegment
      else Inr bs)"

definition Segment_to_wire :: "bytes \<Rightarrow> bytes" where
  "Segment_to_wire seg = encode_segment seg"

definition Segment_parse_wire :: "bytes \<Rightarrow> vpath_error + bytes" where
  "Segment_parse_wire wire = and_then (decode_segment wire) Segment_new"

definition scheme_ok :: "bytes \<Rightarrow> bool" where
  "scheme_ok s \<longleftrightarrow> Scheme_new s = Inr s"

definition authority_ok :: "bytes \<Rightarrow> bool" where
  "authority_ok s \<longleftrightarrow> Authority_new s = Inr s"

definition segment_ok :: "bytes \<Rightarrow> bool" where
  "segment_ok s \<longleftrightarrow> Segment_new s = Inr s"

lemma Scheme_new_Inr: "Scheme_new s = Inr t \<longleftrightarrow> t = s \<and> scheme_ok s"
  by (auto simp: Scheme_new_def scheme_ok_def Let_def split: if_splits)

lemma Authority_new_Inr: "Authority_new s = Inr t \<longleftrightarrow> t = s \<and> authority_ok s"
  by (auto simp: Authority_new_def authority_ok_def Let_def split: if_splits)

lemma Segment_new_Inr: "Segment_new s = Inr t \<longleftrightarrow> t = s \<and> segment_ok s"
  by (auto simp: Segment_new_def segment_ok_def split: if_splits)

lemma segment_ok_iff:
  "segment_ok s \<longleftrightarrow> s \<noteq> [] \<and> CHR 0x00 \<notin> set s \<and> CHR ''/'' \<notin> set s \<and> s \<noteq> ''.'' \<and> s \<noteq> ''..''"
  by (auto simp: segment_ok_def Segment_new_def split: if_splits)

lemma scheme_ok_bytes: "scheme_ok s \<Longrightarrow> b \<in> set s \<Longrightarrow> scheme_byte b"
  by (auto simp: scheme_ok_def Scheme_new_def Let_def list_all_iff split: if_splits)

lemma scheme_byte_range: "scheme_byte b \<Longrightarrow> 43 \<le> u8 b \<and> u8 b \<le> 122 \<and> b \<noteq> CHR ''/'' \<and> b \<noteq> CHR '':''"
  by (auto simp: scheme_byte_def is_ascii_lowercase_def is_ascii_digit_def)

lemma authority_ok_bytes:
  "authority_ok s \<Longrightarrow> b \<in> set s \<Longrightarrow> 33 \<le> u8 b \<and> u8 b \<le> 126 \<and> b \<noteq> CHR ''/''"
  by (auto simp: authority_ok_def Authority_new_def Let_def list_all_iff is_ascii_graphic_def
      split: if_splits)

lemma Authority_new_Nil [simp]: "Authority_new [] = Inl InvalidAuthority"
  by (simp add: Authority_new_def)

lemma authority_ok_no_password: "\<not> authority_ok (user @ '':'' @ pw @ ''@'' @ host)"
proof
  let ?s = "user @ '':'' @ pw @ ''@'' @ host"
  assume "authority_ok ?s"
  then have "case rposition (\<lambda>b. b = CHR ''@'') ?s of
      Some i \<Rightarrow> CHR '':'' \<notin> set (take i ?s) | None \<Rightarrow> True"
    unfolding authority_ok_def Authority_new_def Let_def by (simp split: if_splits)
  moreover have "rposition (\<lambda>b. b = CHR ''@'') ?s \<noteq> None"
    by (simp add: rposition_None_iff)
  ultimately obtain i where i: "rposition (\<lambda>b. b = CHR ''@'') ?s = Some i" "CHR '':'' \<notin> set (take i ?s)"
    by auto
  have "CHR ''@'' \<in> set (drop (length user) ?s)" by simp
  have "\<not> length user < i"
  proof
    assume "length user < i"
    then have "take i ?s ! length user = CHR '':''" "length user < length (take i ?s)"
      by (simp_all add: nth_append)
    then show False using i(2) nth_mem by metis
  qed
  moreover have "CHR ''@'' \<notin> set (drop (Suc i) ?s)"
    using rposition_SomeD [OF i(1)] by blast
  moreover have "?s ! i = CHR ''@''" using rposition_SomeD [OF i(1)] by blast
  ultimately show False
    by (cases "i = length user") (auto simp: nth_append)
qed

lemma authority_ok_not_Nil: "authority_ok s \<Longrightarrow> s \<noteq> []"
  by (auto simp: authority_ok_def Authority_new_def)

text \<open>Segments are an instance of the codec interface.\<close>

interpretation seg: segment_codec Segment_to_wire Segment_parse_wire segment_ok "CHR ''/''"
proof (unfold_locales, goal_cases)
  case (1 x)
  then show ?case
    by (simp add: Segment_to_wire_def Segment_parse_wire_def decode_encode_segment segment_ok_def)
next
  case (2 x)
  then show ?case by (auto simp: Segment_to_wire_def segment_ok_iff)
next
  case (3 x)
  then show ?case
    using encode_segment_plain [of x] by (auto simp: Segment_to_wire_def segment_ok_iff)
next
  case (4 w x)
  then show ?case by (auto simp: Segment_parse_wire_def and_then_Inr_iff Segment_new_Inr)
qed

section \<open>The path\<close>

record vpath =
  scheme :: bytes
  authority :: "bytes option"
  segments :: "bytes list"

definition vpath_ok :: "vpath \<Rightarrow> bool" where
  "vpath_ok p \<longleftrightarrow> scheme_ok (scheme p) \<and> pred_option authority_ok (authority p) \<and>
     list_all segment_ok (segments p)"

definition VPath_root :: "bytes \<Rightarrow> bytes option \<Rightarrow> vpath" where
  "VPath_root s a = \<lparr>scheme = s, authority = a, segments = []\<rparr>"

definition parse_segment :: "bytes \<Rightarrow> vpath_error + bytes" where
  "parse_segment raw =
     (if raw = [] then Inl EmptySegment else and_then (decode_segment raw) Segment_new)"

definition VPath_parse :: "bytes \<Rightarrow> vpath_error + vpath" where
  "VPath_parse wire =
     and_then (ok_or (split_once ''://'' wire) MissingScheme) (\<lambda>(scheme_raw, rest).
     and_then (Scheme_new scheme_raw) (\<lambda>s.
     let (authority_raw, path_raw) =
           (case split_once ''/'' rest of Some (a, p) \<Rightarrow> (a, Some p) | None \<Rightarrow> (rest, None))
     in and_then (if authority_raw = [] then Inr None
                  else and_then (Authority_new authority_raw) (\<lambda>a. Inr (Some a))) (\<lambda>a.
        and_then (case path_raw of
              Some path \<Rightarrow> if path \<noteq> [] then try_map parse_segment (split_on (CHR ''/'') path) else Inr []
            | None \<Rightarrow> Inr []) (\<lambda>segs.
        Inr \<lparr>scheme = s, authority = a, segments = segs\<rparr>))))"

definition write_prefix :: "vpath \<Rightarrow> bytes" where
  "write_prefix p = scheme p @ ''://'' @ (case authority p of Some a \<Rightarrow> a | None \<Rightarrow> []) @ ''/''"

definition to_wire :: "vpath \<Rightarrow> bytes" where
  "to_wire p = write_prefix p @ join_with ''/'' (map encode_segment (segments p))"

text \<open>The display form: characters that would act on a terminal become U+FFFD.\<close>

definition is_display_hazard :: "nat \<Rightarrow> bool" where
  "is_display_hazard c \<longleftrightarrow>
     (c < 32 \<or> 127 \<le> c \<and> c < 160) \<or>
     c = 0x200E \<or> c = 0x200F \<or> c = 0x061C \<or>
     0x202A \<le> c \<and> c \<le> 0x202E \<or>
     0x2066 \<le> c \<and> c \<le> 0x2069"

definition display_segment :: "bytes \<Rightarrow> bytes" where
  "display_segment seg =
     concat (map (\<lambda>c. if is_display_hazard (utf8_code c) then replacement_char else c)
       (lossy_chars seg))"

definition display_lossy :: "vpath \<Rightarrow> bytes" where
  "display_lossy p =
     [CHR 0xE2, CHR 0x9F, CHR 0xA8] @ scheme p @
     (case authority p of Some a \<Rightarrow> '' '' @ a | None \<Rightarrow> []) @
     [CHR 0xE2, CHR 0x9F, CHR 0xA9] @ ''/'' @
     join_with ''/'' (map display_segment (segments p))"

definition is_root :: "vpath \<Rightarrow> bool" where
  "is_root p \<longleftrightarrow> segments p = []"

definition VPath_join :: "vpath \<Rightarrow> bytes \<Rightarrow> vpath" where
  "VPath_join p seg = p\<lparr>segments := segments p @ [seg]\<rparr>"

definition join_all :: "vpath \<Rightarrow> bytes list \<Rightarrow> vpath" where
  "join_all p segs = p\<lparr>segments := segments p @ segs\<rparr>"

definition parent :: "vpath \<Rightarrow> vpath option" where
  "parent p = (if segments p = [] then None else Some (p\<lparr>segments := butlast (segments p)\<rparr>))"

definition file_name :: "vpath \<Rightarrow> bytes option" where
  "file_name p = (if segments p = [] then None else Some (last (segments p)))"

definition with_file_name :: "vpath \<Rightarrow> bytes \<Rightarrow> vpath option" where
  "with_file_name p seg =
     (if segments p = [] then None else Some (p\<lparr>segments := butlast (segments p) @ [seg]\<rparr>))"

section \<open>Archives addressed as directories\<close>

definition MARKER :: bytes where
  "MARKER = ''!''"

definition ARCHIVE_FORMATS :: "bytes list" where
  "ARCHIVE_FORMATS = [''zip'', ''tar'', ''tar+gz'', ''rar'']"

record archive_ref =
  ar_format :: bytes
  ar_outer :: vpath
  ar_inner :: "bytes list"

definition scheme_format_prefix :: "bytes \<Rightarrow> bytes option" where
  "scheme_format_prefix s =
     max_by_key length
       (filter (\<lambda>f. length f < length s \<and> s ! length f = CHR ''+'' \<and> prefix f s) ARCHIVE_FORMATS)"

definition scheme_archive_format :: "bytes \<Rightarrow> bytes option" where
  "scheme_archive_format s = scheme_format_prefix s"

definition archive_split :: "vpath \<Rightarrow> vpath_error + archive_ref option" where
  "archive_split p =
     (case scheme_format_prefix (scheme p) of
        None \<Rightarrow> Inr None
      | Some format \<Rightarrow>
          let inner_scheme = drop (length format + 1) (scheme p);
              nested = (scheme_format_prefix inner_scheme \<noteq> None);
              marker_pos = (if nested then rposition (\<lambda>s. s = MARKER) (segments p)
                            else position (\<lambda>s. s = MARKER) (segments p))
          in and_then (ok_or marker_pos ArchiveAddressing) (\<lambda>pos.
             and_then (Scheme_new inner_scheme) (\<lambda>s.
               Inr (Some \<lparr>ar_format = format,
                  ar_outer = \<lparr>scheme = s, authority = authority p,
                    segments = take pos (segments p)\<rparr>,
                  ar_inner = drop (pos + 1) (segments p)\<rparr>))))"

definition archive_compose :: "bytes \<Rightarrow> vpath \<Rightarrow> bytes list \<Rightarrow> vpath_error + vpath" where
  "archive_compose format outer inner =
     (if format \<notin> set ARCHIVE_FORMATS then Inl ArchiveAddressing
      else case archive_split outer of
        Inl _ \<Rightarrow> Inl ArchiveAddressing
      | Inr split \<Rightarrow>
        let outer_nested = (split \<noteq> None);
            composed_scheme = format @ ''+'' @ scheme outer
        in if scheme_format_prefix (scheme outer) \<noteq> None \<and> \<not> outer_nested then Inl ArchiveAddressing
           else if scheme_format_prefix composed_scheme \<noteq> Some format then Inl ArchiveAddressing
           else if (\<not> outer_nested \<and> MARKER \<in> set (segments outer)) \<or> MARKER \<in> set inner
             then Inl ArchiveAddressing
           else and_then (Scheme_new composed_scheme) (\<lambda>s.
             let composed = \<lparr>scheme = s, authority = authority outer,
                   segments = segments outer @ [MARKER] @ inner\<rparr>
             in case archive_split composed of
                  Inr (Some r) \<Rightarrow>
                    if ar_format r = format \<and> ar_outer r = outer \<and> ar_inner r = inner
                    then Inr composed else Inl ArchiveAddressing
                | _ \<Rightarrow> Inl ArchiveAddressing))"

section \<open>Relative paths\<close>

type_synonym rel_path = "bytes list"

definition RelPath_parse_wire :: "bytes \<Rightarrow> vpath_error + rel_path" where
  "RelPath_parse_wire wire =
     (if wire = [] then Inr [] else try_map Segment_parse_wire (split_on (CHR ''/'') wire))"

definition RelPath_to_wire :: "rel_path \<Rightarrow> bytes" where
  "RelPath_to_wire r = join_with ''/'' (map Segment_to_wire r)"

fun strip_root :: "bytes list \<Rightarrow> bytes list \<Rightarrow> bytes list option" where
  "strip_root [] rest = Some rest"
| "strip_root (r # rs) (x # xs) = (if x = r then strip_root rs xs else None)"
| "strip_root (r # rs) [] = None"

definition RelPath_under :: "vpath \<Rightarrow> vpath \<Rightarrow> rel_path option" where
  "RelPath_under root path =
     (if scheme path \<noteq> scheme root \<or> authority path \<noteq> authority root then None
      else case strip_root (segments root) (segments path) of
        None \<Rightarrow> None
      | Some rest \<Rightarrow> (case try_map Segment_new rest of Inr segs \<Rightarrow> Some segs | Inl _ \<Rightarrow> None))"

definition rel_ok :: "rel_path \<Rightarrow> bool" where
  "rel_ok r \<longleftrightarrow> list_all segment_ok r"

section \<open>Every operation keeps the invariant\<close>

lemma parse_segment_eq: "parse_segment raw = Segment_parse_wire raw"
  by (simp add: parse_segment_def Segment_parse_wire_def Segment_new_def)

lemma list_all_path_ok: "list_all segment_ok xs \<longleftrightarrow> seg.path_ok xs"
  by (simp add: seg.path_ok_def list_all_iff)

lemma parse_segments_eq:
  "(if path \<noteq> [] then try_map parse_segment (split_on (CHR ''/'') path) else Inr []) =
     seg.parse_path path"
  by (simp add: seg.parse_path_def parse_segment_eq [abs_def])

lemma vpath_okI:
  "scheme_ok (scheme p) \<Longrightarrow> pred_option authority_ok (authority p) \<Longrightarrow>
     list_all segment_ok (segments p) \<Longrightarrow> vpath_ok p"
  by (simp add: vpath_ok_def)

lemma VPath_parse_ok: "VPath_parse wire = Inr p \<Longrightarrow> vpath_ok p"
proof -
  assume "VPath_parse wire = Inr p"
  then obtain scheme_raw rest where ok: "scheme_ok scheme_raw"
    and "(let (authority_raw, path_raw) =
           (case split_once ''/'' rest of Some (a, p) \<Rightarrow> (a, Some p) | None \<Rightarrow> (rest, None))
     in and_then (if authority_raw = [] then Inr None
                  else and_then (Authority_new authority_raw) (\<lambda>a. Inr (Some a))) (\<lambda>a.
        and_then (case path_raw of
              Some path \<Rightarrow> if path \<noteq> [] then try_map parse_segment (split_on (CHR ''/'') path) else Inr []
            | None \<Rightarrow> Inr []) (\<lambda>segs.
        Inr \<lparr>scheme = scheme_raw, authority = a, segments = segs\<rparr>))) = Inr p"
    by (auto simp: VPath_parse_def and_then_Inr_iff Scheme_new_Inr)
  then obtain authority_raw path_raw a segs
    where a: "(if authority_raw = [] then Inr None
        else and_then (Authority_new authority_raw) (\<lambda>a. Inr (Some a))) = Inr a"
      and segs: "(case path_raw of Some path \<Rightarrow> seg.parse_path path | None \<Rightarrow> Inr []) = Inr segs"
      and p: "p = \<lparr>scheme = scheme_raw, authority = a, segments = segs\<rparr>"
    unfolding parse_segments_eq Let_def case_prod_unfold and_then_Inr_iff by blast
  from a have "pred_option authority_ok a"
    by (auto simp: and_then_Inr_iff Authority_new_Inr split: if_splits)
  moreover from segs have "seg.path_ok segs"
    by (auto dest: seg.parse_path_ok simp: seg.path_ok_def split: option.splits)
  ultimately show ?thesis
    using ok p by (simp add: vpath_ok_def list_all_path_ok)
qed

lemma vpath_ok_root: "scheme_ok s \<Longrightarrow> pred_option authority_ok a \<Longrightarrow> vpath_ok (VPath_root s a)"
  by (simp add: vpath_ok_def VPath_root_def)

lemma vpath_ok_join: "vpath_ok p \<Longrightarrow> segment_ok s \<Longrightarrow> vpath_ok (VPath_join p s)"
  by (simp add: vpath_ok_def VPath_join_def)

lemma vpath_ok_join_all: "vpath_ok p \<Longrightarrow> rel_ok r \<Longrightarrow> vpath_ok (join_all p r)"
  by (simp add: vpath_ok_def join_all_def rel_ok_def)

lemma vpath_ok_parent: "vpath_ok p \<Longrightarrow> parent p = Some q \<Longrightarrow> vpath_ok q"
  by (auto simp: vpath_ok_def parent_def list_all_butlast split: if_splits)

lemma vpath_ok_with_file_name:
  "vpath_ok p \<Longrightarrow> segment_ok s \<Longrightarrow> with_file_name p s = Some q \<Longrightarrow> vpath_ok q"
  by (auto simp: vpath_ok_def with_file_name_def list_all_butlast split: if_splits)

section \<open>The wire form\<close>

lemma split_scheme:
  assumes "scheme_ok s"
  shows "split_once ''://'' (s @ ''://'' @ rest) = Some (s, rest)"
proof (rule split_once_hit)
  show "hd ''://'' \<notin> set s"
    using scheme_ok_bytes [OF assms] scheme_byte_range by fastforce
qed simp

lemma to_wire_alt:
  "to_wire p = scheme p @ ''://'' @ (case authority p of Some a \<Rightarrow> a | None \<Rightarrow> []) @
     CHR ''/'' # seg.print_path (segments p)"
  unfolding seg.print_path_def by (simp add: to_wire_def write_prefix_def Segment_to_wire_def [abs_def])

lemma split_authority:
  assumes "pred_option authority_ok a"
  shows "split_once ''/'' ((case a of Some a \<Rightarrow> a | None \<Rightarrow> []) @ CHR ''/'' # path) =
    Some ((case a of Some a \<Rightarrow> a | None \<Rightarrow> []), path)"
  using assms by (intro split_once_char_hit) (auto dest: authority_ok_bytes split: option.splits)

lemma VPath_parse_to_wire_ok:
  assumes "vpath_ok p"
  shows "VPath_parse (to_wire p) = Inr p"
proof -
  have s: "scheme_ok (scheme p)" and a: "pred_option authority_ok (authority p)"
    and segs: "seg.path_ok (segments p)"
    using assms by (auto simp: vpath_ok_def list_all_path_ok)
  have auth: "(if (case authority p of Some a \<Rightarrow> a | None \<Rightarrow> []) = [] then Inr None
      else and_then (Authority_new (case authority p of Some a \<Rightarrow> a | None \<Rightarrow> [])) (\<lambda>a. Inr (Some a)))
    = Inr (authority p)"
    using a by (auto simp: authority_ok_not_Nil authority_ok_def split: option.splits)
  show ?thesis
    unfolding VPath_parse_def to_wire_alt split_scheme [OF s]
    using s auth by (simp add: scheme_ok_def split_authority [OF a] parse_segments_eq
        seg.parse_print_path [OF segs])
qed

lemma to_wire_inj: "vpath_ok p \<Longrightarrow> vpath_ok q \<Longrightarrow> to_wire p = to_wire q \<Longrightarrow> p = q"
  by (metis VPath_parse_to_wire_ok sum.inject(2))

lemma to_wire_bytes:
  assumes "vpath_ok p" "x \<in> set (to_wire p)"
  shows "32 \<le> u8 x \<and> u8 x \<noteq> 127"
proof -
  have s: "scheme_ok (scheme p)" and a: "pred_option authority_ok (authority p)"
    using assms(1) by (auto simp: vpath_ok_def)
  from assms(2) consider "x \<in> set (scheme p)" | "x \<in> set ''://''" | "x \<in> set ''/''"
    | a where "authority p = Some a" "x \<in> set a"
    | seg where "x \<in> set (encode_segment seg)"
    using set_join_with [of "''/''" "map encode_segment (segments p)"]
    by (cases "authority p") (auto simp: to_wire_def write_prefix_def)
  then show ?thesis
  proof cases
    case 1
    with scheme_byte_range [OF scheme_ok_bytes [OF s]] show ?thesis by fastforce
  next
    case (4 b)
    with a authority_ok_bytes [of b x] show ?thesis by auto
  next
    case (5 seg)
    with encode_segment_plain [of seg] show ?thesis by auto
  qed auto
qed

lemma to_wire_utf8:
  assumes "vpath_ok p"
  shows "utf8_valid (to_wire p)"
proof -
  have s: "scheme_ok (scheme p)" and a: "pred_option authority_ok (authority p)"
    using assms by (auto simp: vpath_ok_def)
  have ascii: "utf8_valid (scheme p)" "utf8_valid ''://''" "utf8_valid ''/''"
    using scheme_byte_range [OF scheme_ok_bytes [OF s]]
    by (intro utf8_valid_ascii; fastforce)+
  have "utf8_valid (case authority p of Some a \<Rightarrow> a | None \<Rightarrow> [])"
    using a authority_ok_bytes by (cases "authority p") (force intro!: utf8_valid_ascii)+
  moreover have "utf8_valid (join_with ''/'' (map encode_segment ss))" for ss
  proof (induction ss)
    case (Cons x ss)
    with ascii(3) have "utf8_valid (''/'' @ join_with ''/'' (map encode_segment ss))"
      by (intro utf8_valid_append)
    then show ?case
      by (simp add: join_with_Cons encode_segment_utf8 utf8_valid_append del: from_utf8.simps)
  qed simp
  ultimately show ?thesis
    unfolding to_wire_def write_prefix_def using ascii by (intro utf8_valid_append)
qed

section \<open>The display form\<close>

lemma lossy_chars_not_Nil: "bs \<noteq> [] \<Longrightarrow> lossy_chars bs \<noteq> []"
  using concat_utf8_chars [of bs]
  by (auto simp: lossy_chars.simps [of bs] split: option.splits)

lemma lossy_chars_ascii:
  "c \<in> set (lossy_chars bs) \<Longrightarrow> x \<in> set c \<Longrightarrow> u8 x < 128 \<Longrightarrow> x \<in> set bs"
proof (induction bs rule: lossy_chars.induct)
  case (1 bs)
  have pre: "c \<in> set (utf8_chars s) \<Longrightarrow> utf8_valid s \<Longrightarrow> x \<in> set s" for s
    using concat_utf8_chars [of s] "1.prems"(2) by (metis UN_I set_concat)
  show ?case
  proof (cases "from_utf8 bs")
    case None
    with "1.prems" pre show ?thesis by (simp add: lossy_chars.simps [of bs])
  next
    case (Some p)
    then obtain v e where ve: "from_utf8 bs = Some (v, e)" by (cases p) auto
    have v: "utf8_valid (take v bs)" by (rule from_utf8_take_valid_up_to [OF ve])
    have "x \<notin> set replacement_char"
      using "1.prems"(3) by (auto simp: replacement_char_def)
    with ve "1.prems" consider "c \<in> set (utf8_chars (take v bs))"
      | k where "e = Some k" "c \<in> set (lossy_chars (drop (v + k) bs))"
      by (auto simp: lossy_chars.simps [of bs] split: option.splits)
    then show ?thesis
    proof cases
      case 1
      with pre v show ?thesis by (meson in_set_takeD)
    next
      case (2 k)
      with "1.IH" [OF ve refl 2(1)] "1.prems" show ?thesis by (meson in_set_dropD)
    qed
  qed
qed

lemma display_segment_plain:
  assumes "segment_ok s"
  shows "display_segment s \<noteq> []" "CHR ''/'' \<notin> set (display_segment s)"
proof -
  have s: "s \<noteq> []" "CHR ''/'' \<notin> set s" using assms by (auto simp: segment_ok_iff)
  let ?f = "\<lambda>c. if is_display_hazard (utf8_code c) then replacement_char else c"
  obtain c cs where c: "lossy_chars s = c # cs"
    using lossy_chars_not_Nil [OF s(1)] by (cases "lossy_chars s") auto
  then have "c \<noteq> []" using lossy_chars_ok [of c s] by (auto simp: utf8_char_ok_def)
  then have "?f c \<noteq> []" by (simp add: replacement_char_def)
  with c show "display_segment s \<noteq> []"
    by (simp add: display_segment_def)
  have "CHR ''/'' \<notin> set (?f d)" if "d \<in> set (lossy_chars s)" for d
    using lossy_chars_ascii [OF that, of "CHR ''/''"] s(2) by (auto simp: replacement_char_def)
  then show "CHR ''/'' \<notin> set (display_segment s)"
    unfolding display_segment_def set_concat set_map by blast
qed

lemma display_lossy_no_double:
  assumes "vpath_ok p"
  shows "no_double (CHR ''/'') (display_lossy p)"
proof -
  have s: "scheme_ok (scheme p)" and a: "pred_option authority_ok (authority p)"
    and segs: "list_all segment_ok (segments p)"
    using assms by (auto simp: vpath_ok_def)
  let ?pre = "[CHR 0xE2, CHR 0x9F, CHR 0xA8] @ scheme p @
     (case authority p of Some a \<Rightarrow> '' '' @ a | None \<Rightarrow> []) @ [CHR 0xE2, CHR 0x9F, CHR 0xA9]"
  let ?ps = "map display_segment (segments p)"
  have "CHR ''/'' \<notin> set ?pre"
    using scheme_byte_range [OF scheme_ok_bytes [OF s], of "CHR ''/''"] a
      authority_ok_bytes [of _ "CHR ''/''"]
    by (cases "authority p") auto
  then have pre: "no_double (CHR ''/'') ?pre" by (rule no_double_absent)
  have pre': "last ?pre \<noteq> CHR ''/''" "?pre \<noteq> []" by simp_all
  have ps: "\<And>q. q \<in> set ?ps \<Longrightarrow> q \<noteq> [] \<and> CHR ''/'' \<notin> set q"
    using segs display_segment_plain by (auto simp: list_all_iff)
  have "no_double (CHR ''/'') (''/'' @ join_with ''/'' ?ps)"
    using no_double_join_with [of ?ps, OF ps] by (subst no_double_append) (cases "segments p"; auto)
  with pre pre' have "no_double (CHR ''/'') (?pre @ ''/'' @ join_with ''/'' ?ps)"
    by (subst no_double_append) blast
  then show ?thesis by (simp add: display_lossy_def)
qed

lemma display_lossy_no_scheme:
  assumes "vpath_ok p"
  shows "split_once ''://'' (display_lossy p) = None"
proof (rule split_once_None)
  fix u v
  show "display_lossy p \<noteq> u @ ''://'' @ v"
    using display_lossy_no_double [OF assms] no_doubleD [of "CHR ''/''" "u @ '':''" v] by auto
qed

section \<open>Relative paths\<close>

lemma strip_root_Some_iff: "strip_root rs xs = Some rest \<longleftrightarrow> xs = rs @ rest"
  by (induction rs xs rule: strip_root.induct) auto

lemma try_map_Segment_new: "list_all segment_ok xs \<Longrightarrow> try_map Segment_new xs = Inr xs"
  using try_map_map_Inr [of xs Segment_new id] by (auto simp: list_all_iff segment_ok_def)

lemma RelPath_under_Some_iff:
  assumes "vpath_ok path"
  shows "RelPath_under root path = Some r \<longleftrightarrow> path = join_all root r"
proof -
  have "list_all segment_ok rest" if "strip_root (segments root) (segments path) = Some rest" for rest
    using assms that by (simp add: strip_root_Some_iff vpath_ok_def)
  then have "RelPath_under root path = Some r \<longleftrightarrow>
      scheme path = scheme root \<and> authority path = authority root \<and>
      strip_root (segments root) (segments path) = Some r"
    by (auto simp: RelPath_under_def try_map_Segment_new split: option.splits)
  also have "\<dots> \<longleftrightarrow> path = join_all root r"
    by (cases path; cases root) (auto simp: strip_root_Some_iff join_all_def)
  finally show ?thesis .
qed

lemma RelPath_wire_eq: "RelPath_to_wire r = seg.print_path r" "RelPath_parse_wire w = seg.parse_path w"
  by (simp_all add: RelPath_to_wire_def RelPath_parse_wire_def seg.print_path_def seg.parse_path_def)

lemma RelPath_parse_to_wire_ok: "rel_ok r \<Longrightarrow> RelPath_parse_wire (RelPath_to_wire r) = Inr r"
  by (simp add: RelPath_wire_eq rel_ok_def list_all_path_ok seg.parse_print_path)

lemma RelPath_parse_wire_ok: "RelPath_parse_wire w = Inr r \<Longrightarrow> rel_ok r"
  by (simp add: RelPath_wire_eq rel_ok_def list_all_path_ok seg.parse_path_ok)

section \<open>Archive paths\<close>

lemma scheme_format_prefix_SomeD:
  assumes "scheme_format_prefix s = Some f"
  shows "f \<in> set ARCHIVE_FORMATS" "s = f @ CHR ''+'' # drop (length f + 1) s"
proof -
  have f: "f \<in> set ARCHIVE_FORMATS" "length f < length s" "s ! length f = CHR ''+''" "prefix f s"
    using max_by_key_SomeD [OF assms [unfolded scheme_format_prefix_def]] by auto
  show "f \<in> set ARCHIVE_FORMATS" by (rule f(1))
  have "s = take (length f) s @ s ! length f # drop (Suc (length f)) s"
    using f(2) by (rule id_take_nth_drop)
  moreover have "take (length f) s = f"
    using f(4) by (auto simp: prefix_def)
  ultimately show "s = f @ CHR ''+'' # drop (length f + 1) s"
    using f(3) by simp
qed

lemma format_scheme_bytes:
  assumes "f \<in> set ARCHIVE_FORMATS"
  shows "f \<noteq> []" "is_ascii_lowercase (hd f)" "list_all scheme_byte f"
  using assms by (auto simp: ARCHIVE_FORMATS_def scheme_byte_def is_ascii_lowercase_def is_ascii_digit_def)

lemma scheme_ok_compose:
  assumes "f \<in> set ARCHIVE_FORMATS" "scheme_ok s"
  shows "scheme_ok (f @ CHR ''+'' # s)"
proof -
  have "list_all scheme_byte s"
    using scheme_ok_bytes [OF assms(2)] by (simp add: list_all_iff)
  moreover obtain x xs where "f = x # xs" "is_ascii_lowercase x"
    using format_scheme_bytes(1,2) [OF assms(1)] by (cases f) auto
  ultimately show ?thesis
    using format_scheme_bytes(3) [OF assms(1)]
    by (simp add: scheme_ok_def Scheme_new_def scheme_byte_def)
qed

lemma archive_split_None_iff:
  "archive_split p = Inr None \<longleftrightarrow> scheme_format_prefix (scheme p) = None"
  by (auto simp: archive_split_def Let_def and_then_Inr_iff split: option.splits)

lemma archive_split_SomeD:
  assumes "archive_split p = Inr (Some r)"
  shows
    "scheme_format_prefix (scheme p) = Some (ar_format r)"
    "scheme p = ar_format r @ CHR ''+'' # scheme (ar_outer r)"
    "scheme_ok (scheme (ar_outer r))"
    "authority (ar_outer r) = authority p"
    "segments p = segments (ar_outer r) @ MARKER # ar_inner r"
    "if scheme_format_prefix (scheme (ar_outer r)) \<noteq> None
     then MARKER \<notin> set (ar_inner r) else MARKER \<notin> set (segments (ar_outer r))"
proof -
  obtain f where f: "scheme_format_prefix (scheme p) = Some f"
    using assms by (cases "scheme_format_prefix (scheme p)") (auto simp: archive_split_def)
  let ?s = "drop (length f + 1) (scheme p)"
  from assms f obtain pos where
      pos: "(if scheme_format_prefix ?s \<noteq> None then rposition (\<lambda>s. s = MARKER) (segments p)
        else position (\<lambda>s. s = MARKER) (segments p)) = Some pos"
    and ok: "scheme_ok ?s"
    and r: "r = \<lparr>ar_format = f, ar_outer = \<lparr>scheme = ?s, authority = authority p,
        segments = take pos (segments p)\<rparr>, ar_inner = drop (pos + 1) (segments p)\<rparr>"
    by (auto simp: archive_split_def Let_def and_then_Inr_iff Scheme_new_Inr)
  have "pos < length (segments p)" "segments p ! pos = MARKER"
    using pos by (auto split: if_splits dest: position_SomeD rposition_SomeD)
  then have "segments p = take pos (segments p) @ MARKER # drop (Suc pos) (segments p)"
    using id_take_nth_drop by metis
  moreover have "if scheme_format_prefix ?s \<noteq> None
      then MARKER \<notin> set (drop (Suc pos) (segments p)) else MARKER \<notin> set (take pos (segments p))"
    using pos by (auto split: if_splits dest: position_SomeD rposition_SomeD)
  ultimately show "scheme_format_prefix (scheme p) = Some (ar_format r)"
    "scheme p = ar_format r @ CHR ''+'' # scheme (ar_outer r)"
    "scheme_ok (scheme (ar_outer r))"
    "authority (ar_outer r) = authority p"
    "segments p = segments (ar_outer r) @ MARKER # ar_inner r"
    "if scheme_format_prefix (scheme (ar_outer r)) \<noteq> None
     then MARKER \<notin> set (ar_inner r) else MARKER \<notin> set (segments (ar_outer r))"
    using f ok scheme_format_prefix_SomeD(2) [OF f] by (simp_all add: r)
qed

text \<open>The path that composition builds, and what splitting it gives.\<close>

definition composed_path :: "bytes \<Rightarrow> vpath \<Rightarrow> bytes list \<Rightarrow> vpath" where
  "composed_path format outer inner =
     \<lparr>scheme = format @ CHR ''+'' # scheme outer, authority = authority outer,
      segments = segments outer @ MARKER # inner\<rparr>"

lemma archive_split_composed:
  assumes "scheme_ok (scheme outer)"
    and "scheme_format_prefix (format @ CHR ''+'' # scheme outer) = Some format"
    and "MARKER \<notin> set inner"
    and "scheme_format_prefix (scheme outer) = None \<Longrightarrow> MARKER \<notin> set (segments outer)"
  shows "archive_split (composed_path format outer inner) =
    Inr (Some \<lparr>ar_format = format, ar_outer = outer, ar_inner = inner\<rparr>)"
proof -
  have "position (\<lambda>s. s = MARKER) (segments outer @ MARKER # inner) = Some (length (segments outer))"
    if "scheme_format_prefix (scheme outer) = None"
    using assms(4) [OF that] by (intro position_middle) auto
  moreover have "rposition (\<lambda>s. s = MARKER) (segments outer @ MARKER # inner) =
      Some (length (segments outer))"
    using assms(3) by (intro rposition_middle) auto
  ultimately show ?thesis
    using assms(1,2) by (cases "scheme_format_prefix (scheme outer)")
      (simp_all add: archive_split_def composed_path_def Let_def scheme_ok_def)
qed

lemma archive_compose_Inr_iff:
  assumes "scheme_ok (scheme outer)"
  shows "archive_compose format outer inner = Inr c \<longleftrightarrow>
    format \<in> set ARCHIVE_FORMATS \<and> is_ok (archive_split outer) \<and>
    scheme_format_prefix (format @ CHR ''+'' # scheme outer) = Some format \<and>
    MARKER \<notin> set inner \<and> (archive_split outer = Inr None \<longrightarrow> MARKER \<notin> set (segments outer)) \<and>
    c = composed_path format outer inner"
    (is "_ \<longleftrightarrow> ?rhs")
proof (cases "archive_split outer")
  case (Inl e)
  then show ?thesis by (simp add: archive_compose_def)
next
  case (Inr sp)
  have none: "sp = None \<longleftrightarrow> scheme_format_prefix (scheme outer) = None"
    using archive_split_None_iff [of outer] Inr by auto
  let ?guards = "format \<in> set ARCHIVE_FORMATS \<and>
    scheme_format_prefix (format @ CHR ''+'' # scheme outer) = Some format \<and>
    MARKER \<notin> set inner \<and> (sp = None \<longrightarrow> MARKER \<notin> set (segments outer))"
  show ?thesis
  proof (cases ?guards)
    case True
    then have ok: "scheme_ok (format @ CHR ''+'' # scheme outer)"
      using assms by (auto intro: scheme_ok_compose)
    have "archive_split (composed_path format outer inner) =
        Inr (Some \<lparr>ar_format = format, ar_outer = outer, ar_inner = inner\<rparr>)"
      using True none by (intro archive_split_composed assms) auto
    with True Inr none ok have "archive_compose format outer inner =
        Inr (composed_path format outer inner)"
      by (cases sp) (simp_all add: archive_compose_def scheme_ok_def composed_path_def Let_def)
    with True Inr show ?thesis by auto
  next
    case False
    then consider "format \<notin> set ARCHIVE_FORMATS"
      | "scheme_format_prefix (format @ CHR ''+'' # scheme outer) \<noteq> Some format"
      | "MARKER \<in> set inner" | "sp = None" "MARKER \<in> set (segments outer)"
      by blast
    then have "archive_compose format outer inner = Inl ArchiveAddressing"
      using Inr by cases (simp_all add: archive_compose_def Let_def)
    with False Inr show ?thesis by auto
  qed
qed

lemma archive_compose_Inl:
  assumes "scheme_ok (scheme outer)" "archive_compose format outer inner = Inl e"
  shows "e = ArchiveAddressing"
proof (cases "format \<in> set ARCHIVE_FORMATS")
  case True
  then have "Scheme_new (format @ CHR ''+'' # scheme outer) = Inr (format @ CHR ''+'' # scheme outer)"
    using scheme_ok_compose [OF _ assms(1)] by (simp add: scheme_ok_def)
  with assms(2) show ?thesis
    by (simp add: archive_compose_def Let_def split: sum.splits option.splits if_splits)
next
  case False
  with assms(2) show ?thesis by (simp add: archive_compose_def)
qed

lemma vpath_ok_composed:
  assumes "vpath_ok outer" "list_all segment_ok inner" "format \<in> set ARCHIVE_FORMATS"
  shows "vpath_ok (composed_path format outer inner)"
  using assms scheme_ok_compose [OF assms(3)]
  by (auto simp: vpath_ok_def composed_path_def MARKER_def segment_ok_iff)

lemma vpath_ok_archive_split:
  assumes "vpath_ok p" "archive_split p = Inr (Some r)"
  shows "vpath_ok (ar_outer r)" "list_all segment_ok (ar_inner r)"
  using assms(1) archive_split_SomeD [OF assms(2)] by (auto simp: vpath_ok_def)

lemma archive_compose_split_ok:
  assumes "archive_split p = Inr (Some r)"
    and "MARKER \<notin> set (ar_inner r)"
    and "is_ok (archive_split (ar_outer r))"
  shows "archive_compose (ar_format r) (ar_outer r) (ar_inner r) = Inr p"
proof -
  note r = archive_split_SomeD [OF assms(1)]
  have "p = composed_path (ar_format r) (ar_outer r) (ar_inner r)"
    using r(2,4,5) by (cases p) (simp add: composed_path_def)
  moreover have "ar_format r \<in> set ARCHIVE_FORMATS"
    using scheme_format_prefix_SomeD(1) [OF r(1)] .
  ultimately show ?thesis
    using r(1,2,3,6) assms(2,3)
    by (simp add: archive_compose_Inr_iff archive_split_None_iff split: if_splits)
qed

section \<open>Properties\<close>

text \<open>Two concrete paths: a file with a non-UTF-8 name on an SFTP host, and an entry of an archive
  inside another archive.\<close>

definition sample_remote :: vpath where
  "sample_remote = \<lparr>scheme = ''sftp'', authority = Some ''ana@host:22'',
     segments = [''my docs'', [CHR ''a'', CHR 0xFF, CHR ''%'']]\<rparr>"

definition sample_zip :: vpath where
  "sample_zip = \<lparr>scheme = ''zip+file'', authority = None,
     segments = [''home'', ''a.zip'', ''!'', ''b.tar'']\<rparr>"

lemma sample_remote_ok: "vpath_ok sample_remote"
  by code_simp

lemma sample_zip_ok: "vpath_ok sample_zip"
  by code_simp

text \<open>C6: the wire form of a well-formed path parses back to the same path: scheme, authority and
  every segment, whatever bytes the segments hold.\<close>

theorem vpath_wire_roundtrip:
  assumes "vpath_ok p"
  shows "VPath_parse (to_wire p) = Inr p"
  by (rule VPath_parse_to_wire_ok [OF assms])

theorem vpath_wire_roundtrip_witness:
  "vpath_ok sample_remote \<and> VPath_parse (to_wire sample_remote) = Inr sample_remote"
  using vpath_wire_roundtrip [OF sample_remote_ok] sample_remote_ok by simp

text \<open>C23: a path accepted from the wire can neither climb nor smuggle: no segment is empty, a dot
  segment, or holds a NUL or a slash (also when they were percent-encoded), and the authority has
  no inline password.\<close>

theorem vpath_parse_traversal_free:
  assumes "VPath_parse wire = Inr p"
  shows "list_all (\<lambda>s. s \<noteq> [] \<and> s \<noteq> ''.'' \<and> s \<noteq> ''..'' \<and> CHR ''/'' \<notin> set s \<and> CHR 0x00 \<notin> set s)
      (segments p) \<and>
    (\<forall>user pw host. authority p \<noteq> Some (user @ '':'' @ pw @ ''@'' @ host))"
proof (intro conjI allI)
  have ok: "vpath_ok p" by (rule VPath_parse_ok [OF assms])
  then show "list_all (\<lambda>s. s \<noteq> [] \<and> s \<noteq> ''.'' \<and> s \<noteq> ''..'' \<and> CHR ''/'' \<notin> set s \<and> CHR 0x00 \<notin> set s)
      (segments p)"
    by (auto simp: vpath_ok_def segment_ok_iff list_all_iff)
  show "authority p \<noteq> Some (user @ '':'' @ pw @ ''@'' @ host)" for user pw host
    using ok authority_ok_no_password [of user pw host] by (auto simp: vpath_ok_def)
qed

theorem vpath_parse_traversal_free_witness:
  "VPath_parse ''sftp://ana@host/x%25'' =
      Inr \<lparr>scheme = ''sftp'', authority = Some ''ana@host'', segments = [''x%'']\<rparr> \<and>
   (\<forall>user pw host. Some ''ana@host'' \<noteq> Some (user @ '':'' @ pw @ ''@'' @ host))"
proof -
  have w: "VPath_parse ''sftp://ana@host/x%25'' =
      Inr \<lparr>scheme = ''sftp'', authority = Some ''ana@host'', segments = [''x%'']\<rparr>"
    by code_simp
  with vpath_parse_traversal_free [OF w] show ?thesis by simp
qed

text \<open>The wire form of a well-formed path is valid UTF-8 without control bytes, whatever bytes
  the segments hold: it can travel inside a JSON line.\<close>

theorem vpath_wire_clean:
  assumes "vpath_ok p"
  shows "utf8_valid (to_wire p) \<and> (\<forall>x \<in> set (to_wire p). 32 \<le> u8 x \<and> u8 x \<noteq> 127)"
  using to_wire_utf8 [OF assms] to_wire_bytes [OF assms] by simp

theorem vpath_wire_clean_witness:
  "utf8_valid (to_wire sample_remote) \<and> CHR 0x00 \<notin> set (to_wire sample_remote)"
  using vpath_wire_clean [OF sample_remote_ok] by force

text \<open>The lossy display form is never a wire form: parsing it always fails for want of a
  scheme, so text copied from the screen cannot be taken for a path.\<close>

theorem display_never_parses:
  assumes "vpath_ok p"
  shows "VPath_parse (display_lossy p) = Inl MissingScheme"
  by (simp add: VPath_parse_def display_lossy_no_scheme [OF assms])

theorem display_never_parses_witness:
  "VPath_parse (display_lossy sample_remote) = Inl MissingScheme"
  by (rule display_never_parses [OF sample_remote_ok])

text \<open>The relative path of a path under a root is exactly what joins back to it, and its wire
  form parses back to it.\<close>

theorem rel_path_under_join_all:
  assumes "vpath_ok path"
  shows "(RelPath_under root path = Some r \<longleftrightarrow> path = join_all root r) \<and>
    (RelPath_under root path = Some r \<longrightarrow> RelPath_parse_wire (RelPath_to_wire r) = Inr r)"
proof -
  have eq: "RelPath_under root path = Some r \<longleftrightarrow> path = join_all root r"
    by (rule RelPath_under_Some_iff [OF assms])
  have "rel_ok r" if "RelPath_under root path = Some r"
    using assms that eq by (auto simp: vpath_ok_def join_all_def rel_ok_def)
  with eq show ?thesis by (simp add: RelPath_parse_to_wire_ok)
qed

theorem rel_path_under_join_all_witness:
  "RelPath_under (VPath_root ''sftp'' (Some ''ana@host:22'')) sample_remote =
     Some (segments sample_remote) \<and>
   RelPath_parse_wire (RelPath_to_wire (segments sample_remote)) = Inr (segments sample_remote)"
proof -
  have "sample_remote = join_all (VPath_root ''sftp'' (Some ''ana@host:22'')) (segments sample_remote)"
    by (simp add: sample_remote_def join_all_def VPath_root_def)
  with rel_path_under_join_all [OF sample_remote_ok,
      of "VPath_root ''sftp'' (Some ''ana@host:22'')" "segments sample_remote"]
  show ?thesis by simp
qed

text \<open>C24: composing an archive path succeeds exactly when the format is known, the outer path is
  itself well addressed, the composed scheme reads back as that format and no segment collides
  with the marker; it gives the path with the marker between outer and inner, and the final
  re-split check of the code never rejects what the earlier guards admit.\<close>

theorem archive_compose_complete:
  assumes "vpath_ok outer" "list_all segment_ok inner"
  shows "archive_compose format outer inner =
    (if format \<in> set ARCHIVE_FORMATS \<and> is_ok (archive_split outer) \<and>
        scheme_format_prefix (format @ ''+'' @ scheme outer) = Some format \<and>
        MARKER \<notin> set inner \<and> (archive_split outer = Inr None \<longrightarrow> MARKER \<notin> set (segments outer))
     then Inr \<lparr>scheme = format @ ''+'' @ scheme outer, authority = authority outer,
            segments = segments outer @ [MARKER] @ inner\<rparr>
     else Inl ArchiveAddressing)"
proof -
  have ok: "scheme_ok (scheme outer)" using assms(1) by (simp add: vpath_ok_def)
  note iff = archive_compose_Inr_iff [OF ok, of format inner]
  show ?thesis
  proof (cases "archive_compose format outer inner")
    case (Inl e)
    have "e = ArchiveAddressing"
      using Inl by (rule archive_compose_Inl [OF ok])
    with Inl iff show ?thesis by (auto simp: composed_path_def)
  next
    case (Inr c)
    with iff [of c] show ?thesis by (simp add: composed_path_def)
  qed
qed

theorem archive_compose_complete_witness:
  "archive_compose ''tar'' sample_zip [''x''] =
     Inr \<lparr>scheme = ''tar+zip+file'', authority = None,
        segments = [''home'', ''a.zip'', ''!'', ''b.tar'', ''!'', ''x'']\<rparr>"
proof -
  have g: "is_ok (archive_split sample_zip)" "archive_split sample_zip \<noteq> Inr None"
    "scheme_format_prefix (''tar'' @ ''+'' @ scheme sample_zip) = Some ''tar''"
    "''tar'' \<in> set ARCHIVE_FORMATS"
    by code_simp+
  have "list_all segment_ok [''x'']" by code_simp
  from archive_compose_complete [OF sample_zip_ok this, of "''tar''"] g show ?thesis
    by (simp add: sample_zip_def MARKER_def)
qed

text \<open>Splitting what composition built gives back format, outer path and inner segments, and
  the composed path is well formed, so nested archives unwrap layer by layer.\<close>

theorem archive_split_inverts_compose:
  assumes "vpath_ok outer" "list_all segment_ok inner"
    and "archive_compose format outer inner = Inr c"
  shows "archive_split c = Inr (Some \<lparr>ar_format = format, ar_outer = outer, ar_inner = inner\<rparr>) \<and>
    vpath_ok c \<and> scheme_archive_format (scheme c) = Some format"
proof -
  have ok: "scheme_ok (scheme outer)" using assms(1) by (simp add: vpath_ok_def)
  note c = assms(3) [unfolded archive_compose_Inr_iff [OF ok]]
  have "archive_split outer = Inr None" if "scheme_format_prefix (scheme outer) = None"
    using that by (simp add: archive_split_None_iff)
  then have "archive_split c = Inr (Some \<lparr>ar_format = format, ar_outer = outer, ar_inner = inner\<rparr>)"
    using c ok by (auto intro!: archive_split_composed)
  moreover have "vpath_ok c" using c assms(1,2) by (auto intro: vpath_ok_composed)
  ultimately show ?thesis
    using c by (simp add: scheme_archive_format_def composed_path_def)
qed

theorem archive_split_inverts_compose_witness:
  "\<exists>c. archive_compose ''tar+gz'' sample_remote [''x''] = Inr c \<and>
     archive_split c = Inr (Some \<lparr>ar_format = ''tar+gz'', ar_outer = sample_remote, ar_inner = [''x'']\<rparr>)"
proof -
  have "is_ok (archive_compose ''tar+gz'' sample_remote [''x''])" by code_simp
  then obtain c where c: "archive_compose ''tar+gz'' sample_remote [''x''] = Inr c"
    by (auto simp: is_ok_iff)
  have "list_all segment_ok [''x'']" by code_simp
  from archive_split_inverts_compose [OF sample_remote_ok this c] c show ?thesis by blast
qed

end
