(* ===== verification/Policy.thy ===== *)
theory Policy
  imports Vpath
begin

text \<open>
  The policy engine (\<^verbatim>\<open>norte-core/src/policy.rs\<close>, \<^verbatim>\<open>policy/config.rs\<close>) and the gates that
  consult it: \<^verbatim>\<open>PolicyChecker::check\<close>, \<^verbatim>\<open>journal_gate\<close> and \<^verbatim>\<open>gate\<close> of \<^verbatim>\<open>engine.rs\<close>,
  \<^verbatim>\<open>read_gate\<close> and \<^verbatim>\<open>content_gate\<close> of \<^verbatim>\<open>daemon/server.rs\<close> and the transient scope of
  \<^verbatim>\<open>hooks.rs\<close>. An \<^verbatim>\<open>Instant\<close> is a natural number (seconds) and every operation that reads the clock takes
  \<open>now\<close>; the registry behind its lock is a record that the operations return updated; the
  directories the process finds in its environment are parameters. The interface \<open>boundary_gate\<close>
  collects what the three verdicts of the registry share, and \<open>policy_gate\<close> is the trait of the
  engine's gate.
\<close>

section \<open>Actors and operations\<close>

datatype actor = User | Agent bytes | Plugin bytes

fun actor_parts :: "actor \<Rightarrow> bytes \<times> bytes option" where
  "actor_parts User = (''user'', None)"
| "actor_parts (Agent s) = (''agent'', Some s)"
| "actor_parts (Plugin i) = (''plugin'', Some i)"

datatype delete_mode = Trash | Permanent

datatype policy_op =
    Copy
  | Move
  | Delete delete_mode
  | Mkdir
  | Create
  | SetMode nat bool "nat option"

fun op_kind :: "policy_op \<Rightarrow> bytes" where
  "op_kind Copy = ''copy''"
| "op_kind Move = ''move''"
| "op_kind (Delete _) = ''delete''"
| "op_kind Mkdir = ''mkdir''"
| "op_kind Create = ''create''"
| "op_kind (SetMode _ _ _) = ''set-mode''"

type_synonym op_set = "bytes set"

definition OpSet_all :: op_set where
  "OpSet_all = set [''copy'', ''move'', ''delete'', ''mkdir'', ''create'', ''set-mode'']"

definition OpSet_of :: "bytes list \<Rightarrow> op_set" where
  "OpSet_of kinds = set kinds"

definition OpSet_from_names :: "bytes list \<Rightarrow> op_set" where
  "OpSet_from_names names = set (filter (\<lambda>n. n \<in> OpSet_all) names)"

definition op_allows :: "op_set \<Rightarrow> policy_op \<Rightarrow> bool" where
  "op_allows ops op \<longleftrightarrow> op_kind op \<in> ops"

section \<open>Scopes and the registry\<close>

type_synonym instant = nat

record scope =
  roots :: "vpath list"
  ops :: op_set
  expires_at :: "instant option"

definition Scope_forever :: "vpath list \<Rightarrow> op_set \<Rightarrow> scope" where
  "Scope_forever rs os = \<lparr>roots = rs, ops = os, expires_at = None\<rparr>"

definition is_expired :: "scope \<Rightarrow> instant \<Rightarrow> bool" where
  "is_expired s now \<longleftrightarrow> (case expires_at s of None \<Rightarrow> False | Some e \<Rightarrow> e \<le> now)"

definition is_under :: "vpath \<Rightarrow> vpath \<Rightarrow> bool" where
  "is_under root path \<longleftrightarrow> RelPath_under root path \<noteq> None"

text \<open>Native directories: whether the path is absolute, and its components (their bytes are the
  ones \<^verbatim>\<open>os_to_bytes\<close> gives).\<close>

datatype path_component = RootDir | Prefix bytes | Normal bytes | CurDir | ParentDir

record os_path =
  is_absolute :: bool
  components :: "path_component list"

fun push_components :: "vpath \<Rightarrow> path_component list \<Rightarrow> vpath option" where
  "push_components out [] = Some out"
| "push_components out (RootDir # cs) = push_components out cs"
| "push_components out (Prefix bs # cs) =
     (case Segment_new bs of Inl _ \<Rightarrow> None | Inr s \<Rightarrow> push_components (VPath_join out s) cs)"
| "push_components out (Normal bs # cs) =
     (case Segment_new bs of Inl _ \<Rightarrow> None | Inr s \<Rightarrow> push_components (VPath_join out s) cs)"
| "push_components out (CurDir # cs) = None"
| "push_components out (ParentDir # cs) = None"

definition local_root_vpath :: "os_path \<Rightarrow> vpath option" where
  "local_root_vpath dir =
     (if \<not> is_absolute dir then None
      else case Scheme_new ''file'' of
        Inl _ \<Rightarrow> None
      | Inr s \<Rightarrow> push_components (VPath_root s None) (components dir))"

text \<open>\<open>config_dir\<close> and \<open>state_dir\<close> stand for \<^verbatim>\<open>connect::config_dir()\<close> and
  \<^verbatim>\<open>norte_config::dirs::state_dir()\<close>.\<close>

definition daemon_state_root :: "os_path \<Rightarrow> vpath option" where
  "daemon_state_root config_dir = local_root_vpath config_dir"

definition ui_state_root :: "os_path option \<Rightarrow> vpath option" where
  "ui_state_root state_dir = Option.bind state_dir local_root_vpath"

definition protected_roots :: "os_path \<Rightarrow> os_path option \<Rightarrow> vpath list" where
  "protected_roots config_dir state_dir =
     (case daemon_state_root config_dir of None \<Rightarrow> [] | Some r \<Rightarrow> [r]) @
     (case ui_state_root state_dir of None \<Rightarrow> [] | Some r \<Rightarrow> [r])"

definition walk_exclusions :: "os_path \<Rightarrow> os_path option \<Rightarrow> actor \<Rightarrow> vpath list" where
  "walk_exclusions config_dir state_dir actor =
     (case actor of User \<Rightarrow> [] | _ \<Rightarrow> protected_roots config_dir state_dir)"

datatype scope_verdict = Within | OutOfScope | Expired

record scope_registry =
  granted :: "bytes \<rightharpoonup> scope list"
  protected :: "vpath list"

definition with_protected_roots :: "vpath list \<Rightarrow> scope_registry" where
  "with_protected_roots rs = \<lparr>granted = Map.empty, protected = rs\<rparr>"

definition ScopeRegistry_new :: "os_path \<Rightarrow> os_path option \<Rightarrow> scope_registry" where
  "ScopeRegistry_new config_dir state_dir = with_protected_roots (protected_roots config_dir state_dir)"

definition is_protected :: "scope_registry \<Rightarrow> vpath \<Rightarrow> bool" where
  "is_protected reg path \<longleftrightarrow> list_ex (\<lambda>r. is_under r path) (protected reg)"

definition grant :: "instant \<Rightarrow> bytes \<Rightarrow> scope \<Rightarrow> scope_registry \<Rightarrow> scope_registry" where
  "grant now session scope reg =
     (let entry = (case granted reg session of None \<Rightarrow> [] | Some ss \<Rightarrow> ss);
          entry = filter (\<lambda>s. \<not> is_expired s now) entry @ [scope]
      in reg\<lparr>granted := (granted reg)(session \<mapsto> entry)\<rparr>)"

definition revoke_all :: "bytes \<Rightarrow> scope_registry \<Rightarrow> scope_registry" where
  "revoke_all session reg = reg\<lparr>granted := (granted reg)(session := None)\<rparr>"

definition covers_path :: "scope \<Rightarrow> vpath \<Rightarrow> bool" where
  "covers_path s path \<longleftrightarrow> list_ex (\<lambda>r. is_under r path) (roots s)"

text \<open>The three loops over the scopes of a session, with their order of tests.\<close>

fun permits_loop :: "policy_op \<Rightarrow> vpath \<Rightarrow> instant \<Rightarrow> bool \<Rightarrow> scope list \<Rightarrow> scope_verdict" where
  "permits_loop op path now saw_expired [] = (if saw_expired then Expired else OutOfScope)"
| "permits_loop op path now saw_expired (s # ss) =
     (if is_expired s now then permits_loop op path now True ss
      else if op_allows (ops s) op \<and> covers_path s path then Within
      else permits_loop op path now saw_expired ss)"

definition permits :: "scope_registry \<Rightarrow> bytes \<Rightarrow> policy_op \<Rightarrow> vpath \<Rightarrow> instant \<Rightarrow> scope_verdict" where
  "permits reg session op path now =
     (if is_protected reg path then OutOfScope
      else case granted reg session of
        None \<Rightarrow> OutOfScope
      | Some scopes \<Rightarrow> permits_loop op path now False scopes)"

fun covers_read_loop :: "vpath \<Rightarrow> instant \<Rightarrow> bool \<Rightarrow> scope list \<Rightarrow> scope_verdict" where
  "covers_read_loop path now saw_expired [] = (if saw_expired then Expired else OutOfScope)"
| "covers_read_loop path now saw_expired (s # ss) =
     (if \<not> covers_path s path then covers_read_loop path now saw_expired ss
      else if is_expired s now then covers_read_loop path now True ss
      else Within)"

definition covers_read :: "scope_registry \<Rightarrow> bytes \<Rightarrow> vpath \<Rightarrow> instant \<Rightarrow> scope_verdict" where
  "covers_read reg session path now =
     (if is_protected reg path then OutOfScope
      else case granted reg session of
        None \<Rightarrow> OutOfScope
      | Some scopes \<Rightarrow> covers_read_loop path now False scopes)"

fun covers_content_loop :: "vpath \<Rightarrow> instant \<Rightarrow> bool \<Rightarrow> scope list \<Rightarrow> scope_verdict" where
  "covers_content_loop path now saw_expired [] = (if saw_expired then Expired else OutOfScope)"
| "covers_content_loop path now saw_expired (s # ss) =
     (if \<not> covers_path s path then covers_content_loop path now saw_expired ss
      else if \<not> (op_allows (ops s) Copy \<or> op_allows (ops s) Move)
        then covers_content_loop path now saw_expired ss
      else if is_expired s now then covers_content_loop path now True ss
      else Within)"

definition covers_content :: "scope_registry \<Rightarrow> bytes \<Rightarrow> vpath \<Rightarrow> instant \<Rightarrow> scope_verdict" where
  "covers_content reg session path now =
     (if is_protected reg path then OutOfScope
      else case granted reg session of
        None \<Rightarrow> OutOfScope
      | Some scopes \<Rightarrow> covers_content_loop path now False scopes)"

section \<open>Rules and decisions\<close>

datatype deny_reason = DenyOutOfScope | ScopeExpired | PolicyRule | NoRule | NotApproved

fun rule_id :: "deny_reason \<Rightarrow> bytes" where
  "rule_id DenyOutOfScope = ''out-of-scope''"
| "rule_id ScopeExpired = ''scope-expired''"
| "rule_id PolicyRule = ''policy-rule''"
| "rule_id NoRule = ''no-rule''"
| "rule_id NotApproved = ''not-approved''"

datatype decision = Allow | Ask | Deny deny_reason

datatype rule_action = RuleAllow | RuleAsk | RuleDeny

record rule =
  rule_op :: "bytes option"
  path_prefix :: "bytes option"
  rule_scheme :: "bytes option"
  rule_actor :: "bytes option"
  action :: rule_action

fun is_none_or :: "('a \<Rightarrow> bool) \<Rightarrow> 'a option \<Rightarrow> bool" where
  "is_none_or P None = True"
| "is_none_or P (Some x) = P x"

definition rule_matches :: "rule \<Rightarrow> bytes \<Rightarrow> policy_op \<Rightarrow> vpath \<Rightarrow> bool" where
  "rule_matches r actor_kind op path \<longleftrightarrow>
     is_none_or (\<lambda>k. k = op_kind op) (rule_op r) \<and>
     is_none_or (\<lambda>a. a = actor_kind) (rule_actor r) \<and>
     is_none_or (\<lambda>s. s = scheme path) (rule_scheme r) \<and>
     is_none_or (\<lambda>pre. case VPath_parse pre of Inl _ \<Rightarrow> False | Inr root \<Rightarrow> is_under root path)
       (path_prefix r)"

fun rank :: "decision \<Rightarrow> nat" where
  "rank (Deny _) = 2"
| "rank Ask = 1"
| "rank Allow = 0"

definition more_restrictive :: "decision \<Rightarrow> decision \<Rightarrow> decision" where
  "more_restrictive a b = (if rank b > rank a then b else a)"

type_synonym policy_config = "rule list"

datatype policy_config_error = Toml | BadPrefix bytes

text \<open>\<open>from_toml\<close> stands for the TOML library.\<close>

fun check_prefixes :: "rule list \<Rightarrow> policy_config_error + unit" where
  "check_prefixes [] = Inr ()"
| "check_prefixes (r # rs) =
     (case path_prefix r of
        Some pre \<Rightarrow> if is_ok (VPath_parse pre) then check_prefixes rs else Inl (BadPrefix pre)
      | None \<Rightarrow> check_prefixes rs)"

definition PolicyConfig_parse :: "(bytes \<Rightarrow> policy_config option) \<Rightarrow> bytes \<Rightarrow>
    policy_config_error + policy_config" where
  "PolicyConfig_parse from_toml s =
     (case from_toml s of
        None \<Rightarrow> Inl Toml
      | Some cfg \<Rightarrow> and_then (check_prefixes cfg) (\<lambda>_. Inr cfg))"

fun rule_decision :: "rule_action \<Rightarrow> decision" where
  "rule_decision RuleAllow = Allow"
| "rule_decision RuleAsk = Ask"
| "rule_decision RuleDeny = Deny PolicyRule"

fun decide_one :: "policy_config \<Rightarrow> bytes \<Rightarrow> policy_op \<Rightarrow> vpath \<Rightarrow> decision" where
  "decide_one [] actor_kind op path = Deny NoRule"
| "decide_one (r # rs) actor_kind op path =
     (if rule_matches r actor_kind op path then rule_decision (action r)
      else decide_one rs actor_kind op path)"

definition config_decide :: "policy_config \<Rightarrow> actor \<Rightarrow> policy_op \<Rightarrow> vpath list \<Rightarrow> decision" where
  "config_decide cfg actor op paths =
     (if paths = [] then Deny NoRule
      else fold (\<lambda>path acc. more_restrictive acc (decide_one cfg (fst (actor_parts actor)) op path))
        paths Allow)"

definition scope_key :: "actor \<Rightarrow> bytes option" where
  "scope_key actor =
     (case actor of User \<Rightarrow> None | Agent s \<Rightarrow> Some s | Plugin i \<Rightarrow> Some (''plugin:'' @ i))"

fun boundary :: "scope_registry \<Rightarrow> bytes \<Rightarrow> policy_op \<Rightarrow> instant \<Rightarrow> vpath list \<Rightarrow> deny_reason option" where
  "boundary reg session op now [] = None"
| "boundary reg session op now (path # paths) =
     (case permits reg session op path now of
        Within \<Rightarrow> boundary reg session op now paths
      | OutOfScope \<Rightarrow> Some DenyOutOfScope
      | Expired \<Rightarrow> Some ScopeExpired)"

definition AllowAll_evaluate :: "actor \<Rightarrow> policy_op \<Rightarrow> vpath list \<Rightarrow> decision" where
  "AllowAll_evaluate actor op paths = Allow"

definition ScopedPolicy_evaluate :: "scope_registry \<Rightarrow> policy_config \<Rightarrow> instant \<Rightarrow>
    actor \<Rightarrow> policy_op \<Rightarrow> vpath list \<Rightarrow> decision" where
  "ScopedPolicy_evaluate reg cfg now actor op paths =
     (case scope_key actor of
        None \<Rightarrow> Allow
      | Some session \<Rightarrow>
          (case boundary reg session op now paths of
             Some reason \<Rightarrow> Deny reason
           | None \<Rightarrow>
               (case config_decide cfg actor op paths of
                  Deny NoRule \<Rightarrow> (case actor of Plugin _ \<Rightarrow> Allow | _ \<Rightarrow> Deny NoRule)
                | d \<Rightarrow> d)))"

definition valid_agent_session :: "bytes \<Rightarrow> bool" where
  "valid_agent_session s \<longleftrightarrow> 1 \<le> length s \<and> length s \<le> 64 \<and> s \<noteq> ''.'' \<and> s \<noteq> ''..'' \<and>
     list_all (\<lambda>b. 48 \<le> u8 b \<and> u8 b \<le> 57 \<or> 65 \<le> u8 b \<and> u8 b \<le> 90 \<or> 97 \<le> u8 b \<and> u8 b \<le> 122 \<or>
       b \<in> {CHR ''.'', CHR ''_'', CHR ''-''}) s"

section \<open>The gates of the engine and of the daemon\<close>

datatype engine_error = PolicyDenied bytes | JournalUnavailable

datatype approval_outcome = Approved | Denied | TimedOut

record approval_request =
  req_actor :: actor
  req_op :: policy_op
  req_paths :: "bytes list"
  paths_total :: nat

definition APPROVAL_PATHS_SHOWN :: nat where
  "APPROVAL_PATHS_SHOWN = 32"

definition span_path :: "vpath \<Rightarrow> bytes" where
  "span_path p =
     (case authority p of
        Some a \<Rightarrow>
          if (case rposition (\<lambda>b. b = CHR ''@'') a of Some i \<Rightarrow> CHR '':'' \<in> set (take i a) | None \<Rightarrow> False)
          then ''<'' @ scheme p @ '' ***>'' else display_lossy p
      | None \<Rightarrow> display_lossy p)"

text \<open>\<^verbatim>\<open>PolicyChecker::check\<close>: \<open>evaluate\<close> is the installed gate and \<open>resolve\<close> what the approval
  resolver answers.\<close>

definition policy_check :: "(actor \<Rightarrow> policy_op \<Rightarrow> vpath list \<Rightarrow> decision) \<Rightarrow>
    (approval_request \<Rightarrow> approval_outcome) \<Rightarrow> actor \<Rightarrow> policy_op \<Rightarrow> vpath list \<Rightarrow> engine_error + unit" where
  "policy_check evaluate resolve actor op paths =
     (case evaluate actor op paths of
        Allow \<Rightarrow> Inr ()
      | Deny reason \<Rightarrow> Inl (PolicyDenied (rule_id reason))
      | Ask \<Rightarrow>
          (case actor of
             Plugin _ \<Rightarrow> Inl (PolicyDenied (rule_id NotApproved))
           | _ \<Rightarrow>
               (case resolve \<lparr>req_actor = actor, req_op = op,
                    req_paths = map span_path (take APPROVAL_PATHS_SHOWN paths),
                    paths_total = length paths\<rparr> of
                  Approved \<Rightarrow> Inr ()
                | Denied \<Rightarrow> Inl (PolicyDenied (rule_id NotApproved))
                | TimedOut \<Rightarrow> Inl (PolicyDenied (rule_id NotApproved)))))"

datatype journal_open = Opened | Busy | Failed

datatype journal_source = NoJournalSource | OpenJournal | LazyJournal

definition journal_gate :: "journal_source \<Rightarrow> journal_open \<Rightarrow> engine_error + unit" where
  "journal_gate source resolved =
     (case source of
        LazyJournal \<Rightarrow> (case resolved of Failed \<Rightarrow> Inl JournalUnavailable | _ \<Rightarrow> Inr ())
      | _ \<Rightarrow> Inr ())"

definition engine_gate :: "(actor \<Rightarrow> policy_op \<Rightarrow> vpath list \<Rightarrow> decision) \<Rightarrow>
    (approval_request \<Rightarrow> approval_outcome) \<Rightarrow> journal_source \<Rightarrow> journal_open \<Rightarrow>
    actor \<Rightarrow> policy_op \<Rightarrow> vpath list \<Rightarrow> engine_error + unit" where
  "engine_gate evaluate resolve source resolved actor op paths =
     and_then (policy_check evaluate resolve actor op paths) (\<lambda>_. journal_gate source resolved)"

definition verdict_reason :: "scope_verdict \<Rightarrow> deny_reason option" where
  "verdict_reason v =
     (case v of Within \<Rightarrow> None | Expired \<Rightarrow> Some ScopeExpired | OutOfScope \<Rightarrow> Some DenyOutOfScope)"

definition read_gate :: "scope_registry \<Rightarrow> instant \<Rightarrow> actor \<Rightarrow> vpath \<Rightarrow> engine_error + unit" where
  "read_gate reg now actor path =
     (case (case actor of
              User \<Rightarrow> None
            | Agent session \<Rightarrow> verdict_reason (covers_read reg session path now)
            | _ \<Rightarrow> Some DenyOutOfScope) of
        Some reason \<Rightarrow> Inl (PolicyDenied (rule_id reason))
      | None \<Rightarrow> Inr ())"

definition content_gate :: "scope_registry \<Rightarrow> instant \<Rightarrow> actor \<Rightarrow> vpath \<Rightarrow> engine_error + unit" where
  "content_gate reg now actor path =
     (case (case actor of
              User \<Rightarrow> None
            | Agent session \<Rightarrow> verdict_reason (covers_content reg session path now)
            | _ \<Rightarrow> Some DenyOutOfScope) of
        Some reason \<Rightarrow> Inl (PolicyDenied (rule_id reason))
      | None \<Rightarrow> Inr ())"

fun read_gate_all :: "scope_registry \<Rightarrow> instant \<Rightarrow> actor \<Rightarrow> vpath list \<Rightarrow> engine_error + unit" where
  "read_gate_all reg now actor [] = Inr ()"
| "read_gate_all reg now actor (p # ps) =
     and_then (read_gate reg now actor p) (\<lambda>_. read_gate_all reg now actor ps)"

section \<open>The transient scope of a plugin's write\<close>

text \<open>\<^verbatim>\<open>apply_write\<close> of \<^verbatim>\<open>hooks.rs\<close>. The writer holds the daemon's registry (\<open>scopes\<close>, when there is
  one) and the rules of an embedded engine (\<open>policy\<close>); \<open>write_file_as\<close> stands for the engine's
  operation, which sees the registry as it is during the call. The result is the plugin to tell
  about, and the registry after the call.\<close>

datatype on_exists = Refuse | Replace

record pending_write =
  plugin_id :: bytes
  write_parent :: vpath
  write_path :: vpath
  write_content :: bytes
  write_on_exists :: on_exists

record sidecar_writer =
  engine_alive :: bool
  scopes :: "scope_registry option"
  embedded_policy :: "policy_config option"

datatype write_result = Queued_write | Denied_write | Failed_write

definition SIDECAR_SCOPE_TTL :: nat where
  "SIDECAR_SCOPE_TTL = 5"

fun embedded_denies :: "policy_config \<Rightarrow> actor \<Rightarrow> vpath \<Rightarrow> policy_op list \<Rightarrow> bool" where
  "embedded_denies cfg actor path [] = False"
| "embedded_denies cfg actor path (op # os) =
     (case config_decide cfg actor op [path] of
        Allow \<Rightarrow> embedded_denies cfg actor path os
      | Deny NoRule \<Rightarrow> embedded_denies cfg actor path os
      | Deny _ \<Rightarrow> True
      | Ask \<Rightarrow> True)"

definition sidecar_ops :: "on_exists \<Rightarrow> policy_op list" where
  "sidecar_ops oe = (case oe of Replace \<Rightarrow> [Create, Delete Trash] | Refuse \<Rightarrow> [Create])"

definition apply_write :: "(scope_registry option \<Rightarrow> actor \<Rightarrow> pending_write \<Rightarrow> write_result) \<Rightarrow>
    instant \<Rightarrow> sidecar_writer option \<Rightarrow> pending_write \<Rightarrow> bytes option \<times> scope_registry option" where
  "apply_write write_file_as now writer w =
     (case writer of
        None \<Rightarrow> (None, None)
      | Some wr \<Rightarrow>
          if \<not> engine_alive wr then (None, scopes wr)
          else
            let actor = Plugin (plugin_id w) in
            if scopes wr = None \<and>
               (case embedded_policy wr of
                  None \<Rightarrow> False
                | Some cfg \<Rightarrow> embedded_denies cfg actor (write_path w) (sidecar_ops (write_on_exists w)))
            then (Some (plugin_id w), scopes wr)
            else
              let key = scope_key actor;
                  during = (case (scopes wr, key) of
                      (Some reg, Some k) \<Rightarrow> Some (grant now k
                        \<lparr>roots = [write_parent w], ops = OpSet_of [''create'', ''delete''],
                         expires_at = Some (now + SIDECAR_SCOPE_TTL)\<rparr> reg)
                    | _ \<Rightarrow> scopes wr);
                  queued = write_file_as during actor w;
                  after = (case (during, key) of
                      (Some reg, Some k) \<Rightarrow> Some (revoke_all k reg)
                    | _ \<Rightarrow> during)
              in (case queued of
                    Queued_write \<Rightarrow> None
                  | Denied_write \<Rightarrow> Some (plugin_id w)
                  | Failed_write \<Rightarrow> None, after))"

section \<open>What the three verdicts share\<close>

lemma list_ex_is_under_iff: "covers_path s path \<longleftrightarrow> (\<exists>r \<in> set (roots s). is_under r path)"
  by (simp add: covers_path_def list_ex_iff)

definition live_scopes :: "scope_registry \<Rightarrow> bytes \<Rightarrow> instant \<Rightarrow> scope list" where
  "live_scopes reg session now =
     filter (\<lambda>s. \<not> is_expired s now) (case granted reg session of None \<Rightarrow> [] | Some ss \<Rightarrow> ss)"

lemma permits_loop_Within:
  "permits_loop op path now saw ss = Within \<longleftrightarrow>
     (\<exists>s \<in> set ss. \<not> is_expired s now \<and> op_allows (ops s) op \<and> covers_path s path)"
  by (induction ss arbitrary: saw) auto

lemma permits_loop_Expired:
  "permits_loop op path now saw ss = Expired \<longleftrightarrow>
     (\<forall>s \<in> set ss. is_expired s now \<or> \<not> (op_allows (ops s) op \<and> covers_path s path)) \<and>
     (saw \<or> (\<exists>s \<in> set ss. is_expired s now))"
  by (induction ss arbitrary: saw) auto

lemma covers_read_loop_Within:
  "covers_read_loop path now saw ss = Within \<longleftrightarrow>
     (\<exists>s \<in> set ss. \<not> is_expired s now \<and> covers_path s path)"
  by (induction ss arbitrary: saw) auto

lemma covers_content_loop_Within:
  "covers_content_loop path now saw ss = Within \<longleftrightarrow>
     (\<exists>s \<in> set ss. \<not> is_expired s now \<and>
        (op_allows (ops s) Copy \<or> op_allows (ops s) Move) \<and> covers_path s path)"
  by (induction ss arbitrary: saw) auto

lemma is_expired_mono: "is_expired s now \<Longrightarrow> now \<le> later \<Longrightarrow> is_expired s later"
  by (auto simp: is_expired_def split: option.splits)

lemma live_scopes_grant_same:
  assumes "now \<le> later"
  shows "set (live_scopes (grant now session sc reg) session later) =
    set (live_scopes reg session later) \<union> (if is_expired sc later then {} else {sc})"
  using is_expired_mono [OF _ assms] by (auto simp: live_scopes_def grant_def)

lemma live_scopes_grant_other:
  "session \<noteq> other \<Longrightarrow> live_scopes (grant now session sc reg) other later = live_scopes reg other later"
  by (simp add: live_scopes_def grant_def)

lemma live_scopes_revoke_all:
  "live_scopes (revoke_all session reg) other now = (if other = session then [] else live_scopes reg other now)"
  by (simp add: live_scopes_def revoke_all_def)

lemma protected_kept [simp]:
  "protected (grant now session sc reg) = protected reg"
  "protected (revoke_all session reg) = protected reg"
  by (simp_all add: grant_def revoke_all_def)

text \<open>Any use of the registry is a sequence of grants and revocations.\<close>

datatype registry_call = Grant instant bytes scope | RevokeAll bytes

fun registry_step :: "registry_call \<Rightarrow> scope_registry \<Rightarrow> scope_registry" where
  "registry_step (Grant now session sc) reg = grant now session sc reg"
| "registry_step (RevokeAll session) reg = revoke_all session reg"

lemma protected_steps [simp]: "protected (fold registry_step calls reg) = protected reg"
proof (induction calls arbitrary: reg)
  case (Cons c calls)
  then show ?case by (cases c) simp_all
qed simp

text \<open>A boundary verdict: \<open>Within\<close> means that the path is not protected and that a live scope of the
  session satisfies the gate's test, which implies that a root of the scope contains the path.\<close>

locale boundary_gate =
  fixes verdict :: "scope_registry \<Rightarrow> bytes \<Rightarrow> vpath \<Rightarrow> instant \<Rightarrow> scope_verdict"
    and admits :: "scope \<Rightarrow> vpath \<Rightarrow> bool"
  assumes Within_iff: "verdict reg session path now = Within \<longleftrightarrow>
      \<not> is_protected reg path \<and> (\<exists>s \<in> set (live_scopes reg session now). admits s path)"
    and protected_out: "is_protected reg path \<Longrightarrow> verdict reg session path now = OutOfScope"
    and admits_covers: "admits s path \<Longrightarrow> covers_path s path"
begin

lemma protected_always_out:
  assumes "is_protected reg path"
  shows "verdict (fold registry_step calls reg) session path now = OutOfScope"
  by (rule protected_out) (use assms in \<open>simp add: is_protected_def\<close>)

lemma Within_root:
  assumes "verdict reg session path now = Within"
  shows "\<exists>s \<in> set (live_scopes reg session now). \<exists>r \<in> set (roots s). is_under r path"
  using assms admits_covers unfolding Within_iff list_ex_is_under_iff [symmetric] by blast

lemma grant_same_session:
  assumes "now \<le> later"
  shows "verdict (grant now session sc reg) session path later = Within \<longleftrightarrow>
    verdict reg session path later = Within \<or>
    \<not> is_protected reg path \<and> \<not> is_expired sc later \<and> admits sc path"
  unfolding Within_iff live_scopes_grant_same [OF assms] is_protected_def by auto

lemma grant_other_session:
  assumes "session \<noteq> other"
  shows "verdict (grant now session sc reg) other path later = Within \<longleftrightarrow>
    verdict reg other path later = Within"
  unfolding Within_iff live_scopes_grant_other [OF assms] is_protected_def by simp

lemma revoke_all_not_Within: "verdict (revoke_all session reg) session path now \<noteq> Within"
  unfolding Within_iff by (simp add: live_scopes_revoke_all)

lemma revoke_all_other_session:
  assumes "session \<noteq> other"
  shows "verdict (revoke_all session reg) other path now = Within \<longleftrightarrow>
    verdict reg other path now = Within"
  unfolding Within_iff is_protected_def using assms by (simp add: live_scopes_revoke_all)

lemma Within_earlier:
  assumes "verdict reg session path later = Within" "now \<le> later"
  shows "verdict reg session path now = Within"
  using assms is_expired_mono [OF _ assms(2)] unfolding Within_iff by (auto simp: live_scopes_def)

end

interpretation permits: boundary_gate "\<lambda>reg session path now. permits reg session op path now"
    "\<lambda>s path. op_allows (ops s) op \<and> covers_path s path" for op
  by unfold_locales
    (auto simp: permits_def live_scopes_def permits_loop_Within split: option.splits)

interpretation reads: boundary_gate covers_read covers_path
  by unfold_locales
    (auto simp: covers_read_def live_scopes_def covers_read_loop_Within split: option.splits)

interpretation content: boundary_gate covers_content
    "\<lambda>s path. (op_allows (ops s) Copy \<or> op_allows (ops s) Move) \<and> covers_path s path"
  by unfold_locales
    (auto simp: covers_content_def live_scopes_def covers_content_loop_Within split: option.splits)

section \<open>Decisions\<close>

lemma more_restrictive_Allow_iff: "more_restrictive a b = Allow \<longleftrightarrow> a = Allow \<and> b = Allow"
  by (cases a; cases b) (auto simp: more_restrictive_def)

lemma rank_more_restrictive: "rank (more_restrictive a b) = max (rank a) (rank b)"
  by (simp add: more_restrictive_def)

lemma rank_le_2: "rank d \<le> 2"
  by (cases d) auto

lemma fold_more_restrictive_Allow:
  "fold (\<lambda>p acc. more_restrictive acc (f p)) ps d = Allow \<longleftrightarrow> d = Allow \<and> (\<forall>p \<in> set ps. f p = Allow)"
  by (induction ps arbitrary: d) (auto simp: more_restrictive_Allow_iff)

lemma fold_more_restrictive_bounds:
  "rank d \<le> rank (fold (\<lambda>p acc. more_restrictive acc (f p)) ps d) \<and>
   (\<forall>p \<in> set ps. rank (f p) \<le> rank (fold (\<lambda>p acc. more_restrictive acc (f p)) ps d))"
proof (induction ps arbitrary: d)
  case (Cons a ps)
  from Cons.IH [of "more_restrictive d (f a)"] show ?case
    by (auto simp: rank_more_restrictive)
qed simp

lemma fold_more_restrictive_attained:
  "fold (\<lambda>p acc. more_restrictive acc (f p)) ps d \<in> insert d (f ` set ps)"
proof (induction ps arbitrary: d)
  case (Cons a ps)
  from Cons.IH [of "more_restrictive d (f a)"] show ?case
    by (auto simp: more_restrictive_def split: if_splits)
qed simp

lemma config_decide_Allow:
  "config_decide cfg actor op paths = Allow \<longleftrightarrow>
     paths \<noteq> [] \<and> (\<forall>p \<in> set paths. decide_one cfg (fst (actor_parts actor)) op p = Allow)"
  by (auto simp: config_decide_def fold_more_restrictive_Allow)

lemma boundary_None: "boundary reg session op now paths = None \<longleftrightarrow>
    (\<forall>p \<in> set paths. permits reg session op p now = Within)"
  by (induction paths) (auto split: scope_verdict.splits)

lemma scope_key_None: "scope_key actor = None \<longleftrightarrow> actor = User"
  by (cases actor) (auto simp: scope_key_def)

lemma scoped_boundary_denies:
  assumes "scope_key actor = Some session" "p \<in> set paths" "permits reg session op p now \<noteq> Within"
  shows "\<exists>reason. ScopedPolicy_evaluate reg cfg now actor op paths = Deny reason"
proof -
  have "boundary reg session op now paths \<noteq> None"
    using assms(2,3) unfolding boundary_None by blast
  with assms(1) show ?thesis by (auto simp: ScopedPolicy_evaluate_def)
qed

text \<open>The trait of the engine's gate: the human is never sandboxed.\<close>

locale policy_gate =
  fixes evaluate :: "actor \<Rightarrow> policy_op \<Rightarrow> vpath list \<Rightarrow> decision"
  assumes user_allowed: "evaluate User op paths = Allow"
begin

lemma check_user: "policy_check evaluate resolve User op paths = Inr ()"
  by (simp add: policy_check_def user_allowed)

lemma check_ok_iff:
  "policy_check evaluate resolve actor op paths = Inr () \<longleftrightarrow>
     evaluate actor op paths = Allow \<or>
     evaluate actor op paths = Ask \<and> (\<forall>i. actor \<noteq> Plugin i) \<and>
       resolve \<lparr>req_actor = actor, req_op = op,
         req_paths = map span_path (take APPROVAL_PATHS_SHOWN paths), paths_total = length paths\<rparr> = Approved"
  by (auto simp: policy_check_def split: decision.splits actor.splits approval_outcome.splits)

lemma gate_ok_iff:
  "engine_gate evaluate resolve source resolved actor op paths = Inr () \<longleftrightarrow>
     policy_check evaluate resolve actor op paths = Inr () \<and>
     \<not> (source = LazyJournal \<and> resolved = Failed)"
  by (auto simp: engine_gate_def journal_gate_def and_then_Inr_iff
      split: journal_source.splits journal_open.splits)

lemma gate_denied:
  assumes "evaluate actor op paths = Deny reason"
  shows "engine_gate evaluate resolve source resolved actor op paths = Inl (PolicyDenied (rule_id reason))"
  using assms by (simp add: engine_gate_def policy_check_def)

end

interpretation allow_all: policy_gate AllowAll_evaluate
  by unfold_locales (simp add: AllowAll_evaluate_def)

interpretation scoped: policy_gate "ScopedPolicy_evaluate reg cfg now" for reg cfg now
  by unfold_locales (simp add: ScopedPolicy_evaluate_def scope_key_def)

lemma valid_agent_session_no_colon: "valid_agent_session s \<Longrightarrow> CHR '':'' \<notin> set s"
  by (auto simp: valid_agent_session_def list_all_iff)

lemma scope_key_agent_plugin:
  "valid_agent_session s \<Longrightarrow> scope_key (Agent s) \<noteq> scope_key (Plugin i)"
  using valid_agent_session_no_colon [of s] by (auto simp: scope_key_def)

lemma is_under_iff: "vpath_ok path \<Longrightarrow> is_under root path \<longleftrightarrow> (\<exists>r. path = join_all root r)"
  unfolding is_under_def by (metis RelPath_under_Some_iff not_Some_eq)

fun component_bytes :: "path_component \<Rightarrow> bytes list" where
  "component_bytes (Prefix bs) = [bs]"
| "component_bytes (Normal bs) = [bs]"
| "component_bytes _ = []"

lemma push_components_Some:
  "push_components out cs = Some v \<Longrightarrow>
     v = join_all out (concat (map component_bytes cs)) \<and>
     list_all segment_ok (concat (map component_bytes cs)) \<and> CurDir \<notin> set cs \<and> ParentDir \<notin> set cs"
  by (induction out cs rule: push_components.induct)
    (auto simp: join_all_def VPath_join_def Segment_new_Inr split: sum.splits)

section \<open>Properties\<close>

text \<open>A small configuration: a home directory with its protected state directory.\<close>

definition home :: vpath where
  "home = \<lparr>scheme = ''file'', authority = None, segments = [''home'', ''u'']\<rparr>"

definition home_config :: os_path where
  "home_config = \<lparr>is_absolute = True, components = [RootDir, Normal ''home'', Normal ''u'', Normal ''norte'']\<rparr>"

definition journal_file :: vpath where
  "journal_file = home\<lparr>segments := [''home'', ''u'', ''norte'', ''journal.db'']\<rparr>"

definition home_grant :: registry_call where
  "home_grant = Grant 0 ''claude'' (Scope_forever [home] OpSet_all)"

definition allow_agents :: rule where
  "allow_agents = \<lparr>rule_op = None, path_prefix = Some ''file:///home/u'', rule_scheme = None,
     rule_actor = Some ''agent'', action = RuleAllow\<rparr>"

text \<open>C3: whatever scopes are granted and revoked, nothing at or under a directory the process
  protects is ever reachable by an agent or a plugin: the engine's gate refuses every operation
  that touches it, with the rules and approvals one likes, and so do the gates for reading.\<close>

theorem protected_roots_unreachable:
  assumes "root \<in> set (protected_roots config_dir state_dir)" "is_under root p"
    and "actor \<noteq> User" "p \<in> set paths"
  shows "let reg = fold registry_step calls (ScopeRegistry_new config_dir state_dir) in
    (\<exists>reason. engine_gate (ScopedPolicy_evaluate reg cfg now) resolve source resolved actor op paths =
       Inl (PolicyDenied (rule_id reason))) \<and>
    read_gate reg now actor p = Inl (PolicyDenied ''out-of-scope'') \<and>
    content_gate reg now actor p = Inl (PolicyDenied ''out-of-scope'')"
proof -
  let ?reg = "fold registry_step calls (ScopeRegistry_new config_dir state_dir)"
  have prot: "is_protected (ScopeRegistry_new config_dir state_dir) p"
    using assms(1,2) by (auto simp: is_protected_def ScopeRegistry_new_def with_protected_roots_def list_ex_iff)
  obtain session where key: "scope_key actor = Some session"
    using assms(3) by (cases "scope_key actor") (auto simp: scope_key_None)
  have "permits ?reg session op p now = OutOfScope"
    by (rule permits.protected_always_out [OF prot])
  then obtain reason where "ScopedPolicy_evaluate ?reg cfg now actor op paths = Deny reason"
    using scoped_boundary_denies [OF key assms(4)] by fastforce
  from scoped.gate_denied [OF this] reads.protected_always_out [OF prot]
    content.protected_always_out [OF prot] assms(3)
  show ?thesis
    by (auto simp: read_gate_def content_gate_def verdict_reason_def Let_def split: actor.splits)
qed

theorem protected_roots_unreachable_witness:
  "let reg = fold registry_step [home_grant] (ScopeRegistry_new home_config None) in
    (\<exists>reason. engine_gate (ScopedPolicy_evaluate reg [allow_agents] 0) (\<lambda>_. Approved) OpenJournal Opened
       (Agent ''claude'') (Delete Trash) [journal_file] = Inl (PolicyDenied (rule_id reason))) \<and>
    read_gate reg 0 (Agent ''claude'') journal_file = Inl (PolicyDenied ''out-of-scope'') \<and>
    content_gate reg 0 (Agent ''claude'') journal_file = Inl (PolicyDenied ''out-of-scope'')"
proof (rule protected_roots_unreachable)
  show "home\<lparr>segments := [''home'', ''u'', ''norte'']\<rparr> \<in> set (protected_roots home_config None)"
    "is_under (home\<lparr>segments := [''home'', ''u'', ''norte'']\<rparr>) journal_file"
    by code_simp+
qed simp_all

text \<open>C20: an agent's operation passes without a question exactly when there is at least one path and
  every path is unprotected, inside a live scope of the agent's session that grants the operation,
  and allowed by the first rule that matches it. In every other case it is asked or denied.\<close>

theorem agent_allow_iff:
  "ScopedPolicy_evaluate reg cfg now (Agent session) op paths = Allow \<longleftrightarrow>
     paths \<noteq> [] \<and>
     (\<forall>p \<in> set paths. \<not> is_protected reg p \<and>
        (\<exists>s \<in> set (live_scopes reg session now). op_allows (ops s) op \<and> covers_path s p) \<and>
        decide_one cfg ''agent'' op p = Allow)"
proof -
  have "ScopedPolicy_evaluate reg cfg now (Agent session) op paths = Allow \<longleftrightarrow>
      boundary reg session op now paths = None \<and> config_decide cfg (Agent session) op paths = Allow"
    by (auto simp: ScopedPolicy_evaluate_def scope_key_def
        split: option.splits decision.splits deny_reason.splits)
  then show ?thesis
    unfolding boundary_None config_decide_Allow permits.Within_iff by auto
qed

theorem agent_allow_iff_witness:
  "ScopedPolicy_evaluate (fold registry_step [home_grant] (ScopeRegistry_new home_config None))
     [allow_agents] 0 (Agent ''claude'') Mkdir [home] = Allow"
proof -
  have "\<not> is_protected (fold registry_step [home_grant] (ScopeRegistry_new home_config None)) home"
    "Scope_forever [home] OpSet_all \<in>
       set (live_scopes (fold registry_step [home_grant] (ScopeRegistry_new home_config None)) ''claude'' 0)"
    "op_allows (ops (Scope_forever [home] OpSet_all)) Mkdir" "covers_path (Scope_forever [home] OpSet_all) home"
    "decide_one [allow_agents] ''agent'' Mkdir home = Allow"
    by code_simp+
  then show ?thesis unfolding agent_allow_iff by auto
qed

text \<open>the rules decide for a list of paths by the most restrictive of the decisions for each:
  the result is the decision of one of the paths and none of them is stricter.\<close>

theorem config_decide_most_restrictive:
  assumes "paths \<noteq> []"
  shows "(\<exists>p \<in> set paths. config_decide cfg actor op paths = decide_one cfg (fst (actor_parts actor)) op p) \<and>
    (\<forall>p \<in> set paths. rank (decide_one cfg (fst (actor_parts actor)) op p) \<le>
       rank (config_decide cfg actor op paths))"
proof -
  let ?f = "decide_one cfg (fst (actor_parts actor)) op"
  have eq: "config_decide cfg actor op paths = fold (\<lambda>p acc. more_restrictive acc (?f p)) paths Allow"
    using assms by (simp add: config_decide_def)
  have "\<exists>p \<in> set paths. config_decide cfg actor op paths = ?f p"
  proof (cases "config_decide cfg actor op paths = Allow")
    case True
    with assms show ?thesis by (cases paths) (auto simp: config_decide_Allow)
  next
    case False
    with fold_more_restrictive_attained [of ?f paths Allow] show ?thesis unfolding eq by auto
  qed
  moreover have "\<forall>p \<in> set paths. rank (?f p) \<le> rank (config_decide cfg actor op paths)"
    unfolding eq using fold_more_restrictive_bounds [of Allow ?f paths] by blast
  ultimately show ?thesis by blast
qed

theorem config_decide_most_restrictive_witness:
  "2 \<le> rank (config_decide [allow_agents] (Agent ''claude'') Copy [home, VPath_root ''file'' None])"
proof -
  have "rank (decide_one [allow_agents] (fst (actor_parts (Agent ''claude''))) Copy (VPath_root ''file'' None)) = 2"
    by code_simp
  with config_decide_most_restrictive [of "[home, VPath_root ''file'' None]" "[allow_agents]"
      "Agent ''claude''" Copy] show ?thesis by simp
qed

text \<open>C21: the engine's gate lets an operation of an agent or a plugin through only if every path is
  unprotected and inside a live scope of that actor; if the rules ask, then only for an agent and
  only when the approval for exactly this operation was granted; and never with a journal that
  failed to open.\<close>

theorem engine_gate_sound:
  assumes "engine_gate (ScopedPolicy_evaluate reg cfg now) resolve source resolved actor op paths = Inr ()"
    and "scope_key actor = Some session"
  shows "(\<forall>p \<in> set paths. \<not> is_protected reg p \<and>
      (\<exists>s \<in> set (live_scopes reg session now). op_allows (ops s) op \<and> covers_path s p)) \<and>
    (ScopedPolicy_evaluate reg cfg now actor op paths = Allow \<or>
     (\<exists>agent. actor = Agent agent) \<and>
     resolve \<lparr>req_actor = actor, req_op = op,
       req_paths = map span_path (take APPROVAL_PATHS_SHOWN paths), paths_total = length paths\<rparr> = Approved) \<and>
    \<not> (source = LazyJournal \<and> resolved = Failed)"
proof -
  have chk: "policy_check (ScopedPolicy_evaluate reg cfg now) resolve actor op paths = Inr ()"
    and journal: "\<not> (source = LazyJournal \<and> resolved = Failed)"
    using assms(1) unfolding scoped.gate_ok_iff by blast+
  have "\<nexists>reason. ScopedPolicy_evaluate reg cfg now actor op paths = Deny reason"
    using chk unfolding scoped.check_ok_iff by auto
  then have "\<forall>p \<in> set paths. permits reg session op p now = Within"
    using scoped_boundary_denies [OF assms(2)] by blast
  moreover have "actor \<noteq> User" using assms(2) by (auto simp: scope_key_def)
  ultimately show ?thesis
    using chk journal unfolding scoped.check_ok_iff permits.Within_iff by (cases actor) auto
qed

theorem engine_gate_sound_witness:
  "\<not> is_protected (fold registry_step [home_grant] (ScopeRegistry_new home_config None)) home"
proof -
  have "engine_gate (ScopedPolicy_evaluate (fold registry_step [home_grant] (ScopeRegistry_new home_config None))
      [allow_agents] 0) (\<lambda>_. Denied) LazyJournal Busy (Agent ''claude'') Mkdir [home] = Inr ()"
    by code_simp
  from engine_gate_sound [OF this, of "''claude''"] show ?thesis by (simp add: scope_key_def)
qed

text \<open>Names of operations that arrive over the wire grant exactly the operations they name:
  every operation is grantable and an unknown name grants nothing.\<close>

theorem op_set_from_names_exact:
  "op_allows (OpSet_from_names names) op \<longleftrightarrow> op_kind op \<in> set names"
  by (cases op) (simp_all add: op_allows_def OpSet_from_names_def OpSet_all_def)

text \<open>After a plugin's write its transient scope is gone, so nothing is within its boundary, and
  no verdict of an agent with a valid session name has changed: agents and plugins do not share
  keys.\<close>

theorem apply_write_closes_scope:
  assumes "apply_write write_file_as now (Some wr) w = (told, Some reg')"
    and "engine_alive wr" "scopes wr = Some reg" "valid_agent_session agent"
  shows "(\<forall>op path t. permits reg' (''plugin:'' @ plugin_id w) op path t \<noteq> Within) \<and>
    (\<forall>op path t. permits reg' agent op path t = Within \<longleftrightarrow> permits reg agent op path t = Within)"
proof -
  let ?key = "''plugin:'' @ plugin_id w"
  obtain sc where reg': "reg' = revoke_all ?key (grant now ?key sc reg)"
    using assms(1-3) by (auto simp: apply_write_def Let_def scope_key_def)
  have "?key \<noteq> agent"
    using valid_agent_session_no_colon [OF assms(4)] by auto
  then show ?thesis
    unfolding reg' by (simp only: permits.revoke_all_other_session permits.grant_other_session
        permits.revoke_all_not_Within simp_thms)
qed

theorem apply_write_closes_scope_witness:
  "\<exists>reg'. (\<forall>op path t. permits reg' ''plugin:org.x'' op path t \<noteq> Within)"
proof -
  define wr where "wr = \<lparr>engine_alive = True, scopes = Some (with_protected_roots []), embedded_policy = None\<rparr>"
  define w where "w = \<lparr>plugin_id = ''org.x'', write_parent = home, write_path = journal_file,
    write_content = [], write_on_exists = Refuse\<rparr>"
  obtain told reg' where a: "apply_write (\<lambda>_ _ _. Queued_write) 0 (Some wr) w = (told, Some reg')"
    by (simp add: apply_write_def wr_def scope_key_def Let_def)
  have "valid_agent_session ''claude''" by code_simp
  from apply_write_closes_scope [OF a _ _ this] show ?thesis
    by (auto simp: wr_def w_def)
qed

text \<open>a grant admits what its roots and operations cover, less the protected paths, until it
  expires, besides what was admitted before; pruning the expired scopes on the way takes nothing
  away from any later moment.\<close>

theorem grant_effect:
  assumes "now \<le> later"
  shows "permits (grant now session sc reg) session op path later = Within \<longleftrightarrow>
    permits reg session op path later = Within \<or>
    \<not> is_protected reg path \<and> \<not> is_expired sc later \<and> op_allows (ops sc) op \<and> covers_path sc path"
  by (rule permits.grant_same_session [OF assms])

theorem grant_effect_witness:
  "permits (grant 3 ''a'' \<lparr>roots = [home], ops = OpSet_all, expires_at = Some 9\<rparr> (with_protected_roots []))
     ''a'' Mkdir home 8 = Within"
proof -
  have "\<not> is_protected (with_protected_roots []) home"
    "\<not> is_expired \<lparr>roots = [home], ops = OpSet_all, expires_at = Some 9\<rparr> 8"
    "op_allows (ops \<lparr>roots = [home], ops = OpSet_all, expires_at = Some 9\<rparr>) Mkdir"
    "covers_path \<lparr>roots = [home], ops = OpSet_all, expires_at = Some 9\<rparr> home"
    by code_simp+
  then show ?thesis by (subst grant_effect) simp_all
qed

text \<open>The root that stands for a native directory is a well-formed \<^verbatim>\<open>file\<close> path whose segments are
  the names of the directory byte for byte; relative paths and dot components have none.\<close>

theorem local_root_vpath_exact:
  assumes "local_root_vpath dir = Some v"
  shows "is_absolute dir \<and> vpath_ok v \<and> scheme v = ''file'' \<and> authority v = None \<and>
    segments v = concat (map component_bytes (components dir)) \<and>
    CurDir \<notin> set (components dir) \<and> ParentDir \<notin> set (components dir)"
proof -
  have sch: "Scheme_new ''file'' = Inr ''file''" by code_simp
  have "is_absolute dir" "push_components (VPath_root ''file'' None) (components dir) = Some v"
    using assms by (auto simp: local_root_vpath_def sch split: if_splits)
  with push_components_Some [OF this(2)] sch show ?thesis
    by (auto simp: join_all_def VPath_root_def vpath_ok_def scheme_ok_def)
qed

theorem local_root_vpath_exact_witness:
  "\<exists>v. local_root_vpath home_config = Some v \<and> segments v = [''home'', ''u'', ''norte'']"
proof -
  have "local_root_vpath home_config \<noteq> None" by code_simp
  then obtain v where v: "local_root_vpath home_config = Some v" by blast
  from local_root_vpath_exact [OF v] v show ?thesis by (simp add: home_config_def)
qed

text \<open>C25: a plugin's operation on two paths, the first without a rule and the second under a rule that
  denies, is allowed: the denial for want of a rule comes first, hides the denial of the rule and is
  then lifted for plugins.\<close>

theorem plugin_deny_rule_bypassed:
  "\<exists>reg cfg a b. decide_one cfg ''plugin'' Copy b = Deny PolicyRule \<and>
     ScopedPolicy_evaluate reg cfg 0 (Plugin ''org.x'') Copy [b] = Deny PolicyRule \<and>
     ScopedPolicy_evaluate reg cfg 0 (Plugin ''org.x'') Copy [b, a] = Deny PolicyRule \<and>
     ScopedPolicy_evaluate reg cfg 0 (Plugin ''org.x'') Copy [a, b] = Allow"
proof (intro exI conjI)
  let ?reg = "grant 0 ''plugin:org.x'' (Scope_forever [VPath_root ''file'' None] OpSet_all)
    (with_protected_roots [])"
  let ?cfg = "[allow_agents\<lparr>rule_actor := Some ''plugin'', action := RuleDeny\<rparr>]"
  show "decide_one ?cfg ''plugin'' Copy home = Deny PolicyRule"
    "ScopedPolicy_evaluate ?reg ?cfg 0 (Plugin ''org.x'') Copy [home] = Deny PolicyRule"
    "ScopedPolicy_evaluate ?reg ?cfg 0 (Plugin ''org.x'') Copy [home, VPath_root ''file'' None] = Deny PolicyRule"
    "ScopedPolicy_evaluate ?reg ?cfg 0 (Plugin ''org.x'') Copy [VPath_root ''file'' None, home] = Allow"
    by code_simp+
qed

end
