(* ===== verification/Approvals.thy ===== *)
theory Approvals
  imports Policy "HOL-Library.AList"
begin

text \<open>
  The approval router of the daemon (\<^verbatim>\<open>norte-core/src/daemon/approvals.rs\<close>). A request runs
  concurrently with the decisions of the frontends, so it is translated as the sequence of its
  atomic actions: number the request, register it under the lock, broadcast, wait, wake up or time
  out, drop the guard. \<open>step\<close> performs one action of one request, a decision or an installation of
  the broadcaster; a \<open>trace\<close> is any interleaving of such steps from a new resolver. The one-shot
  channel of a request is the field \<open>rq_channel\<close>, and its receiver is alive while the request is
  registered or waiting. Request ids are \<^verbatim>\<open>u64\<close> values that wrap around as \<^verbatim>\<open>fetch_add\<close> does.
\<close>

section \<open>State\<close>

definition MAX_PENDING_APPROVALS :: nat where
  "MAX_PENDING_APPROVALS = 256"

datatype approval_decision = Applied | DecisionExpired | YaDecided | Unknown

record approval_detail =
  detail_mode :: "nat option"
  detail_recursive :: bool
  detail_dir_mode :: "nat option"

record pending_entry =
  pe_session :: "bytes option"
  pe_op :: bytes
  pe_paths :: "bytes list"
  pe_paths_total :: nat
  pe_detail :: approval_detail

text \<open>Where a request is: numbered but not registered; registered; broadcast and waiting; its
  outcome known and the receiver gone; cancelled while waiting; finished (with the outcome, if it was
  not cancelled).\<close>

datatype phase =
    Numbered
  | Registered
  | Waiting
  | Settled approval_outcome
  | Abandoned
  | Done "approval_outcome option"

record request_state =
  rq_req :: approval_request
  rq_phase :: phase
  rq_channel :: "bool option"

record resolver =
  pending_map :: "(nat \<times> pending_entry) list"
  next_id :: nat
  first_id :: nat
  broadcaster :: bool
  requests :: "nat \<rightharpoonup> request_state"

definition resolver_new :: "nat \<Rightarrow> resolver" where
  "resolver_new seed = \<lparr>pending_map = [], next_id = seed, first_id = seed, broadcaster = False,
     requests = Map.empty\<rparr>"

section \<open>Operations\<close>

definition session_of :: "actor \<Rightarrow> bytes option" where
  "session_of actor = (case actor of User \<Rightarrow> None | Agent s \<Rightarrow> Some s | Plugin i \<Rightarrow> Some i)"

definition detail_of :: "policy_op \<Rightarrow> approval_detail" where
  "detail_of op =
     (case op of
        SetMode mode recursive dir_mode \<Rightarrow>
          \<lparr>detail_mode = Some mode, detail_recursive = recursive, detail_dir_mode = dir_mode\<rparr>
      | _ \<Rightarrow> \<lparr>detail_mode = None, detail_recursive = False, detail_dir_mode = None\<rparr>)"

definition entry_of :: "approval_request \<Rightarrow> pending_entry" where
  "entry_of req = \<lparr>pe_session = session_of (req_actor req), pe_op = op_kind (req_op req),
     pe_paths = req_paths req, pe_paths_total = paths_total req, pe_detail = detail_of (req_op req)\<rparr>"

definition set_phase :: "nat \<Rightarrow> request_state \<Rightarrow> phase \<Rightarrow> resolver \<Rightarrow> resolver" where
  "set_phase i r ph st = st\<lparr>requests := (requests st)(i \<mapsto> r\<lparr>rq_phase := ph\<rparr>)\<rparr>"

definition set_broadcaster :: "resolver \<Rightarrow> resolver" where
  "set_broadcaster st = st\<lparr>broadcaster := True\<rparr>"

definition receiver_alive :: "request_state \<Rightarrow> bool" where
  "receiver_alive r \<longleftrightarrow> rq_phase r = Registered \<or> rq_phase r = Waiting"

definition decide :: "nat \<Rightarrow> bool \<Rightarrow> resolver \<Rightarrow> resolver \<times> approval_decision" where
  "decide approval_id approve st =
     (case map_of (pending_map st) approval_id of
        Some e \<Rightarrow>
          let st = st\<lparr>pending_map := AList.delete approval_id (pending_map st)\<rparr>
          in (case requests st approval_id of
                Some r \<Rightarrow>
                  if receiver_alive r
                  then (st\<lparr>requests := (requests st)(approval_id \<mapsto> r\<lparr>rq_channel := Some approve\<rparr>)\<rparr>, Applied)
                  else (st, DecisionExpired)
              | None \<Rightarrow> (st, DecisionExpired))
      | None \<Rightarrow>
          if first_id st \<le> approval_id \<and> approval_id < next_id st then (st, YaDecided)
          else (st, Unknown))"

definition pending :: "resolver \<Rightarrow> (nat \<times> pending_entry) list" where
  "pending st = sort_key fst (pending_map st)"

definition drop_guard :: "nat \<Rightarrow> resolver \<Rightarrow> resolver" where
  "drop_guard i st = st\<lparr>pending_map := AList.delete i (pending_map st)\<rparr>"

text \<open>The actions of a request, in the order of the code.\<close>

definition begin_request :: "approval_request \<Rightarrow> resolver \<Rightarrow> resolver" where
  "begin_request req st =
     (let i = next_id st
      in st\<lparr>next_id := (next_id st + 1) mod 2 ^ 64,
            requests := (requests st)(i \<mapsto> \<lparr>rq_req = req, rq_phase = Numbered, rq_channel = None\<rparr>)\<rparr>)"

definition register :: "nat \<Rightarrow> request_state \<Rightarrow> resolver \<Rightarrow> resolver" where
  "register i r st =
     (if length (pending_map st) \<ge> MAX_PENDING_APPROVALS then set_phase i r (Done (Some Denied)) st
      else set_phase i r Registered
        (st\<lparr>pending_map := AList.update i (entry_of (rq_req r)) (pending_map st)\<rparr>))"

definition broadcast :: "nat \<Rightarrow> request_state \<Rightarrow> resolver \<Rightarrow> resolver" where
  "broadcast i r st =
     (if broadcaster st then set_phase i r Waiting st else set_phase i r (Settled Denied) st)"

datatype approval_event =
    Begin approval_request
  | Register nat
  | Broadcast nat
  | Wake nat
  | Deadline nat
  | Cancel nat
  | DropGuard nat
  | Decide nat bool
  | SetBroadcaster

text \<open>One step, when the event can happen: the new state and, for a decision, its answer.\<close>

definition step :: "approval_event \<Rightarrow> resolver \<Rightarrow> (resolver \<times> approval_decision option) option" where
  "step ev st =
     (case ev of
        Begin req \<Rightarrow> Some (begin_request req st, None)
      | Register i \<Rightarrow>
          (case requests st i of
             Some r \<Rightarrow> if rq_phase r = Numbered then Some (register i r st, None) else None
           | None \<Rightarrow> None)
      | Broadcast i \<Rightarrow>
          (case requests st i of
             Some r \<Rightarrow> if rq_phase r = Registered then Some (broadcast i r st, None) else None
           | None \<Rightarrow> None)
      | Wake i \<Rightarrow>
          (case requests st i of
             Some r \<Rightarrow>
               (case rq_channel r of
                  Some b \<Rightarrow>
                    if rq_phase r = Waiting
                    then Some (set_phase i r (Settled (if b then Approved else Denied)) st, None) else None
                | None \<Rightarrow> None)
           | None \<Rightarrow> None)
      | Deadline i \<Rightarrow>
          (case requests st i of
             Some r \<Rightarrow>
               if rq_phase r = Waiting \<and> rq_channel r = None
               then Some (set_phase i r (Settled TimedOut) st, None) else None
           | None \<Rightarrow> None)
      | Cancel i \<Rightarrow>
          (case requests st i of
             Some r \<Rightarrow> if rq_phase r = Waiting then Some (set_phase i r Abandoned st, None) else None
           | None \<Rightarrow> None)
      | DropGuard i \<Rightarrow>
          (case requests st i of
             Some r \<Rightarrow>
               (case rq_phase r of
                  Settled out \<Rightarrow> Some (set_phase i r (Done (Some out)) (drop_guard i st), None)
                | Abandoned \<Rightarrow> Some (set_phase i r (Done None) (drop_guard i st), None)
                | _ \<Rightarrow> None)
           | None \<Rightarrow> None)
      | Decide i b \<Rightarrow> (case decide i b st of (st', d) \<Rightarrow> Some (st', Some d))
      | SetBroadcaster \<Rightarrow> Some (set_broadcaster st, None))"

type_synonym approval_log = "(approval_event \<times> approval_decision option) list"

inductive trace :: "nat \<Rightarrow> approval_log \<Rightarrow> resolver \<Rightarrow> bool" where
  trace_new: "trace seed [] (resolver_new seed)"
| trace_step: "trace seed tr st \<Longrightarrow> step ev st = Some (st', out) \<Longrightarrow> trace seed (tr @ [(ev, out)]) st'"

text \<open>The decisions on a request that took effect.\<close>

definition applied :: "nat \<Rightarrow> approval_log \<Rightarrow> bool list" where
  "applied i tr = concat (map (\<lambda>(ev, out).
     case ev of Decide j b \<Rightarrow> if j = i \<and> out = Some Applied then [b] else [] | _ \<Rightarrow> []) tr)"

lemma applied_snoc:
  "applied i (tr @ [(ev, out)]) = applied i tr @
     (case ev of Decide j b \<Rightarrow> if j = i \<and> out = Some Applied then [b] else [] | _ \<Rightarrow> [])"
  by (simp add: applied_def)

lemma applied_Nil [simp]: "applied i [] = []"
  by (simp add: applied_def)

section \<open>The invariant\<close>

definition guarded :: "request_state \<Rightarrow> bool" where
  "guarded r \<longleftrightarrow> (case rq_phase r of Numbered \<Rightarrow> False | Done _ \<Rightarrow> False | _ \<Rightarrow> True)"

text \<open>What a request keeps of its entry in the pending map and of the decisions applied to it.\<close>

definition request_ok :: "request_state \<Rightarrow> pending_entry option \<Rightarrow> bool list \<Rightarrow> bool" where
  "request_ok r p a \<longleftrightarrow>
     a = (case rq_channel r of None \<Rightarrow> [] | Some b \<Rightarrow> [b]) \<and>
     (rq_phase r = Settled Approved \<or> rq_phase r = Done (Some Approved) \<longrightarrow> rq_channel r = Some True) \<and>
     (rq_phase r = Numbered \<longrightarrow> rq_channel r = None) \<and>
     (case p of
        None \<Rightarrow> \<not> (receiver_alive r \<and> rq_channel r = None)
      | Some e \<Rightarrow> e = entry_of (rq_req r) \<and> rq_channel r = None \<and> guarded r)"

fun slot_ok :: "request_state option \<Rightarrow> pending_entry option \<Rightarrow> bool list \<Rightarrow> bool" where
  "slot_ok None p a \<longleftrightarrow> p = None \<and> a = []"
| "slot_ok (Some r) p a \<longleftrightarrow> request_ok r p a"

definition resolver_inv :: "nat \<Rightarrow> approval_log \<Rightarrow> resolver \<Rightarrow> bool" where
  "resolver_inv seed tr st \<longleftrightarrow>
     first_id st = seed \<and> next_id st \<le> seed + length tr \<and>
     dom (requests st) = {seed..<next_id st} \<and> seed \<le> next_id st \<and>
     distinct (map fst (pending_map st)) \<and> length (pending_map st) \<le> MAX_PENDING_APPROVALS \<and>
     (\<forall>i. slot_ok (requests st i) (map_of (pending_map st) i) (applied i tr))"

lemma resolver_invD:
  assumes "resolver_inv seed tr st"
  shows "first_id st = seed" "next_id st \<le> seed + length tr" "dom (requests st) = {seed..<next_id st}"
    "distinct (map fst (pending_map st))" "length (pending_map st) \<le> MAX_PENDING_APPROVALS"
    "requests st i = Some r \<Longrightarrow> request_ok r (map_of (pending_map st) i) (applied i tr)"
    "requests st i = None \<Longrightarrow> map_of (pending_map st) i = None \<and> applied i tr = []"
  using assms unfolding resolver_inv_def by (simp_all, metis slot_ok.simps(2), metis slot_ok.simps(1))

text \<open>A step that changes one request and its entry keeps the invariant if the request is as it
  should be.\<close>

lemma resolver_inv_update:
  assumes inv: "resolver_inv seed tr st" and r: "requests st i = Some r"
    and pm: "map_of pm = (map_of (pending_map st))(i := p)" "distinct (map fst pm)"
      "length pm \<le> MAX_PENDING_APPROVALS"
    and r': "request_ok r' p (applied i (tr @ [ev]))"
    and others: "\<And>j. j \<noteq> i \<Longrightarrow> applied j (tr @ [ev]) = applied j tr"
  shows "resolver_inv seed (tr @ [ev]) (st\<lparr>pending_map := pm, requests := (requests st)(i \<mapsto> r')\<rparr>)"
proof -
  have "dom ((requests st)(i \<mapsto> r')) = dom (requests st)" using r by auto
  moreover have "slot_ok (((requests st)(i \<mapsto> r')) j) (map_of pm j) (applied j (tr @ [ev]))" for j
    using inv pm(1) r' others [of j] unfolding resolver_inv_def by (cases "j = i") simp_all
  ultimately show ?thesis
    using inv pm(2,3) unfolding resolver_inv_def by (simp del: fun_upd_apply)
qed

lemma resolver_inv_phase:
  assumes inv: "resolver_inv seed tr st" and r: "requests st i = Some r"
    and r': "request_ok (r\<lparr>rq_phase := ph\<rparr>) (map_of (pending_map st) i) (applied i tr)"
    and ev: "\<And>j. applied j (tr @ [ev]) = applied j tr"
  shows "resolver_inv seed (tr @ [ev]) (set_phase i r ph st)"
proof -
  have "resolver_inv seed (tr @ [ev])
      (st\<lparr>pending_map := pending_map st, requests := (requests st)(i \<mapsto> r\<lparr>rq_phase := ph\<rparr>)\<rparr>)"
    by (rule resolver_inv_update [OF inv r]) (use resolver_invD(4,5) [OF inv] r' ev in \<open>simp_all add: fun_upd_idem\<close>)
  then show ?thesis by (simp add: set_phase_def)
qed

lemma length_AList_delete: "length (AList.delete k xs) \<le> length xs"
  by (induction xs) (auto split: if_splits)

lemma map_of_AList_delete: "map_of (AList.delete k xs) = (map_of xs)(k := None)"
  by (rule delete_conv')

lemma length_AList_update_new: "map_of xs k = None \<Longrightarrow> length (AList.update k v xs) = Suc (length xs)"
  by (induction xs) (auto split: if_splits)

lemma resolver_inv_new: "resolver_inv seed [] (resolver_new seed)"
  by (simp add: resolver_inv_def resolver_new_def)

lemma resolver_inv_begin:
  assumes "resolver_inv seed tr st" "seed + length tr + 1 < 2 ^ 64"
  shows "resolver_inv seed (tr @ [(Begin req, out)]) (begin_request req st)"
proof -
  have new: "requests st (next_id st) = None"
    using resolver_invD(3) [OF assms(1)] by (metis atLeastLessThan_iff domIff less_irrefl)
  note old = resolver_invD(7) [OF assms(1) new]
  have "(next_id st + 1) mod 2 ^ 64 = next_id st + 1"
    using resolver_invD(2) [OF assms(1)] assms(2) by simp
  moreover have "request_ok \<lparr>rq_req = req, rq_phase = Numbered, rq_channel = None\<rparr> None []"
    by (simp add: request_ok_def receiver_alive_def)
  moreover have "insert (next_id st) {seed..<next_id st} = {seed..<Suc (next_id st)}"
    using assms(1) unfolding resolver_inv_def by auto
  ultimately show ?thesis
    using assms(1) old unfolding resolver_inv_def
    by (simp add: begin_request_def Let_def applied_snoc)
qed

lemma resolver_inv_register:
  assumes inv: "resolver_inv seed tr st" and r: "requests st i = Some r" "rq_phase r = Numbered"
  shows "resolver_inv seed (tr @ [(Register i, out)]) (register i r st)"
proof -
  have ok: "request_ok r (map_of (pending_map st) i) (applied i tr)"
    by (rule resolver_invD(6) [OF inv r(1)])
  then have fresh: "map_of (pending_map st) i = None"
    using r(2) by (auto simp: request_ok_def guarded_def split: option.splits)
  show ?thesis
  proof (cases "length (pending_map st) \<ge> MAX_PENDING_APPROVALS")
    case True
    have "resolver_inv seed (tr @ [(Register i, out)]) (set_phase i r (Done (Some Denied)) st)"
      by (rule resolver_inv_phase [OF inv r(1)])
        (use ok fresh in \<open>simp_all add: applied_snoc request_ok_def receiver_alive_def\<close>)
    with True show ?thesis by (simp add: register_def)
  next
    case False
    let ?pm = "AList.update i (entry_of (rq_req r)) (pending_map st)"
    have "resolver_inv seed (tr @ [(Register i, out)])
        (st\<lparr>pending_map := ?pm, requests := (requests st)(i \<mapsto> r\<lparr>rq_phase := Registered\<rparr>)\<rparr>)"
    proof (rule resolver_inv_update [OF inv r(1)])
      show "map_of ?pm = (map_of (pending_map st))(i := Some (entry_of (rq_req r)))"
        by (rule update_conv')
      show "distinct (map fst ?pm)" using resolver_invD(4) [OF inv] by (rule distinct_update)
      show "length ?pm \<le> MAX_PENDING_APPROVALS" using False fresh by (simp add: length_AList_update_new)
    qed (use ok r(2) in \<open>simp_all add: applied_snoc request_ok_def receiver_alive_def guarded_def\<close>)
    with False show ?thesis by (simp add: register_def set_phase_def)
  qed
qed

lemma resolver_inv_broadcast:
  assumes inv: "resolver_inv seed tr st" and r: "requests st i = Some r" "rq_phase r = Registered"
  shows "resolver_inv seed (tr @ [(Broadcast i, out)]) (broadcast i r st)"
proof -
  have "request_ok (r\<lparr>rq_phase := ph\<rparr>) (map_of (pending_map st) i) (applied i tr)"
    if "ph = Waiting \<or> ph = Settled Denied" for ph
    using resolver_invD(6) [OF inv r(1)] r(2) that
    by (auto simp: request_ok_def receiver_alive_def guarded_def split: option.splits)
  then show ?thesis
    unfolding broadcast_def using resolver_inv_phase [OF inv r(1)] by (simp add: applied_snoc)
qed

lemma resolver_inv_settle:
  assumes inv: "resolver_inv seed tr st" and r: "requests st i = Some r" "rq_phase r = Waiting"
    and ph: "ph = Settled o' \<or> ph = Abandoned" "o' = Approved \<longrightarrow> rq_channel r = Some True"
    and ev: "\<And>j. applied j (tr @ [ev]) = applied j tr"
  shows "resolver_inv seed (tr @ [ev]) (set_phase i r ph st)"
proof (rule resolver_inv_phase [OF inv r(1) _ ev])
  show "request_ok (r\<lparr>rq_phase := ph\<rparr>) (map_of (pending_map st) i) (applied i tr)"
    using resolver_invD(6) [OF inv r(1)] r(2) ph
    by (auto simp: request_ok_def receiver_alive_def guarded_def split: option.splits)
qed

lemma resolver_inv_drop_guard:
  assumes inv: "resolver_inv seed tr st" and r: "requests st i = Some r"
    and ph: "rq_phase r = Settled o' \<and> q = Some o' \<or> rq_phase r = Abandoned \<and> q = None"
    and ev: "\<And>j. applied j (tr @ [ev]) = applied j tr"
  shows "resolver_inv seed (tr @ [ev]) (set_phase i r (Done q) (drop_guard i st))"
proof -
  let ?pm = "AList.delete i (pending_map st)"
  have "resolver_inv seed (tr @ [ev])
      (st\<lparr>pending_map := ?pm, requests := (requests st)(i \<mapsto> r\<lparr>rq_phase := Done q\<rparr>)\<rparr>)"
  proof (rule resolver_inv_update [OF inv r])
    show "map_of ?pm = (map_of (pending_map st))(i := None)" by (rule map_of_AList_delete)
    show "distinct (map fst ?pm)" using resolver_invD(4) [OF inv] by (rule distinct_delete)
    show "length ?pm \<le> MAX_PENDING_APPROVALS"
      using resolver_invD(5) [OF inv] length_AList_delete [of i "pending_map st"] by simp
    show "request_ok (r\<lparr>rq_phase := Done q\<rparr>) None (applied i (tr @ [ev]))"
      using resolver_invD(6) [OF inv r] ph by (auto simp: ev request_ok_def receiver_alive_def)
  qed (simp add: ev)
  then show ?thesis by (simp add: set_phase_def drop_guard_def)
qed

lemma resolver_inv_no_request:
  assumes "resolver_inv seed tr st" "\<And>j. applied j (tr @ [ev]) = applied j tr"
  shows "resolver_inv seed (tr @ [ev]) st"
  using assms unfolding resolver_inv_def by auto

lemma resolver_inv_set_broadcaster:
  "resolver_inv seed tr st \<Longrightarrow> resolver_inv seed tr (set_broadcaster st)"
  unfolding resolver_inv_def by (simp add: set_broadcaster_def)

text \<open>The cases of a decision under the invariant.\<close>

lemma decide_cases:
  assumes inv: "resolver_inv seed tr st"
  obtains (hit) e r where "map_of (pending_map st) i = Some e" "requests st i = Some r"
      "e = entry_of (rq_req r)" "rq_channel r = None" "guarded r" "applied i tr = []"
      "decide i b st =
        (if receiver_alive r
         then (st\<lparr>pending_map := AList.delete i (pending_map st),
              requests := (requests st)(i \<mapsto> r\<lparr>rq_channel := Some b\<rparr>)\<rparr>, Applied)
         else (st\<lparr>pending_map := AList.delete i (pending_map st)\<rparr>, DecisionExpired))"
    | (miss) "map_of (pending_map st) i = None"
      "decide i b st = (st, if requests st i \<noteq> None then YaDecided else Unknown)"
proof (cases "map_of (pending_map st) i")
  case None
  have "first_id st \<le> i \<and> i < next_id st \<longleftrightarrow> requests st i \<noteq> None"
    using resolver_invD(1,3) [OF inv] by (auto simp: set_eq_iff domIff)
  with None have "decide i b st = (st, if requests st i \<noteq> None then YaDecided else Unknown)"
    by (simp add: decide_def)
  with None show thesis by (rule miss)
next
  case (Some e)
  then obtain r where r: "requests st i = Some r"
    using resolver_invD(7) [OF inv, of i] by (cases "requests st i") auto
  from resolver_invD(6) [OF inv r] Some
  have "e = entry_of (rq_req r)" "rq_channel r = None" "guarded r" "applied i tr = []"
    by (auto simp: request_ok_def)
  with Some r show thesis by (intro hit) (auto simp: decide_def Let_def)
qed

lemma resolver_inv_decide:
  assumes inv: "resolver_inv seed tr st" and d: "decide i b st = (st', d)"
  shows "resolver_inv seed (tr @ [(Decide i b, Some d)]) st'"
  using inv
proof (cases rule: decide_cases [where i = i and b = b])
  case (hit e r)
  let ?pm = "AList.delete i (pending_map st)" and ?ev = "(Decide i b, Some d)"
  let ?r = "if receiver_alive r then r\<lparr>rq_channel := Some b\<rparr> else r"
  have "resolver_inv seed (tr @ [?ev]) (st\<lparr>pending_map := ?pm, requests := (requests st)(i \<mapsto> ?r)\<rparr>)"
  proof (rule resolver_inv_update [OF inv hit(2)])
    show "map_of ?pm = (map_of (pending_map st))(i := None)" by (rule map_of_AList_delete)
    show "distinct (map fst ?pm)" using resolver_invD(4) [OF inv] by (rule distinct_delete)
    show "length ?pm \<le> MAX_PENDING_APPROVALS"
      using resolver_invD(5) [OF inv] length_AList_delete [of i "pending_map st"] by simp
    show "request_ok ?r None (applied i (tr @ [?ev]))"
      using resolver_invD(6) [OF inv hit(2)] hit d
      by (auto simp: request_ok_def receiver_alive_def applied_snoc split: if_splits)
  qed (simp add: applied_snoc)
  moreover have "st' = st\<lparr>pending_map := ?pm, requests := (requests st)(i \<mapsto> ?r)\<rparr>"
    using hit d by (auto simp: fun_upd_idem split: if_splits)
  ultimately show ?thesis by simp
next
  case miss
  then have st': "st' = st" and d': "d \<noteq> Applied" using d by (auto split: if_splits)
  from d' show ?thesis
    unfolding st' by (intro resolver_inv_no_request [OF inv]) (simp add: applied_snoc)
qed

lemma trace_inv:
  assumes "trace seed tr st" "seed + length tr < 2 ^ 64"
  shows "resolver_inv seed tr st"
  using assms
proof (induction rule: trace.induct)
  case (trace_new seed)
  show ?case by (rule resolver_inv_new)
next
  case (trace_step seed tr st ev st' out)
  then have inv: "resolver_inv seed tr st" and small: "seed + length tr + 1 < 2 ^ 64" by simp_all
  note stp = trace_step.hyps(2) [unfolded step_def]
  show ?case
  proof (cases ev)
    case (Begin req)
    with stp resolver_inv_begin [OF inv small] show ?thesis by auto
  next
    case (Register i)
    with stp resolver_inv_register [OF inv] show ?thesis by (simp split: option.splits if_splits) blast
  next
    case (Broadcast i)
    with stp resolver_inv_broadcast [OF inv] show ?thesis by (simp split: option.splits if_splits) blast
  next
    case (Wake i)
    then obtain r b where r: "requests st i = Some r" "rq_channel r = Some b" "rq_phase r = Waiting"
      "st' = set_phase i r (Settled (if b then Approved else Denied)) st"
      using stp by (auto split: option.splits if_splits)
    then show ?thesis
      unfolding Wake r(4) by (intro resolver_inv_settle [OF inv r(1,3)]) (auto simp: applied_snoc split: if_splits)
  next
    case (Deadline i)
    then obtain r where r: "requests st i = Some r" "rq_phase r = Waiting"
      "st' = set_phase i r (Settled TimedOut) st"
      using stp by (auto split: option.splits if_splits)
    then show ?thesis
      unfolding Deadline r(3) by (intro resolver_inv_settle [OF inv r(1,2)]) (auto simp: applied_snoc)
  next
    case (Cancel i)
    then obtain r where r: "requests st i = Some r" "rq_phase r = Waiting"
      "st' = set_phase i r Abandoned st"
      using stp by (auto split: option.splits if_splits)
    then show ?thesis
      unfolding Cancel r(3)
      by (intro resolver_inv_settle [OF inv r(1,2), where o' = Denied]) (auto simp: applied_snoc)
  next
    case (DropGuard i)
    then obtain r o' q where r: "requests st i = Some r"
      "rq_phase r = Settled o' \<and> q = Some o' \<or> rq_phase r = Abandoned \<and> q = None"
      "st' = set_phase i r (Done q) (drop_guard i st)"
      using stp by (auto split: option.splits phase.splits)
    then show ?thesis
      unfolding DropGuard r(3) by (intro resolver_inv_drop_guard [OF inv r(1,2)]) (simp add: applied_snoc)
  next
    case (Decide i b)
    with stp resolver_inv_decide [OF inv, of i b] show ?thesis by (auto split: prod.splits)
  next
    case SetBroadcaster
    with stp show ?thesis
      using resolver_inv_set_broadcaster [OF resolver_inv_no_request [OF inv, of "(ev, out)"]]
      by (simp add: applied_snoc)
  qed
qed


text \<open>Without a broadcaster nobody is asked, so nothing can be waiting.\<close>

lemma trace_broadcaster:
  "trace seed tr st \<Longrightarrow> broadcaster st \<longleftrightarrow> SetBroadcaster \<in> fst ` set tr"
proof (induction rule: trace.induct)
  case (trace_step seed tr st ev st' out)
  have "broadcaster st' \<longleftrightarrow> broadcaster st \<or> ev = SetBroadcaster"
    using trace_step.hyps(2)
    by (auto simp: step_def begin_request_def register_def broadcast_def set_phase_def drop_guard_def
        decide_def set_broadcaster_def Let_def
        split: approval_event.splits option.splits if_splits phase.splits prod.splits)
  with trace_step.IH show ?case by auto
qed (simp add: resolver_new_def)

definition unasked :: "phase \<Rightarrow> bool" where
  "unasked ph \<longleftrightarrow> (case ph of Waiting \<Rightarrow> False | Settled out \<Rightarrow> out = Denied | Abandoned \<Rightarrow> False
     | Done out \<Rightarrow> out = Some Denied | _ \<Rightarrow> True)"

lemma step_unasked:
  assumes "step ev st = Some (st', out)" "\<not> broadcaster st"
    and "\<And>r. requests st i = Some r \<Longrightarrow> unasked (rq_phase r)"
    and "requests st' i = Some r'"
  shows "unasked (rq_phase r')"
proof (cases ev)
  case (Begin req)
  with assms show ?thesis
    by (auto simp: step_def begin_request_def Let_def unasked_def split: if_splits)
next
  case (Register j)
  with assms show ?thesis
    by (auto simp: step_def register_def set_phase_def unasked_def split: option.splits if_splits)
next
  case (Broadcast j)
  with assms show ?thesis
    by (auto simp: step_def broadcast_def set_phase_def unasked_def split: option.splits if_splits)
next
  case (Wake j)
  with assms show ?thesis
    by (fastforce simp: step_def set_phase_def unasked_def split: option.splits if_splits)
next
  case (Deadline j)
  with assms show ?thesis
    by (fastforce simp: step_def set_phase_def unasked_def split: option.splits if_splits)
next
  case (Cancel j)
  with assms show ?thesis
    by (fastforce simp: step_def set_phase_def unasked_def split: option.splits if_splits)
next
  case (DropGuard j)
  with assms show ?thesis
    by (fastforce simp: step_def set_phase_def drop_guard_def unasked_def
        split: option.splits if_splits phase.splits)
next
  case (Decide j b)
  with assms show ?thesis
    by (auto simp: step_def decide_def Let_def split: option.splits if_splits prod.splits)
next
  case SetBroadcaster
  with assms show ?thesis by (auto simp: step_def set_broadcaster_def)
qed

lemma trace_unasked:
  assumes "trace seed tr st" "\<not> broadcaster st" "requests st i = Some r"
  shows "unasked (rq_phase r)"
  using assms
proof (induction arbitrary: r rule: trace.induct)
  case (trace_new seed)
  then show ?case by (simp add: resolver_new_def)
next
  case (trace_step seed tr st ev st' out)
  have "\<not> broadcaster st"
    using trace_broadcaster [OF trace_step.hyps(1)]
      trace_broadcaster [OF trace.trace_step [OF trace_step.hyps]] trace_step.prems(1) by auto
  with trace_step show ?case by (blast intro: step_unasked)
qed

section \<open>Properties\<close>

text \<open>A concrete run: one request is numbered, registered and broadcast, a human approves it and its
  call wakes up.\<close>

definition sample_request :: approval_request where
  "sample_request = \<lparr>req_actor = Agent ''claude'', req_op = Mkdir, req_paths = [''x''], paths_total = 1\<rparr>"

definition approved_run :: "approval_request \<Rightarrow> approval_event list" where
  "approved_run req = [SetBroadcaster, Begin req, Register 7, Broadcast 7, Decide 7 True, Wake 7, DropGuard 7]"

fun run :: "approval_event list \<Rightarrow> approval_log \<Rightarrow> resolver \<Rightarrow> (approval_log \<times> resolver) option" where
  "run [] tr st = Some (tr, st)"
| "run (ev # evs) tr st =
     (case step ev st of None \<Rightarrow> None | Some (st', out) \<Rightarrow> run evs (tr @ [(ev, out)]) st')"

lemma run_trace: "trace seed tr st \<Longrightarrow> run evs tr st = Some (tr', st') \<Longrightarrow> trace seed tr' st'"
  by (induction evs arbitrary: tr st) (auto split: option.splits intro: trace.trace_step)

lemma run_length: "run evs tr st = Some (tr', st') \<Longrightarrow> length tr' = length tr + length evs"
  by (induction evs arbitrary: tr st) (auto split: option.splits)

lemma approved_run_result:
  obtains tr st r where "trace 7 tr st" "7 + length tr < 2 ^ 64" "requests st 7 = Some r" "rq_req r = req"
    "rq_phase r = Done (Some Approved)" "applied 7 tr = [True]"
proof -
  have "\<exists>tr st r. run (approved_run req) [] (resolver_new 7) = Some (tr, st) \<and> requests st 7 = Some r \<and> rq_req r = req \<and>
      rq_phase r = Done (Some Approved) \<and> applied 7 tr = [True]"
    by (simp add: approved_run_def step_def begin_request_def register_def broadcast_def set_phase_def
        decide_def drop_guard_def set_broadcaster_def resolver_new_def Let_def MAX_PENDING_APPROVALS_def
        receiver_alive_def applied_def)
  then obtain tr st r where run: "run (approved_run req) [] (resolver_new 7) = Some (tr, st)"
    and r: "requests st 7 = Some r" "rq_req r = req" "rq_phase r = Done (Some Approved)" "applied 7 tr = [True]"
    by blast
  have "trace 7 tr st" by (rule run_trace [OF trace.trace_new run])
  moreover have "7 + length tr < 2 ^ 64" using run_length [OF run] by (simp add: approved_run_def)
  ultimately show thesis using r by (rule that)
qed

lemma approved_applied:
  assumes "trace seed tr st" "seed + length tr < 2 ^ 64" "requests st i = Some r" "rq_phase r = Done (Some Approved)"
  shows "applied i tr = [True]"
  using resolver_invD(6) [OF trace_inv [OF assms(1,2)] assms(3)] assms(4)
  by (auto simp: request_ok_def split: option.splits)

text \<open>C17: in every interleaving of requests, decisions, deadlines and cancellations a request ends
  approved only if exactly one decision on it was applied and that one approved; no request ever has
  two applied decisions.\<close>

theorem approval_needs_decision:
  assumes "trace seed tr st" "seed + length tr < 2 ^ 64"
  shows "length (applied i tr) \<le> 1 \<and>
    (\<forall>r. requests st i = Some r \<and> rq_phase r = Done (Some Approved) \<longrightarrow> applied i tr = [True])"
proof -
  have inv: "resolver_inv seed tr st" by (rule trace_inv [OF assms])
  show ?thesis
  proof (cases "requests st i")
    case None
    with resolver_invD(7) [OF inv None] show ?thesis by simp
  next
    case (Some r)
    with resolver_invD(6) [OF inv Some] show ?thesis by (auto simp: request_ok_def split: option.splits)
  qed
qed

theorem approval_needs_decision_witness: "\<exists>tr. applied 7 tr = [True] \<and> length (applied 7 tr) \<le> 1"
proof -
  obtain tr st r where "trace 7 tr st" "7 + length tr < 2 ^ 64" "requests st 7 = Some r"
    "rq_phase r = Done (Some Approved)" by (rule approved_run_result)
  with approval_needs_decision [of 7 tr st 7] show ?thesis by blast
qed

text \<open>C28: what \<open>pending\<close> shows is exact in every interleaving: at most the capacity, sorted by id
  without repetition, every entry the description of an undecided request whose call is still
  there, and every request that waits undecided is shown.\<close>

theorem pending_exact:
  assumes "trace seed tr st" "seed + length tr < 2 ^ 64"
  shows "length (pending st) \<le> MAX_PENDING_APPROVALS \<and> sorted (map fst (pending st)) \<and>
    distinct (map fst (pending st)) \<and>
    (\<forall>(i, e) \<in> set (pending st). \<exists>r. requests st i = Some r \<and> guarded r \<and> rq_channel r = None \<and>
       e = entry_of (rq_req r)) \<and>
    (\<forall>i r. requests st i = Some r \<and> receiver_alive r \<and> rq_channel r = None \<longrightarrow>
       (i, entry_of (rq_req r)) \<in> set (pending st))"
proof -
  have inv: "resolver_inv seed tr st" by (rule trace_inv [OF assms])
  have d: "distinct (map fst (pending_map st))" by (rule resolver_invD(4) [OF inv])
  have "\<exists>r. requests st i = Some r \<and> guarded r \<and> rq_channel r = None \<and> e = entry_of (rq_req r)"
    if "(i, e) \<in> set (pending_map st)" for i e
  proof -
    have e: "map_of (pending_map st) i = Some e" using d that by simp
    then obtain r where r: "requests st i = Some r"
      using resolver_invD(7) [OF inv, of i] by (cases "requests st i") auto
    with resolver_invD(6) [OF inv r] e show ?thesis by (auto simp: request_ok_def)
  qed
  moreover have "(i, entry_of (rq_req r)) \<in> set (pending_map st)"
    if "requests st i = Some r" "receiver_alive r" "rq_channel r = None" for i r
  proof -
    have "map_of (pending_map st) i = Some (entry_of (rq_req r))"
      using resolver_invD(6) [OF inv that(1)] that(2,3)
      by (cases "map_of (pending_map st) i") (auto simp: request_ok_def)
    then show ?thesis by (rule map_of_SomeD)
  qed
  moreover have "distinct (map fst (pending st))"
    using d distinct_sort [of fst "pending_map st"] unfolding pending_def distinct_map
    by (simp add: distinct_map)
  ultimately show ?thesis
    using resolver_invD(5) [OF inv] unfolding pending_def by (auto simp: sorted_sort_key)
qed

theorem pending_exact_witness: "\<exists>st. length (pending st) \<le> MAX_PENDING_APPROVALS"
proof -
  obtain tr st r where "trace 7 tr st" "7 + length tr < 2 ^ 64" by (rule approved_run_result)
  from pending_exact [OF this] show ?thesis by blast
qed

text \<open>the answer to a decision is exact: applied if the call still waits undecided, expired if its
  entry is there but its call is gone, already decided if the id was issued and is not pending,
  unknown if it was never issued.\<close>

theorem decide_answers:
  assumes "trace seed tr st" "seed + length tr < 2 ^ 64"
  shows "snd (decide i b st) =
    (case requests st i of
       None \<Rightarrow> Unknown
     | Some r \<Rightarrow>
         if receiver_alive r \<and> rq_channel r = None then Applied
         else if map_of (pending_map st) i \<noteq> None then DecisionExpired else YaDecided)"
  using trace_inv [OF assms]
proof (cases rule: decide_cases [where i = i and b = b])
  case (hit e r)
  then show ?thesis by simp
next
  case miss
  then show ?thesis
    using resolver_invD(6) [OF trace_inv [OF assms], of i]
    by (cases "requests st i") (auto simp: request_ok_def)
qed

theorem decide_answers_witness: "snd (decide 3 True (resolver_new 3)) = Unknown"
  using decide_answers [OF trace.trace_new [of 3], of 3 True] by (simp add: resolver_new_def)

text \<open>as long as no broadcaster is installed nobody can be asked: no request waits, and every
  request that ends is denied.\<close>

theorem no_broadcaster_denies:
  assumes "trace seed tr st" "SetBroadcaster \<notin> fst ` set tr" "requests st i = Some r"
  shows "rq_phase r \<noteq> Waiting \<and> (\<forall>out. rq_phase r = Done out \<longrightarrow> out = Some Denied)"
proof -
  have "\<not> broadcaster st" using trace_broadcaster [OF assms(1)] assms(2) by blast
  from trace_unasked [OF assms(1) this assms(3)] show ?thesis by (auto simp: unasked_def)
qed

theorem no_broadcaster_denies_witness:
  "\<exists>(st :: resolver) (r :: request_state). requests st 0 = Some r \<and> rq_phase r \<noteq> Waiting"
proof -
  have run: "run [Begin sample_request] [] (resolver_new 0) =
      Some ([(Begin sample_request, None)], begin_request sample_request (resolver_new 0))"
    by (simp add: step_def)
  have t: "trace 0 [(Begin sample_request, None)] (begin_request sample_request (resolver_new 0))"
    by (rule run_trace [OF trace.trace_new run])
  have r: "requests (begin_request sample_request (resolver_new 0)) 0 =
      Some \<lparr>rq_req = sample_request, rq_phase = Numbered, rq_channel = None\<rparr>"
    by (simp add: begin_request_def resolver_new_def Let_def)
  have "rq_phase \<lparr>rq_req = sample_request, rq_phase = Numbered, rq_channel = None\<rparr> \<noteq> Waiting"
    using no_broadcaster_denies [OF t _ r] by simp
  with r show ?thesis by blast
qed

text \<open>A waiting call can always be finished: with the decision that reached it or, without one, by
  its deadline; it then has exactly that outcome and has left the pending map.\<close>

theorem waiting_request_finishes:
  assumes "requests st i = Some r" "rq_phase r = Waiting"
  shows "\<exists>st1 st2. step (if rq_channel r = None then Deadline i else Wake i) st = Some (st1, None) \<and>
    step (DropGuard i) st1 = Some (st2, None) \<and>
    map_option rq_phase (requests st2 i) = Some (Done (Some (case rq_channel r of
       None \<Rightarrow> TimedOut | Some b \<Rightarrow> if b then Approved else Denied))) \<and>
    map_of (pending_map st2) i = None"
  using assms by (cases "rq_channel r")
    (simp_all add: step_def set_phase_def drop_guard_def map_of_AList_delete)

theorem waiting_request_finishes_witness:
  "\<exists>st1. step (Deadline 3) (resolver_new 3\<lparr>requests := [3 \<mapsto> \<lparr>rq_req = sample_request,
     rq_phase = Waiting, rq_channel = None\<rparr>]\<rparr>) = Some (st1, None)"
proof -
  let ?st = "resolver_new 3\<lparr>requests := [3 \<mapsto> \<lparr>rq_req = sample_request, rq_phase = Waiting, rq_channel = None\<rparr>]\<rparr>"
  have "requests ?st 3 = Some \<lparr>rq_req = sample_request, rq_phase = Waiting, rq_channel = None\<rparr>" by simp
  from waiting_request_finishes [OF this] show ?thesis by auto
qed

end
