(* ===== verification/Orders_Lex.thy ===== *)
theory Orders_Lex
  imports Rust_Utf8
begin

text \<open>
  The order line of the command box, first part (\<^verbatim>\<open>norte-orders/src/ast.rs\<close> and \<^verbatim>\<open>lex.rs\<close>): the
  syntax tree, the words and pipes of a line with the byte escape, and the search for characters
  that are drawn as nothing. A line is the UTF-8 bytes of a string; the functions of the source
  that walk it by an index take the bytes from that index on, with the index where it is reported.
  A range is a pair of offsets.
\<close>

section \<open>The syntax tree\<close>

datatype cmp = Lt | Le | Gt | Ge | CmpEq

fun holds :: "cmp \<Rightarrow> nat \<Rightarrow> nat \<Rightarrow> bool" where
  "holds Lt left right \<longleftrightarrow> left < right"
| "holds Le left right \<longleftrightarrow> left \<le> right"
| "holds Gt left right \<longleftrightarrow> left > right"
| "holds Ge left right \<longleftrightarrow> left \<ge> right"
| "holds CmpEq left right \<longleftrightarrow> left = right"

fun cmp_str :: "cmp \<Rightarrow> bytes" where
  "cmp_str Lt = ''<''"
| "cmp_str Le = ''<=''"
| "cmp_str Gt = ''>''"
| "cmp_str Ge = ''>=''"
| "cmp_str CmpEq = ''=''"

datatype kind_sel = KindFile | KindDir | KindLink

datatype pred =
    Ext "bytes list"
  | Name bytes
  | Literal bytes
  | Size cmp nat
  | Age cmp nat
  | Kind kind_sel

record order_term =
  negated :: bool
  pred :: pred

record query =
  terms :: "order_term list"

datatype order_dest = Other | Here | Path bytes

datatype stage =
    Sel query
  | Cp order_dest
  | Mv order_dest
  | Trash
  | Mkdir bytes
  | Cd bytes
  | Log "nat option"
  | Undo "nat option"
  | Catalogue bytes

record order_line =
  stages :: "stage list"

section \<open>Errors\<close>

datatype parse_error_kind =
    Empty
  | UnknownVerb
  | NotYet
  | StandsAlone
  | BadTerm
  | BadNumber
  | BadEscape
  | MissingDest
  | MissingArg
  | Unterminated
  | InvisibleChar

record parse_error =
  offset :: nat
  kind :: parse_error_kind

section \<open>Words and pipes\<close>

record piece =
  byte :: byte
  plain :: bool
  at :: nat

type_synonym range = "nat \<times> nat"

datatype tok = Word range "piece list" | Pipe nat

definition hex :: "byte \<Rightarrow> nat option" where
  "hex b =
     (if 48 \<le> u8 b \<and> u8 b \<le> 57 then Some (u8 b - 48)
      else if 97 \<le> u8 b \<and> u8 b \<le> 102 then Some (u8 b - 97 + 10)
      else if 65 \<le> u8 b \<and> u8 b \<le> 70 then Some (u8 b - 65 + 10)
      else None)"

text \<open>\<^verbatim>\<open>str::get(i..)\<close> is \<^verbatim>\<open>None\<close> inside a character, that is at a continuation byte.\<close>

definition space_at :: "bytes \<Rightarrow> nat" where
  "space_at rest =
     (case rest of
        [] \<Rightarrow> 0
      | b # bs \<Rightarrow>
          if utf8_cont b then 0
          else (case utf8_item b bs of
              Scalar n \<Rightarrow> if is_whitespace (utf8_code (take n rest)) then n else 0
            | Invalid _ \<Rightarrow> 0))"

text \<open>The byte an escape stands for and the length of the escape, from the byte after the
  backslash on.\<close>

definition lex_escape :: "bytes \<Rightarrow> (byte \<times> nat) option" where
  "lex_escape bs =
     (case bs of
        [] \<Rightarrow> None
      | c # cs \<Rightarrow>
          if c = CHR ''x'' then
            (case cs of
               h # l # _ \<Rightarrow>
                 (case (hex h, hex l) of
                    (Some hi, Some lo) \<Rightarrow> Some (char_of (hi * 16 + lo), 4)
                  | _ \<Rightarrow> None)
             | _ \<Rightarrow> None)
          else if c \<in> {CHR 0x5C, CHR '' '', CHR ''|'', CHR 0x27} then Some (c, 2)
          else None)"

text \<open>The loop over one word, from its start; \<open>quote\<close> is the offset of an open quote. The result is
  the pieces and what follows the word.\<close>

function lex_word :: "bytes \<Rightarrow> nat \<Rightarrow> nat option \<Rightarrow> parse_error + piece list \<times> bytes \<times> nat" where
  "lex_word rest i quote =
     (case rest of
        [] \<Rightarrow> (case quote of Some q \<Rightarrow> Inl \<lparr>offset = q, kind = Unterminated\<rparr> | None \<Rightarrow> Inr ([], [], i))
      | b # bs \<Rightarrow>
          if quote = None \<and> (b = CHR ''|'' \<or> space_at rest > 0) then Inr ([], rest, i)
          else if b = CHR 0x27 then
            lex_word bs (i + 1) (if quote \<noteq> None then None else Some i)
          else if b = CHR 0x5C then
            (case lex_escape bs of
               None \<Rightarrow> Inl \<lparr>offset = i, kind = BadEscape\<rparr>
             | Some (c, n) \<Rightarrow>
                 map_sum id (\<lambda>(ps, r, j). (\<lparr>byte = c, plain = False, at = i\<rparr> # ps, r, j))
                   (lex_word (drop n rest) (i + n) quote))
          else
            map_sum id (\<lambda>(ps, r, j). (\<lparr>byte = b, plain = (quote = None), at = i\<rparr> # ps, r, j))
              (lex_word bs (i + 1) quote))"
  by pat_completeness auto

lemma lex_escape_length: "lex_escape bs = Some (c, n) \<Longrightarrow> 2 \<le> n \<and> n \<le> Suc (length bs)"
  by (auto simp: lex_escape_def split: list.splits option.splits if_splits)

termination lex_word
  by (relation "measure (\<lambda>(rest, _). length rest)") (auto dest: lex_escape_length)

declare lex_word.simps [simp del]

lemma lex_word_Nil:
  "lex_word [] i quote = (case quote of Some q \<Rightarrow> Inl \<lparr>offset = q, kind = Unterminated\<rparr> | None \<Rightarrow> Inr ([], [], i))"
  by (simp add: lex_word.simps)

lemma lex_word_stop:
  "b = CHR ''|'' \<or> space_at (b # bs) > 0 \<Longrightarrow> lex_word (b # bs) i None = Inr ([], b # bs, i)"
  by (simp add: lex_word.simps)

text \<open>A byte inside a word.\<close>

definition inside :: "nat option \<Rightarrow> byte \<Rightarrow> bytes \<Rightarrow> bool" where
  "inside quote b bs \<longleftrightarrow> \<not> (quote = None \<and> (b = CHR ''|'' \<or> space_at (b # bs) > 0))"

lemma lex_word_inside:
  assumes "inside quote b bs"
  shows "b = CHR 0x27 \<Longrightarrow> lex_word (b # bs) i quote = lex_word bs (i + 1) (if quote \<noteq> None then None else Some i)"
    "b = CHR 0x5C \<Longrightarrow> lex_word (b # bs) i quote =
      (case lex_escape bs of
         None \<Rightarrow> Inl \<lparr>offset = i, kind = BadEscape\<rparr>
       | Some (c, n) \<Rightarrow>
           map_sum id (\<lambda>(ps, r, j). (\<lparr>byte = c, plain = False, at = i\<rparr> # ps, r, j))
             (lex_word (drop n (b # bs)) (i + n) quote))"
    "b \<noteq> CHR 0x27 \<Longrightarrow> b \<noteq> CHR 0x5C \<Longrightarrow> lex_word (b # bs) i quote =
      map_sum id (\<lambda>(ps, r, j). (\<lparr>byte = b, plain = (quote = None), at = i\<rparr> # ps, r, j)) (lex_word bs (i + 1) quote)"
proof -
  have g: "(quote = None \<and> (b = CHR ''|'' \<or> space_at (b # bs) > 0)) = False" using assms by (simp add: inside_def)
  have step: "lex_word (b # bs) i quote =
     (if b = CHR 0x27 then lex_word bs (i + 1) (if quote \<noteq> None then None else Some i)
      else if b = CHR 0x5C then
        (case lex_escape bs of
           None \<Rightarrow> Inl \<lparr>offset = i, kind = BadEscape\<rparr>
         | Some (c, n) \<Rightarrow>
             map_sum id (\<lambda>(ps, r, j). (\<lparr>byte = c, plain = False, at = i\<rparr> # ps, r, j))
               (lex_word (drop n (b # bs)) (i + n) quote))
      else map_sum id (\<lambda>(ps, r, j). (\<lparr>byte = b, plain = (quote = None), at = i\<rparr> # ps, r, j))
        (lex_word bs (i + 1) quote))"
    by (subst lex_word.simps, simp only: list.case g if_False)
  show "b = CHR 0x27 \<Longrightarrow> lex_word (b # bs) i quote = lex_word bs (i + 1) (if quote \<noteq> None then None else Some i)"
    unfolding step by simp
  show "b = CHR 0x5C \<Longrightarrow> lex_word (b # bs) i quote =
      (case lex_escape bs of
         None \<Rightarrow> Inl \<lparr>offset = i, kind = BadEscape\<rparr>
       | Some (c, n) \<Rightarrow>
           map_sum id (\<lambda>(ps, r, j). (\<lparr>byte = c, plain = False, at = i\<rparr> # ps, r, j))
             (lex_word (drop n (b # bs)) (i + n) quote))"
    unfolding step by simp
  show "b \<noteq> CHR 0x27 \<Longrightarrow> b \<noteq> CHR 0x5C \<Longrightarrow> lex_word (b # bs) i quote =
      map_sum id (\<lambda>(ps, r, j). (\<lparr>byte = b, plain = (quote = None), at = i\<rparr> # ps, r, j)) (lex_word bs (i + 1) quote)"
    unfolding step by simp
qed

lemma map_sum_Inr_iff: "map_sum id f s = Inr y \<longleftrightarrow> (\<exists>x. s = Inr x \<and> f x = y)"
  by (cases s) auto

text \<open>Induction over the bytes of a word that was read.\<close>

lemma lex_word_induct [consumes 1, case_names finish stop quote escape plain]:
  assumes "lex_word rest i quote = Inr (ps, r, j)"
    and "\<And>i. P [] i None [] [] i"
    and "\<And>b bs i. b = CHR ''|'' \<or> space_at (b # bs) > 0 \<Longrightarrow> P (b # bs) i None [] (b # bs) i"
    and "\<And>bs i quote ps r j. inside quote (CHR 0x27) bs \<Longrightarrow>
      P bs (i + 1) (if quote \<noteq> None then None else Some i) ps r j \<Longrightarrow> P (CHR 0x27 # bs) i quote ps r j"
    and "\<And>bs i quote c n ps r j. inside quote (CHR 0x5C) bs \<Longrightarrow> lex_escape bs = Some (c, n) \<Longrightarrow>
      P (drop (n - 1) bs) (i + n) quote ps r j \<Longrightarrow>
      P (CHR 0x5C # bs) i quote (\<lparr>byte = c, plain = False, at = i\<rparr> # ps) r j"
    and "\<And>b bs i quote ps r j. inside quote b bs \<Longrightarrow> b \<noteq> CHR 0x27 \<Longrightarrow> b \<noteq> CHR 0x5C \<Longrightarrow>
      P bs (i + 1) quote ps r j \<Longrightarrow> P (b # bs) i quote (\<lparr>byte = b, plain = (quote = None), at = i\<rparr> # ps) r j"
  shows "P rest i quote ps r j"
  using assms(1)
proof (induction "length rest" arbitrary: rest i quote ps rule: less_induct)
  case less
  show ?case
  proof (cases rest)
    case Nil
    with less.prems assms(2) show ?thesis by (auto simp: lex_word_Nil split: option.splits)
  next
    case (Cons b bs)
    show ?thesis
    proof (cases "inside quote b bs")
      case False
      then have q: "quote = None" "b = CHR ''|'' \<or> space_at (b # bs) > 0" by (auto simp: inside_def)
      with less.prems lex_word_stop [OF q(2)] have "ps = []" "r = rest" "j = i" by (auto simp: Cons)
      with q assms(3) [OF q(2)] show ?thesis by (simp add: Cons)
    next
      case True
      note lw = lex_word_inside [OF True]
      consider "b = CHR 0x27" | "b = CHR 0x5C" | "b \<noteq> CHR 0x27" "b \<noteq> CHR 0x5C" by blast
      then show ?thesis
      proof cases
        case 1
        have "P bs (i + 1) (if quote \<noteq> None then None else Some i) ps r j"
          by (rule less.hyps) (use less.prems lw(1) [OF 1, of i] in \<open>simp_all add: Cons\<close>)
        with assms(4) True 1 show ?thesis by (simp add: Cons)
      next
        case 2
        obtain c n where e: "lex_escape bs = Some (c, n)"
          using less.prems lw(2) [OF 2, of i] by (cases "lex_escape bs") (auto simp: Cons)
        obtain n' where n: "n = Suc n'" using lex_escape_length [OF e] by (cases n) auto
        obtain ps' where w: "lex_word (drop n' bs) (i + n) quote = Inr (ps', r, j)"
          and ps: "ps = \<lparr>byte = c, plain = False, at = i\<rparr> # ps'"
          using less.prems lw(2) [OF 2, of i] e by (auto simp: Cons n map_sum_Inr_iff)
        have "P (drop n' bs) (i + n) quote ps' r j" by (rule less.hyps [OF _ w]) (simp add: Cons)
        then show ?thesis using assms(5) [of quote bs c n i ps' r j] True 2 e ps n by (simp add: Cons)
      next
        case 3
        obtain ps' where w: "lex_word bs (i + 1) quote = Inr (ps', r, j)"
          and ps: "ps = \<lparr>byte = b, plain = (quote = None), at = i\<rparr> # ps'"
          using less.prems lw(3) [OF 3, of i] by (auto simp: Cons map_sum_Inr_iff)
        have "P bs (i + 1) quote ps' r j" by (rule less.hyps [OF _ w]) (simp add: Cons)
        then show ?thesis using assms(6) [OF True 3] ps by (simp add: Cons)
      qed
    qed
  qed
qed

lemma space_at_length: "space_at rest \<le> length rest"
  by (auto simp: space_at_def dest: utf8_item_Scalar_bounds split: list.splits utf8_item.splits)

lemma lex_word_rest:
  "lex_word rest i quote = Inr (ps, r, j) \<Longrightarrow>
     length r \<le> length rest \<and> j + length r = i + length rest \<and>
     (r = [] \<or> hd r = CHR ''|'' \<or> space_at r > 0)"
proof (induction rule: lex_word_induct)
  case (escape bs i quote c n ps r j)
  with lex_escape_length [OF escape(2)] show ?case by auto
qed auto

lemma lex_word_progress:
  assumes "lex_word (b # bs) i None = Inr (ps, r, j)" "b \<noteq> CHR ''|''" "space_at (b # bs) = 0"
  shows "length r < Suc (length bs)"
proof -
  have ins: "inside None b bs" using assms(2,3) by (simp add: inside_def)
  note lw = lex_word_inside [OF ins, of i]
  consider "b = CHR 0x27" | "b = CHR 0x5C" | "b \<noteq> CHR 0x27" "b \<noteq> CHR 0x5C" by blast
  then show ?thesis
  proof cases
    case 1
    with lex_word_rest [of bs "i + 1" "Some i" ps r j] lw(1) assms(1) show ?thesis by simp
  next
    case 2
    obtain c n ps' where "lex_escape bs = Some (c, n)" "lex_word (drop n (b # bs)) (i + n) None = Inr (ps', r, j)"
      using assms(1) unfolding lw(2) [OF 2] by (auto simp: map_sum_Inr_iff split: option.splits)
    with lex_word_rest [OF this(2)] lex_escape_length [OF this(1)] show ?thesis by auto
  next
    case 3
    obtain ps' where "lex_word bs (i + 1) None = Inr (ps', r, j)"
      using assms(1) unfolding lw(3) [OF 3] by (auto simp: map_sum_Inr_iff)
    with lex_word_rest [OF this] show ?thesis by simp
  qed
qed

text \<open>The tokens before an error survive.\<close>

function lex_from :: "bytes \<Rightarrow> nat \<Rightarrow> tok list \<times> parse_error option" where
  "lex_from rest i =
     (case rest of
        [] \<Rightarrow> ([], None)
      | b # bs \<Rightarrow>
          let space = space_at rest
          in if space > 0 then lex_from (drop space rest) (i + space)
             else if b = CHR ''|'' then map_prod (\<lambda>ts. Pipe i # ts) id (lex_from bs (i + 1))
             else
               (case lex_word rest i None of
                  Inl e \<Rightarrow> ([], Some e)
                | Inr (pieces, r, j) \<Rightarrow> map_prod (\<lambda>ts. Word (i, j) pieces # ts) id (lex_from r j)))"
  by pat_completeness auto

termination lex_from
  by (relation "measure (\<lambda>(rest, _). length rest)") (auto dest: lex_word_progress)

declare lex_from.simps [simp del]

definition lex :: "bytes \<Rightarrow> tok list \<times> parse_error option" where
  "lex line = lex_from line 0"

datatype span = SpanWord range | SpanPipe nat

fun span_of :: "tok \<Rightarrow> span" where
  "span_of (Word r ps) = SpanWord r"
| "span_of (Pipe i) = SpanPipe i"

definition spans :: "bytes \<Rightarrow> span list option" where
  "spans line = (case lex line of (toks, err) \<Rightarrow> if err \<noteq> None then None else Some (map span_of toks))"

section \<open>Runs of pieces\<close>

definition piece_bytes :: "piece list \<Rightarrow> bytes" where
  "piece_bytes ps = map byte ps"

definition plain_prefix :: "piece list \<Rightarrow> bytes \<Rightarrow> bool" where
  "plain_prefix ps pre \<longleftrightarrow> length ps \<ge> length pre \<and> list_all (\<lambda>(p, b). plain p \<and> byte p = b) (zip ps pre)"

definition plain_eq :: "piece list \<Rightarrow> bytes \<Rightarrow> bool" where
  "plain_eq ps word \<longleftrightarrow> length ps = length word \<and> plain_prefix ps word"

definition plain_text :: "piece list \<Rightarrow> bytes option" where
  "plain_text ps = (if list_all plain ps \<and> utf8_valid (piece_bytes ps) then Some (piece_bytes ps) else None)"

section \<open>Characters that are drawn as nothing\<close>

definition FORMAT_CHARS :: "(nat \<times> nat) list" where
  "FORMAT_CHARS = [
     (0x00AD, 0x00AD), (0x0600, 0x0605), (0x061C, 0x061C), (0x06DD, 0x06DD), (0x070F, 0x070F),
     (0x0890, 0x0891), (0x08E2, 0x08E2), (0x180E, 0x180E), (0x200B, 0x200F), (0x202A, 0x202E),
     (0x2060, 0x2064), (0x2066, 0x206F), (0xFEFF, 0xFEFF), (0xFFF9, 0xFFFB), (0x110BD, 0x110BD),
     (0x110CD, 0x110CD), (0x13430, 0x1343F), (0x1BCA0, 0x1BCA3), (0x1D173, 0x1D17A),
     (0xE0001, 0xE0001), (0xE0020, 0xE007F)]"

definition INVISIBLE_LETTERS :: "nat list" where
  "INVISIBLE_LETTERS = [0x115F, 0x1160, 0x3164, 0xFFA0]"

definition INVISIBLE_MARKS :: "(nat \<times> nat) list" where
  "INVISIBLE_MARKS = [(0x034F, 0x034F), (0x17B4, 0x17B5), (0x180B, 0x180F), (0xFE00, 0xFE0F), (0xE0100, 0xE01EF)]"

definition in_ranges :: "(nat \<times> nat) list \<Rightarrow> nat \<Rightarrow> bool" where
  "in_ranges rs c \<longleftrightarrow> list_ex (\<lambda>(lo, hi). lo \<le> c \<and> c \<le> hi) rs"

definition is_format :: "nat \<Rightarrow> bool" where
  "is_format c \<longleftrightarrow> in_ranges FORMAT_CHARS c \<or> c \<in> set INVISIBLE_LETTERS \<or> in_ranges INVISIBLE_MARKS c"

text \<open>\<^verbatim>\<open>str::from_utf8(bytes).ok().and_then(|s| s.chars().next())\<close>.\<close>

definition first_char :: "bytes \<Rightarrow> nat option" where
  "first_char bs =
     (if utf8_valid bs then (case utf8_chars bs of [] \<Rightarrow> None | c # _ \<Rightarrow> Some (utf8_code c)) else None)"

definition format_len :: "piece list \<Rightarrow> nat" where
  "format_len ps =
     (case ps of
        [] \<Rightarrow> 0
      | p # _ \<Rightarrow>
          let b = u8 (byte p);
              n = (if 0xC0 \<le> b \<and> b \<le> 0xDF then 2 else if 0xE0 \<le> b \<and> b \<le> 0xEF then 3
                   else if 0xF0 \<le> b \<and> b \<le> 0xF7 then 4 else 0)
          in if n = 0 \<or> length ps < n then 0
             else if list_all plain (take n ps) \<and>
               (case first_char (piece_bytes (take n ps)) of None \<Rightarrow> False | Some c \<Rightarrow> is_format c)
             then n else 0)"

definition joins_emoji :: "piece list \<Rightarrow> bool" where
  "joins_emoji run =
     (case first_char (piece_bytes run) of
        None \<Rightarrow> False
      | Some c \<Rightarrow> c = 0x200D \<or> 0xFE00 \<le> c \<and> c \<le> 0xFE0F \<or> 0xE0100 \<le> c \<and> c \<le> 0xE01EF)"

function strip_loop :: "piece list \<Rightarrow> piece list \<Rightarrow> nat option \<Rightarrow> piece list \<times> nat option" where
  "strip_loop [] kept first = (kept, first)"
| "strip_loop (p # ps) kept first =
     (let n = format_len (p # ps);
          n = (if n > 0 \<and> kept \<noteq> [] \<and> u8 (byte (last kept)) \<ge> 0x80 \<and> joins_emoji (take n (p # ps)) then 0 else n)
      in if n = 0 then strip_loop ps (kept @ [p]) first
         else strip_loop (drop n (p # ps)) kept (case first of None \<Rightarrow> Some (at p) | Some f \<Rightarrow> Some f))"
  by pat_completeness auto

termination strip_loop
  by (relation "measure (\<lambda>(ps, _). length ps)") (auto split: if_splits)

definition strip_format :: "piece list \<Rightarrow> (piece list \<times> nat) option" where
  "strip_format ps = (case strip_loop ps [] None of (kept, first) \<Rightarrow> map_option (\<lambda>a. (kept, a)) first)"

end
