(* ===== verification/Orders_Parse.thy ===== *)
theory Orders_Parse
  imports Orders_Lex
begin

text \<open>
  The parser of the order line (\<^verbatim>\<open>norte-orders/src/parse.rs\<close>). The functions of the source push the
  colour spans they recognise on a vector that is passed along; here each returns the spans it
  pushes together with its result, and \<open>also_spans\<close> runs one after the other, the way the \<^verbatim>\<open>?\<close>
  operator does. Numbers are natural numbers with the bounds of \<^verbatim>\<open>u32\<close>, \<^verbatim>\<open>u64\<close> and \<^verbatim>\<open>u128\<close>
  written out.
\<close>

section \<open>Results with colour spans\<close>

datatype token_class = TokVerb | TokKey | TokValue | TokPipe | TokDest | TokError

type_synonym colour_spans = "(range \<times> token_class) list"
type_synonym 'a colouring = "colour_spans \<times> (parse_error + 'a)"

definition fail :: "nat \<Rightarrow> parse_error_kind \<Rightarrow> parse_error + 'a" where
  "fail off k = Inl \<lparr>offset = off, kind = k\<rparr>"

fun also_spans :: "'a colouring \<Rightarrow> ('a \<Rightarrow> 'b colouring) \<Rightarrow> 'b colouring" where
  "also_spans (sp, Inl e) f = (sp, Inl e)"
| "also_spans (sp, Inr x) f = map_prod (\<lambda>sp'. sp @ sp') id (f x)"

lemma snd_also_spans [simp]: "snd (also_spans m f) = and_then (snd m) (\<lambda>x. snd (f x))"
  by (cases "(m, f)" rule: also_spans.cases) auto

lemma fst_also_spans:
  "fst (also_spans m f) = fst m @ (case snd m of Inl e \<Rightarrow> [] | Inr x \<Rightarrow> fst (f x))"
  by (cases "(m, f)" rule: also_spans.cases) auto

section \<open>Arguments\<close>

type_synonym segment = "(range \<times> piece list) list"

definition is_catalogue_id :: "bytes \<Rightarrow> bool" where
  "is_catalogue_id s \<longleftrightarrow> CHR ''.'' \<in> set s \<and> hd s \<noteq> CHR ''.'' \<and> last s \<noteq> CHR ''.'' \<and>
     list_all (\<lambda>b. 97 \<le> u8 b \<and> u8 b \<le> 122 \<or> 48 \<le> u8 b \<and> u8 b \<le> 57 \<or>
       b = CHR ''.'' \<or> b = CHR ''_'' \<or> b = CHR ''-'') s"

definition is_digit :: "byte \<Rightarrow> bool" where
  "is_digit b \<longleftrightarrow> 48 \<le> u8 b \<and> u8 b \<le> 57"

text \<open>\<^verbatim>\<open>str::parse\<close> of an unsigned type with the given bound, for a run of digits.\<close>

definition parse_uint :: "nat \<Rightarrow> bytes \<Rightarrow> nat option" where
  "parse_uint bound t = (if t \<noteq> [] \<and> undecimal t < bound then Some (undecimal t) else None)"

text \<open>\<open>Some ((bare, at))\<close> of \<open>strip_format\<close> with a condition on it, as the \<^verbatim>\<open>if let ... &&\<close> chains
  of the source test it.\<close>

definition hidden :: "piece list \<Rightarrow> (piece list \<Rightarrow> bool) \<Rightarrow> nat option" where
  "hidden ps P = (case strip_format ps of Some (bare, a) \<Rightarrow> if P bare then Some a else None | None \<Rightarrow> None)"

definition one_arg :: "segment \<Rightarrow> nat \<Rightarrow> bytes colouring" where
  "one_arg args end =
     (case args of
        [] \<Rightarrow> ([], fail end MissingArg)
      | (r, p) # others \<Rightarrow>
          if p = [] then ([], fail (fst r) MissingArg)
          else (case hidden p (\<lambda>bare. bare = []) of
              Some a \<Rightarrow> ([], fail a InvisibleChar)
            | None \<Rightarrow>
                ([(r, TokValue)],
                 case others of (r2, _) # _ \<Rightarrow> fail (fst r2) BadTerm | [] \<Rightarrow> Inr (piece_bytes p))))"

definition parse_count :: "segment \<Rightarrow> nat option colouring" where
  "parse_count args =
     (case args of
        [] \<Rightarrow> ([], Inr None)
      | (r, p) # others \<Rightarrow>
          (case Option.bind (plain_text p) (\<lambda>t. if t \<noteq> [] \<and> list_all is_digit t then parse_uint (2 ^ 32) t else None) of
             None \<Rightarrow> ([], fail (fst r) BadNumber)
           | Some n \<Rightarrow>
               ([(r, TokValue)], case others of (r2, _) # _ \<Rightarrow> fail (fst r2) BadTerm | [] \<Rightarrow> Inr (Some n))))"

definition dest_body :: "piece list \<Rightarrow> range \<Rightarrow> segment \<Rightarrow> order_dest colouring" where
  "dest_body body span rest =
     (if body = [] then ([], fail (fst span) MissingDest)
      else (case hidden body (\<lambda>bare. bare = [] \<or> plain_eq bare ''other'' \<or> plain_eq bare ''here'') of
          Some a \<Rightarrow> ([], fail a InvisibleChar)
        | None \<Rightarrow>
            ([(span, TokDest)],
             case rest of
               (r, _) # _ \<Rightarrow> fail (fst r) BadTerm
             | [] \<Rightarrow> Inr (if plain_eq body ''other'' then Other else if plain_eq body ''here'' then Here
                          else Path (piece_bytes body)))))"

definition parse_dest :: "segment \<Rightarrow> nat \<Rightarrow> order_dest colouring" where
  "parse_dest args end =
     (case args of
        [] \<Rightarrow> ([], fail end MissingDest)
      | (r, p) # others \<Rightarrow>
          if \<not> plain_prefix p ''>'' then
            (case hidden p (\<lambda>bare. plain_prefix bare ''>'') of
               Some a \<Rightarrow> ([], fail a InvisibleChar)
             | None \<Rightarrow> ([], fail (fst r) MissingDest))
          else if length p = 1 then
            (case others of
               (r2, p2) # rest \<Rightarrow> dest_body p2 (fst r, snd r2) rest
             | [] \<Rightarrow> ([], fail end MissingDest))
          else dest_body (drop 1 p) r others)"

section \<open>Terms\<close>

definition UNITS_SIZE :: "(byte \<times> nat) list" where
  "UNITS_SIZE = [(CHR ''K'', 2 ^ 10), (CHR ''M'', 2 ^ 20), (CHR ''G'', 2 ^ 30), (CHR ''T'', 2 ^ 40)]"

definition UNITS_AGE :: "(byte \<times> nat) list" where
  "UNITS_AGE = [(CHR ''s'', 1), (CHR ''m'', 60), (CHR ''h'', 3600), (CHR ''d'', 86400), (CHR ''w'', 604800)]"

definition keyed_cmp :: "piece list \<Rightarrow> bytes \<Rightarrow> (cmp \<times> nat) option" where
  "keyed_cmp p key =
     (if \<not> plain_prefix p key then None
      else map_option (\<lambda>(op, c). (c, length key + length op))
        (find (\<lambda>(op, c). plain_prefix (drop (length key) p) op)
          [(''<='', Le), (''>='', Ge), (''<'', Lt), (''>'', Gt), (''='', CmpEq)]))"

definition to_ascii_uppercase :: "byte \<Rightarrow> byte" where
  "to_ascii_uppercase b = (if 97 \<le> u8 b \<and> u8 b \<le> 122 then char_of (u8 b - 32) else b)"

text \<open>The fraction of a size: its digits' value and their number, and what follows.\<close>

definition number_frac :: "bool \<Rightarrow> bytes \<Rightarrow> ((nat \<times> nat) \<times> bytes) option" where
  "number_frac sized rest =
     (case rest of
        c # ds \<Rightarrow>
          if sized \<and> c = CHR ''.'' then
            let f = takeWhile is_digit ds
            in if f = [] \<or> length f > 9 then None
               else Some ((undecimal f, length f), dropWhile is_digit ds)
          else Some ((0, 0), rest)
      | [] \<Rightarrow> Some ((0, 0), rest))"

definition number_unit :: "(byte \<times> nat) list \<Rightarrow> bool \<Rightarrow> bytes \<Rightarrow> nat option" where
  "number_unit units sized rest =
     (case rest of
        [] \<Rightarrow> if sized then Some 1 else None
      | [b] \<Rightarrow> map_of units (if sized then to_ascii_uppercase b else b)
      | _ \<Rightarrow> None)"

definition number :: "piece list \<Rightarrow> (byte \<times> nat) list \<Rightarrow> bool \<Rightarrow> nat option" where
  "number p units sized =
     Option.bind (plain_text p) (\<lambda>t.
       Option.bind (parse_uint (2 ^ 128) (takeWhile is_digit t)) (\<lambda>int.
         Option.bind (number_frac sized (dropWhile is_digit t)) (\<lambda>((frac, digits), rest).
           Option.bind (number_unit units sized rest) (\<lambda>mult.
             if int * mult \<ge> 2 ^ 128 then None
             else let value = int * mult + frac * mult div 10 ^ digits
                  in if value < 2 ^ 64 then Some value else None))))"

definition keyed :: "piece list \<Rightarrow> bool" where
  "keyed b \<longleftrightarrow> list_ex (plain_prefix b) [''ext:'', ''name:'', ''name='', ''type:''] \<or>
     keyed_cmp b ''size'' \<noteq> None \<or> keyed_cmp b ''age'' \<noteq> None"

text \<open>The closure \<^verbatim>\<open>key\<close>: the spans of a key of length \<open>len\<close> after the leading \<open>!\<close>.\<close>

definition key_spans :: "range \<Rightarrow> piece list \<Rightarrow> nat \<Rightarrow> nat \<Rightarrow> colour_spans" where
  "key_spans r p lead len =
     (let split = (if lead + len < length p then at (p ! (lead + len)) else snd r)
      in (if split > fst r then [((fst r, split), TokKey)] else []) @
         (if split < snd r then [((split, snd r), TokValue)] else []))"

text \<open>The extensions of \<^verbatim>\<open>ext:\<close>, split at the commas that were typed plain.\<close>

fun ext_list :: "piece list \<Rightarrow> bytes list" where
  "ext_list [] = [[]]"
| "ext_list (q # qs) =
     (if plain q \<and> byte q = CHR '','' then [] # ext_list qs
      else (case ext_list qs of [] \<Rightarrow> [[byte q]] | e # es \<Rightarrow> (byte q # e) # es))"

definition parse_kind :: "range \<Rightarrow> piece list \<Rightarrow> parse_error + kind_sel" where
  "parse_kind r rest =
     (if plain_eq rest ''file'' then Inr KindFile
      else if plain_eq rest ''dir'' then Inr KindDir
      else if plain_eq rest ''link'' then Inr KindLink
      else (case hidden rest (\<lambda>bare. list_ex (plain_eq bare) [''file'', ''dir'', ''link'']) of
          Some a \<Rightarrow> fail a InvisibleChar
        | None \<Rightarrow> fail (fst r) BadTerm))"

text \<open>The predicate of a term, from its body without the \<open>!\<close>, and the length of its key.\<close>

definition parse_pred :: "range \<Rightarrow> piece list \<Rightarrow> nat \<times> (parse_error + pred)" where
  "parse_pred r body =
     (if plain_prefix body ''ext:'' then (4, Inr (Ext (ext_list (drop 4 body))))
      else if plain_prefix body ''name:'' then (5, Inr (Name (piece_bytes (drop 5 body))))
      else if plain_prefix body ''name='' then (5, Inr (Literal (piece_bytes (drop 5 body))))
      else if plain_prefix body ''type:'' then (5, map_sum id Kind (parse_kind r (drop 5 body)))
      else (case keyed_cmp body ''size'' of
          Some (c, len) \<Rightarrow>
            (len, case number (drop len body) UNITS_SIZE True of
               None \<Rightarrow> fail (fst r) BadNumber | Some n \<Rightarrow> Inr (Size c n))
        | None \<Rightarrow>
            (case keyed_cmp body ''age'' of
               Some (c, len) \<Rightarrow>
                 (len, case number (drop len body) UNITS_AGE False of
                    None \<Rightarrow> fail (fst r) BadNumber | Some n \<Rightarrow> Inr (Age c n))
             | None \<Rightarrow> (0, Inr (Name (piece_bytes body))))))"

definition parse_term :: "range \<Rightarrow> piece list \<Rightarrow> order_term colouring" where
  "parse_term r p =
     (let neg = plain_prefix p ''!'';
          body = (if neg then drop 1 p else p)
      in if body = [] then ([], fail (fst r) BadTerm)
         else (case hidden body (\<lambda>bare. neg \<or> keyed bare \<and> \<not> keyed body \<or>
                  plain_prefix bare ''!'' \<and> \<not> plain_prefix body ''!'') of
             Some a \<Rightarrow> ([], fail a InvisibleChar)
           | None \<Rightarrow>
               (case parse_pred r body of (len, res) \<Rightarrow>
                  (key_spans r p (if neg then 1 else 0) len,
                   map_sum id (\<lambda>q. \<lparr>negated = neg, pred = q\<rparr>) res))))"

section \<open>Stages\<close>

definition is_verb :: "bytes \<Rightarrow> bool" where
  "is_verb v \<longleftrightarrow> v \<in> set [''sel'', ''cp'', ''mv'', ''trash'', ''mkdir'', ''cd'', ''log'', ''undo''] \<or> is_catalogue_id v"

definition no_args :: "segment \<Rightarrow> parse_error + unit" where
  "no_args args = (case args of (r, _) # _ \<Rightarrow> fail (fst r) BadTerm | [] \<Rightarrow> Inr ())"

fun parse_terms :: "segment \<Rightarrow> order_term list colouring" where
  "parse_terms [] = ([], Inr [])"
| "parse_terms ((r, p) # args) =
     also_spans (parse_term r p) (\<lambda>t. also_spans (parse_terms args) (\<lambda>ts. ([], Inr (t # ts))))"

definition map_colour :: "('a \<Rightarrow> 'b) \<Rightarrow> 'a colouring \<Rightarrow> 'b colouring" where
  "map_colour f = map_prod id (map_sum id f)"

text \<open>What a known verb does with its arguments.\<close>

definition verb_args :: "bytes \<Rightarrow> nat \<Rightarrow> segment \<Rightarrow> nat \<Rightarrow> stage colouring" where
  "verb_args verb vstart args end =
     (if verb = ''sel'' then
        (if args = [] then ([], fail end MissingArg)
         else map_colour (\<lambda>ts. Sel \<lparr>terms = ts\<rparr>) (parse_terms args))
      else if verb = ''cp'' then map_colour Cp (parse_dest args end)
      else if verb = ''mv'' then map_colour Mv (parse_dest args end)
      else if verb = ''trash'' then ([], map_sum id (\<lambda>_. Trash) (no_args args))
      else if verb = ''mkdir'' then map_colour Mkdir (one_arg args end)
      else if verb = ''cd'' then map_colour Cd (one_arg args end)
      else if verb = ''log'' then map_colour Log (parse_count args)
      else if verb = ''undo'' then map_colour Undo (parse_count args)
      else if verb = ''redo'' then ([], fail vstart NotYet)
      else if is_catalogue_id verb then ([], map_sum id (\<lambda>_. Catalogue verb) (no_args args))
      else ([], fail vstart UnknownVerb))"

definition parse_stage :: "range \<times> piece list \<Rightarrow> segment \<Rightarrow> nat \<Rightarrow> stage colouring" where
  "parse_stage head args end =
     (case head of (vspan, vpieces) \<Rightarrow>
        (case hidden vpieces (\<lambda>bare. case plain_text bare of None \<Rightarrow> False | Some v \<Rightarrow> is_verb v \<or> v = ''redo'') of
           Some a \<Rightarrow> ([], fail a InvisibleChar)
         | None \<Rightarrow>
             (case plain_text vpieces of
                None \<Rightarrow> ([], fail (fst vspan) UnknownVerb)
              | Some verb \<Rightarrow>
                  also_spans (if is_verb verb then [(vspan, TokVerb)] else [], Inr ())
                    (\<lambda>_. verb_args verb (fst vspan) args end))))"

section \<open>Lines\<close>

fun segments :: "tok list \<Rightarrow> segment list \<times> nat list" where
  "segments [] = ([[]], [])"
| "segments (Pipe i # ts) = (case segments ts of (segs, pipes) \<Rightarrow> ([] # segs, i # pipes))"
| "segments (Word r ps # ts) =
     (case segments ts of
        (seg # segs, pipes) \<Rightarrow> (((r, ps) # seg) # segs, pipes)
      | ([], pipes) \<Rightarrow> ([[(r, ps)]], pipes))"

text \<open>The loop over the stages; \<open>prev\<close> is the pipe in front of the stage and \<open>pipes\<close> are the ones
  that follow. \<open>len\<close> is the length of the line.\<close>

fun run_stages :: "nat \<Rightarrow> parse_error option \<Rightarrow> nat option \<Rightarrow> nat list \<Rightarrow> segment list \<Rightarrow> stage list colouring" where
  "run_stages len lex_err prev pipes [] = ([], Inr [])"
| "run_stages len lex_err prev pipes (seg # segs) =
     also_spans ((case prev of Some i \<Rightarrow> [((i, i + 1), TokPipe)] | None \<Rightarrow> []), Inr ()) (\<lambda>_.
       case seg of
         [] \<Rightarrow>
           ([], case lex_err of
              Some e \<Rightarrow> Inl e
            | None \<Rightarrow> fail (case prev of Some i \<Rightarrow> i + 1 | None \<Rightarrow> (case pipes of i # _ \<Rightarrow> i | [] \<Rightarrow> len)) Empty)
       | head # args \<Rightarrow>
           also_spans
             (case parse_stage head args (snd (fst (last seg))) of
                (sp, Inr s) \<Rightarrow> (sp, Inr s)
              | (sp, Inl e) \<Rightarrow> (sp, Inl (case lex_err of Some e' \<Rightarrow> if segs = [] then e' else e | None \<Rightarrow> e)))
             (\<lambda>s. also_spans
                (run_stages len lex_err (case pipes of i # _ \<Rightarrow> Some i | [] \<Rightarrow> None) (drop 1 pipes) segs)
                (\<lambda>ss. ([], Inr (s # ss)))))"

fun alone :: "stage \<Rightarrow> bool" where
  "alone (Log n) = True"
| "alone (Undo n) = True"
| "alone _ = False"

definition run_line :: "bytes \<Rightarrow> order_line colouring" where
  "run_line line =
     (case lex line of (toks, lex_err) \<Rightarrow>
        case segments toks of (segs, pipes) \<Rightarrow>
          also_spans (run_stages (length line) lex_err None pipes segs) (\<lambda>ss.
            ([], case lex_err of
               Some e \<Rightarrow> Inl e
             | None \<Rightarrow>
                 (case (if length ss > 1 then position alone ss else None) of
                    Some k \<Rightarrow> fail (case segs ! k of (r, _) # _ \<Rightarrow> fst r | [] \<Rightarrow> 0) StandsAlone
                  | None \<Rightarrow> Inr \<lparr>stages = ss\<rparr>))))"

definition parse :: "bytes \<Rightarrow> parse_error + order_line" where
  "parse line = snd (run_line line)"

fun tok_range :: "tok \<Rightarrow> range" where
  "tok_range (Word r ps) = r"
| "tok_range (Pipe i) = (i, i + 1)"

definition tokens :: "bytes \<Rightarrow> colour_spans" where
  "tokens line =
     (let lexed = map tok_range (fst (lex line))
      in case run_line line of
           (sp, Inr _) \<Rightarrow> sp
         | (sp, Inl e) \<Rightarrow>
             let kept = filter (\<lambda>(r, _). snd r \<le> offset e) sp;
                 word_end = (case find (\<lambda>r. fst r \<le> offset e \<and> offset e < snd r) lexed of
                   Some r \<Rightarrow> snd r | None \<Rightarrow> length line);
                 end = (if offset e < word_end then word_end else length line)
             in kept @ ((offset e, max end (offset e)), TokError) #
                map (\<lambda>r. (r, TokError)) (filter (\<lambda>r. fst r \<ge> end) lexed))"

end
