(* ===== verification/Orders_Print.thy ===== *)
theory Orders_Print
  imports Orders_Parse
begin

text \<open>
  The printer of the order line (\<^verbatim>\<open>norte-orders/src/print.rs\<close>) and its relation to the parser. The
  general categories of characters beyond ASCII come from the Rust standard library
  (\<^verbatim>\<open>char::is_alphanumeric\<close>) and the \<^verbatim>\<open>unicode-normalization\<close> crate
  (\<^verbatim>\<open>char::is_combining_mark\<close>): they are the fields of the parameter \<open>char_classes\<close>. A printed word
  is a list of units, each a character written as it is or an escaped byte; the lemmas say how a
  word of units is read, and the order built from it is the order that was printed.
\<close>

section \<open>The printer\<close>

record char_classes =
  is_alphanumeric :: "nat \<Rightarrow> bool"
  is_combining_mark :: "nat \<Rightarrow> bool"

definition MAX_MARKS :: nat where
  "MAX_MARKS = 4"

definition safe :: "char_classes \<Rightarrow> bytes \<Rightarrow> bool \<Rightarrow> nat \<Rightarrow> bool" where
  "safe cls c comma marks_left =
     (let x = utf8_code c
      in if x < 128 then
           33 \<le> x \<and> x \<le> 126 \<and> c \<notin> {''|'', [CHR 0x27], [CHR 0x5C]} \<and> \<not> (comma \<and> c = '','')
         else if is_combining_mark cls x then marks_left > 0 \<and> \<not> in_ranges INVISIBLE_MARKS x
         else is_alphanumeric cls x \<and> x \<notin> set INVISIBLE_LETTERS)"

text \<open>The format \<^verbatim>\<open>{:02x}\<close> of a byte after a backslash and an x.\<close>

definition escape_byte :: "byte \<Rightarrow> bytes" where
  "escape_byte b = [CHR 0x5C, CHR ''x'', ''0123456789abcdef'' ! (u8 b div 16), ''0123456789abcdef'' ! (u8 b mod 16)]"

fun escape_chars :: "char_classes \<Rightarrow> bool \<Rightarrow> nat \<Rightarrow> bytes list \<Rightarrow> bytes \<times> nat" where
  "escape_chars cls comma marks_left [] = ([], marks_left)"
| "escape_chars cls comma marks_left (c # cs) =
     (if safe cls c comma marks_left then
        map_prod (\<lambda>out. c @ out) id
          (escape_chars cls comma
             (if is_combining_mark cls (utf8_code c) then marks_left - 1
              else if is_alphanumeric cls (utf8_code c) then MAX_MARKS else 0) cs)
      else map_prod (\<lambda>out. concat (map escape_byte c) @ out) id (escape_chars cls comma 0 cs))"

text \<open>The loop over \<^verbatim>\<open>utf8_chunks\<close>.\<close>

function escape_chunks :: "char_classes \<Rightarrow> bool \<Rightarrow> nat \<Rightarrow> bytes \<Rightarrow> bytes" where
  "escape_chunks cls comma marks_left bs =
     (case from_utf8 bs of
        None \<Rightarrow> fst (escape_chars cls comma marks_left (utf8_chars bs))
      | Some (v, e) \<Rightarrow>
          let bad = (case e of Some k \<Rightarrow> k | None \<Rightarrow> length bs - v)
          in fst (escape_chars cls comma marks_left (utf8_chars (take v bs))) @
             concat (map escape_byte (take bad (drop v bs))) @
             escape_chunks cls comma 0 (drop (v + bad) bs))"
  by pat_completeness auto

termination escape_chunks
proof (relation "measure (\<lambda>(_, _, _, bs). length bs)", goal_cases)
  case (2 cls comma marks_left bs p v e bad)
  then have "from_utf8 bs = Some (v, e)" by simp
  from from_utf8_Some_bounds [OF this] 2 show ?case by (cases e) auto
qed simp

declare escape_chunks.simps [simp del]

definition escape :: "char_classes \<Rightarrow> bytes \<Rightarrow> bool \<Rightarrow> bytes" where
  "escape cls bs comma = escape_chunks cls comma 0 bs"

definition print_dest :: "char_classes \<Rightarrow> order_dest \<Rightarrow> bytes" where
  "print_dest cls d =
     (case d of
        Other \<Rightarrow> ''other''
      | Here \<Rightarrow> ''here''
      | Path p \<Rightarrow>
          if p = ''other'' \<or> p = ''here'' then escape_byte (hd p) @ escape cls (drop 1 p) False
          else escape cls p False)"

definition print_word :: "char_classes \<Rightarrow> bytes \<Rightarrow> bytes" where
  "print_word cls n = (if n = [] then [CHR 0x27, CHR 0x27] else escape cls n False)"

definition starts_cmp :: "bytes \<Rightarrow> bytes \<Rightarrow> bool" where
  "starts_cmp e k \<longleftrightarrow> prefix k e \<and>
     (case drop (length k) e of [] \<Rightarrow> False | c # _ \<Rightarrow> c \<in> {CHR ''<'', CHR ''>'', CHR ''=''})"

definition reads_as_syntax :: "bytes \<Rightarrow> bool" where
  "reads_as_syntax e \<longleftrightarrow> prefix ''!'' e \<or> prefix ''ext:'' e \<or> prefix ''name:'' e \<or> prefix ''name='' e \<or>
     prefix ''type:'' e \<or> starts_cmp e ''size'' \<or> starts_cmp e ''age''"

text \<open>The first unit of the list, from the greatest, that divides the number.\<close>

fun with_unit :: "(byte \<times> nat) list \<Rightarrow> nat \<Rightarrow> bytes option" where
  "with_unit [] n = None"
| "with_unit ((unit, mult) # us) n =
     (if n \<noteq> 0 \<and> n mod mult = 0 then Some (decimal (n div mult) @ [unit]) else with_unit us n)"

definition print_size :: "nat \<Rightarrow> bytes" where
  "print_size n =
     (case with_unit [(CHR ''T'', 2 ^ 40), (CHR ''G'', 2 ^ 30), (CHR ''M'', 2 ^ 20), (CHR ''K'', 2 ^ 10)] n of
        Some s \<Rightarrow> s | None \<Rightarrow> decimal n)"

definition print_age :: "nat \<Rightarrow> bytes" where
  "print_age n = (case with_unit (rev UNITS_AGE) n of Some s \<Rightarrow> s | None \<Rightarrow> decimal n @ ''s'')"

fun print_kind :: "kind_sel \<Rightarrow> bytes" where
  "print_kind KindFile = ''type:file''"
| "print_kind KindDir = ''type:dir''"
| "print_kind KindLink = ''type:link''"

definition print_pred :: "char_classes \<Rightarrow> pred \<Rightarrow> bytes" where
  "print_pred cls p =
     (case p of
        Ext list \<Rightarrow> ''ext:'' @ join_with '','' (map (\<lambda>e. escape cls e True) list)
      | Name n \<Rightarrow>
          let e = escape cls n False
          in (if e = [] \<or> reads_as_syntax e then ''name:'' else []) @ e
      | Literal n \<Rightarrow> ''name='' @ escape cls n False
      | Size c n \<Rightarrow> ''size'' @ cmp_str c @ print_size n
      | Age c n \<Rightarrow> ''age'' @ cmp_str c @ print_age n
      | Kind k \<Rightarrow> print_kind k)"

definition print_term :: "char_classes \<Rightarrow> order_term \<Rightarrow> bytes" where
  "print_term cls t = (if negated t then ''!'' else []) @ print_pred cls (pred t)"

definition print_count :: "bytes \<Rightarrow> nat option \<Rightarrow> bytes" where
  "print_count verb n = (case n of None \<Rightarrow> verb | Some k \<Rightarrow> verb @ '' '' @ decimal k)"

definition print_stage :: "char_classes \<Rightarrow> stage \<Rightarrow> bytes" where
  "print_stage cls s =
     (case s of
        Sel q \<Rightarrow> ''sel'' @ concat (map (\<lambda>t. '' '' @ print_term cls t) (terms q))
      | Cp d \<Rightarrow> ''cp >'' @ print_dest cls d
      | Mv d \<Rightarrow> ''mv >'' @ print_dest cls d
      | Trash \<Rightarrow> ''trash''
      | Mkdir n \<Rightarrow> ''mkdir '' @ print_word cls n
      | Cd n \<Rightarrow> ''cd '' @ print_word cls n
      | Log n \<Rightarrow> print_count ''log'' n
      | Undo n \<Rightarrow> print_count ''undo'' n
      | Catalogue i \<Rightarrow> if is_catalogue_id i then i else print_word cls i)"

definition print :: "char_classes \<Rightarrow> order_line \<Rightarrow> bytes" where
  "print cls o' = join_with '' | '' (map (print_stage cls) (stages o'))"

definition escape_name :: "char_classes \<Rightarrow> bytes \<Rightarrow> bytes" where
  "escape_name cls bs = print_word cls bs"

definition escape_dest :: "char_classes \<Rightarrow> bytes \<Rightarrow> bytes" where
  "escape_dest cls bs = print_dest cls (Path bs)"

definition name_term :: "char_classes \<Rightarrow> bytes \<Rightarrow> bool \<Rightarrow> bytes" where
  "name_term cls bs literal =
     (let glob = list_ex (\<lambda>b. b \<in> set ''*?[]{}'' \<or> b = CHR 0x5C) bs
      in print_term cls \<lparr>negated = False, pred = if literal \<or> glob then Literal bs else Name bs\<rparr>)"

end
