(* ===== verification/Orders_Roundtrip.thy ===== *)
theory Orders_Roundtrip
  imports Orders_Print
begin

text \<open>
  What the printer writes, the parser reads. A printed word is seen as a list of units; \<open>reads\<close>
  relates it to the pieces the lexer makes of it. Every syntactic test of the parser on such
  pieces is a test on the printed text (\<open>plain_prefix_units\<close>, \<open>plain_eq_units\<close>), and no printed word
  hides an invisible character (\<open>strip_format_units\<close>).
\<close>

section \<open>What the character tables are relied on for\<close>

text \<open>General categories are disjoint: a character beyond ASCII that is alphanumeric or a combining
  mark is neither white space nor a format character; an invisible mark counts as alphanumeric
  only if it is a combining mark, and the invisible letters are not marks.\<close>

definition classes_ok :: "char_classes \<Rightarrow> bool" where
  "classes_ok cls \<longleftrightarrow>
     (\<forall>x \<ge> 128. is_alphanumeric cls x \<or> is_combining_mark cls x \<longrightarrow>
        \<not> is_whitespace x \<and> \<not> in_ranges FORMAT_CHARS x) \<and>
     (\<forall>x. in_ranges INVISIBLE_MARKS x \<and> is_alphanumeric cls x \<longrightarrow> is_combining_mark cls x) \<and>
     (\<forall>x \<in> set INVISIBLE_LETTERS. \<not> is_combining_mark cls x)"

section \<open>Units\<close>

datatype print_unit = Raw bytes | Hex byte

fun unit_text :: "print_unit \<Rightarrow> bytes" where
  "unit_text (Raw c) = c"
| "unit_text (Hex b) = escape_byte b"

fun unit_bytes :: "print_unit \<Rightarrow> bytes" where
  "unit_bytes (Raw c) = c"
| "unit_bytes (Hex b) = [b]"

fun raw_pieces :: "nat \<Rightarrow> bytes \<Rightarrow> piece list" where
  "raw_pieces i [] = []"
| "raw_pieces i (b # bs) = \<lparr>byte = b, plain = True, at = i\<rparr> # raw_pieces (i + 1) bs"

fun units_pieces :: "nat \<Rightarrow> print_unit list \<Rightarrow> piece list" where
  "units_pieces i [] = []"
| "units_pieces i (Raw c # us) = raw_pieces i c @ units_pieces (i + length c) us"
| "units_pieces i (Hex b # us) = \<lparr>byte = b, plain = False, at = i\<rparr> # units_pieces (i + 4) us"

abbreviation units_text :: "print_unit list \<Rightarrow> bytes" where
  "units_text us \<equiv> concat (map unit_text us)"

abbreviation units_bytes :: "print_unit list \<Rightarrow> bytes" where
  "units_bytes us \<equiv> concat (map unit_bytes us)"

text \<open>The bytes of one character.\<close>

definition one_char :: "bytes \<Rightarrow> bool" where
  "one_char c \<longleftrightarrow> c \<noteq> [] \<and> utf8_item (hd c) (tl c) = Scalar (length c)"

fun unit_ok :: "print_unit \<Rightarrow> bool" where
  "unit_ok (Raw c) \<longleftrightarrow> one_char c \<and> \<not> is_whitespace (utf8_code c) \<and> \<not> is_format (utf8_code c) \<and>
     c \<notin> {''|'', [CHR 0x27], [CHR 0x5C]}"
| "unit_ok (Hex b) \<longleftrightarrow> True"

lemma one_char_cases:
  assumes "one_char c"
  obtains (ascii) b where "c = [b]" "u8 b < 128"
    | (wide) b bs where "c = b # bs" "194 \<le> u8 b" "bs \<noteq> []" "list_all utf8_cont bs"
        "utf8_item b bs = Scalar (length c)"
proof -
  obtain b bs where c: "c = b # bs" using assms by (cases c) (auto simp: one_char_def)
  have item: "utf8_item b bs = Scalar (Suc (length bs))" using assms by (simp add: one_char_def c)
  show thesis
  proof (cases "u8 b < 128")
    case True
    then have "bs = []" using item by (simp add: utf8_item_def)
    with True c ascii show thesis by simp
  next
    case False
    have "194 \<le> u8 b \<and> bs \<noteq> [] \<and> list_all utf8_cont bs"
      using item False by (auto simp: utf8_item_def utf8_second3_def utf8_second4_def utf8_cont_def
        split: if_splits list.splits)
    with c item wide show thesis by simp
  qed
qed

lemma space_at_cont: "utf8_cont b \<Longrightarrow> space_at (b # bs) = 0"
  by (simp add: space_at_def)

definition add_pieces :: "piece list \<Rightarrow> parse_error + piece list \<times> bytes \<times> nat \<Rightarrow> parse_error + piece list \<times> bytes \<times> nat" where
  "add_pieces xs = map_sum id (\<lambda>(ps, r, j). (xs @ ps, r, j))"

lemma add_pieces_simps [simp]:
  "add_pieces [] s = s"
  "add_pieces xs (add_pieces ys s) = add_pieces (xs @ ys) s"
  "add_pieces xs (Inr (ps, r, j)) = Inr (xs @ ps, r, j)"
  by (cases s; auto simp: add_pieces_def)+

lemma lex_word_raw_byte:
  assumes "inside None b rest" "b \<noteq> CHR 0x27" "b \<noteq> CHR 0x5C"
  shows "lex_word (b # rest) i None = add_pieces (raw_pieces i [b]) (lex_word rest (i + 1) None)"
  using lex_word_inside(3) [OF assms] by (simp add: add_pieces_def)

lemma raw_pieces_append: "raw_pieces i (a @ b) = raw_pieces i a @ raw_pieces (i + length a) b"
  by (induction a arbitrary: i) auto

lemma lex_word_cont:
  "list_all utf8_cont cs \<Longrightarrow>
     lex_word (cs @ rest) i None = add_pieces (raw_pieces i cs) (lex_word rest (i + length cs) None)"
proof (induction cs arbitrary: i)
  case Nil
  then show ?case by simp
next
  case (Cons b cs)
  then have b: "utf8_cont b" by simp
  then have "inside None b (cs @ rest)" by (auto simp: inside_def space_at_cont utf8_cont_def)
  moreover have "b \<noteq> CHR 0x27" "b \<noteq> CHR 0x5C" using b by (auto simp: utf8_cont_def)
  ultimately have "lex_word (b # cs @ rest) i None =
      add_pieces (raw_pieces i [b]) (lex_word (cs @ rest) (i + 1) None)"
    by (rule lex_word_raw_byte)
  with Cons show ?case by simp
qed

lemma space_at_one_char:
  assumes "one_char c" "\<not> is_whitespace (utf8_code c)"
  shows "space_at (c @ rest) = 0"
  using assms(1)
proof (cases rule: one_char_cases)
  case (ascii b)
  with assms(2) show ?thesis by (simp add: space_at_def utf8_item_def utf8_cont_def)
next
  case (wide b bs)
  with assms(2) utf8_item_append [OF wide(5), of rest] show ?thesis by (simp add: space_at_def utf8_cont_def)
qed

lemma lex_word_raw:
  assumes "unit_ok (Raw c)"
  shows "lex_word (c @ rest) i None =
    add_pieces (raw_pieces i c) (lex_word rest (i + length c) None)"
proof -
  have c: "one_char c" "\<not> is_whitespace (utf8_code c)" "c \<noteq> ''|''" "c \<noteq> [CHR 0x27]" "c \<noteq> [CHR 0x5C]"
    using assms by auto
  note sp = space_at_one_char [OF c(1,2), of rest]
  show ?thesis
    using c(1)
  proof (cases rule: one_char_cases)
    case (ascii b)
    then have "inside None b rest" using c sp by (simp add: inside_def)
    then have "lex_word (b # rest) i None =
        add_pieces (raw_pieces i [b]) (lex_word rest (i + 1) None)"
      using ascii c by (intro lex_word_raw_byte) auto
    with ascii show ?thesis by simp
  next
    case (wide b bs)
    have "b \<noteq> CHR ''|''" "b \<noteq> CHR 0x27" "b \<noteq> CHR 0x5C" using wide(2) by auto
    moreover have "inside None b (bs @ rest)" using calculation(1) sp wide(1) by (simp add: inside_def)
    ultimately have "lex_word (b # bs @ rest) i None =
        add_pieces (raw_pieces i [b]) (lex_word (bs @ rest) (i + 1) None)"
      by (intro lex_word_raw_byte)
    with wide(1) lex_word_cont [OF wide(4), of rest "i + 1"] show ?thesis by simp
  qed
qed

lemma hex_nibble: "k < 16 \<Longrightarrow> hex (''0123456789abcdef'' ! k) = Some k"
proof -
  assume "k < 16"
  then have "k \<in> set [0..<16]" by simp
  moreover have "\<forall>k \<in> set [0..<16]. hex (''0123456789abcdef'' ! k) = Some k" by code_simp
  ultimately show ?thesis by blast
qed

lemma lex_escape_byte: "lex_escape (drop 1 (escape_byte b) @ rest) = Some (b, 4)"
proof -
  have "u8 b div 16 < 16" "u8 b mod 16 < 16" using u8_less [of b] by (simp_all add: div_less_iff_less_mult)
  then show ?thesis
    by (simp add: lex_escape_def escape_byte_def hex_nibble)
qed

lemma lex_word_hex:
  "lex_word (escape_byte b @ rest) i None =
     add_pieces [\<lparr>byte = b, plain = False, at = i\<rparr>] (lex_word rest (i + 4) None)"
proof -
  let ?t = "drop 1 (escape_byte b) @ rest"
  have e: "escape_byte b @ rest = CHR 0x5C # ?t" "drop 4 (CHR 0x5C # ?t) = rest"
    by (simp_all add: escape_byte_def)
  have "inside None (CHR 0x5C) ?t"
    by (simp add: inside_def space_at_def utf8_item_def utf8_cont_def is_whitespace_def)
  from lex_word_inside(2) [OF this refl, of i] show ?thesis
    unfolding e(1) lex_escape_byte option.case prod.case e(2) by (simp add: add_pieces_def)
qed

lemma length_escape_byte [simp]: "length (escape_byte b) = 4"
  by (simp add: escape_byte_def)

lemma lex_word_units:
  assumes "list_all unit_ok us"
  shows "lex_word (units_text us @ rest) i None =
    add_pieces (units_pieces i us) (lex_word rest (i + length (units_text us)) None)"
  using assms
proof (induction us arbitrary: i)
  case (Cons u us)
  show ?case
  proof (cases u)
    case (Raw c)
    with Cons lex_word_raw [of c "units_text us @ rest" i] show ?thesis
      by (simp add: add.assoc)
  next
    case (Hex b)
    with Cons lex_word_hex [of b "units_text us @ rest" i] show ?thesis
      by (simp add: add.assoc)
  qed
qed simp

section \<open>Escaped bytes are units\<close>

lemma utf8_chars_one_char: "c \<in> set (utf8_chars bs) \<Longrightarrow> one_char c"
proof (induction bs rule: utf8_chars.induct)
  case 1
  then show ?case by simp
next
  case (2 b bs)
  show ?case
  proof (cases "utf8_item b bs")
    case (Scalar n)
    note n = utf8_item_Scalar_bounds [OF Scalar]
    from 2 Scalar consider "c = take n (b # bs)" | "c \<in> set (utf8_chars (drop (n - 1) bs))" by auto
    then show ?thesis
    proof cases
      case 1
      with n utf8_item_prefix [OF Scalar, of "n - 1"] show ?thesis by (simp add: one_char_def take_Cons')
    next
      case 2
      with "2.IH" Scalar show ?thesis by blast
    qed
  next
    case (Invalid e)
    with 2 show ?thesis by simp
  qed
qed

lemma graphic_not_special: "33 \<le> x \<Longrightarrow> x \<le> 126 \<Longrightarrow> \<not> is_whitespace x \<and> \<not> is_format x"
  by (auto simp: is_whitespace_def is_format_def in_ranges_def FORMAT_CHARS_def INVISIBLE_LETTERS_def INVISIBLE_MARKS_def)

lemma safe_unit_ok:
  assumes cls: "classes_ok cls" and c: "one_char c" and safe: "safe cls c comma m"
  shows "unit_ok (Raw c) \<and> (comma \<longrightarrow> c \<noteq> '','')"
proof (cases "utf8_code c < 128")
  case True
  with safe have "33 \<le> utf8_code c" "utf8_code c \<le> 126" "c \<notin> {''|'', [CHR 0x27], [CHR 0x5C]}" "\<not> (comma \<and> c = '','')"
    by (auto simp: safe_def Let_def)
  with c graphic_not_special show ?thesis by auto
next
  case False
  let ?x = "utf8_code c"
  have "\<not> is_whitespace ?x \<and> \<not> in_ranges FORMAT_CHARS ?x \<and> ?x \<notin> set INVISIBLE_LETTERS \<and> \<not> in_ranges INVISIBLE_MARKS ?x"
  proof (cases "is_combining_mark cls ?x")
    case True
    with safe False have "\<not> in_ranges INVISIBLE_MARKS ?x" by (simp add: safe_def Let_def)
    moreover have "128 \<le> ?x" using False by simp
    ultimately show ?thesis using cls True unfolding classes_ok_def by blast
  next
    case nomark: False
    with safe False have "is_alphanumeric cls ?x" "?x \<notin> set INVISIBLE_LETTERS" by (simp_all add: safe_def Let_def)
    moreover have "128 \<le> ?x" using False by simp
    ultimately show ?thesis using cls nomark unfolding classes_ok_def by blast
  qed
  moreover have "length c = 1 \<Longrightarrow> ?x < 128" using c by (cases rule: one_char_cases) auto
  then have "length c \<noteq> 1" using False by blast
  ultimately show ?thesis using c by (auto simp: is_format_def)
qed

definition units_of :: "bool \<Rightarrow> bytes \<Rightarrow> bytes \<Rightarrow> print_unit list \<Rightarrow> bool" where
  "units_of comma text bs us \<longleftrightarrow> text = units_text us \<and> bs = units_bytes us \<and> list_all unit_ok us \<and>
     (comma \<longrightarrow> Raw '','' \<notin> set us)"

lemma units_of_append:
  "units_of comma t a us \<Longrightarrow> units_of comma t' b us' \<Longrightarrow> units_of comma (t @ t') (a @ b) (us @ us')"
  by (auto simp: units_of_def)

lemma units_of_Hex: "units_of comma (concat (map escape_byte bs)) bs (map Hex bs)"
  by (induction bs) (auto simp: units_of_def)

lemma escape_chars_units:
  assumes "classes_ok cls" "list_all one_char cs"
  shows "\<exists>us. units_of comma (fst (escape_chars cls comma m cs)) (concat cs) us"
  using assms(2)
proof (induction cs arbitrary: m)
  case Nil
  show ?case by (intro exI [of _ "[]"]) (simp add: units_of_def)
next
  case (Cons c cs)
  obtain m' where out: "fst (escape_chars cls comma m (c # cs)) =
      (if safe cls c comma m then c else concat (map escape_byte c)) @ fst (escape_chars cls comma m' cs)"
    by (cases "safe cls c comma m") auto
  obtain us where us: "units_of comma (fst (escape_chars cls comma m' cs)) (concat cs) us"
    using Cons by auto
  have "units_of comma (if safe cls c comma m then c else concat (map escape_byte c)) c
      (if safe cls c comma m then [Raw c] else map Hex c)"
    using safe_unit_ok [OF assms(1)] Cons.prems units_of_Hex by (auto simp: units_of_def)
  from units_of_append [OF this us] out show ?case by auto
qed

lemma escape_chunks_units:
  assumes "classes_ok cls"
  shows "\<exists>us. units_of comma (escape_chunks cls comma m bs) bs us"
  using assms
proof (induction cls comma m bs rule: escape_chunks.induct)
  case (1 cls comma m bs)
  have chars: "list_all one_char (utf8_chars xs)" for xs
    by (auto simp: list_all_iff intro: utf8_chars_one_char)
  show ?case
  proof (cases "from_utf8 bs")
    case None
    with escape_chars_units [OF "1.prems" chars, of comma m bs] show ?thesis
      by (simp add: escape_chunks.simps [of cls comma m bs] concat_utf8_chars)
  next
    case (Some p)
    obtain v e where p: "p = (v, e)" by fastforce
    let ?bad = "case e of Some k \<Rightarrow> k | None \<Rightarrow> length bs - v"
    obtain us1 where us1: "units_of comma (fst (escape_chars cls comma m (utf8_chars (take v bs)))) (take v bs) us1"
      using escape_chars_units [OF "1.prems" chars, of comma m "take v bs"] from_utf8_take_valid_up_to [of bs v e] Some p
      by (auto simp: concat_utf8_chars)
    obtain us2 where us2: "units_of comma (escape_chunks cls comma 0 (drop (v + ?bad) bs)) (drop (v + ?bad) bs) us2"
      using "1.IH" [OF Some p [symmetric] refl "1.prems"] by blast
    have all: "take v bs @ take ?bad (drop v bs) @ drop (v + ?bad) bs = bs"
      by (metis append_take_drop_id drop_drop add.commute)
    have "units_of comma (escape_chunks cls comma m bs) (take v bs @ take ?bad (drop v bs) @ drop (v + ?bad) bs)
        (us1 @ map Hex (take ?bad (drop v bs)) @ us2)"
      using units_of_append [OF us1 units_of_append [OF units_of_Hex us2, of "take ?bad (drop v bs)"]] Some p
      by (simp add: escape_chunks.simps [of cls comma m bs] Let_def)
    then show ?thesis unfolding all by blast
  qed
qed

lemma escape_units:
  assumes "classes_ok cls"
  obtains us where "units_of comma (escape cls bs comma) bs us"
  using escape_chunks_units [OF assms] unfolding escape_def by blast

section \<open>Tests on the pieces of a printed word\<close>

lemma piece_bytes_Cons [simp]:
  "piece_bytes [] = []" "piece_bytes (p # ps) = byte p # piece_bytes ps" "piece_bytes (ps @ qs) = piece_bytes ps @ piece_bytes qs"
  by (simp_all add: piece_bytes_def)

lemma piece_bytes_raw [simp]: "piece_bytes (raw_pieces i c) = c"
  by (induction c arbitrary: i) auto

lemma length_raw_pieces [simp]: "length (raw_pieces i c) = length c"
  by (induction c arbitrary: i) auto

lemma plain_raw_pieces [simp]: "list_all plain (raw_pieces i c)"
  by (induction c arbitrary: i) auto

lemma piece_bytes_units [simp]: "piece_bytes (units_pieces i us) = units_bytes us"
  by (induction i us rule: units_pieces.induct) auto

lemma units_pieces_append:
  "units_pieces i (us @ vs) = units_pieces i us @ units_pieces (i + length (units_text us)) vs"
  by (induction i us rule: units_pieces.induct) (auto simp: add.assoc)

lemma format_len_cont: "utf8_cont (byte p) \<Longrightarrow> format_len (p # ps) = 0"
  by (simp add: format_len_def utf8_cont_def Let_def)

lemma format_len_escaped: "\<not> plain p \<Longrightarrow> format_len (p # ps) = 0"
  by (auto simp: format_len_def Let_def take_Cons')

lemma utf8_item_length:
  "utf8_item b bs = Scalar n \<Longrightarrow> u8 b \<ge> 194 \<Longrightarrow>
     n = (if 0xC0 \<le> u8 b \<and> u8 b \<le> 0xDF then 2 else if 0xE0 \<le> u8 b \<and> u8 b \<le> 0xEF then 3
          else if 0xF0 \<le> u8 b \<and> u8 b \<le> 0xF7 then 4 else 0)"
  by (auto simp: utf8_item_def split: if_splits list.splits)

lemma first_char_one_char: "one_char c \<Longrightarrow> first_char c = Some (utf8_code c)"
  by (cases c) (auto simp: first_char_def one_char_def)

lemma format_len_raw:
  assumes "one_char c" "\<not> is_format (utf8_code c)"
  shows "format_len (raw_pieces i c @ ps) = 0"
  using assms(1)
proof (cases rule: one_char_cases)
  case (ascii b)
  then show ?thesis by (simp add: format_len_def Let_def)
next
  case (wide b bs)
  have "take (length c) (raw_pieces i c @ ps) = raw_pieces i c" by simp
  moreover have "raw_pieces i c @ ps = \<lparr>byte = b, plain = True, at = i\<rparr> # raw_pieces (i + 1) bs @ ps"
    using wide(1) by simp
  ultimately show ?thesis
    using utf8_item_length [OF wide(5,2)] first_char_one_char [OF assms(1)] assms(2) wide(1)
    by (simp only: format_len_def list.case Let_def piece.select_convs) simp
qed

lemma strip_loop_skip:
  "format_len (p # ps) = 0 \<Longrightarrow> strip_loop (p # ps) kept first = strip_loop ps (kept @ [p]) first"
  by simp

lemma strip_loop_cont:
  "list_all utf8_cont cs \<Longrightarrow> strip_loop (raw_pieces i cs @ ps) kept first = strip_loop ps (kept @ raw_pieces i cs) first"
proof (induction cs arbitrary: i kept)
  case (Cons b cs)
  then have "format_len (\<lparr>byte = b, plain = True, at = i\<rparr> # raw_pieces (i + 1) cs @ ps) = 0"
    by (intro format_len_cont) simp
  from strip_loop_skip [OF this] Cons show ?case by simp
qed simp

lemma strip_loop_raw:
  assumes "one_char c" "\<not> is_format (utf8_code c)"
  shows "strip_loop (raw_pieces i c @ ps) kept first = strip_loop ps (kept @ raw_pieces i c) first"
proof -
  note len = format_len_raw [OF assms, of i ps]
  obtain b bs where c: "c = b # bs" using assms(1) by (cases c) (auto simp: one_char_def)
  have cont: "list_all utf8_cont bs" using assms(1) by (cases rule: one_char_cases) (auto simp: c)
  have "strip_loop (raw_pieces i c @ ps) kept first =
      strip_loop (raw_pieces (i + 1) bs @ ps) (kept @ [\<lparr>byte = b, plain = True, at = i\<rparr>]) first"
    using strip_loop_skip [of _ "raw_pieces (i + 1) bs @ ps"] len by (simp only: c raw_pieces.simps append_Cons)
  with strip_loop_cont [OF cont, of "i + 1"] show ?thesis by (simp add: c)
qed

lemma strip_loop_units:
  "list_all unit_ok us \<Longrightarrow> strip_loop (units_pieces i us) kept first = (kept @ units_pieces i us, first)"
proof (induction i us arbitrary: kept rule: units_pieces.induct)
  case (2 i c us)
  then show ?case using strip_loop_raw [of c i "units_pieces (i + length c) us"] by simp
next
  case (3 i b us)
  have "format_len (\<lparr>byte = b, plain = False, at = i\<rparr> # units_pieces (i + 4) us) = 0"
    by (rule format_len_escaped) simp
  from strip_loop_skip [OF this] 3 show ?case by simp
qed simp

text \<open>Nothing in a printed word is drawn as nothing.\<close>

lemma strip_format_units: "list_all unit_ok us \<Longrightarrow> strip_format (units_pieces i us) = None"
  by (simp add: strip_format_def strip_loop_units)

lemma hidden_units [simp]: "list_all unit_ok us \<Longrightarrow> hidden (units_pieces i us) P = None"
  by (simp add: hidden_def strip_format_units)

text \<open>A keyword of ASCII bytes without a backslash.\<close>

definition keyword :: "bytes \<Rightarrow> bool" where
  "keyword w \<longleftrightarrow> list_all (\<lambda>b. u8 b < 128 \<and> b \<noteq> CHR 0x5C) w"

lemma plain_prefix_Nil [simp]: "plain_prefix ps []"
  by (simp add: plain_prefix_def)

lemma plain_prefix_Cons [simp]:
  "plain_prefix [] (b # w) \<longleftrightarrow> False"
  "plain_prefix (p # ps) (b # w) \<longleftrightarrow> plain p \<and> byte p = b \<and> plain_prefix ps w"
  by (auto simp: plain_prefix_def)

lemma plain_prefix_units:
  assumes "list_all unit_ok us" "keyword w"
  shows "plain_prefix (units_pieces i us) w \<longleftrightarrow> prefix w (units_text us)"
  using assms
proof (induction i us arbitrary: w rule: units_pieces.induct)
  case (1 i)
  then show ?case by (cases w) auto
next
  case (2 i c us)
  show ?case
  proof (cases w)
    case (Cons a w')
    have a: "u8 a < 128" "keyword w'" using 2 Cons by (auto simp: keyword_def)
    have "one_char c" using 2 by simp
    then show ?thesis
    proof (cases rule: one_char_cases)
      case (ascii b)
      with 2 Cons a show ?thesis by auto
    next
      case (wide b bs)
      then have "a \<noteq> b" using a(1) by auto
      then show ?thesis using wide(1) Cons by auto
    qed
  qed simp
next
  case (3 i b us)
  then show ?case by (cases w) (auto simp: keyword_def escape_byte_def)
qed

lemma plain_prefix_full: "plain_prefix ps w \<Longrightarrow> length ps = length w \<Longrightarrow> piece_bytes ps = w \<and> list_all plain ps"
proof (induction w arbitrary: ps)
  case Nil
  then show ?case by (simp add: piece_bytes_def)
next
  case (Cons b w)
  then show ?case by (cases ps) (auto simp: piece_bytes_def)
qed

lemma plain_units_text: "list_all plain (units_pieces i us) \<Longrightarrow> units_text us = units_bytes us"
  by (induction i us rule: units_pieces.induct) auto

lemma plain_eq_units:
  assumes "list_all unit_ok us" "keyword w"
  shows "plain_eq (units_pieces i us) w \<longleftrightarrow> units_text us = w"
proof
  assume eq: "plain_eq (units_pieces i us) w"
  then have "piece_bytes (units_pieces i us) = w \<and> list_all plain (units_pieces i us)"
    by (intro plain_prefix_full) (auto simp: plain_eq_def)
  then show "units_text us = w" using plain_units_text [of i us] by simp
next
  assume w: "units_text us = w"
  have "length (units_pieces i us) = length w"
    using assms w unfolding keyword_def
  proof (induction i us arbitrary: w rule: units_pieces.induct)
    case (3 i b us)
    then show ?case by (auto simp: escape_byte_def)
  qed auto
  with w plain_prefix_units [OF assms] show "plain_eq (units_pieces i us) w" by (simp add: plain_eq_def)
qed

section \<open>Keywords\<close>

definition raws :: "bytes \<Rightarrow> print_unit list" where
  "raws w = map (\<lambda>b. Raw [b]) w"

definition graphic_byte :: "byte \<Rightarrow> bool" where
  "graphic_byte b \<longleftrightarrow> 33 \<le> u8 b \<and> u8 b \<le> 126 \<and> b \<noteq> CHR ''|'' \<and> b \<noteq> CHR 0x27 \<and> b \<noteq> CHR 0x5C"

definition graphic :: "bytes \<Rightarrow> bool" where
  "graphic w \<longleftrightarrow> list_all graphic_byte w"

lemma graphic_byte_ascii: "graphic_byte b \<Longrightarrow> u8 b < 128" "graphic_byte b \<Longrightarrow> b \<noteq> CHR 0x5C"
  by (simp_all add: graphic_byte_def)

lemma raws_text [simp]: "units_text (raws w) = w" "units_bytes (raws w) = w"
  by (induction w) (auto simp: raws_def)

lemma raws_eq_Nil [simp]: "raws w = [] \<longleftrightarrow> w = []"
  by (simp add: raws_def)

lemma graphic_keyword: "graphic w \<Longrightarrow> keyword w"
  unfolding graphic_def keyword_def by (erule list.pred_mono_strong) (simp add: graphic_byte_ascii)

lemma graphic_append [simp]: "graphic (a @ b) \<longleftrightarrow> graphic a \<and> graphic b"
  by (simp add: graphic_def)

lemma raws_ok: "graphic w \<Longrightarrow> list_all unit_ok (raws w)"
proof -
  have "unit_ok (Raw [b])" if "graphic_byte b" for b
    using that graphic_not_special [of "u8 b"] by (simp add: graphic_byte_def one_char_def utf8_item_def)
  then show "graphic w \<Longrightarrow> list_all unit_ok (raws w)" by (simp add: graphic_def raws_def list_all_iff)
qed

lemma raws_pieces: "units_pieces i (raws w) = raw_pieces i w"
  by (induction w arbitrary: i) (auto simp: raws_def)

lemma drop_raws: "drop (length w) (units_pieces i (raws w @ us)) = units_pieces (i + length w) us"
  by (simp add: units_pieces_append raws_pieces)

lemma plain_text_raws: "graphic w \<Longrightarrow> plain_text (units_pieces i (raws w)) = Some w"
  unfolding plain_text_def raws_pieces graphic_def list_all_iff
  using utf8_valid_ascii [of w] graphic_byte_ascii(1) plain_raw_pieces [of i w] by (simp add: list_all_iff)

lemma units_pieces_eq_Nil: "list_all unit_ok us \<Longrightarrow> units_pieces i us = [] \<longleftrightarrow> us = []"
proof (cases us)
  case (Cons u vs)
  moreover assume "list_all unit_ok us"
  moreover have "c \<noteq> [] \<Longrightarrow> raw_pieces i c \<noteq> []" for c by (cases c) auto
  ultimately show ?thesis by (cases u) (auto simp: one_char_def)
qed simp

section \<open>Numbers\<close>

lemma decimal_digits: "list_all is_digit (decimal n)" "decimal n \<noteq> []"
proof -
  show "list_all is_digit (decimal n)" by (auto simp: list_all_iff is_digit_def dest: decimal_bytes)
  show "decimal n \<noteq> []" by (simp add: decimal.simps [of n])
qed

lemma graphic_decimal: "graphic (decimal n)"
  by (auto simp: graphic_def graphic_byte_def list_all_iff dest: decimal_bytes)

lemma take_digits:
  assumes "\<not> is_digit u"
  shows "takeWhile is_digit (decimal n @ u # r) = decimal n" "dropWhile is_digit (decimal n @ u # r) = u # r"
    "takeWhile is_digit (decimal n) = decimal n" "dropWhile is_digit (decimal n) = []"
proof -
  have d: "\<forall>x \<in> set (decimal n). is_digit x" using decimal_digits(1) by (simp add: list_all_iff)
  then show "takeWhile is_digit (decimal n @ u # r) = decimal n" "dropWhile is_digit (decimal n @ u # r) = u # r"
    using assms by (simp_all add: takeWhile_append2 dropWhile_append2)
  show "takeWhile is_digit (decimal n) = decimal n" using d by (simp only: takeWhile_eq_all_conv)
  show "dropWhile is_digit (decimal n) = []" using d by (simp only: dropWhile_eq_Nil_conv)
qed

lemma parse_uint_decimal: "n < bound \<Longrightarrow> parse_uint bound (decimal n) = Some n"
  by (simp add: parse_uint_def undecimal_decimal decimal_digits)

lemma number_unit_reads:
  assumes "n < 2 ^ 64" "0 < mult" "n mod mult = 0" "\<not> is_digit u" "u \<noteq> CHR ''.''"
    and "number_unit units sized [u] = Some mult" "graphic [u]"
  shows "number (units_pieces i (raws (decimal (n div mult) @ [u]))) units sized = Some n"
proof -
  have t: "plain_text (units_pieces i (raws (decimal (n div mult) @ [u]))) = Some (decimal (n div mult) @ [u])"
    using graphic_decimal assms(7) by (intro plain_text_raws) simp
  have "n div mult \<le> n" by simp
  then have "n div mult < 2 ^ 128" using assms(1) by (rule le_less_trans [OF _ less_trans]) simp
  moreover have "n div mult * mult = n" using assms(3) by auto
  moreover have "n < 2 ^ 128" by (rule less_trans [OF assms(1)]) simp
  moreover have "number_frac sized [u] = Some ((0, 0), [u])" using assms(5) by (simp add: number_frac_def)
  ultimately show ?thesis
    using assms(1,6) take_digits [OF assms(4)] by (simp add: number_def t parse_uint_decimal)
qed

lemma number_bare_reads:
  assumes "n < 2 ^ 64"
  shows "number (units_pieces i (raws (decimal n))) units True = Some n"
proof -
  have "n < 2 ^ 128" by (rule less_trans [OF assms]) simp
  moreover have "\<not> is_digit (CHR ''.'')" by (simp add: is_digit_def)
  note take = take_digits(3,4) [OF this, of n]
  ultimately show ?thesis
    unfolding number_def plain_text_raws [OF graphic_decimal] bind.bind_lunit take
    using assms by (simp add: parse_uint_decimal number_frac_def number_unit_def)
qed

text \<open>A number written with a unit reads back, for units that are letters with a factor.\<close>

lemma with_unit_reads:
  assumes "with_unit us n = Some s" "n < 2 ^ 64"
    and "\<And>u m. (u, m) \<in> set us \<Longrightarrow> 0 < m \<and> \<not> is_digit u \<and> u \<noteq> CHR ''.'' \<and> graphic [u] \<and> number_unit units sized [u] = Some m"
  shows "graphic s \<and> number (units_pieces i (raws s)) units sized = Some n"
  using assms
proof (induction us n rule: with_unit.induct)
  case (2 u m us n)
  show ?case
  proof (cases "n \<noteq> 0 \<and> n mod m = 0")
    case True
    then have s: "s = decimal (n div m) @ [u]" using 2 by simp
    have "0 < m" "\<not> is_digit u" "u \<noteq> CHR ''.''" "graphic [u]" "number_unit units sized [u] = Some m"
      using "2.prems"(3) by auto
    with True s number_unit_reads [OF "2.prems"(2), of m u units sized i] graphic_decimal show ?thesis by simp
  next
    case False
    with 2 show ?thesis by (auto split: if_splits)
  qed
qed simp

lemma print_size_reads:
  assumes "n < 2 ^ 64"
  shows "graphic (print_size n) \<and> number (units_pieces i (raws (print_size n))) UNITS_SIZE True = Some n"
proof (cases "with_unit [(CHR ''T'', 2 ^ 40), (CHR ''G'', 2 ^ 30), (CHR ''M'', 2 ^ 20), (CHR ''K'', 2 ^ 10)] n")
  case None
  with number_bare_reads [OF assms] graphic_decimal show ?thesis by (simp add: print_size_def)
next
  case (Some s)
  have "graphic s \<and> number (units_pieces i (raws s)) UNITS_SIZE True = Some n"
    by (rule with_unit_reads [OF Some assms])
      (auto simp: is_digit_def graphic_def graphic_byte_def number_unit_def UNITS_SIZE_def to_ascii_uppercase_def)
  with Some show ?thesis by (simp add: print_size_def)
qed

lemma print_age_reads:
  assumes "n < 2 ^ 64"
  shows "graphic (print_age n) \<and> number (units_pieces i (raws (print_age n))) UNITS_AGE False = Some n"
proof (cases "with_unit (rev UNITS_AGE) n")
  case None
  then have "n = 0" by (auto simp: UNITS_AGE_def split: if_splits)
  have "number (units_pieces i (raws (decimal (n div 1) @ ''s''))) UNITS_AGE False = Some n"
    by (rule number_unit_reads [OF assms]) (auto simp: is_digit_def graphic_def graphic_byte_def number_unit_def UNITS_AGE_def)
  with None graphic_decimal show ?thesis by (simp add: print_age_def) (simp add: graphic_def graphic_byte_def)
next
  case (Some s)
  have "graphic s \<and> number (units_pieces i (raws s)) UNITS_AGE False = Some n"
    by (rule with_unit_reads [OF Some assms])
      (auto simp: is_digit_def graphic_def graphic_byte_def number_unit_def UNITS_AGE_def)
  with Some show ?thesis by (simp add: print_age_def)
qed

end
