(* ===== verification/Orders_Correct.thy ===== *)
theory Orders_Correct
  imports Orders_Roundtrip
begin

text \<open>
  The order language as a whole: the trees that the parser can produce (\<open>order_wf\<close>), and that every
  one of them is read back from what the printer writes for it.
\<close>

section \<open>The trees of the parser\<close>

fun pred_wf :: "pred \<Rightarrow> bool" where
  "pred_wf (Ext es) \<longleftrightarrow> es \<noteq> []"
| "pred_wf (Size c n) \<longleftrightarrow> n < 2 ^ 64"
| "pred_wf (Age c n) \<longleftrightarrow> n < 2 ^ 64"
| "pred_wf _ \<longleftrightarrow> True"

fun stage_wf :: "stage \<Rightarrow> bool" where
  "stage_wf (Sel q) \<longleftrightarrow> terms q \<noteq> [] \<and> list_all (\<lambda>t. pred_wf (pred t)) (terms q)"
| "stage_wf (Cp d) \<longleftrightarrow> d \<noteq> Path []"
| "stage_wf (Mv d) \<longleftrightarrow> d \<noteq> Path []"
| "stage_wf (Mkdir n) \<longleftrightarrow> n \<noteq> []"
| "stage_wf (Cd n) \<longleftrightarrow> n \<noteq> []"
| "stage_wf (Log k) \<longleftrightarrow> pred_option (\<lambda>n. n < 2 ^ 32) k"
| "stage_wf (Undo k) \<longleftrightarrow> pred_option (\<lambda>n. n < 2 ^ 32) k"
| "stage_wf (Catalogue i) \<longleftrightarrow> is_catalogue_id i"
| "stage_wf Trash \<longleftrightarrow> True"

definition order_wf :: "order_line \<Rightarrow> bool" where
  "order_wf o' \<longleftrightarrow> stages o' \<noteq> [] \<and> list_all stage_wf (stages o') \<and>
     (length (stages o') > 1 \<longrightarrow> \<not> list_ex alone (stages o'))"

section \<open>Predicates\<close>

text \<open>A printed word that is read as a given predicate.\<close>

definition reads_pred :: "print_unit list \<Rightarrow> pred \<Rightarrow> bool" where
  "reads_pred us p \<longleftrightarrow> list_all unit_ok us \<and> us \<noteq> [] \<and> \<not> prefix ''!'' (units_text us) \<and>
     (\<forall>r i. snd (parse_pred r (units_pieces i us)) = Inr p)"

lemma all_keywords:
  "keyword ''ext:''" "keyword ''name:''" "keyword ''name=''" "keyword ''type:''" "keyword ''size''" "keyword ''age''"
  "keyword ''!''" "keyword ''<=''" "keyword ''>=''" "keyword ''<''" "keyword ''>''" "keyword ''=''"
  "keyword ''file''" "keyword ''dir''" "keyword ''link''" "keyword ''other''" "keyword ''here''"
  by (simp_all add: keyword_def)

lemmas prefix_tests = plain_prefix_units [OF _ all_keywords(1)] plain_prefix_units [OF _ all_keywords(2)]
  plain_prefix_units [OF _ all_keywords(3)] plain_prefix_units [OF _ all_keywords(4)] plain_prefix_units [OF _ all_keywords(5)]
  plain_prefix_units [OF _ all_keywords(6)] plain_prefix_units [OF _ all_keywords(7)]

lemma drop_raws': "n = length w \<Longrightarrow> drop n (units_pieces i (raws w @ us)) = units_pieces (i + n) us"
  using drop_raws by simp

lemma keyed_cmp_units:
  assumes "list_all unit_ok us" "graphic key" "prefix key (units_text us)"
    and "list_all unit_ok vs" "us = raws key @ vs"
  shows "keyed_cmp (units_pieces i us) key =
    map_option (\<lambda>(op, c). (c, length key + length op))
      (find (\<lambda>(op, c). prefix op (units_text vs)) [(''<='', Le), (''>='', Ge), (''<'', Lt), (''>'', Gt), (''='', CmpEq)])"
proof -
  have "plain_prefix (units_pieces i us) key"
    using plain_prefix_units [OF assms(1) graphic_keyword [OF assms(2)]] assms(3) by simp
  moreover have "plain_prefix (drop (length key) (units_pieces i us)) op \<longleftrightarrow> prefix op (units_text vs)" if "keyword op" for op
    unfolding assms(5) drop_raws by (rule plain_prefix_units [OF assms(4) that])
  ultimately show ?thesis
    using all_keywords unfolding keyed_cmp_def by simp
qed

lemma keyed_cmp_no_key:
  assumes "list_all unit_ok us" "graphic key" "\<not> prefix key (units_text us)"
  shows "keyed_cmp (units_pieces i us) key = None"
  using plain_prefix_units [OF assms(1) graphic_keyword [OF assms(2)]] assms(3) by (simp add: keyed_cmp_def)

lemma graphic_keys [simp]:
  "graphic ''ext:''" "graphic ''name:''" "graphic ''name=''" "graphic ''type:''" "graphic ''size''" "graphic ''age''"
  "graphic (cmp_str c)" "graphic ''type:file''" "graphic ''type:dir''" "graphic ''type:link''" "graphic ''!''"
  "graphic '',''" "graphic ''>''" "graphic ''other''" "graphic ''here''" "graphic ''file''" "graphic ''dir''" "graphic ''link''"
  by (simp_all add: graphic_def graphic_byte_def) (cases c; simp add: graphic_byte_def)

lemma reads_name:
  assumes "units_of False e n us"
  shows "reads_pred (raws ''name:'' @ us) (Name n)" "reads_pred (raws ''name='' @ us) (Literal n)"
proof -
  have us: "list_all unit_ok us" "n = units_bytes us" using assms by (auto simp: units_of_def)
  have ok: "list_all unit_ok (raws ''name:'' @ us)" "list_all unit_ok (raws ''name='' @ us)"
    using us(1) raws_ok [of "''name:''"] raws_ok [of "''name=''"] by simp_all
  show "reads_pred (raws ''name:'' @ us) (Name n)"
    unfolding reads_pred_def parse_pred_def using ok(1)
    by (simp add: prefix_tests drop_raws' us(2))
  show "reads_pred (raws ''name='' @ us) (Literal n)"
    unfolding reads_pred_def parse_pred_def using ok(2)
    by (simp add: prefix_tests drop_raws' us(2))
qed

lemma prefix_raws:
  assumes "list_all unit_ok us" "keyword w" "prefix w (units_text us)"
  obtains vs where "us = raws w @ vs"
proof -
  have "\<exists>vs. us = raws w @ vs"
    using assms
  proof (induction w arbitrary: us)
    case Nil
    then show ?case by (simp add: raws_def)
  next
    case (Cons a w)
    then have a: "u8 a < 128" "a \<noteq> CHR 0x5C" "keyword w" by (auto simp: keyword_def)
    obtain u us' where us: "us = u # us'" using Cons.prems by (cases us) auto
    show ?case
    proof (cases u)
      case (Raw c)
      then have "one_char c" using Cons.prems us by simp
      then show ?thesis
      proof (cases rule: one_char_cases)
        case (ascii b)
        then have "b = a" "prefix w (units_text us')" using Cons.prems us Raw by auto
        with Cons.IH [of us'] Cons.prems us a Raw ascii show ?thesis by (auto simp: raws_def)
      next
        case (wide b bs)
        then have "b = a" using Cons.prems us Raw by simp
        with wide a show ?thesis by simp
      qed
    next
      case (Hex b)
      with Cons.prems us a show ?thesis by (simp add: escape_byte_def)
    qed
  qed
  with that show thesis by blast
qed

lemma keyed_cmp_None:
  assumes "list_all unit_ok us" "graphic key" "\<not> starts_cmp (units_text us) key"
  shows "keyed_cmp (units_pieces i us) key = None"
proof (cases "prefix key (units_text us)")
  case False
  with keyed_cmp_no_key [OF assms(1,2)] show ?thesis by simp
next
  case True
  from prefix_raws [OF assms(1) graphic_keyword [OF assms(2)] this] obtain vs where vs: "us = raws key @ vs" .
  then have ok: "list_all unit_ok vs" using assms(1) by simp
  have "case units_text vs of [] \<Rightarrow> True | c # _ \<Rightarrow> c \<notin> {CHR ''<'', CHR ''>'', CHR ''=''}"
  proof (cases "units_text vs")
    case (Cons c t)
    then have "drop (length key) (units_text us) = c # t" by (simp add: vs)
    with assms(3) True Cons show ?thesis by (simp add: starts_cmp_def)
  next
    case Nil
    then show ?thesis unfolding Nil by simp
  qed
  then have "\<not> prefix op (units_text vs)" if "op \<noteq> []" "hd op \<in> {CHR ''<'', CHR ''>'', CHR ''=''}" for op
    using that by (cases op; cases "units_text vs") (auto simp del: concat_eq_Nil_conv)
  then show ?thesis by (simp add: keyed_cmp_units [OF assms(1,2) True ok vs])
qed

lemma reads_bare:
  assumes "units_of False e n us" "e \<noteq> []" "\<not> reads_as_syntax e"
  shows "reads_pred us (Name n)"
proof -
  have us: "list_all unit_ok us" "n = units_bytes us" "e = units_text us" using assms by (auto simp: units_of_def)
  have "us \<noteq> []" using assms(2) us(3) by auto
  moreover have "\<not> starts_cmp (units_text us) ''size''" "\<not> starts_cmp (units_text us) ''age''"
    using assms(3) us(3) by (auto simp: reads_as_syntax_def)
  moreover note keyed_cmp_None [OF us(1) _ this(1)] keyed_cmp_None [OF us(1) _ this(2)]
  ultimately show ?thesis
    using assms(3) us unfolding reads_pred_def parse_pred_def reads_as_syntax_def by (simp add: prefix_tests)
qed

lemma reads_kind: "reads_pred (raws (print_kind k)) (Kind k)"
proof -
  have ok: "list_all unit_ok (raws (print_kind k))" by (cases k) (simp_all add: raws_ok)
  obtain w where w: "print_kind k = ''type:'' @ w" "list_all unit_ok (raws w)" and
    kind: "(if w = ''file'' then Some KindFile else if w = ''dir'' then Some KindDir
      else if w = ''link'' then Some KindLink else None) = Some k"
    by (cases k) (auto simp: raws_ok)
  have pieces: "units_pieces i (raws (print_kind k)) = units_pieces i (raws ''type:'' @ raws w)" for i
    by (simp add: w(1) raws_def)
  have rest: "drop 5 (units_pieces i (raws (print_kind k))) = units_pieces (i + 5) (raws w)" for i
    unfolding pieces by (rule drop_raws') simp
  have "parse_kind r (units_pieces i (raws w)) = Inr k" for r i
    using kind plain_eq_units [OF w(2) all_keywords(13)] plain_eq_units [OF w(2) all_keywords(14)]
      plain_eq_units [OF w(2) all_keywords(15)]
    by (auto simp: parse_kind_def split: if_splits)
  then show ?thesis
    unfolding reads_pred_def parse_pred_def using ok w(1) rest by (simp add: prefix_tests)
qed

lemma reads_cmp:
  assumes "graphic d" "d \<noteq> []" "is_digit (hd d)" "key = ''size'' \<or> key = ''age''"
  shows "keyed_cmp (units_pieces i (raws (key @ cmp_str c @ d))) key = Some (c, length (key @ cmp_str c))"
proof -
  have key: "graphic key" using assms(4) by auto
  have ok: "list_all unit_ok (raws (key @ cmp_str c @ d))" "list_all unit_ok (raws (cmp_str c @ d))"
    using assms(1) key by (auto intro!: raws_ok)
  have split: "raws (key @ cmp_str c @ d) = raws key @ raws (cmp_str c @ d)" by (simp add: raws_def)
  obtain x ds where d: "d = x # ds" "is_digit x" using assms(2,3) by (cases d) auto
  then have "x \<noteq> CHR ''=''" by (auto simp: is_digit_def)
  have "keyed_cmp (units_pieces i (raws (key @ cmp_str c @ d))) key =
      map_option (\<lambda>(op, c). (c, length key + length op))
      (find (\<lambda>(op, c'). prefix op (units_text (raws (cmp_str c @ d)))) [(''<='', Le), (''>='', Ge), (''<'', Lt), (''>'', Gt), (''='', CmpEq)])"
    using keyed_cmp_units [OF ok(1) key _ ok(2) split] by simp
  then show ?thesis using \<open>x \<noteq> CHR ''=''\<close> d by (cases c) (simp_all add: raws_text)
qed

lemma decimal_hd_digit: "is_digit (hd (decimal n))"
  using decimal_digits [of n] by (cases "decimal n") auto

lemma with_unit_hd_digit: "with_unit us n = Some s \<Longrightarrow> s \<noteq> [] \<and> is_digit (hd s)"
  by (induction us n rule: with_unit.induct) (auto split: if_splits simp: decimal_digits decimal_hd_digit)

lemma print_number_digit:
  "print_size n \<noteq> [] \<and> is_digit (hd (print_size n))" "print_age n \<noteq> [] \<and> is_digit (hd (print_age n))"
  unfolding print_size_def print_age_def
  by (auto split: option.splits simp: decimal_digits decimal_hd_digit dest!: with_unit_hd_digit)

lemma reads_number:
  assumes d: "graphic d" "d \<noteq> []" "is_digit (hd d)" and key: "key = ''size'' \<or> key = ''age''"
    and num: "\<And>i. number (units_pieces i (raws d)) (if key = ''size'' then UNITS_SIZE else UNITS_AGE) (key = ''size'') = Some n"
  shows "reads_pred (raws (key @ cmp_str c @ d)) (if key = ''size'' then Size c n else Age c n)"
proof -
  have g: "graphic ''size''" "graphic ''age''" "graphic key" using key by auto
  have ok: "list_all unit_ok (raws (key @ cmp_str c @ d))" "list_all unit_ok (raws (''age'' @ cmp_str c @ d))"
    using d(1) g by (auto intro!: raws_ok simp only: graphic_append graphic_keys)
  have "raws (key @ cmp_str c @ d) = raws (key @ cmp_str c) @ raws d" by (simp add: raws_def)
  then have drop: "drop (length (key @ cmp_str c)) (units_pieces i (raws (key @ cmp_str c @ d))) =
      units_pieces (i + length (key @ cmp_str c)) (raws d)" for i
    by (simp only: drop_raws)
  note kc = reads_cmp [OF d key, of _ c]
  have size: "keyed_cmp (units_pieces i (raws (''age'' @ cmp_str c @ d))) ''size'' = None" for i
    using ok(2) by (rule keyed_cmp_no_key) simp_all
  from key show ?thesis
  proof
    assume k: "key = ''size''"
    show ?thesis
      unfolding reads_pred_def parse_pred_def using ok num kc drop
      by (simp add: prefix_tests k)
  next
    assume k: "key = ''age''"
    show ?thesis
      unfolding reads_pred_def parse_pred_def using ok num kc drop size
      by (simp add: prefix_tests k)
  qed
qed

section \<open>Extensions\<close>

definition no_comma :: "piece list \<Rightarrow> bool" where
  "no_comma ps \<longleftrightarrow> list_all (\<lambda>q. \<not> (plain q \<and> byte q = CHR '','')) ps"

lemma ext_list_no_comma: "no_comma ps \<Longrightarrow> ext_list ps = [piece_bytes ps]"
  by (induction ps) (auto simp: no_comma_def)

lemma ext_list_comma:
  "no_comma ps \<Longrightarrow> plain q \<Longrightarrow> byte q = CHR '','' \<Longrightarrow> ext_list (ps @ q # qs) = piece_bytes ps # ext_list qs"
  by (induction ps) (auto simp: no_comma_def)

lemma no_comma_raw: "one_char c \<Longrightarrow> c \<noteq> '','' \<Longrightarrow> no_comma (raw_pieces i c)"
proof -
  assume c: "one_char c" "c \<noteq> '',''"
  then have "CHR '','' \<notin> set c"
  proof (cases rule: one_char_cases [OF c(1)])
    case (2 b bs)
    then show ?thesis by (auto simp: list_all_iff utf8_cont_def)
  qed auto
  then show ?thesis by (induction c arbitrary: i) (auto simp: no_comma_def)
qed

lemma no_comma_units: "list_all unit_ok us \<Longrightarrow> Raw '','' \<notin> set us \<Longrightarrow> no_comma (units_pieces i us)"
proof (induction i us rule: units_pieces.induct)
  case (2 i c us)
  then have "no_comma (raw_pieces i c)" by (intro no_comma_raw) auto
  with 2 show ?case by (simp add: no_comma_def)
qed (auto simp: no_comma_def)

lemma ext_units:
  assumes "classes_ok cls" "es \<noteq> []"
  shows "\<exists>us. join_with '','' (map (\<lambda>e. escape cls e True) es) = units_text us \<and> list_all unit_ok us \<and>
    (\<forall>i. ext_list (units_pieces i us) = es)"
  using assms(2)
proof (induction es)
  case (Cons e es)
  obtain us where us: "units_of True (escape cls e True) e us" by (rule escape_units [OF assms(1)])
  then have nc: "no_comma (units_pieces i us)" for i by (intro no_comma_units) (auto simp: units_of_def)
  show ?case
  proof (cases "es = []")
    case True
    have "ext_list (units_pieces i us) = [e]" for i using ext_list_no_comma [OF nc] us by (simp add: units_of_def)
    moreover have "escape cls e True = units_text us" "list_all unit_ok us" using us by (auto simp: units_of_def)
    ultimately show ?thesis using True by (intro exI [of _ us]) simp
  next
    case False
    with Cons.IH obtain vs where vs: "join_with '','' (map (\<lambda>e. escape cls e True) es) = units_text vs"
      "list_all unit_ok vs" "\<And>i. ext_list (units_pieces i vs) = es" by blast
    have "escape cls e True = units_text us" using us unfolding units_of_def by blast
    then have "join_with '','' (map (\<lambda>e. escape cls e True) (e # es)) = units_text (us @ raws '','' @ vs)"
      using False vs(1) by (simp add: join_with_Cons)
    moreover have "list_all unit_ok (us @ raws '','' @ vs)" using us vs(2) raws_ok [of "'',''"] by (simp add: units_of_def)
    moreover have "ext_list (units_pieces i (us @ raws '','' @ vs)) = e # es" for i
      using ext_list_comma [OF nc, of "\<lparr>byte = CHR '','', plain = True, at = j\<rparr>" for j] vs(3) us
      by (simp add: units_pieces_append raws_pieces units_of_def)
    ultimately show ?thesis by blast
  qed
qed simp

lemma reads_ext:
  assumes "classes_ok cls" "es \<noteq> []"
  obtains us where "print_pred cls (Ext es) = units_text us" "reads_pred us (Ext es)"
proof -
  obtain vs where vs: "join_with '','' (map (\<lambda>e. escape cls e True) es) = units_text vs" "list_all unit_ok vs"
    "\<And>i. ext_list (units_pieces i vs) = es" using ext_units [OF assms] by blast
  have ok: "list_all unit_ok (raws ''ext:'' @ vs)" using vs(2) raws_ok [of "''ext:''"] by simp
  have "reads_pred (raws ''ext:'' @ vs) (Ext es)"
    unfolding reads_pred_def parse_pred_def using ok vs(3) by (simp add: prefix_tests drop_raws')
  moreover have "print_pred cls (Ext es) = units_text (raws ''ext:'' @ vs)" by (simp add: print_pred_def vs(1))
  ultimately show thesis using that by blast
qed

lemma print_pred_reads:
  assumes cls: "classes_ok cls" and p: "pred_wf p"
  obtains us where "print_pred cls p = units_text us" "reads_pred us p"
proof (cases p)
  case (Ext es)
  with assms reads_ext [OF cls, of es] that show thesis by auto
next
  case (Name n)
  obtain us where us: "units_of False (escape cls n False) n us" by (rule escape_units [OF cls])
  show thesis
  proof (cases "escape cls n False = [] \<or> reads_as_syntax (escape cls n False)")
    case True
    with Name us have "print_pred cls p = units_text (raws ''name:'' @ us)" by (auto simp: print_pred_def units_of_def)
    with reads_name(1) [OF us] Name that show thesis by blast
  next
    case False
    with Name us have "print_pred cls p = units_text us" by (auto simp: print_pred_def units_of_def)
    with reads_bare [OF us] False Name that show thesis by blast
  qed
next
  case (Literal n)
  obtain us where us: "units_of False (escape cls n False) n us" by (rule escape_units [OF cls])
  then have "print_pred cls p = units_text (raws ''name='' @ us)" by (auto simp: print_pred_def units_of_def Literal)
  with reads_name(2) [OF us] Literal that show thesis by blast
next
  case (Size c n)
  have "reads_pred (raws (''size'' @ cmp_str c @ print_size n)) (Size c n)"
    using reads_number [of "print_size n" "''size''" n c] print_size_reads [of n] print_number_digit(1) p Size by simp
  then show thesis by (intro that [of "raws (''size'' @ cmp_str c @ print_size n)"]) (simp_all add: print_pred_def Size)
next
  case (Age c n)
  have "reads_pred (raws (''age'' @ cmp_str c @ print_age n)) (Age c n)"
    using reads_number [of "print_age n" "''age''" n c] print_age_reads [of n] print_number_digit(2) p Age by simp
  then show thesis by (intro that [of "raws (''age'' @ cmp_str c @ print_age n)"]) (simp_all add: print_pred_def Age)
next
  case (Kind k)
  with reads_kind [of k] show thesis by (intro that [of "raws (print_kind k)"]) (simp_all add: print_pred_def)
qed

section \<open>Terms and destinations\<close>

lemma print_term_reads:
  assumes cls: "classes_ok cls" and t: "pred_wf (pred t)"
  obtains us where "print_term cls t = units_text us" "list_all unit_ok us" "us \<noteq> []"
    "\<And>r i. snd (parse_term r (units_pieces i us)) = Inr t"
proof -
  obtain pu where pu: "print_pred cls (pred t) = units_text pu" "reads_pred pu (pred t)"
    by (rule print_pred_reads [OF cls t])
  then have ok: "list_all unit_ok pu" "pu \<noteq> []" "\<not> prefix ''!'' (units_text pu)"
    and rd: "\<And>r i. snd (parse_pred r (units_pieces i pu)) = Inr (pred t)"
    unfolding reads_pred_def by blast+
  let ?us = "(if negated t then raws ''!'' else []) @ pu"
  have oku: "list_all unit_ok ?us" using ok(1) raws_ok [of "''!''"] by simp
  have neg: "plain_prefix (units_pieces i ?us) ''!'' \<longleftrightarrow> negated t" for i
    using plain_prefix_units [OF oku all_keywords(7), of i] ok(3) by auto
  have "snd (parse_term r (units_pieces i ?us)) = Inr t" for r i
  proof -
    obtain j where j: "(if negated t then drop 1 (units_pieces i ?us) else units_pieces i ?us) = units_pieces j pu"
      using drop_raws' [of 1 "''!''" i pu] by (cases "negated t") auto
    obtain len where len: "parse_pred r (units_pieces j pu) = (len, Inr (pred t))"
      using rd [of r j] by (cases "parse_pred r (units_pieces j pu)") simp
    have "\<lparr>negated = negated t, pred = pred t\<rparr> = t" by simp
    then show ?thesis
      unfolding parse_term_def Let_def neg j hidden_units [OF ok(1)] option.case len prod.case
      using ok(1,2) by (simp add: units_pieces_eq_Nil)
  qed
  moreover have "print_term cls t = units_text ?us" using pu(1) by (simp add: print_term_def)
  ultimately show thesis using that [of ?us] oku ok(2) by simp
qed

lemma plain_eq_bytes: "plain_eq (units_pieces i us) w \<Longrightarrow> units_bytes us = w"
  using plain_prefix_full [of "units_pieces i us" w] by (auto simp: plain_eq_def)

lemma print_dest_reads:
  assumes cls: "classes_ok cls" and d: "d \<noteq> Path []"
  obtains us where "print_dest cls d = units_text us" "list_all unit_ok us" "us \<noteq> []"
    "\<And>span i. snd (dest_body (units_pieces i us) span []) = Inr d"
proof (cases d)
  case Other
  have ok: "list_all unit_ok (raws ''other'')" by (intro raws_ok) simp
  then have "snd (dest_body (units_pieces i (raws ''other'')) span []) = Inr d" for span i
    using plain_eq_units [OF ok all_keywords(16)] Other by (simp add: dest_body_def units_pieces_eq_Nil)
  with ok Other show thesis by (intro that [of "raws ''other''"]) (simp_all add: print_dest_def)
next
  case Here
  have ok: "list_all unit_ok (raws ''here'')" by (intro raws_ok) simp
  then have "snd (dest_body (units_pieces i (raws ''here'')) span []) = Inr d" for span i
    using plain_eq_units [OF ok all_keywords(16)] plain_eq_units [OF ok all_keywords(17)] Here
    by (simp add: dest_body_def units_pieces_eq_Nil)
  with ok Here show thesis by (intro that [of "raws ''here''"]) (simp_all add: print_dest_def)
next
  case (Path p)
  then have p: "p \<noteq> []" using d by simp
  have "\<exists>us. print_dest cls d = units_text us \<and> list_all unit_ok us \<and> units_bytes us = p \<and>
      (\<forall>i. \<not> plain_eq (units_pieces i us) ''other'' \<and> \<not> plain_eq (units_pieces i us) ''here'')"
  proof (cases "p = ''other'' \<or> p = ''here''")
    case True
    obtain us where us: "units_of False (escape cls (drop 1 p) False) (drop 1 p) us" by (rule escape_units [OF cls])
    have "print_dest cls d = units_text (Hex (hd p) # us)"
      using True us unfolding units_of_def by (auto simp: print_dest_def Path)
    moreover have "units_bytes (Hex (hd p) # us) = p" using us p unfolding units_of_def by (cases p) auto
    moreover have "list_all unit_ok (Hex (hd p) # us)" using us by (simp add: units_of_def)
    ultimately show ?thesis by (intro exI [of _ "Hex (hd p) # us"]) (simp add: plain_eq_def)
  next
    case False
    obtain us where us: "units_of False (escape cls p False) p us" by (rule escape_units [OF cls])
    then have "print_dest cls d = units_text us" "list_all unit_ok us" "units_bytes us = p"
      using False unfolding units_of_def by (auto simp: print_dest_def Path)
    with False plain_eq_bytes [of _ us] show ?thesis by metis
  qed
  then obtain us where us: "print_dest cls d = units_text us" "list_all unit_ok us" "units_bytes us = p"
    "\<And>i. \<not> plain_eq (units_pieces i us) ''other''" "\<And>i. \<not> plain_eq (units_pieces i us) ''here''" by blast
  have "us \<noteq> []" using us(3) p by auto
  moreover have "snd (dest_body (units_pieces i us) span []) = Inr d" for span i
    using us \<open>us \<noteq> []\<close> by (simp add: dest_body_def units_pieces_eq_Nil Path)
  ultimately show thesis using that us by blast
qed

section \<open>Stages\<close>

definition reads_word :: "print_unit list \<Rightarrow> range \<times> piece list \<Rightarrow> bool" where
  "reads_word us w \<longleftrightarrow> (\<exists>i. snd w = units_pieces i us)"

definition word_ok :: "print_unit list \<Rightarrow> bool" where
  "word_ok us \<longleftrightarrow> us \<noteq> [] \<and> list_all unit_ok us"

definition reads_stage :: "print_unit list list \<Rightarrow> stage \<Rightarrow> bool" where
  "reads_stage ws s \<longleftrightarrow> ws \<noteq> [] \<and> list_all word_ok ws \<and>
     (\<forall>head args end. list_all2 reads_word ws (head # args) \<longrightarrow> snd (parse_stage head args end) = Inr s)"

lemma word_ok_raws: "graphic w \<Longrightarrow> w \<noteq> [] \<Longrightarrow> word_ok (raws w)"
  by (simp add: word_ok_def raws_ok)

lemma reads_stageI:
  assumes "graphic v" "v \<noteq> []" "list_all word_ok ws"
    and "\<And>vstart args end. list_all2 reads_word ws args \<Longrightarrow> snd (verb_args v vstart args end) = Inr s"
  shows "reads_stage (raws v # ws) s"
  unfolding reads_stage_def
proof (intro conjI allI impI)
  show "list_all word_ok (raws v # ws)" using assms(1,2,3) word_ok_raws by simp
  fix head args "end"
  assume "list_all2 reads_word (raws v # ws) (head # args)"
  then obtain i where i: "snd head = units_pieces i (raws v)" and args: "list_all2 reads_word ws args"
    by (auto simp: reads_word_def)
  obtain r where head: "head = (r, units_pieces i (raws v))" using i by (cases head) auto
  have "hidden (units_pieces i (raws v)) P = None" for P by (rule hidden_units [OF raws_ok [OF assms(1)]])
  then show "snd (parse_stage head args end) = Inr s"
    using assms(4) [OF args] by (simp add: parse_stage_def head plain_text_raws [OF assms(1)])
qed simp

lemma graphic_verbs [simp]:
  "graphic ''sel''" "graphic ''cp''" "graphic ''mv''" "graphic ''trash''" "graphic ''mkdir''" "graphic ''cd''"
  "graphic ''log''" "graphic ''undo''"
  by (simp_all add: graphic_def graphic_byte_def)

lemma reads_terms:
  assumes "list_all2 (\<lambda>us t. \<forall>r i. snd (parse_term r (units_pieces i us)) = Inr t) ws ts"
    and "list_all2 reads_word ws args"
  shows "snd (parse_terms args) = Inr ts"
  using assms
proof (induction ws arbitrary: ts args)
  case (Cons us ws)
  obtain w args' where args: "args = w # args'" "reads_word us w" "list_all2 reads_word ws args'"
    using Cons.prems(2) by (auto simp: list_all2_Cons1)
  obtain t ts' where ts: "ts = t # ts'" "\<And>r i. snd (parse_term r (units_pieces i us)) = Inr t"
    "list_all2 (\<lambda>us t. \<forall>r i. snd (parse_term r (units_pieces i us)) = Inr t) ws ts'"
    using Cons.prems(1) by (auto simp: list_all2_Cons1)
  obtain r i where w: "w = (r, units_pieces i us)" using args(2) by (cases w) (auto simp: reads_word_def)
  show ?case using Cons.IH [OF ts(3) args(3)] ts(1,2) by (simp add: args(1) w)
qed auto

lemma reads_sel:
  assumes cls: "classes_ok cls" and q: "stage_wf (Sel q)"
  obtains ws where "print_stage cls (Sel q) = join_with '' '' (map units_text ws)" "reads_stage ws (Sel q)"
proof -
  have "\<forall>t \<in> set (terms q). \<exists>us. print_term cls t = units_text us \<and> word_ok us \<and>
      (\<forall>r i. snd (parse_term r (units_pieces i us)) = Inr t)"
    using q print_term_reads [OF cls] by (metis (no_types, lifting) list_all_iff stage_wf.simps(1) word_ok_def)
  then obtain f where f: "\<And>t. t \<in> set (terms q) \<Longrightarrow> print_term cls t = units_text (f t) \<and> word_ok (f t) \<and>
      (\<forall>r i. snd (parse_term r (units_pieces i (f t))) = Inr t)" by metis
  define ws where "ws = map f (terms q)"
  have "print_stage cls (Sel q) = join_with '' '' (map units_text (raws ''sel'' # ws))"
  proof -
    have "concat (map (\<lambda>t. '' '' @ print_term cls t) ts) = concat (map (\<lambda>us. '' '' @ units_text us) (map f ts))"
      if "set ts \<subseteq> set (terms q)" for ts
      using that f by (induction ts) auto
    moreover have "join_with '' '' (x # xs) = x @ concat (map (\<lambda>y. '' '' @ y) xs)" for x xs
      by (induction xs arbitrary: x) (auto simp: join_with_Cons)
    ultimately show ?thesis by (simp add: print_stage_def ws_def comp_def)
  qed
  moreover have "reads_stage (raws ''sel'' # ws) (Sel q)"
  proof (rule reads_stageI)
    show "list_all word_ok ws" using f by (auto simp: ws_def list_all_iff)
    fix vstart args "end"
    assume args: "list_all2 reads_word ws args"
    have "list_all2 (\<lambda>us t. \<forall>r i. snd (parse_term r (units_pieces i us)) = Inr t) ws (terms q)"
      unfolding ws_def list_all2_map1 using f by (auto intro!: list.rel_refl_strong)
    from reads_terms [OF this args] have "snd (parse_terms args) = Inr (terms q)" .
    moreover have "args \<noteq> []" using args q by (auto simp: ws_def)
    ultimately show "snd (verb_args ''sel'' vstart args end) = Inr (Sel q)"
      by (simp add: verb_args_def map_colour_def)
  qed simp_all
  ultimately show thesis by (rule that)
qed

lemma reads_dest:
  assumes us: "list_all unit_ok us" "us \<noteq> []" "\<And>span i. snd (dest_body (units_pieces i us) span []) = Inr d"
    and args: "list_all2 reads_word [raws ''>'' @ us] args"
  shows "snd (parse_dest args end) = Inr d"
proof -
  obtain r i where args: "args = [(r, units_pieces i (raws ''>'' @ us))]"
    using args by (auto simp: list_all2_Cons1 reads_word_def)
  have ok: "list_all unit_ok (raws ''>'' @ us)" using us(1) raws_ok [of "''>''"] by simp
  have pre: "plain_prefix (units_pieces i (raws ''>'' @ us)) ''>''"
    using plain_prefix_units [OF ok all_keywords(11)] by simp
  have body: "drop 1 (units_pieces i (raws ''>'' @ us)) = units_pieces (i + 1) us" by (rule drop_raws') simp
  then have "length (units_pieces i (raws ''>'' @ us)) \<noteq> 1"
    using units_pieces_eq_Nil [OF us(1), of "i + 1"] us(2) by (metis drop_all order_refl)
  with pre body us(3) show ?thesis by (simp add: parse_dest_def args)
qed

lemma reads_one_arg:
  assumes "word_ok us" "list_all2 reads_word [us] args"
  shows "snd (one_arg args end) = Inr (units_bytes us)"
proof -
  obtain r i where args: "args = [(r, units_pieces i us)]" using assms(2) by (auto simp: list_all2_Cons1 reads_word_def)
  show ?thesis using assms(1) by (simp add: one_arg_def args word_ok_def units_pieces_eq_Nil)
qed

lemma reads_count:
  assumes "n < 2 ^ 32" "list_all2 reads_word [raws (decimal n)] args"
  shows "snd (parse_count args) = Inr (Some n)"
proof -
  obtain r i where args: "args = [(r, units_pieces i (raws (decimal n)))]"
    using assms(2) by (auto simp: list_all2_Cons1 reads_word_def)
  show ?thesis
    using parse_uint_decimal [OF assms(1)] decimal_digits [of n]
    by (simp add: parse_count_def args plain_text_raws [OF graphic_decimal])
qed

lemma catalogue_graphic: "is_catalogue_id i \<Longrightarrow> graphic i"
  unfolding is_catalogue_id_def graphic_def
  by (elim conjE, erule list.pred_mono_strong) (auto simp: graphic_byte_def)

lemma catalogue_not_verb:
  "is_catalogue_id i \<Longrightarrow> i \<notin> {''sel'', ''cp'', ''mv'', ''trash'', ''mkdir'', ''cd'', ''log'', ''undo'', ''redo''}"
  by (auto simp: is_catalogue_id_def)

text \<open>Every stage that the parser can produce is printed as words that are read as that stage.\<close>

lemma print_stage_reads:
  assumes cls: "classes_ok cls" and s: "stage_wf s"
  obtains ws where "print_stage cls s = join_with '' '' (map units_text ws)" "reads_stage ws s"
proof (cases s)
  case (Sel q)
  with s reads_sel [OF cls, of q] that show thesis by blast
next
  case (Cp d)
  obtain us where us: "print_dest cls d = units_text us" "list_all unit_ok us" "us \<noteq> []"
    "\<And>span i. snd (dest_body (units_pieces i us) span []) = Inr d" using print_dest_reads [OF cls] s Cp by auto
  have "reads_stage (raws ''cp'' # [raws ''>'' @ us]) s"
    by (rule reads_stageI) (use us raws_ok [of "''>''"] reads_dest [OF us(2,3,4)] in
        \<open>auto simp: word_ok_def verb_args_def map_colour_def Cp\<close>)
  then show thesis by (intro that) (simp_all add: print_stage_def Cp us(1))
next
  case (Mv d)
  obtain us where us: "print_dest cls d = units_text us" "list_all unit_ok us" "us \<noteq> []"
    "\<And>span i. snd (dest_body (units_pieces i us) span []) = Inr d" using print_dest_reads [OF cls] s Mv by auto
  have "reads_stage (raws ''mv'' # [raws ''>'' @ us]) s"
    by (rule reads_stageI) (use us raws_ok [of "''>''"] reads_dest [OF us(2,3,4)] in
        \<open>auto simp: word_ok_def verb_args_def map_colour_def Mv\<close>)
  then show thesis by (intro that) (simp_all add: print_stage_def Mv us(1))
next
  case Trash
  have "reads_stage (raws ''trash'' # []) s"
    by (rule reads_stageI) (auto simp: verb_args_def no_args_def Trash)
  then show thesis by (intro that) (simp_all add: print_stage_def Trash)
next
  case (Mkdir n)
  obtain us where us: "units_of False (escape cls n False) n us" by (rule escape_units [OF cls])
  have ok: "word_ok us" "units_bytes us = n" "escape cls n False = units_text us"
    using us s unfolding units_of_def word_ok_def by (auto simp: Mkdir)
  have "reads_stage (raws ''mkdir'' # [us]) s"
    by (rule reads_stageI) (use ok reads_one_arg [OF ok(1)] in \<open>auto simp: verb_args_def map_colour_def Mkdir\<close>)
  then show thesis using ok s by (intro that) (simp_all add: print_stage_def print_word_def Mkdir)
next
  case (Cd n)
  obtain us where us: "units_of False (escape cls n False) n us" by (rule escape_units [OF cls])
  have ok: "word_ok us" "units_bytes us = n" "escape cls n False = units_text us"
    using us s unfolding units_of_def word_ok_def by (auto simp: Cd)
  have "reads_stage (raws ''cd'' # [us]) s"
    by (rule reads_stageI) (use ok reads_one_arg [OF ok(1)] in \<open>auto simp: verb_args_def map_colour_def Cd\<close>)
  then show thesis using ok s by (intro that) (simp_all add: print_stage_def print_word_def Cd)
next
  case (Log k)
  have "reads_stage (raws ''log'' # (case k of None \<Rightarrow> [] | Some n \<Rightarrow> [raws (decimal n)])) s"
    by (rule reads_stageI) (use s Log reads_count decimal_digits graphic_decimal in
        \<open>auto simp: verb_args_def map_colour_def parse_count_def [of "[]"] word_ok_raws split: option.splits\<close>)
  then show thesis by (intro that) (simp_all add: print_stage_def print_count_def Log split: option.splits)
next
  case (Undo k)
  have "reads_stage (raws ''undo'' # (case k of None \<Rightarrow> [] | Some n \<Rightarrow> [raws (decimal n)])) s"
    by (rule reads_stageI) (use s Undo reads_count decimal_digits graphic_decimal in
        \<open>auto simp: verb_args_def map_colour_def parse_count_def [of "[]"] word_ok_raws split: option.splits\<close>)
  then show thesis by (intro that) (simp_all add: print_stage_def print_count_def Undo split: option.splits)
next
  case (Catalogue i)
  then have i: "is_catalogue_id i" using s by simp
  then have "i \<noteq> []" by (auto simp: is_catalogue_id_def)
  have "reads_stage (raws i # []) s"
    by (rule reads_stageI) (use i catalogue_graphic [OF i] catalogue_not_verb [OF i] \<open>i \<noteq> []\<close> in
        \<open>simp_all add: verb_args_def no_args_def Catalogue\<close>)
  then show thesis using i by (intro that) (simp_all add: print_stage_def Catalogue)
qed

section \<open>Lines\<close>

lemma lex_from_Nil: "lex_from [] i = ([], None)"
  by (simp add: lex_from.simps)

lemma lex_from_space: "lex_from (CHR '' '' # t) i = lex_from t (i + 1)"
proof -
  have "space_at (CHR '' '' # t) = 1" by (simp add: space_at_def utf8_cont_def utf8_item_def is_whitespace_def)
  then show ?thesis by (subst lex_from.simps) simp
qed

lemma lex_from_pipe: "lex_from (CHR ''|'' # t) i = map_prod (\<lambda>ts. Pipe i # ts) id (lex_from t (i + 1))"
proof -
  have "space_at (CHR ''|'' # t) = 0" by (simp add: space_at_def utf8_cont_def utf8_item_def is_whitespace_def)
  then show ?thesis by (subst lex_from.simps) simp
qed

lemma word_first:
  assumes "word_ok us"
  obtains b bs where "units_text us @ tail = b # bs" "b \<noteq> CHR ''|''" "space_at (b # bs) = 0"
proof -
  obtain u vs where us: "us = u # vs" "unit_ok u" using assms by (cases us) (auto simp: word_ok_def)
  show thesis
  proof (cases u)
    case (Raw c)
    then have c: "one_char c" "\<not> is_whitespace (utf8_code c)" "c \<noteq> ''|''" using us(2) by auto
    obtain b bs where cb: "c = b # bs" using c(1) by (cases c) (auto simp: one_char_def)
    have "b \<noteq> CHR ''|''" using c(1,3) cb by (cases rule: one_char_cases) auto
    with space_at_one_char [OF c(1,2)] show thesis
      by (intro that [of b "bs @ units_text vs @ tail"]) (simp_all add: us Raw cb)
  next
    case (Hex b)
    show thesis
      by (rule that [of "CHR 0x5C" "drop 1 (escape_byte b) @ units_text vs @ tail"])
        (simp_all add: us Hex escape_byte_def space_at_def utf8_cont_def utf8_item_def is_whitespace_def)
  qed
qed

lemma lex_from_word:
  assumes us: "word_ok us" and tail: "tail = [] \<or> hd tail = CHR '' ''"
  shows "lex_from (units_text us @ tail) i =
    map_prod (\<lambda>ts. Word (i, i + length (units_text us)) (units_pieces i us) # ts) id
      (lex_from tail (i + length (units_text us)))"
proof -
  let ?j = "i + length (units_text us)"
  have "lex_word tail ?j None = Inr ([], tail, ?j)"
  proof (cases tail)
    case Nil
    then show ?thesis by (simp add: lex_word_Nil)
  next
    case (Cons b bs)
    then have "space_at (b # bs) > 0"
      using tail by (simp add: space_at_def utf8_cont_def utf8_item_def is_whitespace_def)
    with Cons lex_word_stop [of b bs] show ?thesis by simp
  qed
  then have w: "lex_word (units_text us @ tail) i None = Inr (units_pieces i us, tail, ?j)"
    using lex_word_units [of us tail i] us by (simp add: word_ok_def)
  obtain b bs where b: "units_text us @ tail = b # bs" "b \<noteq> CHR ''|''" "space_at (b # bs) = 0"
    by (rule word_first [OF us])
  show ?thesis
    using w b by (subst lex_from.simps) simp
qed

abbreviation seg_toks :: "segment \<Rightarrow> tok list" where
  "seg_toks seg \<equiv> map (\<lambda>(r, p). Word r p) seg"

lemma lex_from_stage:
  assumes "ws \<noteq> []" "list_all word_ok ws" "tail = [] \<or> hd tail = CHR '' ''"
  shows "\<exists>seg j. lex_from (join_with '' '' (map units_text ws) @ tail) i =
      map_prod (\<lambda>ts. seg_toks seg @ ts) id (lex_from tail j) \<and> list_all2 reads_word ws seg"
  using assms(1,2)
proof (induction ws arbitrary: i)
  case (Cons us ws)
  show ?case
  proof (cases "ws = []")
    case True
    let ?j = "i + length (units_text us)"
    show ?thesis
      using lex_from_word [of us tail i] Cons.prems assms(3) True
      by (intro exI [of _ "[((i, ?j), units_pieces i us)]"] exI [of _ ?j]) (auto simp: reads_word_def id_def)
  next
    case False
    let ?rest = "join_with '' '' (map units_text ws) @ tail"
    let ?j = "i + length (units_text us)"
    obtain seg j where seg: "lex_from ?rest (?j + 1) = map_prod (\<lambda>ts. seg_toks seg @ ts) id (lex_from tail j)"
      "list_all2 reads_word ws seg" using Cons False by fastforce
    have "lex_from (join_with '' '' (map units_text (us # ws)) @ tail) i = lex_from (units_text us @ '' '' @ ?rest) i"
      using False by (simp add: join_with_Cons)
    also have "\<dots> = map_prod (\<lambda>ts. Word (i, ?j) (units_pieces i us) # ts) id (lex_from ?rest (?j + 1))"
      using lex_from_word [of us "'' '' @ ?rest" i] Cons.prems by (simp add: lex_from_space)
    also have "\<dots> = map_prod (\<lambda>ts. seg_toks (((i, ?j), units_pieces i us) # seg) @ ts) id (lex_from tail j)"
      unfolding seg(1) by (simp add: prod.map_comp comp_def id_def)
    finally have eq: "lex_from (join_with '' '' (map units_text (us # ws)) @ tail) i =
        map_prod (\<lambda>ts. seg_toks (((i, ?j), units_pieces i us) # seg) @ ts) id (lex_from tail j)" .
    have "reads_word us ((i, ?j), units_pieces i us)" by (auto simp: reads_word_def)
    with seg(2) have "list_all2 reads_word (us # ws) (((i, ?j), units_pieces i us) # seg)" by simp
    with eq show ?thesis by blast
  qed
qed simp

lemma segments_words: "segments (seg_toks seg @ ts) = (case segments ts of (s # ss, ps) \<Rightarrow> ((seg @ s) # ss, ps) | ([], ps) \<Rightarrow> (if seg = [] then ([], ps) else ([seg], ps)))"
proof (induction seg)
  case Nil
  show ?case by (cases "segments ts"; cases "fst (segments ts)") auto
next
  case (Cons w seg)
  then show ?case by (cases "segments ts"; cases "fst (segments ts)"; cases w) auto
qed

lemma lex_from_line:
  assumes "wss \<noteq> []" "\<And>ws. ws \<in> set wss \<Longrightarrow> ws \<noteq> [] \<and> list_all word_ok ws"
  shows "\<exists>toks segs pipes. lex_from (join_with '' | '' (map (\<lambda>ws. join_with '' '' (map units_text ws)) wss)) i = (toks, None) \<and>
    segments toks = (segs, pipes) \<and> list_all2 (list_all2 reads_word) wss segs"
  using assms
proof (induction wss arbitrary: i)
  case (Cons ws wss)
  then have ws: "ws \<noteq> []" "list_all word_ok ws" by auto
  show ?case
  proof (cases "wss = []")
    case True
    obtain seg j where "lex_from (join_with '' '' (map units_text ws) @ []) i =
        map_prod (\<lambda>ts. seg_toks seg @ ts) id (lex_from [] j)" "list_all2 reads_word ws seg"
      using lex_from_stage [OF ws, of "[]" i] by auto
    with True show ?thesis using segments_words [of seg "[]"] by (simp add: lex_from_Nil)
  next
    case False
    let ?rest = "join_with '' | '' (map (\<lambda>ws. join_with '' '' (map units_text ws)) wss)"
    obtain seg j where seg: "lex_from (join_with '' '' (map units_text ws) @ '' | '' @ ?rest) i =
        map_prod (\<lambda>ts. seg_toks seg @ ts) id (lex_from ('' | '' @ ?rest) j)" "list_all2 reads_word ws seg"
      using lex_from_stage [OF ws, of "'' | '' @ ?rest" i] by auto
    have "lex_from ('' | '' @ ?rest) j = map_prod (\<lambda>ts. Pipe (j + 1) # ts) id (lex_from ?rest (j + 3))"
      by (simp add: lex_from_space lex_from_pipe numeral_3_eq_3)
    moreover obtain toks segs pipes where "lex_from ?rest (j + 3) = (toks, None)" "segments toks = (segs, pipes)"
      "list_all2 (list_all2 reads_word) wss segs"
      using Cons.IH [OF False] Cons.prems by (metis list.set_intros(2))
    ultimately show ?thesis
      using seg False segments_words [of seg "Pipe (j + 1) # toks"]
      by (intro exI [of _ "seg_toks seg @ Pipe (j + 1) # toks"] exI [of _ "seg # segs"] exI [of _ "(j + 1) # pipes"])
        (simp add: join_with_Cons)
  qed
qed simp

lemma run_stages_reads:
  assumes "list_all2 reads_stage wss ss" "list_all2 (list_all2 reads_word) wss segs"
  shows "snd (run_stages len None prev pipes segs) = Inr ss"
  using assms
proof (induction wss arbitrary: ss segs prev pipes)
  case (Cons ws wss)
  obtain seg segs' where segs: "segs = seg # segs'" "list_all2 reads_word ws seg" "list_all2 (list_all2 reads_word) wss segs'"
    using Cons.prems(2) by (auto simp: list_all2_Cons1)
  obtain s ss' where ss: "ss = s # ss'" "reads_stage ws s" "list_all2 reads_stage wss ss'"
    using Cons.prems(1) by (auto simp: list_all2_Cons1)
  obtain head args where seg: "seg = head # args"
    using segs(2) ss(2) by (cases seg) (auto simp: reads_stage_def)
  have "snd (parse_stage head args e) = Inr s" for e
    using ss(2) segs(2) unfolding seg reads_stage_def by blast
  then have st: "\<exists>sp. parse_stage head args e = (sp, Inr s)" for e
    by (metis prod.collapse)
  show ?case
    using Cons.IH [OF ss(3) segs(3)] st [of "snd (fst (last seg))"] by (auto simp: segs(1) seg ss(1))
qed auto

text \<open>Every well-formed order is read back from its printed form.\<close>

lemma print_parse:
  assumes cls: "classes_ok cls" and wf: "order_wf o'"
  shows "parse (print cls o') = Inr o'"
proof -
  have "\<forall>s \<in> set (stages o'). \<exists>ws. print_stage cls s = join_with '' '' (map units_text ws) \<and> reads_stage ws s"
    using wf print_stage_reads [OF cls] by (metis list_all_iff order_wf_def)
  then obtain f where f: "\<And>s. s \<in> set (stages o') \<Longrightarrow>
      print_stage cls s = join_with '' '' (map units_text (f s)) \<and> reads_stage (f s) s" by metis
  define wss where "wss = map f (stages o')"
  have line: "print cls o' = join_with '' | '' (map (\<lambda>ws. join_with '' '' (map units_text ws)) wss)"
    using f unfolding print_def wss_def by (simp add: comp_def cong: map_cong)
  have "wss \<noteq> []" using wf by (simp add: wss_def order_wf_def)
  moreover have "ws \<noteq> [] \<and> list_all word_ok ws" if "ws \<in> set wss" for ws
    using that f unfolding wss_def reads_stage_def by auto
  ultimately obtain toks segs pipes where lx: "lex (print cls o') = (toks, None)" "segments toks = (segs, pipes)"
    "list_all2 (list_all2 reads_word) wss segs"
    using lex_from_line [of wss 0] unfolding lex_def line by blast
  have "list_all2 reads_stage wss (stages o')"
    unfolding wss_def list_all2_map1 using f by (auto intro!: list.rel_refl_strong)
  from run_stages_reads [OF this lx(3)]
  have run: "snd (run_stages (length (print cls o')) None None pipes segs) = Inr (stages o')" .
  have "length (stages o') > 1 \<Longrightarrow> position alone (stages o') = None"
    using wf by (auto simp: order_wf_def position_None_iff list_ex_iff)
  then show ?thesis
    using run by (simp add: parse_def run_line_def lx(1,2))
qed

section \<open>What the parser produces\<close>

lemma number_bound: "number ps units sized = Some n \<Longrightarrow> n < 2 ^ 64"
  unfolding number_def Let_def
  by (auto simp only: bind_eq_Some_conv option.inject split: if_splits prod.splits)

lemma dest_body_wf: "snd (dest_body body span rest) = Inr d \<Longrightarrow> d \<noteq> Path []"
  by (auto simp: dest_body_def fail_def piece_bytes_def split: if_splits option.splits list.splits prod.splits)

lemma parse_dest_wf: "snd (parse_dest args end) = Inr d \<Longrightarrow> d \<noteq> Path []"
  by (auto simp: parse_dest_def fail_def split: if_splits option.splits list.splits prod.splits dest: dest_body_wf)

lemma one_arg_wf: "snd (one_arg args end) = Inr n \<Longrightarrow> n \<noteq> []"
  by (auto simp: one_arg_def fail_def piece_bytes_def split: if_splits option.splits list.splits prod.splits)

lemma parse_count_wf: "snd (parse_count args) = Inr k \<Longrightarrow> pred_option (\<lambda>n. n < 2 ^ 32) k"
  by (auto simp: parse_count_def fail_def parse_uint_def bind_eq_Some_conv split: if_splits option.splits list.splits prod.splits)

lemma ext_list_not_Nil: "ext_list ps \<noteq> []"
  by (cases ps) (auto split: list.splits)

lemma parse_pred_wf: "snd (parse_pred r body) = Inr p \<Longrightarrow> pred_wf p"
  unfolding parse_pred_def
  by (auto simp: fail_def ext_list_not_Nil map_sum_Inr_iff dest: number_bound split: if_splits option.splits prod.splits)

lemma parse_term_wf: "snd (parse_term r p) = Inr t \<Longrightarrow> pred_wf (pred t)"
  unfolding parse_term_def Let_def
  by (auto simp: fail_def map_sum_Inr_iff split: if_splits option.splits prod.splits)
    (metis parse_pred_wf snd_conv)+

lemma parse_terms_wf:
  "snd (parse_terms args) = Inr ts \<Longrightarrow> length ts = length args \<and> list_all (\<lambda>t. pred_wf (pred t)) ts"
  by (induction args arbitrary: ts rule: parse_terms.induct) (auto simp: and_then_Inr_iff dest: parse_term_wf)

lemma snd_map_colour [simp]: "snd (map_colour f m) = map_sum id f (snd m)"
  by (simp add: map_colour_def)

lemma verb_args_wf:
  assumes "snd (verb_args v vs args end) = Inr s"
  shows "stage_wf s"
proof -
  from assms consider (sel) ts where "args \<noteq> []" "s = Sel \<lparr>terms = ts\<rparr>" "snd (parse_terms args) = Inr ts"
    | (cp) d where "s = Cp d \<or> s = Mv d" "snd (parse_dest args end) = Inr d"
    | (trash) "s = Trash"
    | (mkdir) n where "s = Mkdir n \<or> s = Cd n" "snd (one_arg args end) = Inr n"
    | (log) k where "s = Log k \<or> s = Undo k" "snd (parse_count args) = Inr k"
    | (catalogue) "s = Catalogue v" "is_catalogue_id v"
    unfolding verb_args_def by (auto simp: map_sum_Inr_iff fail_def split: if_splits)
  then show ?thesis
  proof cases
    case sel
    with parse_terms_wf [OF sel(3)] show ?thesis by (cases args) auto
  next
    case cp
    with parse_dest_wf show ?thesis by auto
  next
    case mkdir
    with one_arg_wf show ?thesis by auto
  next
    case log
    with parse_count_wf show ?thesis by auto
  qed auto
qed

lemma parse_stage_wf: "snd (parse_stage head args end) = Inr s \<Longrightarrow> stage_wf s"
  unfolding parse_stage_def
  by (auto simp: fail_def dest: verb_args_wf split: prod.splits option.splits)

lemma run_stages_wf:
  "snd (run_stages len lex_err prev pipes segs) = Inr ss \<Longrightarrow> length ss = length segs \<and> list_all stage_wf ss"
proof (induction len lex_err prev pipes segs arbitrary: ss rule: run_stages.induct)
  case (2 len lex_err prev pipes seg segs)
  obtain head args where seg: "seg = head # args"
    using "2.prems" by (cases seg) (auto simp: fail_def split: option.splits)
  obtain s where s: "snd (parse_stage head args (snd (fst (last seg)))) = Inr s"
    using "2.prems" by (auto simp: seg and_then_Inr_iff split: prod.splits sum.splits)
  then obtain sp where sp: "parse_stage head args (snd (fst (last seg))) = (sp, Inr s)" by (metis prod.collapse)
  obtain ss' where ss': "ss = s # ss'"
    "snd (run_stages len lex_err (case pipes of i # _ \<Rightarrow> Some i | [] \<Rightarrow> None) (drop 1 pipes) segs) = Inr ss'"
    using "2.prems" sp by (auto simp: seg and_then_Inr_iff)
  from "2.IH" [OF seg ss'(2)] ss'(1) parse_stage_wf [OF s] show ?case by simp
qed simp

lemma segments_not_Nil: "fst (segments ts) \<noteq> []"
  by (induction ts rule: segments.induct) (auto split: prod.splits list.splits)

lemma parse_wf:
  assumes "parse line = Inr o'"
  shows "order_wf o'"
proof -
  obtain toks e where lx: "lex line = (toks, e)" by fastforce
  obtain segs pipes where sg: "segments toks = (segs, pipes)" by fastforce
  obtain ss where ss: "snd (run_stages (length line) e None pipes segs) = Inr ss"
    and o': "(case e of Some e \<Rightarrow> Inl e
             | None \<Rightarrow> (case (if length ss > 1 then position alone ss else None) of
                    Some k \<Rightarrow> fail (case segs ! k of (r, _) # _ \<Rightarrow> fst r | [] \<Rightarrow> 0) StandsAlone
                  | None \<Rightarrow> Inr \<lparr>stages = ss\<rparr>)) = Inr o'"
    using assms by (auto simp: parse_def run_line_def lx sg and_then_Inr_iff)
  have st: "stages o' = ss" "length ss > 1 \<longrightarrow> position alone ss = None"
    using o' by (auto simp: fail_def split: option.splits if_splits)
  moreover have "segs \<noteq> []" using segments_not_Nil [of toks] sg by simp
  ultimately show ?thesis
    using run_stages_wf [OF ss] by (auto simp: order_wf_def position_None_iff list_ex_iff)
qed

end
