(* ===== verification/Orders_Spans.thy ===== *)
theory Orders_Spans
  imports Orders_Correct
begin

text \<open>
  The colour spans of the order line. \<open>spans_in lo sp hi\<close> says that the ranges of \<open>sp\<close> follow each
  other between two offsets without overlap; \<open>within\<close> is that with the offset of an error, if there is
  one, bounded too. Each function of the parser keeps inside the words it is given.
\<close>

section \<open>Ranges in order\<close>

fun spans_in :: "nat \<Rightarrow> colour_spans \<Rightarrow> nat \<Rightarrow> bool" where
  "spans_in lo [] hi \<longleftrightarrow> lo \<le> hi"
| "spans_in lo ((r, _) # sp) hi \<longleftrightarrow> lo \<le> fst r \<and> fst r \<le> snd r \<and> spans_in (snd r) sp hi"

lemma spans_in_le: "spans_in lo sp hi \<Longrightarrow> lo \<le> hi"
  by (induction lo sp hi rule: spans_in.induct) auto

lemma spans_in_append: "spans_in lo a mid \<Longrightarrow> spans_in mid b hi \<Longrightarrow> spans_in lo (a @ b) hi"
proof (induction lo a mid rule: spans_in.induct)
  case (1 lo mid)
  then show ?case by (cases b) (auto dest: order_trans)
qed auto

lemma spans_in_weaken: "spans_in lo sp hi \<Longrightarrow> lo' \<le> lo \<Longrightarrow> hi \<le> hi' \<Longrightarrow> spans_in lo' sp hi'"
proof (induction lo sp hi arbitrary: lo' rule: spans_in.induct)
  case (2 lo r c sp hi)
  then show ?case using "2.IH" [of "snd r"] by auto
qed simp

lemma spans_in_filter: "spans_in lo sp hi \<Longrightarrow> spans_in lo (filter P sp) hi"
proof (induction lo sp hi rule: spans_in.induct)
  case (2 lo r c sp hi)
  then have "spans_in (snd r) (filter P sp) hi" by simp
  then have "spans_in lo (filter P sp) hi" by (rule spans_in_weaken) (use 2 in auto)
  with 2 show ?case by simp
qed simp

lemma spans_in_cut: "spans_in lo sp hi \<Longrightarrow> lo \<le> m \<Longrightarrow> list_all (\<lambda>(r, _). snd r \<le> m) sp \<Longrightarrow> spans_in lo sp m"
  by (induction lo sp hi rule: spans_in.induct) auto

definition within :: "nat \<Rightarrow> 'a colouring \<Rightarrow> nat \<Rightarrow> bool" where
  "within lo m hi \<longleftrightarrow> spans_in lo (fst m) hi \<and> (\<forall>e. snd m = Inl e \<longrightarrow> offset e \<le> hi)"

lemma within_le: "within lo m hi \<Longrightarrow> lo \<le> hi"
  by (auto simp: within_def dest: spans_in_le)

lemma within_also:
  assumes "within lo m mid" "\<And>x. snd m = Inr x \<Longrightarrow> within mid (f x) hi" "mid \<le> hi"
  shows "within lo (also_spans m f) hi"
proof (cases "snd m")
  case (Inl e)
  then have "also_spans m f = (fst m, Inl e)" by (cases m) simp
  with assms(1,3) Inl show ?thesis by (auto simp: within_def intro: spans_in_weaken)
next
  case (Inr x)
  with assms(1) assms(2) [OF Inr] show ?thesis
    by (auto simp: within_def fst_also_spans intro: spans_in_append)
qed

lemma within_weaken: "within lo m hi \<Longrightarrow> lo' \<le> lo \<Longrightarrow> hi \<le> hi' \<Longrightarrow> within lo' m hi'"
  by (auto simp: within_def intro: spans_in_weaken)

lemma within_fail [simp]: "within lo ([], fail off k) hi \<longleftrightarrow> lo \<le> hi \<and> off \<le> hi"
  by (simp add: within_def fail_def)

lemma within_ok [simp]: "within lo (sp, Inr x) hi \<longleftrightarrow> spans_in lo sp hi"
  by (simp add: within_def)

lemma within_map_colour [simp]: "within lo (map_colour f m) hi \<longleftrightarrow> within lo m hi"
proof -
  have "(map_sum id f (snd m) = Inl e) \<longleftrightarrow> snd m = Inl e" for e by (cases "snd m") auto
  then show ?thesis by (simp add: within_def map_colour_def)
qed

section \<open>Words in order\<close>

fun words_in :: "nat \<Rightarrow> segment \<Rightarrow> nat \<Rightarrow> bool" where
  "words_in lo [] hi \<longleftrightarrow> lo \<le> hi"
| "words_in lo ((r, p) # ws) hi \<longleftrightarrow> lo \<le> fst r \<and> fst r < snd r \<and>
     list_all (\<lambda>q. fst r \<le> at q \<and> at q < snd r) p \<and> words_in (snd r) ws hi"

lemma words_in_le: "words_in lo ws hi \<Longrightarrow> lo \<le> hi"
  by (induction lo ws hi rule: words_in.induct) auto

lemma words_in_last: "words_in lo ws hi \<Longrightarrow> ws \<noteq> [] \<Longrightarrow> lo \<le> snd (fst (last ws)) \<and> snd (fst (last ws)) \<le> hi"
proof (induction lo ws hi rule: words_in.induct)
  case (2 lo r p ws hi)
  then show ?case by (cases "ws = []") auto
qed simp

lemma strip_loop_first:
  "strip_loop ps kept first = (k, Some a) \<Longrightarrow> first = Some a \<or> (\<exists>p \<in> set ps. a = at p)"
proof (induction ps kept first rule: strip_loop.induct)
  case (2 p ps kept first)
  define n where "n = (if format_len (p # ps) > 0 \<and> kept \<noteq> [] \<and> u8 (byte (last kept)) \<ge> 0x80 \<and>
    joins_emoji (take (format_len (p # ps)) (p # ps)) then 0 else format_len (p # ps))"
  show ?case
  proof (cases "n = 0")
    case True
    then have "strip_loop ps (kept @ [p]) first = (k, Some a)"
      using "2.prems" by (simp add: Let_def n_def split: if_splits)
    from "2.IH"(1) [OF refl n_def True this] show ?thesis by auto
  next
    case False
    then have "strip_loop (drop n (p # ps)) kept (case first of None \<Rightarrow> Some (at p) | Some f \<Rightarrow> Some f) = (k, Some a)"
      using "2.prems" by (simp add: Let_def n_def split: if_splits)
    from "2.IH"(2) [OF refl n_def False this] set_drop_subset [of n "p # ps"] show ?thesis
      by (auto split: option.splits)
  qed
qed simp

lemma hidden_at: "hidden ps P = Some a \<Longrightarrow> \<exists>p \<in> set ps. a = at p"
  by (auto simp: hidden_def strip_format_def split: option.splits prod.splits if_splits dest!: strip_loop_first)

text \<open>An invisible character is inside its word.\<close>

lemma hidden_in: "list_all (\<lambda>q. lo \<le> at q \<and> at q < hi) ps \<Longrightarrow> hidden ps P = Some a \<Longrightarrow> a < hi"
  by (auto simp: list_all_iff dest!: hidden_at)

section \<open>The functions of the parser\<close>

lemma one_arg_within:
  assumes "words_in lo args hi" "end \<le> hi"
  shows "within lo (one_arg args end) hi"
proof (cases args)
  case Nil
  with assms show ?thesis by (simp add: one_arg_def)
next
  case (Cons w more)
  obtain r p where w: "w = (r, p)" by fastforce
  have r: "lo \<le> fst r" "fst r < snd r" "snd r \<le> hi" "list_all (\<lambda>q. fst r \<le> at q \<and> at q < snd r) p"
    and more: "words_in (snd r) more hi"
    using assms(1) by (auto simp: Cons w dest: words_in_le)
  have "fst (fst w') \<le> hi" if "more = w' # ws" for w' ws
    using more that words_in_le by (cases w') fastforce
  moreover have "a \<le> hi" if "hidden p P = Some a" for P a using hidden_in [OF r(4) that] r(3) by simp
  ultimately show ?thesis
    using r by (auto simp: one_arg_def Cons w within_def fail_def split: option.splits list.splits)
qed

lemma parse_count_within:
  assumes "words_in lo args hi"
  shows "within lo (parse_count args) hi"
proof (cases args)
  case Nil
  with assms show ?thesis by (simp add: parse_count_def)
next
  case (Cons w others)
  obtain r p where w: "w = (r, p)" by fastforce
  have r: "lo \<le> fst r" "fst r < snd r" "snd r \<le> hi" and others: "words_in (snd r) others hi"
    using assms(1) by (auto simp: Cons w dest: words_in_le)
  have "fst (fst w') \<le> hi" if "others = w' # ws" for w' ws
    using others that words_in_le by (cases w') fastforce
  then show ?thesis
    using r by (auto simp: parse_count_def Cons w within_def fail_def split: option.splits list.splits)
qed

lemma dest_body_within:
  assumes "lo \<le> fst span" "fst span \<le> snd span" "snd span \<le> hi" "words_in (snd span) rest hi"
    and "list_all (\<lambda>q. lo' \<le> at q \<and> at q < snd span) body"
  shows "within lo (dest_body body span rest) hi"
proof -
  have "fst (fst w') \<le> hi" if "rest = w' # ws" for w' ws
    using assms(4) that words_in_le by (cases w') fastforce
  moreover have "a \<le> hi" if "hidden body P = Some a" for P a using hidden_in [OF assms(5) that] assms(3) by simp
  ultimately show ?thesis
    using assms(1-3) by (auto simp: dest_body_def within_def fail_def split: option.splits list.splits)
qed

lemma parse_dest_within:
  assumes "words_in lo args hi" "end \<le> hi"
  shows "within lo (parse_dest args end) hi"
proof (cases args)
  case Nil
  with assms show ?thesis by (simp add: parse_dest_def)
next
  case (Cons w others)
  obtain r p where w: "w = (r, p)" by fastforce
  have r: "lo \<le> fst r" "fst r < snd r" "snd r \<le> hi" "list_all (\<lambda>q. fst r \<le> at q \<and> at q < snd r) p"
    and others: "words_in (snd r) others hi"
    using assms(1) by (auto simp: Cons w dest: words_in_le)
  consider (no) "\<not> plain_prefix p ''>''" | (alone) "plain_prefix p ''>''" "length p = 1"
    | (joined) "plain_prefix p ''>''" "length p \<noteq> 1" by blast
  then show ?thesis
  proof cases
    case no
    have "a \<le> hi" if "hidden p P = Some a" for P a using hidden_in [OF r(4) that] r(3) by simp
    with no r show ?thesis by (auto simp: parse_dest_def Cons w split: option.splits)
  next
    case alone
    show ?thesis
    proof (cases others)
      case Nil
      with alone r assms(2) show ?thesis by (simp add: parse_dest_def Cons w)
    next
      case (Cons w2 rest)
      obtain r2 p2 where w2: "w2 = (r2, p2)" by fastforce
      have "within lo (dest_body p2 (fst r, snd r2) rest) hi"
        using r others by (intro dest_body_within) (auto simp: Cons w2 dest: words_in_le)
      with alone show ?thesis by (simp add: parse_dest_def \<open>args = w # others\<close> w Cons w2)
    qed
  next
    case joined
    have "list_all (\<lambda>q. fst r \<le> at q \<and> at q < snd r) (drop 1 p)" using r(4) by (auto simp: list_all_iff dest: in_set_dropD)
    then have "within lo (dest_body (drop 1 p) r others) hi"
      using r others by (intro dest_body_within) auto
    with joined show ?thesis by (simp add: parse_dest_def Cons w)
  qed
qed

lemma key_spans_in:
  assumes "fst r < snd r" "list_all (\<lambda>q. fst r \<le> at q \<and> at q < snd r) p"
  shows "spans_in (fst r) (key_spans r p lead len) (snd r)"
proof -
  have "fst r \<le> at (p ! k) \<and> at (p ! k) < snd r" if "k < length p" for k
    using assms(2) that by (simp add: list_all_length)
  then have "lead + len < length p \<Longrightarrow> fst r \<le> at (p ! (lead + len)) \<and> at (p ! (lead + len)) < snd r" .
  with assms(1) show ?thesis by (auto simp: key_spans_def Let_def)
qed

lemma parse_kind_offset:
  assumes "list_all (\<lambda>q. fst r \<le> at q \<and> at q < snd r) p" "fst r < snd r" "parse_kind r (drop n p) = Inl e"
  shows "offset e \<le> snd r"
proof -
  have d: "list_all (\<lambda>q. fst r \<le> at q \<and> at q < snd r) (drop n p)"
    using assms(1) by (auto simp: list_all_iff dest: in_set_dropD)
  have "a \<le> snd r" if "hidden (drop n p) P = Some a" for P a using hidden_in [OF d that] by simp
  with assms(2,3) show ?thesis by (auto simp: parse_kind_def fail_def split: if_splits option.splits)
qed

lemma parse_pred_offset:
  assumes "list_all (\<lambda>q. fst r \<le> at q \<and> at q < snd r) p" "fst r < snd r" "snd (parse_pred r p) = Inl e"
  shows "offset e \<le> snd r"
proof -
  from assms(3) consider "parse_kind r (drop 5 p) = Inl e" | "offset e = fst r"
    unfolding parse_pred_def by (auto simp: fail_def map_sum_def split: if_splits option.splits prod.splits sum.splits)
  then show ?thesis using parse_kind_offset [OF assms(1,2)] assms(2) by cases auto
qed

lemma parse_term_within:
  assumes "fst r < snd r" "list_all (\<lambda>q. fst r \<le> at q \<and> at q < snd r) p"
  shows "within (fst r) (parse_term r p) (snd r)"
proof -
  define neg where "neg = plain_prefix p ''!''"
  define body where "body = (if neg then drop 1 p else p)"
  have d: "list_all (\<lambda>q. fst r \<le> at q \<and> at q < snd r) body"
    using assms(2) by (auto simp: body_def list_all_iff dest: in_set_dropD)
  have hid: "a \<le> snd r" if "hidden body P = Some a" for P a using hidden_in [OF d that] by simp
  obtain len res where pp: "parse_pred r body = (len, res)" by fastforce
  have "offset e \<le> snd r" if "map_sum id f res = Inl e" for f :: "pred \<Rightarrow> order_term" and e
    using parse_pred_offset [OF d assms(1), of e] that pp by (cases res) auto
  then show ?thesis
    using key_spans_in [OF assms] hid assms(1) pp
    unfolding parse_term_def Let_def neg_def [symmetric] body_def [symmetric]
    by (auto simp: within_def fail_def split: option.splits)
qed

lemma parse_terms_within: "words_in lo args hi \<Longrightarrow> within lo (parse_terms args) hi"
proof (induction args arbitrary: lo rule: parse_terms.induct)
  case (2 r p args)
  then have r: "lo \<le> fst r" "fst r < snd r" "list_all (\<lambda>q. fst r \<le> at q \<and> at q < snd r) p" and
    args: "words_in (snd r) args hi" by auto
  have "within lo (parse_term r p) (snd r)" by (rule within_weaken [OF parse_term_within [OF r(2,3)]]) (use r in auto)
  moreover have "within (snd r) (also_spans (parse_terms args) (\<lambda>ts. ([], Inr (t # ts)))) hi" for t
    by (rule within_also [OF "2.IH" [OF args]]) auto
  ultimately have "within lo (also_spans (parse_term r p) (\<lambda>t. also_spans (parse_terms args) (\<lambda>ts. ([], Inr (t # ts))))) hi"
    using words_in_le [OF args] by (rule within_also)
  then show ?case by simp
qed simp

lemma no_args_offset:
  assumes "words_in lo args hi" "no_args args = Inl e"
  shows "offset e \<le> hi"
proof -
  obtain r p ws where "args = (r, p) # ws" "offset e = fst r"
    using assms(2) by (cases args) (auto simp: no_args_def fail_def)
  with assms(1) words_in_le [of "snd r" ws hi] show ?thesis by simp
qed

lemma verb_args_within:
  assumes "words_in lo args hi" "end \<le> hi" "vstart \<le> hi"
  shows "within lo (verb_args v vstart args end) hi"
proof -
  have "within lo ([], map_sum id f (no_args args)) hi" for f :: "unit \<Rightarrow> stage"
    using no_args_offset [OF assms(1)] words_in_le [OF assms(1)] by (cases "no_args args") (auto simp: within_def)
  with assms words_in_le [OF assms(1)] show ?thesis
    unfolding verb_args_def
    by (simp add: parse_terms_within parse_dest_within one_arg_within parse_count_within)
qed

lemma parse_stage_within:
  assumes "words_in lo (head # args) hi" "end \<le> hi"
  shows "within lo (parse_stage head args end) hi"
proof -
  obtain r p where head: "head = (r, p)" by fastforce
  have r: "lo \<le> fst r" "fst r < snd r" "snd r \<le> hi" "list_all (\<lambda>q. fst r \<le> at q \<and> at q < snd r) p"
    and args: "words_in (snd r) args hi"
    using assms(1) by (auto simp: head dest: words_in_le)
  have hid: "a \<le> hi" if "hidden p P = Some a" for P a using hidden_in [OF r(4) that] r(3) by simp
  have va: "within (snd r) (verb_args v (fst r) args end) hi" for v
    using r by (intro verb_args_within [OF args assms(2)]) simp
  have "within lo (also_spans (if is_verb v then [(r, TokVerb)] else [], Inr ()) (\<lambda>_. verb_args v (fst r) args end)) hi" for v
    using r va by (intro within_also [of lo _ "snd r"]) auto
  then show ?thesis
    using r hid by (auto simp: parse_stage_def head split: option.splits)
qed

section \<open>The lexer\<close>

lemma lex_word_pieces_at:
  "lex_word rest i quote = Inr (ps, r, j) \<Longrightarrow> i \<le> j \<and> list_all (\<lambda>p. i \<le> at p \<and> at p < j) ps"
proof (induction rule: lex_word_induct)
  case (escape bs i quote c n ps r j)
  with lex_escape_length [OF escape(2)] show ?case by (auto elim!: list.pred_mono_strong)
qed (auto elim!: list.pred_mono_strong)

lemma lex_word_error:
  "lex_word rest i quote = Inl e \<Longrightarrow> (\<forall>q. quote = Some q \<longrightarrow> q \<le> i) \<Longrightarrow> offset e \<le> i + length rest"
proof (induction "length rest" arbitrary: rest i quote rule: less_induct)
  case less
  show ?case
  proof (cases rest)
    case Nil
    with less.prems show ?thesis by (auto simp: lex_word_Nil split: option.splits)
  next
    case (Cons b bs)
    show ?thesis
    proof (cases "inside quote b bs")
      case False
      then have "quote = None" "b = CHR ''|'' \<or> space_at (b # bs) > 0" by (auto simp: inside_def)
      with less.prems(1) lex_word_stop [of b bs i] show ?thesis by (simp add: Cons)
    next
      case True
      note lw = lex_word_inside [OF True]
      consider "b = CHR 0x27" | "b = CHR 0x5C" | "b \<noteq> CHR 0x27" "b \<noteq> CHR 0x5C" by blast
      then show ?thesis
      proof cases
        case 1
        have "lex_word bs (i + 1) (if quote \<noteq> None then None else Some i) = Inl e"
          using less.prems(1) lw(1) [OF 1, of i] by (simp add: Cons)
        with less.hyps [of bs, OF _ this] show ?thesis by (auto simp: Cons)
      next
        case 2
        show ?thesis
        proof (cases "lex_escape bs")
          case None
          then show ?thesis using less.prems(1) lw(2) [OF 2, of i] by (auto simp: Cons)
        next
          case (Some cn)
          obtain c n where cn: "cn = (c, n)" by fastforce
          with Some have n: "2 \<le> n" "n \<le> Suc (length bs)" using lex_escape_length by auto
          have "lex_word (drop n (b # bs)) (i + n) quote = Inl e"
            using less.prems(1) lw(2) [OF 2, of i] Some cn
            by (cases "lex_word (drop n (b # bs)) (i + n) quote") (auto simp: Cons)
          moreover have "\<forall>q. quote = Some q \<longrightarrow> q \<le> i + n" using less.prems(2) by auto
          ultimately show ?thesis using less.hyps [of "drop n (b # bs)" "i + n" quote] n by (auto simp: Cons)
        qed
      next
        case 3
        have "lex_word bs (i + 1) quote = Inl e"
          using less.prems(1) lw(3) [OF 3, of i] by (cases "lex_word bs (i + 1) quote") (auto simp: Cons)
        moreover have "\<forall>q. quote = Some q \<longrightarrow> q \<le> i + 1" using less.prems(2) by auto
        ultimately show ?thesis using less.hyps [of bs "i + 1" quote] by (auto simp: Cons)
      qed
    qed
  qed
qed

fun toks_in :: "nat \<Rightarrow> tok list \<Rightarrow> nat \<Rightarrow> bool" where
  "toks_in lo [] hi \<longleftrightarrow> lo \<le> hi"
| "toks_in lo (Word r p # ts) hi \<longleftrightarrow> lo \<le> fst r \<and> fst r < snd r \<and>
     list_all (\<lambda>q. fst r \<le> at q \<and> at q < snd r) p \<and> toks_in (snd r) ts hi"
| "toks_in lo (Pipe i # ts) hi \<longleftrightarrow> lo \<le> i \<and> toks_in (i + 1) ts hi"

lemma toks_in_weaken: "toks_in lo ts hi \<Longrightarrow> lo' \<le> lo \<Longrightarrow> toks_in lo' ts hi"
  by (induction lo ts hi rule: toks_in.induct) auto

lemma toks_in_le: "toks_in lo ts hi \<Longrightarrow> lo \<le> hi"
  by (induction lo ts hi rule: toks_in.induct) auto

lemma lex_from_in:
  "lex_from rest i = (ts, err) \<Longrightarrow>
     toks_in i ts (i + length rest) \<and> (\<forall>e. err = Some e \<longrightarrow> offset e \<le> i + length rest)"
proof (induction "length rest" arbitrary: rest i ts rule: less_induct)
  case less
  show ?case
  proof (cases rest)
    case Nil
    with less.prems show ?thesis by (simp add: lex_from.simps)
  next
    case (Cons b bs)
    consider (space) "space_at rest > 0" | (pipe) "space_at rest = 0" "b = CHR ''|''"
      | (word) "space_at rest = 0" "b \<noteq> CHR ''|''" by blast
    then show ?thesis
    proof cases
      case space
      have "lex_from (drop (space_at rest) rest) (i + space_at rest) = (ts, err)"
        using less.prems space by (subst (asm) lex_from.simps) (simp add: Cons Let_def)
      from less.hyps [OF _ this] space space_at_length [of rest] show ?thesis
        by (auto simp: Cons intro: toks_in_weaken)
    next
      case pipe
      obtain ts' where "lex_from bs (i + 1) = (ts', err)" "ts = Pipe i # ts'"
        using less.prems pipe by (subst (asm) lex_from.simps) (cases "lex_from bs (i + 1)", simp add: Cons)
      with less.hyps [OF _ this(1)] show ?thesis by (auto simp: Cons)
    next
      case word
      show ?thesis
      proof (cases "lex_word rest i None")
        case (Inl e)
        then have "ts = []" "err = Some e"
          using less.prems word by (subst (asm) lex_from.simps, simp add: Cons)+
        with lex_word_error [OF Inl] show ?thesis by simp
      next
        case (Inr x)
        obtain ps r j where x: "x = (ps, r, j)" by (cases x)
        obtain ts' where ts': "lex_from r j = (ts', err)" "ts = Word (i, j) ps # ts'"
          using less.prems word Inr x by (subst (asm) lex_from.simps) (cases "lex_from r j", simp add: Cons)
        have w: "lex_word (b # bs) i None = Inr (ps, r, j)" using Inr x by (simp add: Cons)
        have "length r < Suc (length bs)" using lex_word_progress [OF w] word by (simp add: Cons)
        moreover have "j + length r = i + length rest" using lex_word_rest [OF w] by (simp add: Cons)
        ultimately show ?thesis
          using less.hyps [OF _ ts'(1)] lex_word_pieces_at [OF w] ts'(2) by (auto simp: Cons)
      qed
    qed
  qed
qed

section \<open>Lines\<close>

fun segs_in :: "nat \<Rightarrow> segment list \<Rightarrow> nat list \<Rightarrow> nat \<Rightarrow> bool" where
  "segs_in lo [seg] [] hi \<longleftrightarrow> words_in lo seg hi"
| "segs_in lo (seg # segs) (i # pipes) hi \<longleftrightarrow> words_in lo seg i \<and> segs_in (i + 1) segs pipes hi"
| "segs_in lo _ _ hi \<longleftrightarrow> False"

lemma segs_in_Cons:
  "segs_in lo (seg # segs) pipes hi \<longleftrightarrow>
     (case pipes of [] \<Rightarrow> segs = [] \<and> words_in lo seg hi | i # ps \<Rightarrow> words_in lo seg i \<and> segs_in (i + 1) segs ps hi)"
  by (cases pipes; cases segs) auto

lemma segs_in_le: "segs_in lo segs pipes hi \<Longrightarrow> lo \<le> hi"
  by (induction lo segs pipes hi rule: segs_in.induct) (auto dest!: words_in_le)

lemma segments_in: "toks_in lo ts hi \<Longrightarrow> segments ts = (segs, pipes) \<Longrightarrow> segs_in lo segs pipes hi"
proof (induction lo ts hi arbitrary: segs pipes rule: toks_in.induct)
  case (2 lo r p ts hi)
  obtain segs' pipes' where s: "segments ts = (segs', pipes')" by fastforce
  with 2 have i: "segs_in (snd r) segs' pipes' hi" by simp
  then obtain seg ss where "segs' = seg # ss" by (cases segs') auto
  with 2 s i show ?case by (auto simp: segs_in_Cons split: list.splits)
next
  case (3 lo i ts hi)
  obtain segs' pipes' where "segments ts = (segs', pipes')" by fastforce
  with 3 show ?case by (auto simp: segs_in_Cons)
qed auto

lemma run_stages_within:
  assumes "segs_in lo segs pipes hi" "hi \<le> len" "\<forall>e. lex_err = Some e \<longrightarrow> offset e \<le> len"
    and "case prev of Some i \<Rightarrow> lo = i + 1 | None \<Rightarrow> True"
  shows "within (case prev of Some i \<Rightarrow> i | None \<Rightarrow> lo) (run_stages len lex_err prev pipes segs) len"
  using assms
proof (induction len lex_err prev pipes segs arbitrary: lo rule: run_stages.induct)
  case (1 len lex_err prev pipes)
  then show ?case by simp
next
  case (2 len lex_err prev pipes seg segs)
  define hi' where "hi' = (case pipes of [] \<Rightarrow> hi | i # _ \<Rightarrow> i)"
  have seg: "words_in lo seg hi'" using "2.prems"(1) by (auto simp: segs_in_Cons hi'_def split: list.splits)
  have hi': "hi' \<le> len" using "2.prems"(1,2)
    by (auto simp: segs_in_Cons hi'_def split: list.splits dest!: segs_in_le)
  have lo: "lo \<le> len" using words_in_le [OF seg] hi' by simp
  show ?case
    unfolding run_stages.simps
  proof (rule within_also [where mid = lo])
    show "within (case prev of Some i \<Rightarrow> i | None \<Rightarrow> lo)
        ((case prev of Some i \<Rightarrow> [((i, i + 1), TokPipe)] | None \<Rightarrow> []), Inr ()) lo"
      using "2.prems"(4) by (auto split: option.splits)
    show "lo \<le> len" by (rule lo)
    show "within lo (case seg of
         [] \<Rightarrow> ([], case lex_err of Some e \<Rightarrow> Inl e
            | None \<Rightarrow> fail (case prev of Some i \<Rightarrow> i + 1 | None \<Rightarrow> (case pipes of i # _ \<Rightarrow> i | [] \<Rightarrow> len)) Empty)
       | head # args \<Rightarrow>
           also_spans
             (case parse_stage head args (snd (fst (last seg))) of
                (sp, Inr s) \<Rightarrow> (sp, Inr s)
              | (sp, Inl e) \<Rightarrow> (sp, Inl (case lex_err of Some e' \<Rightarrow> if segs = [] then e' else e | None \<Rightarrow> e)))
             (\<lambda>s. also_spans
                (run_stages len lex_err (case pipes of i # _ \<Rightarrow> Some i | [] \<Rightarrow> None) (drop 1 pipes) segs)
                (\<lambda>ss. ([], Inr (s # ss))))) len"
    proof (cases seg)
      case Nil
      then show ?thesis
        using lo "2.prems"(3,4) hi' by (auto simp: within_def fail_def hi'_def split: option.splits list.splits)
    next
      case (Cons head args)
      have st: "within lo (parse_stage head args (snd (fst (last seg)))) hi'"
        using seg words_in_last [OF seg] by (intro parse_stage_within) (auto simp: Cons)
      let ?m = "case parse_stage head args (snd (fst (last seg))) of
                (sp, Inr s) \<Rightarrow> (sp, Inr s)
              | (sp, Inl e) \<Rightarrow> (sp, Inl (case lex_err of Some e' \<Rightarrow> if segs = [] then e' else e | None \<Rightarrow> e))"
      show ?thesis
      proof (cases "snd (parse_stage head args (snd (fst (last seg))))")
        case (Inl e)
        then obtain sp where "parse_stage head args (snd (fst (last seg))) = (sp, Inl e)" by (metis prod.collapse)
        with st "2.prems"(3) hi' show ?thesis
          by (auto simp: Cons within_def split: option.splits intro: spans_in_weaken)
      next
        case (Inr s)
        then obtain sp where sp: "parse_stage head args (snd (fst (last seg))) = (sp, Inr s)" by (metis prod.collapse)
        have "within hi' (run_stages len lex_err (case pipes of i # _ \<Rightarrow> Some i | [] \<Rightarrow> None) (drop 1 pipes) segs) len"
        proof (cases pipes)
          case Nil
          then have "segs = []" using "2.prems"(1) by (simp add: segs_in_Cons)
          then show ?thesis using hi' by simp
        next
          case pc: (Cons i ps)
          then have "segs_in (i + 1) segs ps hi" using "2.prems"(1) by (simp add: segs_in_Cons)
          with "2.IH" [OF Cons, of "i + 1"] "2.prems"(2,3) show ?thesis by (simp add: pc hi'_def)
        qed
        then have "within hi' (also_spans (run_stages len lex_err (case pipes of i # _ \<Rightarrow> Some i | [] \<Rightarrow> None) (drop 1 pipes) segs)
            (\<lambda>ss. ([], Inr (s # ss)))) len"
          by (rule within_also) simp_all
        with st sp hi' show ?thesis
          by (simp only: Cons list.case) (rule within_also [where mid = hi'], auto simp: Cons sp)
      qed
    qed
  qed
qed

lemma segs_in_start:
  assumes "segs_in lo segs pipes hi" "((r, p) # ws) \<in> set segs"
  shows "fst r \<le> hi"
  using assms
proof (induction lo segs pipes hi rule: segs_in.induct)
  case (1 lo seg hi)
  then show ?case using words_in_le [of "snd r" ws hi] by auto
next
  case (2 lo seg segs i pipes hi)
  show ?case
  proof (cases "(r, p) # ws \<in> set segs")
    case True
    with 2 show ?thesis by simp
  next
    case False
    with 2 have "words_in lo ((r, p) # ws) i" by simp
    then have "fst r \<le> i" using words_in_le [of "snd r" ws i] by simp
    moreover have "i + 1 \<le> hi" using "2.prems"(1) segs_in_le [of "i + 1" segs pipes hi] by simp
    ultimately show ?thesis by simp
  qed
qed simp_all

lemma run_line_within: "within 0 (run_line line) (length line)"
proof -
  obtain toks e where lx: "lex line = (toks, e)" by fastforce
  obtain segs pipes where sg: "segments toks = (segs, pipes)" by fastforce
  have "toks_in 0 toks (length line) \<and> (\<forall>x. e = Some x \<longrightarrow> offset x \<le> length line)"
    using lex_from_in [of line 0 toks e] lx by (simp add: lex_def)
  then have segs: "segs_in 0 segs pipes (length line)" and e: "\<forall>x. e = Some x \<longrightarrow> offset x \<le> length line"
    using segments_in sg by blast+
  have "within 0 (run_stages (length line) e None pipes segs) (length line)"
    using run_stages_within [OF segs order_refl e, of None] by simp
  moreover have "within (length line) ([], case e of
               Some e \<Rightarrow> Inl e
             | None \<Rightarrow>
                 (case (if length ss > 1 then position alone ss else None) of
                    Some k \<Rightarrow> fail (case segs ! k of (r, _) # _ \<Rightarrow> fst r | [] \<Rightarrow> 0) StandsAlone
                  | None \<Rightarrow> Inr \<lparr>stages = ss\<rparr>)) (length line)"
    if ss: "snd (run_stages (length line) e None pipes segs) = Inr ss" for ss
  proof -
    have len: "length ss = length segs" using run_stages_wf [OF ss] by simp
    have "(case segs ! k of (r, _) # _ \<Rightarrow> fst r | [] \<Rightarrow> 0) \<le> length line" if "position alone ss = Some k" for k
    proof -
      have "segs ! k \<in> set segs" using position_SomeD [OF that] len by simp
      then show ?thesis using segs_in_start [OF segs] by (auto split: list.splits)
    qed
    with e show ?thesis by (auto simp: within_def fail_def split: option.splits)
  qed
  ultimately show ?thesis
    by (auto simp: run_line_def lx sg intro: within_also)
qed

lemma toks_in_end: "toks_in lo ts hi \<Longrightarrow> t \<in> set ts \<Longrightarrow> snd (tok_range t) \<le> hi"
  by (induction lo ts hi rule: toks_in.induct) (auto dest: toks_in_le)

lemma toks_in_spans: "toks_in lo ts hi \<Longrightarrow> spans_in lo (map (\<lambda>r. (r, c)) (map tok_range ts)) hi"
  by (induction lo ts hi rule: toks_in.induct) auto

lemma spans_in_from:
  "spans_in lo sp hi \<Longrightarrow> m \<le> hi \<Longrightarrow> spans_in m (filter (\<lambda>(r, _). fst r \<ge> m) sp) hi"
proof (induction lo sp hi rule: spans_in.induct)
  case (2 lo r c sp hi)
  show ?case
  proof (cases "fst r \<ge> m")
    case True
    from spans_in_filter [OF "2.prems"(1), of "\<lambda>(r, _). fst r \<ge> m"] True show ?thesis by simp
  next
    case False
    with 2 show ?thesis by simp
  qed
qed simp

section \<open>Properties\<close>

text \<open>C30: the colour spans of a line follow each other without overlap inside the line, whatever the
  line is, and an error is reported at an offset of the line.\<close>

theorem tokens_ordered:
  "spans_in 0 (tokens line) (length line) \<and>
   (case parse line of Inl e \<Rightarrow> offset e \<le> length line | Inr _ \<Rightarrow> True)"
proof -
  have run: "within 0 (run_line line) (length line)" by (rule run_line_within)
  obtain toks e where lx: "lex line = (toks, e)" by fastforce
  have toks: "toks_in 0 toks (length line)"
    using lex_from_in [of line 0 toks e] lx by (simp add: lex_def)
  obtain sp res where rl: "run_line line = (sp, res)" by fastforce
  have sp: "spans_in 0 sp (length line)" using run rl by (simp add: within_def)
  have "spans_in 0 (tokens line) (length line)"
  proof (cases res)
    case (Inr o')
    with sp rl show ?thesis by (simp add: tokens_def Let_def)
  next
    case (Inl err)
    let ?lexed = "map tok_range (fst (lex line))"
    define word_end where "word_end = (case find (\<lambda>r. fst r \<le> offset err \<and> offset err < snd r) ?lexed of
      Some r \<Rightarrow> snd r | None \<Rightarrow> length line)"
    define stop where "stop = (if offset err < word_end then word_end else length line)"
    have off: "offset err \<le> length line" using run rl Inl by (simp add: within_def)
    have "snd r \<le> length line" if "find P (map tok_range toks) = Some r" for P r
    proof -
      have "r \<in> set (map tok_range toks)" using that by (metis find_Some_iff nth_mem)
      then show ?thesis using toks_in_end [OF toks] by auto
    qed
    then have "word_end \<le> length line" by (auto simp: word_end_def lx split: option.splits)
    then have stop: "offset err \<le> stop" "stop \<le> length line" using off by (auto simp: stop_def)
    have "spans_in 0 (filter (\<lambda>(r, _). snd r \<le> offset err) sp) (offset err)"
      using spans_in_filter [OF sp] by (rule spans_in_cut) (auto simp: list_all_iff)
    moreover have "spans_in stop (filter (\<lambda>(r, _). fst r \<ge> stop) (map (\<lambda>r. (r, TokError)) ?lexed)) (length line)"
      using toks_in_spans [OF toks] stop(2) by (intro spans_in_from) (simp add: lx)
    then have "spans_in (offset err) (((offset err, max stop (offset err)), TokError) #
        map (\<lambda>r. (r, TokError)) (filter (\<lambda>r. fst r \<ge> stop) ?lexed)) (length line)"
      using stop(1) by (simp add: filter_map comp_def max_absorb1)
    ultimately show ?thesis
      unfolding tokens_def Let_def rl Inl prod.case sum.case word_end_def [symmetric] stop_def [symmetric]
      by (rule spans_in_append)
  qed
  with run show ?thesis by (auto simp: parse_def within_def split: sum.splits)
qed

end
