(* ===== verification/Orders_Language.thy ===== *)
theory Orders_Language
  imports Orders_Spans
begin

text \<open>
  The properties of the order language: what the parser produces is what the printer can write and
  the parser reads back, a printed order only holds characters that a terminal draws, and a name
  quoted by the printer is that name wherever an order takes one.
\<close>

section \<open>Printed text is clean\<close>

lemma utf8_chars_append: "utf8_valid a \<Longrightarrow> utf8_chars (a @ b) = utf8_chars a @ utf8_chars b"
proof (induction a rule: utf8_chars.induct)
  case (2 x a)
  from "2.prems" obtain n where n: "utf8_item x a = Scalar n" and v: "utf8_valid (drop (n - 1) a)"
    by (auto split: utf8_item.splits)
  have "0 < n" "n - 1 \<le> length a" using utf8_item_Scalar_bounds [OF n] by auto
  with "2.IH" [OF n v] n utf8_item_append [OF n, of b] show ?case by (cases n) simp_all
qed simp

text \<open>A character a terminal only draws: printable ASCII or the space, or a letter, digit or combining
  mark that is visible.\<close>

definition drawn :: "char_classes \<Rightarrow> bytes \<Rightarrow> bool" where
  "drawn cls c \<longleftrightarrow>
     (let x = utf8_code c
      in 32 \<le> x \<and> x \<le> 126 \<or> 128 \<le> x \<and> (is_alphanumeric cls x \<or> is_combining_mark cls x) \<and>
         \<not> is_whitespace x \<and> \<not> is_format x)"

definition clean :: "char_classes \<Rightarrow> bytes \<Rightarrow> bool" where
  "clean cls t \<longleftrightarrow> utf8_valid t \<and> list_all (drawn cls) (utf8_chars t)"

lemma clean_append: "clean cls a \<Longrightarrow> clean cls b \<Longrightarrow> clean cls (a @ b)"
  by (simp add: clean_def utf8_valid_append utf8_chars_append)

lemma clean_Nil [simp]: "clean cls []"
  by (simp add: clean_def)

lemma clean_concat: "(\<And>t. t \<in> set ts \<Longrightarrow> clean cls t) \<Longrightarrow> clean cls (concat ts)"
  by (induction ts) (auto intro: clean_append)

lemma clean_join: "clean cls sep \<Longrightarrow> (\<And>t. t \<in> set ts \<Longrightarrow> clean cls t) \<Longrightarrow> clean cls (join_with sep ts)"
  by (induction ts) (auto simp: join_with_Cons intro: clean_append)

lemma clean_byte: "32 \<le> u8 b \<Longrightarrow> u8 b \<le> 126 \<Longrightarrow> clean cls [b]"
  by (simp add: clean_def utf8_item_def drawn_def)

lemma clean_Cons: "32 \<le> u8 b \<Longrightarrow> u8 b \<le> 126 \<Longrightarrow> clean cls bs \<Longrightarrow> clean cls (b # bs)"
  using clean_append [OF clean_byte, of b cls bs] by simp

lemma clean_graphic: "graphic w \<Longrightarrow> clean cls w"
  by (induction w) (auto simp: graphic_def graphic_byte_def intro!: clean_Cons)

lemma clean_escape_byte: "clean cls (escape_byte b)"
proof -
  have "k < 16 \<Longrightarrow> 32 \<le> u8 (''0123456789abcdef'' ! k) \<and> u8 (''0123456789abcdef'' ! k) \<le> 126" for k
  proof -
    assume "k < 16"
    then have "k \<in> set [0..<16]" by simp
    moreover have "\<forall>k \<in> set [0..<16]. 32 \<le> u8 (''0123456789abcdef'' ! k) \<and> u8 (''0123456789abcdef'' ! k) \<le> 126"
      by code_simp
    ultimately show ?thesis by blast
  qed
  moreover have "u8 b div 16 < 16" "u8 b mod 16 < 16" using u8_less [of b] by (simp_all add: div_less_iff_less_mult)
  ultimately show ?thesis unfolding escape_byte_def by (intro clean_Cons clean_Nil) auto
qed

lemma clean_one_char: "one_char c \<Longrightarrow> drawn cls c \<Longrightarrow> clean cls c"
  by (cases c) (auto simp: one_char_def clean_def)

lemma safe_drawn:
  assumes "classes_ok cls" "one_char c" "safe cls c comma m"
  shows "drawn cls c"
proof (cases "utf8_code c < 128")
  case True
  with assms(3) show ?thesis by (simp add: safe_def drawn_def Let_def)
next
  case False
  with assms(3) have "is_alphanumeric cls (utf8_code c) \<or> is_combining_mark cls (utf8_code c)"
    by (auto simp: safe_def Let_def split: if_splits)
  with False safe_unit_ok [OF assms] show ?thesis by (simp add: drawn_def)
qed

lemma clean_escape_chars:
  "classes_ok cls \<Longrightarrow> list_all one_char cs \<Longrightarrow> clean cls (fst (escape_chars cls comma m cs))"
  by (induction cs arbitrary: m)
    (auto intro!: clean_append clean_concat clean_escape_byte intro: clean_one_char safe_drawn)

lemma clean_escape_chunks: "classes_ok cls \<Longrightarrow> clean cls (escape_chunks cls comma m bs)"
proof (induction cls comma m bs rule: escape_chunks.induct)
  case (1 cls comma m bs)
  have chars: "list_all one_char (utf8_chars xs)" for xs
    by (auto simp: list_all_iff intro: utf8_chars_one_char)
  note cc = clean_escape_chars [OF "1.prems" chars]
  show ?case
  proof (cases "from_utf8 bs")
    case None
    with cc show ?thesis by (simp add: escape_chunks.simps [of cls comma m bs])
  next
    case (Some p)
    obtain v e where p: "p = (v, e)" by fastforce
    with "1.IH" [OF Some p [symmetric] refl "1.prems"] Some cc show ?thesis
      by (auto simp: escape_chunks.simps [of cls comma m bs] Let_def intro!: clean_append clean_concat clean_escape_byte)
  qed
qed

lemma clean_escape: "classes_ok cls \<Longrightarrow> clean cls (escape cls bs comma)"
  by (simp add: escape_def clean_escape_chunks)

lemma clean_decimal: "clean cls (decimal n)"
  by (rule clean_graphic [OF graphic_decimal])

lemma clean_with_unit:
  "with_unit us n = Some s \<Longrightarrow> (\<And>u m. (u, m) \<in> set us \<Longrightarrow> clean cls [u]) \<Longrightarrow> clean cls s"
  by (induction us n rule: with_unit.induct) (auto split: if_splits intro!: clean_append clean_decimal)

lemma clean_numbers: "clean cls (print_size n)" "clean cls (print_age n)"
proof -
  have "clean cls ''T''" "clean cls ''G''" "clean cls ''M''" "clean cls ''K''" "clean cls ''s''" "clean cls ''m''"
    "clean cls ''h''" "clean cls ''d''" "clean cls ''w''"
    by (simp_all add: clean_byte)
  then show "clean cls (print_size n)" "clean cls (print_age n)"
    unfolding print_size_def print_age_def
    by (auto split: option.splits simp: UNITS_AGE_def intro!: clean_append clean_decimal dest!: clean_with_unit [where cls = cls])
qed

lemma clean_print_term:
  assumes "classes_ok cls"
  shows "clean cls (print_term cls t)"
proof -
  have key: "clean cls ''ext:''" "clean cls ''name:''" "clean cls ''name=''" "clean cls ''size''" "clean cls ''age''"
    "clean cls (cmp_str c)" "clean cls ''!''" "clean cls '',''" "clean cls (print_kind k)" for c k
    by (cases k; rule clean_graphic; simp)+
  have "clean cls (print_pred cls p)" for p
  proof (cases p)
    case (Ext es)
    show ?thesis unfolding Ext print_pred_def pred.case
      by (intro clean_append key clean_join) (auto intro: clean_escape [OF assms])
  next
    case (Name n)
    show ?thesis unfolding Name print_pred_def pred.case Let_def
      by (intro clean_append clean_escape [OF assms]) (simp add: key del: One_nat_def)
  next
    case (Literal n)
    show ?thesis unfolding Literal print_pred_def pred.case by (intro clean_append key clean_escape [OF assms])
  next
    case (Size c n)
    show ?thesis unfolding Size print_pred_def pred.case by (intro clean_append key clean_numbers)
  next
    case (Age c n)
    show ?thesis unfolding Age print_pred_def pred.case by (intro clean_append key clean_numbers)
  next
    case (Kind k)
    show ?thesis unfolding Kind print_pred_def pred.case by (rule key)
  qed
  then show ?thesis unfolding print_term_def by (intro clean_append) (auto simp: key)
qed

lemma clean_print_dest: "classes_ok cls \<Longrightarrow> clean cls (print_dest cls d)"
  using clean_graphic [of "''other''" cls] clean_graphic [of "''here''" cls]
  by (cases d) (auto simp: print_dest_def intro!: clean_append clean_escape clean_escape_byte)

lemma clean_print_word: "classes_ok cls \<Longrightarrow> clean cls (print_word cls n)"
  by (auto simp: print_word_def intro!: clean_escape clean_Cons)

lemma clean_count: "clean cls v \<Longrightarrow> clean cls (print_count v k)"
  by (auto simp: print_count_def intro!: clean_append clean_decimal clean_byte clean_Cons split: option.splits)

lemma clean_print_stage:
  assumes "classes_ok cls"
  shows "clean cls (print_stage cls s)"
proof -
  have verbs: "clean cls ''sel''" "clean cls ''log''" "clean cls ''undo''" "clean cls ''trash''"
    by (rule clean_graphic; simp)+
  have spaced: "clean cls ''cp >''" "clean cls ''mv >''" "clean cls ''mkdir ''" "clean cls ''cd ''" "clean cls '' ''"
    by (simp_all add: clean_Cons)
  show ?thesis
  proof (cases s)
    case (Sel q)
    show ?thesis unfolding Sel print_stage_def stage.case
      by (intro clean_append verbs clean_concat) (auto intro: clean_append [OF spaced(5), simplified] clean_print_term [OF assms])
  next
    case (Catalogue i)
    then show ?thesis
      by (auto simp: print_stage_def intro: clean_print_word [OF assms] clean_graphic catalogue_graphic)
  qed (use assms in \<open>auto simp only: print_stage_def stage.case
    intro!: clean_append spaced clean_print_dest clean_print_word clean_count verbs\<close>)
qed

section \<open>Properties\<close>

definition ascii_classes :: char_classes where
  "ascii_classes = \<lparr>is_alphanumeric = (\<lambda>c. 48 \<le> c \<and> c \<le> 57 \<or> 65 \<le> c \<and> c \<le> 90 \<or> 97 \<le> c \<and> c \<le> 122),
     is_combining_mark = (\<lambda>c. False)\<rparr>"

lemma ascii_classes_ok: "classes_ok ascii_classes"
  by (auto simp: classes_ok_def ascii_classes_def in_ranges_def INVISIBLE_MARKS_def)

text \<open>C18: an order that was parsed is printed as a line that parses to the same order, whatever line it
  was parsed from.\<close>

theorem parse_print_parse:
  assumes "classes_ok cls" "parse line = Inr o'"
  shows "parse (print cls o') = Inr o'"
  by (rule print_parse [OF assms(1) parse_wf [OF assms(2)]])

theorem parse_print_parse_witness:
  "parse (print ascii_classes \<lparr>stages = [Cp (Path ''a b'')]\<rparr>) = Inr \<lparr>stages = [Cp (Path ''a b'')]\<rparr>"
proof -
  have "parse [CHR ''c'', CHR ''p'', CHR '' '', CHR ''>'', CHR ''a'', CHR 0x5C, CHR '' '', CHR ''b''] =
      Inr \<lparr>stages = [Cp (Path ''a b'')]\<rparr>"
    by (simp add: parse_def run_line_def lex_def lex_from.simps lex_word.simps lex_escape_def space_at_def utf8_item_def
      utf8_cont_def is_whitespace_def parse_stage_def hidden_def strip_format_def format_len_def plain_text_def
      verb_args_def parse_dest_def dest_body_def plain_eq_def map_colour_def)
  then show ?thesis by (rule parse_print_parse [OF ascii_classes_ok])
qed

text \<open>C29: the trees that some line parses to are exactly the well-formed ones: at least one stage,
  \<^verbatim>\<open>log\<close> and \<^verbatim>\<open>undo\<close> only alone, no empty name, selection or extension list, numbers within their
  types and catalogue ids that are ids.\<close>

theorem parse_image_exact: "(\<exists>line. parse line = Inr o') \<longleftrightarrow> order_wf o'"
  using parse_wf print_parse [OF ascii_classes_ok] by blast

text \<open>whatever the tree, the printed line is valid UTF-8 and holds only characters that a terminal
  draws: no control character, no invisible one and no white space but the space.\<close>

theorem print_clean:
  assumes "classes_ok cls"
  shows "clean cls (print cls o')"
  unfolding print_def by (intro clean_join) (auto intro: clean_print_stage [OF assms] intro!: clean_Cons)

theorem print_clean_witness:
  "clean ascii_classes (print ascii_classes \<lparr>stages = [Catalogue [CHR 0x1B, CHR ''['']]\<rparr>)"
  by (rule print_clean [OF ascii_classes_ok])

text \<open>a name written by the printer's quoting is that name wherever an order takes one: as a folder
  to create, as a destination (even when it is called like a keyword) and as a selection.\<close>

theorem quoted_names_read:
  assumes "classes_ok cls" "n \<noteq> []"
  shows "parse (''mkdir '' @ escape_name cls n) = Inr \<lparr>stages = [Mkdir n]\<rparr> \<and>
    parse (''cp >'' @ escape_dest cls n) = Inr \<lparr>stages = [Cp (Path n)]\<rparr> \<and>
    parse (''sel '' @ name_term cls n True) =
      Inr \<lparr>stages = [Sel \<lparr>terms = [\<lparr>negated = False, pred = Literal n\<rparr>]\<rparr>]\<rparr> \<and>
    (\<exists>p \<in> {Name n, Literal n}. parse (''sel '' @ name_term cls n False) =
      Inr \<lparr>stages = [Sel \<lparr>terms = [\<lparr>negated = False, pred = p\<rparr>]\<rparr>]\<rparr>)"
proof -
  have rd: "parse (print_stage cls s) = Inr \<lparr>stages = [s]\<rparr>" if "stage_wf s" for s
    using print_parse [OF assms(1), of "\<lparr>stages = [s]\<rparr>"] that by (simp add: print_def order_wf_def)
  have sel: "parse (''sel '' @ print_term cls t) = Inr \<lparr>stages = [Sel \<lparr>terms = [t]\<rparr>]\<rparr>" if "pred_wf (pred t)" for t
    using rd [of "Sel \<lparr>terms = [t]\<rparr>"] that by (simp add: print_stage_def)
  have "parse (''mkdir '' @ escape_name cls n) = Inr \<lparr>stages = [Mkdir n]\<rparr>"
    using rd [of "Mkdir n"] assms(2) by (simp add: print_stage_def escape_name_def)
  moreover have "parse (''cp >'' @ escape_dest cls n) = Inr \<lparr>stages = [Cp (Path n)]\<rparr>"
    using rd [of "Cp (Path n)"] assms(2) by (simp add: print_stage_def escape_dest_def)
  moreover have "parse (''sel '' @ name_term cls n True) =
      Inr \<lparr>stages = [Sel \<lparr>terms = [\<lparr>negated = False, pred = Literal n\<rparr>]\<rparr>]\<rparr>"
    using sel [of "\<lparr>negated = False, pred = Literal n\<rparr>"] by (simp add: name_term_def)
  moreover have "\<exists>p \<in> {Name n, Literal n}. parse (''sel '' @ name_term cls n False) =
      Inr \<lparr>stages = [Sel \<lparr>terms = [\<lparr>negated = False, pred = p\<rparr>]\<rparr>]\<rparr>"
    using sel [of "\<lparr>negated = False, pred = Literal n\<rparr>"] sel [of "\<lparr>negated = False, pred = Name n\<rparr>"]
    by (simp add: name_term_def Let_def)
  ultimately show ?thesis by blast
qed

theorem quoted_names_read_witness:
  "parse (''cp >'' @ escape_dest ascii_classes ''other'') = Inr \<lparr>stages = [Cp (Path ''other'')]\<rparr>"
  using quoted_names_read [OF ascii_classes_ok, of "''other''"] by simp

end
