(* ===== verification/Name_Key.thy ===== *)
theory Name_Key
  imports Rust_Utf8
begin

text \<open>
  The key by which two file names are compared for collision
  (\<^verbatim>\<open>norte-encoding/src/fold.rs\<close>). Text is a list of code points. The case mapping and the
  normalisation come from the Rust standard library's and the \<^verbatim>\<open>unicode-normalization\<close> crate's
  Unicode tables, which are the fields of the parameter \<open>unicode\<close>; the tables of the source itself
  (\<open>FOLD_DELTA\<close>, \<open>FULL_FOLD\<close>, \<open>DEFAULT_IGNORABLE\<close>) are written out. The lemmas show that the
  shortcuts taken when nothing changes are invisible, that bytes from the first invalid one on pass
  unchanged, and that lower-case ASCII names are their own key.
\<close>

section \<open>Code points\<close>

text \<open>\<^verbatim>\<open>char::encode_utf8\<close>.\<close>

definition utf8_encode :: "nat \<Rightarrow> bytes" where
  "utf8_encode c =
     (if c < 0x80 then [char_of c]
      else if c < 0x800 then [char_of (192 + c div 64), char_of (128 + c mod 64)]
      else if c < 0x10000 then
        [char_of (224 + c div 4096), char_of (128 + c div 64 mod 64), char_of (128 + c mod 64)]
      else
        [char_of (240 + c div 262144), char_of (128 + c div 4096 mod 64),
         char_of (128 + c div 64 mod 64), char_of (128 + c mod 64)])"

definition text_of :: "bytes \<Rightarrow> nat list" where
  "text_of bs = map utf8_code (utf8_chars bs)"

definition bytes_of :: "nat list \<Rightarrow> bytes" where
  "bytes_of cs = concat (map utf8_encode cs)"

section \<open>Folding\<close>

datatype fold_mode = FoldNone | Simple | Full

definition folds :: "fold_mode \<Rightarrow> bool" where
  "folds mode \<longleftrightarrow> mode \<noteq> FoldNone"

record unicode =
  char_lower :: "nat \<Rightarrow> nat list"
  str_lower :: "nat list \<Rightarrow> nat list"
  is_nfc :: "nat list \<Rightarrow> bool"
  nfc :: "nat list \<Rightarrow> nat list"

definition FOLD_DELTA :: "(nat \<times> nat) list" where
  "FOLD_DELTA = [
     (0x03C2, 0x03C3), (0x00B5, 0x03BC), (0x017F, 0x0073), (0x1E9B, 0x1E61), (0x03D0, 0x03B2),
     (0x03D1, 0x03B8), (0x03F0, 0x03BA), (0x03D6, 0x03C0), (0x03F1, 0x03C1), (0x03F5, 0x03B5),
     (0x03D5, 0x03C6), (0x1C80, 0x0432), (0x1C81, 0x0434), (0x1C82, 0x043E), (0x1C83, 0x0441),
     (0x1C84, 0x0442), (0x1C85, 0x0442), (0x1C86, 0x044A), (0x1C87, 0x0463), (0x1C88, 0xA64B),
     (0x0345, 0x03B9), (0xFB05, 0xFB06)
   ]"

definition fold_delta :: "nat \<Rightarrow> nat" where
  "fold_delta c = (case map_of FOLD_DELTA c of Some d \<Rightarrow> d | None \<Rightarrow> c)"

definition FULL_FOLD :: "(nat \<times> nat list) list" where
  "FULL_FOLD = [
     (0x00DF, [0x0073, 0x0073]), (0x0149, [0x02BC, 0x006E]), (0x1E9A, [0x0061, 0x02BE]),
     (0xFB00, [0x0066, 0x0066]), (0xFB01, [0x0066, 0x0069]), (0xFB02, [0x0066, 0x006C]),
     (0xFB03, [0x0066, 0x0066, 0x0069]), (0xFB04, [0x0066, 0x0066, 0x006C]),
     (0xFB05, [0x0073, 0x0074]), (0xFB06, [0x0073, 0x0074]), (0x0587, [0x0565, 0x0582]),
     (0xFB13, [0x0574, 0x0576]), (0xFB14, [0x0574, 0x0565]), (0xFB15, [0x0574, 0x056B]),
     (0xFB16, [0x057E, 0x0576]), (0xFB17, [0x0574, 0x056D]), (0x1F80, [0x1F00, 0x03B9]),
     (0x1F81, [0x1F01, 0x03B9]), (0x1F82, [0x1F02, 0x03B9]), (0x1F83, [0x1F03, 0x03B9]),
     (0x1F84, [0x1F04, 0x03B9]), (0x1F85, [0x1F05, 0x03B9]), (0x1F86, [0x1F06, 0x03B9]),
     (0x1F87, [0x1F07, 0x03B9]), (0x1F90, [0x1F20, 0x03B9]), (0x1F91, [0x1F21, 0x03B9]),
     (0x1F92, [0x1F22, 0x03B9]), (0x1F93, [0x1F23, 0x03B9]), (0x1F94, [0x1F24, 0x03B9]),
     (0x1F95, [0x1F25, 0x03B9]), (0x1F96, [0x1F26, 0x03B9]), (0x1F97, [0x1F27, 0x03B9]),
     (0x1FA0, [0x1F60, 0x03B9]), (0x1FA1, [0x1F61, 0x03B9]), (0x1FA2, [0x1F62, 0x03B9]),
     (0x1FA3, [0x1F63, 0x03B9]), (0x1FA4, [0x1F64, 0x03B9]), (0x1FA5, [0x1F65, 0x03B9]),
     (0x1FA6, [0x1F66, 0x03B9]), (0x1FA7, [0x1F67, 0x03B9]), (0x1FB2, [0x1F70, 0x03B9]),
     (0x1FB3, [0x03B1, 0x03B9]), (0x1FB4, [0x03AC, 0x03B9]), (0x1FB7, [0x03B1, 0x0342, 0x03B9]),
     (0x1FC2, [0x1F74, 0x03B9]), (0x1FC3, [0x03B7, 0x03B9]), (0x1FC4, [0x03AE, 0x03B9]),
     (0x1FC7, [0x03B7, 0x0342, 0x03B9]), (0x1FF2, [0x1F7C, 0x03B9]), (0x1FF3, [0x03C9, 0x03B9]),
     (0x1FF4, [0x03CE, 0x03B9]), (0x1FF7, [0x03C9, 0x0342, 0x03B9])
   ]"

definition full_fold_expansion :: "nat \<Rightarrow> nat list option" where
  "full_fold_expansion c = map_of FULL_FOLD c"

definition DEFAULT_IGNORABLE :: "(nat \<times> nat) list" where
  "DEFAULT_IGNORABLE = [
     (0x00AD, 0x00AD), (0x034F, 0x034F), (0x061C, 0x061C), (0x115F, 0x1160), (0x17B4, 0x17B5),
     (0x180B, 0x180F), (0x200B, 0x200F), (0x202A, 0x202E), (0x2060, 0x2064), (0x2065, 0x2069),
     (0x206A, 0x206F), (0x3164, 0x3164), (0xFE00, 0xFE0F), (0xFEFF, 0xFEFF), (0xFFA0, 0xFFA0),
     (0xFFF0, 0xFFF8), (0x1BCA0, 0x1BCA3), (0x1D173, 0x1D17A), (0xE0000, 0xE0FFF)
   ]"

definition is_default_ignorable :: "nat \<Rightarrow> bool" where
  "is_default_ignorable c \<longleftrightarrow> list_ex (\<lambda>(lo, hi). lo \<le> c \<and> c \<le> hi) DEFAULT_IGNORABLE"

definition full_chars :: "nat \<Rightarrow> nat list" where
  "full_chars c = (case full_fold_expansion c of Some e \<Rightarrow> e | None \<Rightarrow> [fold_delta c])"

definition full_fold :: "unicode \<Rightarrow> nat list \<Rightarrow> nat list" where
  "full_fold u s =
     concat (map full_chars (concat (map (char_lower u) (filter (\<lambda>c. \<not> is_default_ignorable c) s))))"

definition folding_changes :: "unicode \<Rightarrow> fold_mode \<Rightarrow> nat list \<Rightarrow> bool" where
  "folding_changes u mode s =
     (if \<not> folds mode then False
      else if mode = Full then full_fold u s \<noteq> s
      else map fold_delta (concat (map (char_lower u) s)) \<noteq> s)"

definition fold_run :: "unicode \<Rightarrow> fold_mode \<Rightarrow> nat list \<Rightarrow> nat list" where
  "fold_run u mode s =
     (let folded =
           (if folds mode \<and> folding_changes u mode s
            then if mode = Full then full_fold u s else map fold_delta (str_lower u s)
            else s)
      in if is_nfc u folded then folded else nfc u folded)"

definition fold_lossy :: "unicode \<Rightarrow> bytes \<Rightarrow> nat \<Rightarrow> fold_mode \<Rightarrow> bytes" where
  "fold_lossy u name valid_up_to mode =
     (if valid_up_to > 0 then bytes_of (fold_run u mode (text_of (take valid_up_to name))) else []) @
     drop valid_up_to name"

definition name_key :: "unicode \<Rightarrow> bytes \<Rightarrow> fold_mode \<Rightarrow> bytes" where
  "name_key u name mode =
     (case from_utf8 name of
        None \<Rightarrow> bytes_of (fold_run u mode (text_of name))
      | Some (valid_up_to, _) \<Rightarrow> fold_lossy u name valid_up_to mode)"

definition is_canonical_singleton :: "unicode \<Rightarrow> nat \<Rightarrow> bool" where
  "is_canonical_singleton u c \<longleftrightarrow> (case nfc u [c] of [target] \<Rightarrow> target \<noteq> c | _ \<Rightarrow> False)"

definition has_canonical_singleton :: "unicode \<Rightarrow> bytes \<Rightarrow> bool" where
  "has_canonical_singleton u name =
     list_ex (is_canonical_singleton u)
       (text_of (case from_utf8 name of None \<Rightarrow> name | Some (valid_up_to, _) \<Rightarrow> take valid_up_to name))"

section \<open>Code points and bytes\<close>

lemma char_of_eqI: "n = u8 b \<Longrightarrow> char_of n = b"
  by simp

lemma base_digit: "r < (m :: nat) \<Longrightarrow> (h * m + r) div m = h \<and> (h * m + r) mod m = r"
  by simp

lemma utf8_contE:
  assumes "utf8_cont c"
  obtains q where "u8 c = 128 + q" "q < 64" "u8 c mod 64 = q"
proof -
  have "128 \<le> u8 c" "u8 c \<le> 191" using assms by (auto simp: utf8_cont_def)
  then obtain q where q: "u8 c = 128 + q" "q < 64" using le_Suc_ex [of 128 "u8 c"] by auto
  then have "u8 c mod 64 = q" by (simp add: mod_if)
  with q show thesis by (rule that)
qed

lemma utf8_second_cont:
  "utf8_second3 f (u8 c) \<Longrightarrow> utf8_cont c" "utf8_second4 f (u8 c) \<Longrightarrow> utf8_cont c"
  by (auto simp: utf8_second3_def utf8_second4_def utf8_cont_def)

lemma utf8_encode2:
  assumes "194 \<le> u8 b" "u8 b \<le> 223" "utf8_cont c"
  shows "utf8_encode (utf8_code [b, c]) = [b, c]"
proof -
  obtain p where p: "u8 b = 192 + p" "p < 32" "2 \<le> p" using assms(1,2) le_Suc_ex [of 192 "u8 b"] by auto
  then have b: "u8 b mod 32 = p" by (simp add: mod_if)
  obtain q where q: "u8 c = 128 + q" "q < 64" "u8 c mod 64 = q" using assms(3) by (rule utf8_contE)
  have "(p * 64 + q) div 64 = p" "(p * 64 + q) mod 64 = q" using q(2) by simp_all
  moreover have "0x80 \<le> p * 64 + q" "p * 64 + q < 0x800" using p q(2) by simp_all
  moreover have "char_of (192 + p) = b" "char_of (128 + q) = c"
    using p(1) q(1) by (metis char_of_u8)+
  ultimately show ?thesis
    using b q(3) by (simp add: utf8_encode_def)
qed

lemma utf8_encode3:
  assumes "224 \<le> u8 b" "u8 b \<le> 239" "utf8_second3 (u8 b) (u8 c)" "utf8_cont d"
  shows "utf8_encode (utf8_code [b, c, d]) = [b, c, d]"
proof -
  obtain p where p: "u8 b = 224 + p" "p < 16" using assms(1,2) le_Suc_ex [of 224 "u8 b"] by auto
  then have b: "u8 b mod 16 = p" by (simp add: mod_if)
  obtain q where q: "u8 c = 128 + q" "q < 64" "u8 c mod 64 = q"
    using utf8_second_cont(1) [OF assms(3)] by (rule utf8_contE)
  obtain r where r: "u8 d = 128 + r" "r < 64" "u8 d mod 64 = r" using assms(4) by (rule utf8_contE)
  define x where "x = (p * 64 + q) * 64 + r"
  have code: "utf8_code [b, c, d] = x" by (simp add: x_def b q(3) r(3))
  have "p \<noteq> 0 \<or> 32 \<le> q" using assms(3) p(1) q(1) by (auto simp: utf8_second3_def)
  then have "32 \<le> p * 64 + q" by (cases "p = 0") auto
  moreover have "p * 64 + q < 1024" using p(2) q(2) by simp
  ultimately have bounds: "\<not> x < 0x80" "\<not> x < 0x800" "x < 0x10000"
    using r(2) by (simp_all add: x_def)
  have d: "x div 64 = p * 64 + q" "x mod 64 = r" unfolding x_def using base_digit [OF r(2)] by blast+
  have "x div 4096 = x div 64 div 64" by (simp add: div_mult2_eq [symmetric])
  then have "x div 4096 = p" "x div 64 mod 64 = q" "x mod 64 = r"
    unfolding d using base_digit [OF q(2)] by simp_all
  moreover have "char_of (224 + p) = b" "char_of (128 + q) = c" "char_of (128 + r) = d"
    using p(1) q(1) r(1) by (metis char_of_u8)+
  ultimately show ?thesis
    unfolding code utf8_encode_def using bounds by (simp only: if_True if_False)
qed

lemma utf8_encode4:
  assumes "240 \<le> u8 b" "u8 b \<le> 244" "utf8_second4 (u8 b) (u8 c)" "utf8_cont d" "utf8_cont e"
  shows "utf8_encode (utf8_code [b, c, d, e]) = [b, c, d, e]"
proof -
  obtain p where p: "u8 b = 240 + p" "p < 8" using assms(1,2) le_Suc_ex [of 240 "u8 b"] by auto
  then have b: "u8 b mod 8 = p" by (simp add: mod_if)
  obtain q where q: "u8 c = 128 + q" "q < 64" "u8 c mod 64 = q"
    using utf8_second_cont(2) [OF assms(3)] by (rule utf8_contE)
  obtain r where r: "u8 d = 128 + r" "r < 64" "u8 d mod 64 = r" using assms(4) by (rule utf8_contE)
  obtain t where t: "u8 e = 128 + t" "t < 64" "u8 e mod 64 = t" using assms(5) by (rule utf8_contE)
  define x where "x = ((p * 64 + q) * 64 + r) * 64 + t"
  have code: "utf8_code [b, c, d, e] = x" by (simp add: x_def b q(3) r(3) t(3))
  have "p \<noteq> 0 \<or> 16 \<le> q" using assms(3) p(1) q(1) by (auto simp: utf8_second4_def)
  then have "16 \<le> p * 64 + q" by (cases "p = 0") auto
  then have bounds: "\<not> x < 0x80" "\<not> x < 0x800" "\<not> x < 0x10000"
    by (simp_all add: x_def)
  have d: "x div 64 = (p * 64 + q) * 64 + r" "x mod 64 = t"
    unfolding x_def using base_digit [OF t(2)] by blast+
  have "x div 4096 = x div 64 div 64" by (simp add: div_mult2_eq [symmetric])
  then have d2: "x div 4096 = p * 64 + q" "x div 64 mod 64 = r"
    unfolding d using base_digit [OF r(2), of "p * 64 + q"] by (simp_all only:)
  have "x div 262144 = x div 4096 div 64" by (simp add: div_mult2_eq [symmetric])
  then have "x div 262144 = p" "x div 4096 mod 64 = q" "x div 64 mod 64 = r" "x mod 64 = t"
    using d(2) d2 base_digit [OF q(2)] by simp_all
  moreover have "char_of (240 + p) = b" "char_of (128 + q) = c" "char_of (128 + r) = d"
      "char_of (128 + t) = e"
    using p(1) q(1) r(1) t(1) by (metis char_of_u8)+
  ultimately show ?thesis
    unfolding code utf8_encode_def using bounds by (simp only: if_True if_False)
qed

lemma utf8_encode_code_item:
  assumes "utf8_item b rest = Scalar n"
  shows "utf8_encode (utf8_code (take n (b # rest))) = take n (b # rest)"
proof -
  consider "n = 1" "u8 b < 128"
    | c r where "n = 2" "rest = c # r" "194 \<le> u8 b" "u8 b \<le> 223" "utf8_cont c"
    | c d r where "n = 3" "rest = c # d # r" "224 \<le> u8 b" "u8 b \<le> 239" "utf8_second3 (u8 b) (u8 c)" "utf8_cont d"
    | c d e r where "n = 4" "rest = c # d # e # r" "240 \<le> u8 b" "u8 b \<le> 244" "utf8_second4 (u8 b) (u8 c)"
      "utf8_cont d" "utf8_cont e"
    using assms by (auto simp: utf8_item_def split: if_splits list.splits)
  then show ?thesis
  proof cases
    case 1
    then show ?thesis by (simp add: utf8_encode_def)
  next
    case 2
    then show ?thesis using utf8_encode2 by (simp add: numeral_2_eq_2)
  next
    case 3
    then show ?thesis using utf8_encode3 by (simp add: numeral_3_eq_3)
  next
    case 4
    then show ?thesis using utf8_encode4 by (simp add: take_Cons')
  qed
qed

lemma bytes_of_text_of: "utf8_valid bs \<Longrightarrow> bytes_of (text_of bs) = bs"
proof (induction bs rule: from_utf8.induct)
  case 1
  then show ?case by (simp add: bytes_of_def text_of_def)
next
  case (2 b bs)
  from "2.prems" obtain n where n: "utf8_item b bs = Scalar n" "utf8_valid (drop (n - 1) bs)"
    by (auto split: utf8_item.splits)
  have "0 < n" by (rule utf8_item_Scalar_bounds(1) [OF n(1)])
  then have "take n (b # bs) @ drop (n - 1) bs = b # bs"
    by (cases n) auto
  with "2.IH" [OF n] n utf8_encode_code_item [OF n(1)] show ?case
    by (simp add: bytes_of_def text_of_def)
qed

lemma utf8_chars_ascii:
  assumes "\<And>b. b \<in> set bs \<Longrightarrow> u8 b < 128"
  shows "utf8_chars bs = map (\<lambda>b. [b]) bs"
  using assms by (induction bs) (auto simp: utf8_item_def)

lemma text_of_ascii: "(\<And>b. b \<in> set bs \<Longrightarrow> u8 b < 128) \<Longrightarrow> text_of bs = map u8 bs"
  by (simp add: text_of_def utf8_chars_ascii)

section \<open>What the Unicode tables are relied on for\<close>

text \<open>ASCII other than upper case is its own lower case, and ASCII text is in normal form.\<close>

definition plain_ascii :: "nat \<Rightarrow> bool" where
  "plain_ascii c \<longleftrightarrow> c < 128 \<and> \<not> (65 \<le> c \<and> c \<le> 90)"

definition unicode_ascii :: "unicode \<Rightarrow> bool" where
  "unicode_ascii u \<longleftrightarrow> (\<forall>c. plain_ascii c \<longrightarrow> char_lower u c = [c]) \<and>
     (\<forall>s. list_all (\<lambda>c. c < 128) s \<longrightarrow> is_nfc u s)"

text \<open>\<^verbatim>\<open>is_nfc\<close> recognises fixed points of \<^verbatim>\<open>nfc\<close>, and \<^verbatim>\<open>str::to_lowercase\<close> differs from the mapping
  of the single characters in the final sigma only, which \<open>fold_delta\<close> maps back.\<close>

definition unicode_tables :: "unicode \<Rightarrow> bool" where
  "unicode_tables u \<longleftrightarrow> (\<forall>s. is_nfc u s \<longrightarrow> nfc u s = s) \<and>
     (\<forall>s. map fold_delta (str_lower u s) = map fold_delta (concat (map (char_lower u) s)))"

text \<open>Tables that know ASCII only.\<close>

definition ascii_tables :: unicode where
  "ascii_tables = \<lparr>char_lower = (\<lambda>c. if 65 \<le> c \<and> c \<le> 90 then [c + 32] else [c]),
     str_lower = map (\<lambda>c. if 65 \<le> c \<and> c \<le> 90 then c + 32 else c),
     is_nfc = (\<lambda>_. True), nfc = (\<lambda>s. s)\<rparr>"

lemma concat_map_single_if:
  "concat (map (\<lambda>c. if P c then [f c] else [g c]) s) = map (\<lambda>c. if P c then f c else g c) s"
  by (induction s) auto

lemma ascii_tables_ok: "unicode_ascii ascii_tables" "unicode_tables ascii_tables"
  by (auto simp: unicode_ascii_def unicode_tables_def ascii_tables_def plain_ascii_def
      concat_map_single_if)

lemma plain_ascii_folds:
  assumes "plain_ascii c"
  shows "\<not> is_default_ignorable c" "full_fold_expansion c = None" "fold_delta c = c"
proof -
  have c: "c < 128" using assms by (simp add: plain_ascii_def)
  have "list_all (\<lambda>(lo, hi). 128 \<le> lo) DEFAULT_IGNORABLE" by (simp add: DEFAULT_IGNORABLE_def)
  then show "\<not> is_default_ignorable c"
    using c by (fastforce simp: is_default_ignorable_def list_ex_iff list_all_iff)
  have "list_all (\<lambda>(x, e). 128 \<le> x) FULL_FOLD" by (simp add: FULL_FOLD_def)
  then show "full_fold_expansion c = None"
    using c by (fastforce simp: full_fold_expansion_def map_of_eq_None_iff list_all_iff)
  have "list_all (\<lambda>(x, d). 128 \<le> x) FOLD_DELTA" by (simp add: FOLD_DELTA_def)
  then have "map_of FOLD_DELTA c = None"
    using c by (fastforce simp: map_of_eq_None_iff list_all_iff)
  then show "fold_delta c = c" by (simp add: fold_delta_def)
qed

lemma fold_run_plain_ascii:
  assumes "unicode_ascii u" "list_all plain_ascii s"
  shows "fold_run u mode s = s"
proof -
  have low: "concat (map (char_lower u) s) = s"
    using assms by (induction s) (auto simp: unicode_ascii_def)
  have full: "concat (map full_chars s) = s"
    using assms(2) by (induction s) (auto simp: full_chars_def plain_ascii_folds)
  have keep: "filter (\<lambda>c. \<not> is_default_ignorable c) s = s" "map fold_delta s = s"
    using assms(2) by (auto simp: list_all_iff plain_ascii_folds intro: map_idI)
  then have "\<not> folding_changes u mode s"
    by (simp add: folding_changes_def full_fold_def low full)
  moreover have "is_nfc u s"
    using assms by (auto simp: unicode_ascii_def list_all_iff plain_ascii_def)
  ultimately show ?thesis by (simp add: fold_run_def)
qed

lemma name_key_plain_ascii:
  assumes "unicode_ascii u" "\<And>b. b \<in> set s \<Longrightarrow> plain_ascii (u8 b)"
  shows "name_key u s mode = s"
proof -
  have ascii: "\<And>b. b \<in> set s \<Longrightarrow> u8 b < 128" using assms(2) by (auto simp: plain_ascii_def)
  then have valid: "utf8_valid s" by (rule utf8_valid_ascii)
  have "list_all plain_ascii (text_of s)"
    using assms(2) by (simp add: text_of_ascii [OF ascii] list_all_iff)
  from fold_run_plain_ascii [OF assms(1) this] valid bytes_of_text_of [OF valid] show ?thesis
    by (simp add: name_key_def)
qed

text \<open>The reference: fold, then normalise.\<close>

definition reference_fold :: "unicode \<Rightarrow> fold_mode \<Rightarrow> nat list \<Rightarrow> nat list" where
  "reference_fold u mode s = nfc u
     (case mode of FoldNone \<Rightarrow> s | Full \<Rightarrow> full_fold u s
      | Simple \<Rightarrow> map fold_delta (concat (map (char_lower u) s)))"

lemma fold_run_reference:
  assumes "unicode_tables u"
  shows "fold_run u mode s = reference_fold u mode s"
  using assms
  by (cases mode) (auto simp: fold_run_def reference_fold_def folding_changes_def folds_def
      unicode_tables_def Let_def)

section \<open>Properties\<close>

text \<open>C27: the key of a name is the folded and normalised text of its longest valid prefix followed by
  the remaining bytes as they are; the shortcuts for names that folding or normalising would not
  change are invisible. Only the leading run is folded: text behind the first invalid byte is kept byte
  for byte. This is what the comment of \<^verbatim>\<open>fold_lossy\<close> asks for (a byte there may be half of a foreign
  character), and not what the documentation of \<^verbatim>\<open>name_key\<close> says, by which the runs on either side of
  an invalid byte are folded. The witness is a name on which the two differ.\<close>

theorem name_key_reference:
  assumes "unicode_tables u"
  shows "name_key u name mode =
    (case from_utf8 name of
       None \<Rightarrow> bytes_of (reference_fold u mode (text_of name))
     | Some (v, _) \<Rightarrow>
         (if v = 0 then [] else bytes_of (reference_fold u mode (text_of (take v name)))) @ drop v name)"
  by (simp add: name_key_def fold_lossy_def fold_run_reference [OF assms] split: option.splits)

theorem name_key_reference_witness:
  "name_key ascii_tables [CHR ''A'', CHR 0xFF, CHR ''B''] Simple = [CHR ''a'', CHR 0xFF, CHR ''B'']"
proof -
  have v: "from_utf8 [CHR ''A'', CHR 0xFF, CHR ''B''] = Some (1, Some 1)" by code_simp
  have "text_of [CHR ''A''] = [65]" "bytes_of [97] = ''a''" by code_simp+
  moreover have "reference_fold ascii_tables Simple [65] = [97]"
    by (simp add: reference_fold_def ascii_tables_def fold_delta_def FOLD_DELTA_def)
  ultimately have "bytes_of (reference_fold ascii_tables Simple (text_of [CHR ''A''])) = ''a''" by simp
  with name_key_reference [OF ascii_tables_ok(2), of "[CHR ''A'', CHR 0xFF, CHR ''B'']" Simple] v
  show ?thesis by (simp del: from_utf8.simps)
qed

end
