(* ===== verification/Rename_Plan.thy ===== *)
theory Rename_Plan
  imports Name_Key "HOL-Library.AList" "HOL-Library.List_Lexorder" "HOL-Library.Char_ord"
    "HOL-Library.Product_Lexorder"
begin

text \<open>
  The planner of batch renames (\<^verbatim>\<open>norte-core/src/rename/plan.rs\<close> and \<^verbatim>\<open>naming.rs\<close>, with the digest
  framing of \<^verbatim>\<open>hashing.rs\<close>). The passes are functions of a \<open>key\<close>, which \<open>plan_batch\<close> sets to the
  collision key of the directory; SHA-256 is the parameter \<open>sha\<close>. A \<^verbatim>\<open>HashMap\<close> is an association
  list or a map, a \<^verbatim>\<open>HashSet\<close> a set; indices into the work list are natural numbers and the counter
  of the temporary names is a \<^verbatim>\<open>u32\<close> whose overflow is the \<open>None\<close> of \<open>plan_batch\<close>. This theory
  holds the definitions and the lemmas about classification and naming; the execution of a plan
  is in \<open>Rename_Order\<close>.
\<close>

section \<open>Plans\<close>

datatype collision_kind = Internal | External | AbsentSource | AmbiguousSource

fun kind_tag :: "collision_kind \<Rightarrow> nat" where
  "kind_tag Internal = 1"
| "kind_tag External = 2"
| "kind_tag AbsentSource = 3"
| "kind_tag AmbiguousSource = 4"

record collision =
  col_name :: bytes
  col_kind :: collision_kind
  col_pair :: nat

record rename_step =
  step_from :: bytes
  step_to :: bytes
  step_temp :: bool
  step_pair :: nat

record rename_plan =
  steps :: "rename_step list"
  collisions :: "collision list"
  hash :: bytes

definition executable :: "rename_plan \<Rightarrow> bool" where
  "executable p \<longleftrightarrow> collisions p = []"

record work =
  w_index :: nat
  w_from :: bytes
  w_to :: bytes
  w_from_key :: bytes
  w_to_key :: bytes

definition pair_index :: "nat \<Rightarrow> nat" where
  "pair_index i = (if i < 2 ^ 32 then i else 2 ^ 32 - 1)"

section \<open>The listing\<close>

record listing =
  exact :: "bytes set"
  folded :: "(bytes \<times> bytes list) list"

datatype resolved = One bytes | Absent | Ambiguous

definition index_entry :: "(bytes \<Rightarrow> bytes) \<Rightarrow> bytes \<Rightarrow> listing \<Rightarrow> listing" where
  "index_entry key entry l =
     (let twins = (case map_of (folded l) (key entry) of None \<Rightarrow> [] | Some t \<Rightarrow> t);
          twins = (if entry \<in> set twins then twins else twins @ [entry])
      in \<lparr>exact = insert entry (exact l), folded = AList.update (key entry) twins (folded l)\<rparr>)"

definition Listing_index :: "(bytes \<Rightarrow> bytes) \<Rightarrow> bytes list \<Rightarrow> listing" where
  "Listing_index key entries = fold (index_entry key) entries \<lparr>exact = {}, folded = []\<rparr>"

definition resolve :: "listing \<Rightarrow> bytes \<Rightarrow> bytes \<Rightarrow> resolved" where
  "resolve l name key =
     (if name \<in> exact l then One name
      else case map_of (folded l) key of
        None \<Rightarrow> Absent
      | Some [] \<Rightarrow> Absent
      | Some [only] \<Rightarrow> One only
      | Some _ \<Rightarrow> Ambiguous)"

fun blocker_loop :: "bytes \<Rightarrow> bytes set \<Rightarrow> bytes option \<Rightarrow> bytes list \<Rightarrow> bytes option" where
  "blocker_loop name vacated fallback [] = fallback"
| "blocker_loop name vacated fallback (c # cs) =
     (if c \<in> vacated then blocker_loop name vacated fallback cs
      else if c = name then Some c
      else blocker_loop name vacated (case fallback of None \<Rightarrow> Some c | Some f \<Rightarrow> Some f) cs)"

definition blocker :: "listing \<Rightarrow> bytes \<Rightarrow> bytes \<Rightarrow> bytes set \<Rightarrow> bytes option" where
  "blocker l name key vacated =
     (case map_of (folded l) key of None \<Rightarrow> None | Some cs \<Rightarrow> blocker_loop name vacated None cs)"

definition into_keys :: "listing \<Rightarrow> bytes set" where
  "into_keys l = set (map fst (folded l))"

section \<open>Classification\<close>

record classifier =
  works :: "work list"
  rejected :: "collision list"
  spoken_for :: "bytes set"
  vacated :: "bytes set"
  claimed_dests :: "bytes set"

definition reject :: "nat \<Rightarrow> bytes \<Rightarrow> collision_kind \<Rightarrow> collision" where
  "reject i name kind = \<lparr>col_name = name, col_kind = kind, col_pair = pair_index i\<rparr>"

definition add_collision :: "collision \<Rightarrow> classifier \<Rightarrow> classifier" where
  "add_collision c st = st\<lparr>rejected := rejected st @ [c]\<rparr>"

text \<open>The body of the first loop for pair \<open>i\<close>.\<close>

definition classify_pair :: "(bytes \<Rightarrow> bytes) \<Rightarrow> listing \<Rightarrow> nat \<times> bytes \<times> bytes \<Rightarrow> classifier \<Rightarrow> classifier" where
  "classify_pair key l = (\<lambda>(i, from, to) st.
     case resolve l from (key from) of
       Absent \<Rightarrow> add_collision (reject i from AbsentSource) st
     | Ambiguous \<Rightarrow> add_collision (reject i from AmbiguousSource) st
     | One on_disk \<Rightarrow>
         if key from \<in> spoken_for st then add_collision (reject i to Internal) st
         else
           let st = st\<lparr>spoken_for := insert (key from) (spoken_for st)\<rparr>
           in if on_disk = to then st
              else if key to \<in> claimed_dests st then add_collision (reject i to Internal) st
              else st\<lparr>claimed_dests := insert (key to) (claimed_dests st),
                      vacated := insert on_disk (vacated st),
                      works := works st @ [\<lparr>w_index = i, w_from = on_disk, w_to = to,
                        w_from_key = key from, w_to_key = key to\<rparr>]\<rparr>)"

definition external_collisions :: "listing \<Rightarrow> classifier \<Rightarrow> collision list" where
  "external_collisions l st =
     concat (map (\<lambda>w. case blocker l (w_to w) (w_to_key w) (vacated st) of
        Some b \<Rightarrow> [reject (w_index w) b External] | None \<Rightarrow> []) (works st))"

definition classifier_new :: classifier where
  "classifier_new = \<lparr>works = [], rejected = [], spoken_for = {}, vacated = {}, claimed_dests = {}\<rparr>"

definition classify :: "(bytes \<Rightarrow> bytes) \<Rightarrow> (bytes \<times> bytes) list \<Rightarrow> listing \<Rightarrow> work list \<times> collision list" where
  "classify key pairs l =
     (let st = fold (classify_pair key l) (zip [0..<length pairs] pairs) classifier_new
      in (works st, sort_key col_pair (rejected st @ external_collisions l st)))"

section \<open>Names and digests\<close>

definition le_bytes :: "nat \<Rightarrow> nat \<Rightarrow> bytes" where
  "le_bytes n x = map (\<lambda>i. char_of (x div 256 ^ i mod 256)) [0..<n]"

definition feed :: "bytes \<Rightarrow> bytes" where
  "feed bs = le_bytes 8 (length bs) @ bs"

definition HEX_LOWER :: bytes where
  "HEX_LOWER = ''0123456789abcdef''"

definition hex_lower :: "bytes \<Rightarrow> bytes" where
  "hex_lower bs = concat (map (\<lambda>b. [HEX_LOWER ! (u8 b div 16), HEX_LOWER ! (u8 b mod 16)]) bs)"

definition TEMP_PREFIX :: bytes where
  "TEMP_PREFIX = ''.norte-rename-''"

fun fold_byte :: "fold_mode \<Rightarrow> nat" where
  "fold_byte Simple = 0"
| "fold_byte FoldNone = 1"
| "fold_byte Full = 2"

definition intent_tag :: "(bytes \<Rightarrow> bytes) \<Rightarrow> fold_mode \<Rightarrow> (bytes \<times> bytes) list \<Rightarrow> bytes" where
  "intent_tag sha mode pairs =
     hex_lower (take 4 (sha (''norte-rename-temp-v1'' @ feed [char_of (fold_byte mode)] @
       concat (map (\<lambda>(from, to). feed from @ feed to) (sort pairs)))))"

definition temp_name :: "bytes \<Rightarrow> nat \<Rightarrow> bytes" where
  "temp_name tag n = TEMP_PREFIX @ tag @ ''-'' @ decimal n"

text \<open>\<^verbatim>\<open>TempNames::next\<close>: the name, the next counter and the grown set; \<open>None\<close> where the code
  reaches \<^verbatim>\<open>unreachable!\<close> because the counter would overflow.\<close>

function temp_next :: "(bytes \<Rightarrow> bytes) \<Rightarrow> bytes \<Rightarrow> nat \<Rightarrow> bytes set \<Rightarrow> (bytes \<times> nat \<times> bytes set) option" where
  "temp_next key tag n taken =
     (if n + 1 < 2 ^ 32 then
        let name = temp_name tag n
        in if key name \<in> taken then temp_next key tag (n + 1) taken
           else Some (name, n + 1, insert (key name) taken)
      else None)"
  by auto

termination temp_next
  by (relation "measure (\<lambda>(_, _, n, _). 2 ^ 32 - n)") auto

declare temp_next.simps [simp del]

definition plan_hash_input :: "fold_mode \<Rightarrow> rename_step list \<Rightarrow> collision list \<Rightarrow> bytes" where
  "plan_hash_input mode ss cs =
     ''norte-rename-plan-v1'' @ feed [char_of (fold_byte mode)] @ feed (le_bytes 8 (length ss)) @
     concat (map (\<lambda>s. feed (step_from s) @ feed (step_to s) @ feed [char_of (if step_temp s then 1 else 0 :: nat)]) ss) @
     feed (le_bytes 8 (length cs)) @
     concat (map (\<lambda>c. feed (col_name c) @ feed [char_of (kind_tag (col_kind c))] @ feed (le_bytes 4 (col_pair c))) cs)"

definition plan_hash :: "(bytes \<Rightarrow> bytes) \<Rightarrow> fold_mode \<Rightarrow> rename_step list \<Rightarrow> collision list \<Rightarrow> bytes" where
  "plan_hash sha mode ss cs = sha (plan_hash_input mode ss cs)"

section \<open>Order\<close>

definition source_index :: "work list \<Rightarrow> bytes \<Rightarrow> nat option" where
  "source_index ws k = map_of (rev (zip (map w_from_key ws) [0..<length ws])) k"

definition block_entry :: "work list \<Rightarrow> nat \<times> work \<Rightarrow> nat option list \<times> bool list \<Rightarrow> nat option list \<times> bool list" where
  "block_entry ws = (\<lambda>(i, w) (waiter, blocked).
     case source_index ws (w_to_key w) of
       Some j \<Rightarrow> if j \<noteq> i then (waiter[j := Some i], blocked[i := True]) else (waiter, blocked)
     | None \<Rightarrow> (waiter, blocked))"

definition dependencies :: "work list \<Rightarrow> nat option list \<times> bool list" where
  "dependencies ws = fold (block_entry ws) (zip [0..<length ws] ws)
     (replicate (length ws) None, replicate (length ws) False)"

definition move_step :: "work \<Rightarrow> rename_step" where
  "move_step w = \<lparr>step_from = w_from w, step_to = w_to w, step_temp = False, step_pair = pair_index (w_index w)\<rparr>"

text \<open>The closure \<^verbatim>\<open>run_from\<close>: follows the waiters until one is done. Indices it meets are entries of
  the work list.\<close>

function run_from :: "work list \<Rightarrow> nat option list \<Rightarrow> nat option \<Rightarrow> rename_step list \<times> bool list \<Rightarrow>
    rename_step list \<times> bool list" where
  "run_from ws waiter None (ss, done) = (ss, done)"
| "run_from ws waiter (Some c) (ss, done) =
     (if c < length done \<and> \<not> done ! c
      then run_from ws waiter (waiter ! c) (ss @ [move_step (ws ! c)], done[c := True])
      else (ss, done))"
  by pat_completeness auto

lemma count_done_decreases:
  assumes "c < length ds" "\<not> ds ! c"
  shows "count_list (ds[c := True]) False < count_list ds False"
  using assms
proof (induction ds arbitrary: c)
  case (Cons d ds)
  then show ?case by (cases c) auto
qed simp

termination run_from
  by (relation "measure (\<lambda>(_, _, c, _, done). (if c = None then 0 else 1) + 2 * count_list done False)")
    (auto dest: count_done_decreases)

definition run_chain :: "work list \<Rightarrow> nat option list \<Rightarrow> nat \<times> bool \<Rightarrow> rename_step list \<times> bool list \<Rightarrow>
    rename_step list \<times> bool list" where
  "run_chain ws waiter = (\<lambda>(i, is_blocked) acc. if is_blocked then acc else run_from ws waiter (Some i) acc)"

definition park_step :: "work \<Rightarrow> bytes \<Rightarrow> rename_step" where
  "park_step w temp = \<lparr>step_from = w_from w, step_to = temp, step_temp = True, step_pair = pair_index (w_index w)\<rparr>"

definition land_step :: "work \<Rightarrow> bytes \<Rightarrow> rename_step" where
  "land_step w temp = \<lparr>step_from = temp, step_to = w_to w, step_temp = True, step_pair = pair_index (w_index w)\<rparr>"

fun run_cycles :: "(bytes \<Rightarrow> bytes) \<Rightarrow> bytes \<Rightarrow> work list \<Rightarrow> nat option list \<Rightarrow> nat list \<Rightarrow>
    nat \<Rightarrow> bytes set \<Rightarrow> rename_step list \<times> bool list \<Rightarrow> rename_step list option" where
  "run_cycles key tag ws waiter [] n taken (ss, done) = Some ss"
| "run_cycles key tag ws waiter (i # is) n taken (ss, done) =
     (if done ! i then run_cycles key tag ws waiter is n taken (ss, done)
      else case temp_next key tag n taken of
        None \<Rightarrow> None
      | Some (temp, n', taken') \<Rightarrow>
          (case run_from ws waiter (waiter ! i) (ss @ [park_step (ws ! i) temp], done[i := True]) of
             (ss', done') \<Rightarrow>
               run_cycles key tag ws waiter is n' taken' (ss' @ [land_step (ws ! i) temp], done')))"

definition order :: "(bytes \<Rightarrow> bytes) \<Rightarrow> work list \<Rightarrow> bytes set \<Rightarrow> bytes \<Rightarrow> rename_step list option" where
  "order key ws taken tag =
     (let n = length ws;
          (waiter, blocked) = dependencies ws;
          taken = taken \<union> w_to_key ` set ws;
          acc = fold (run_chain ws waiter) (zip [0..<n] blocked) ([], replicate n False)
      in run_cycles key tag ws waiter [0..<n] 0 taken acc)"

definition plan_batch :: "unicode \<Rightarrow> (bytes \<Rightarrow> bytes) \<Rightarrow> fold_mode \<Rightarrow> (bytes \<times> bytes) list \<Rightarrow> bytes list \<Rightarrow>
    rename_plan option" where
  "plan_batch u sha mode pairs entries =
     (let key = (\<lambda>name. name_key u name mode);
          l = Listing_index key entries;
          (ws, cs) = classify key pairs l
      in if cs \<noteq> [] then Some \<lparr>steps = [], collisions = cs, hash = plan_hash sha mode [] cs\<rparr>
         else case order key ws (into_keys l) (intent_tag sha mode pairs) of
           None \<Rightarrow> None
         | Some ss \<Rightarrow> Some \<lparr>steps = ss, collisions = cs, hash = plan_hash sha mode ss cs\<rparr>)"

section \<open>The index of the listing\<close>

definition slot_twins :: "listing \<Rightarrow> bytes \<Rightarrow> bytes list" where
  "slot_twins l k = (case map_of (folded l) k of None \<Rightarrow> [] | Some ts \<Rightarrow> ts)"

definition listing_ok :: "(bytes \<Rightarrow> bytes) \<Rightarrow> bytes set \<Rightarrow> listing \<Rightarrow> bool" where
  "listing_ok key S l \<longleftrightarrow> exact l = S \<and>
     (\<forall>k. set (slot_twins l k) = {e \<in> S. key e = k} \<and> distinct (slot_twins l k) \<and>
        map_of (folded l) k \<noteq> Some [])"

lemma listing_okD:
  assumes "listing_ok key S l"
  shows "exact l = S" "map_of (folded l) k = None \<Longrightarrow> e \<in> S \<Longrightarrow> key e \<noteq> k"
    "map_of (folded l) k = Some ts \<Longrightarrow> ts \<noteq> [] \<and> distinct ts \<and> set ts = {e \<in> S. key e = k}"
proof -
  have slot: "set (slot_twins l k) = {e \<in> S. key e = k}" "distinct (slot_twins l k)"
      "map_of (folded l) k \<noteq> Some []"
    using assms unfolding listing_ok_def by blast+
  show "exact l = S" using assms by (simp add: listing_ok_def)
  show "map_of (folded l) k = None \<Longrightarrow> e \<in> S \<Longrightarrow> key e \<noteq> k"
    using slot(1) by (auto simp: slot_twins_def)
  show "map_of (folded l) k = Some ts \<Longrightarrow> ts \<noteq> [] \<and> distinct ts \<and> set ts = {e \<in> S. key e = k}"
    using slot by (auto simp: slot_twins_def)
qed

lemma index_entry_folded:
  "map_of (folded (index_entry key entry l)) = (map_of (folded l))(key entry \<mapsto>
     (if entry \<in> set (slot_twins l (key entry)) then slot_twins l (key entry)
      else slot_twins l (key entry) @ [entry]))"
  by (simp only: index_entry_def Let_def slot_twins_def [symmetric] listing.select_convs update_conv')

lemma listing_ok_index_entry:
  assumes "listing_ok key S l"
  shows "listing_ok key (insert entry S) (index_entry key entry l)"
proof -
  have old: "set (slot_twins l k) = {e \<in> S. key e = k}" "distinct (slot_twins l k)"
      "map_of (folded l) k \<noteq> Some []" for k
    using assms unfolding listing_ok_def by blast+
  let ?l = "index_entry key entry l"
  have same: "slot_twins ?l (key entry) = (if entry \<in> S then slot_twins l (key entry)
      else slot_twins l (key entry) @ [entry])"
    unfolding slot_twins_def [of ?l] index_entry_folded by (simp add: old(1))
  have other: "k \<noteq> key entry \<Longrightarrow> slot_twins ?l k = slot_twins l k" for k
    unfolding slot_twins_def index_entry_folded by simp
  have "set (slot_twins ?l k) = {e \<in> insert entry S. key e = k} \<and> distinct (slot_twins ?l k)" for k
    using old(1,2) [of k] same other by (cases "k = key entry") auto
  moreover have "map_of (folded ?l) k \<noteq> Some []" for k
    unfolding index_entry_folded using old(1) [of "key entry"] old(3) [of k] by auto
  moreover have "exact ?l = insert entry S"
    using assms by (simp add: index_entry_def Let_def listing_ok_def)
  ultimately show ?thesis unfolding listing_ok_def by blast
qed

lemma listing_ok_index: "listing_ok key (set entries) (Listing_index key entries)"
proof (induction entries rule: rev_induct)
  case Nil
  show ?case by (simp add: Listing_index_def listing_ok_def slot_twins_def)
next
  case (snoc e entries)
  from listing_ok_index_entry [OF snoc, of e] show ?case
    by (simp add: Listing_index_def)
qed

lemma into_keys_eq:
  assumes "listing_ok key S l"
  shows "into_keys l = key ` S"
proof -
  have "k \<in> into_keys l \<longleftrightarrow> map_of (folded l) k \<noteq> None" for k
    by (simp add: into_keys_def map_of_eq_None_iff)
  moreover have "map_of (folded l) k \<noteq> None \<longleftrightarrow> k \<in> key ` S" for k
    using listing_okD(2,3) [OF assms, where k = k]
    by (cases "map_of (folded l) k") (auto, metis (mono_tags, lifting) ex_in_conv mem_Collect_eq set_empty image_eqI)
  ultimately show ?thesis by blast
qed

lemma resolve_One:
  assumes "listing_ok key S l" "resolve l name (key name) = One d"
  shows "d \<in> S" "key d = key name" "name \<in> S \<Longrightarrow> d = name"
proof -
  have "d \<in> S \<and> key d = key name \<and> (name \<in> S \<longrightarrow> d = name)"
  proof (cases "name \<in> S")
    case True
    with assms listing_okD(1) [OF assms(1)] show ?thesis by (simp add: resolve_def)
  next
    case False
    with assms(2) listing_okD(1) [OF assms(1)]
    have "map_of (folded l) (key name) = Some [d]"
      by (auto simp: resolve_def split: option.splits list.splits)
    from listing_okD(3) [OF assms(1) this] False show ?thesis by auto
  qed
  then show "d \<in> S" "key d = key name" "name \<in> S \<Longrightarrow> d = name" by auto
qed

lemma resolve_Absent:
  assumes "listing_ok key S l"
  shows "resolve l name (key name) = Absent \<longleftrightarrow> key name \<notin> key ` S"
proof (cases "name \<in> S")
  case True
  with listing_okD(1) [OF assms] show ?thesis by (auto simp: resolve_def)
next
  case False
  show ?thesis
  proof (cases "map_of (folded l) (key name)")
    case None
    then have "key name \<notin> key ` S" using listing_okD(2) [OF assms None] by (metis imageE)
    with None False listing_okD(1) [OF assms] show ?thesis by (simp add: resolve_def)
  next
    case (Some ts)
    from listing_okD(3) [OF assms Some]
    have "ts \<noteq> []" "hd ts \<in> S" "key (hd ts) = key name" using hd_in_set [of ts] by auto
    then have "key name \<in> key ` S" by (metis image_eqI)
    with Some False listing_okD(1) [OF assms] \<open>ts \<noteq> []\<close> show ?thesis
      by (simp add: resolve_def split: list.splits)
  qed
qed

lemma blocker_loop_None:
  "blocker_loop name vac fb cs = None \<longleftrightarrow> fb = None \<and> set cs \<subseteq> vac"
  by (induction cs arbitrary: fb) (auto split: option.splits)

lemma blocker_None:
  assumes "listing_ok key S l" "blocker l name k vac = None" "e \<in> S" "key e = k"
  shows "e \<in> vac"
proof -
  obtain ts where ts: "map_of (folded l) k = Some ts"
    using listing_okD(2) [OF assms(1) _ assms(3)] assms(4) by (cases "map_of (folded l) k") auto
  with assms(2) have "set ts \<subseteq> vac" by (simp add: blocker_def blocker_loop_None)
  with listing_okD(3) [OF assms(1) ts] assms(3,4) show ?thesis by blast
qed

section \<open>What classification accepts\<close>

definition disk :: "(bytes \<Rightarrow> bytes) \<Rightarrow> listing \<Rightarrow> bytes \<Rightarrow> bytes option" where
  "disk key l from = (case resolve l from (key from) of One d \<Rightarrow> Some d | _ \<Rightarrow> None)"

definition work_of :: "(bytes \<Rightarrow> bytes) \<Rightarrow> listing \<Rightarrow> nat \<times> bytes \<times> bytes \<Rightarrow> work" where
  "work_of key l = (\<lambda>(i, from, to). \<lparr>w_index = i, w_from = the (disk key l from), w_to = to,
     w_from_key = key from, w_to_key = key to\<rparr>)"

definition moves :: "(bytes \<Rightarrow> bytes) \<Rightarrow> listing \<Rightarrow> (nat \<times> bytes \<times> bytes) list \<Rightarrow> (nat \<times> bytes \<times> bytes) list" where
  "moves key l ips = filter (\<lambda>(i, from, to). disk key l from \<noteq> Some to) ips"

definition classified :: "(bytes \<Rightarrow> bytes) \<Rightarrow> listing \<Rightarrow> (nat \<times> bytes \<times> bytes) list \<Rightarrow> classifier \<Rightarrow> bool" where
  "classified key l ips st \<longleftrightarrow>
     distinct (map (\<lambda>(i, from, to). key from) ips) \<and>
     list_all (\<lambda>(i, from, to). disk key l from \<noteq> None) ips \<and>
     spoken_for st = set (map (\<lambda>(i, from, to). key from) ips) \<and>
     works st = map (work_of key l) (moves key l ips) \<and>
     vacated st = w_from ` set (works st) \<and>
     claimed_dests st = w_to_key ` set (works st) \<and> distinct (map w_to_key (works st))"

lemma rejected_classify_pair:
  "rejected (classify_pair key l x st) = [] \<Longrightarrow> rejected st = []"
  by (auto simp: classify_pair_def add_collision_def Let_def split: prod.splits resolved.splits if_splits)

lemma classified_step:
  assumes st: "classified key l ips st" and ok: "rejected (classify_pair key l (i, from, to) st) = []"
  shows "classified key l (ips @ [(i, from, to)]) (classify_pair key l (i, from, to) st)"
proof -
  obtain d where d: "resolve l from (key from) = One d"
    using ok by (cases "resolve l from (key from)") (auto simp: classify_pair_def add_collision_def)
  then have disk: "disk key l from = Some d" by (simp add: disk_def)
  have fresh: "key from \<notin> spoken_for st"
    using ok d by (auto simp: classify_pair_def add_collision_def split: if_splits)
  show ?thesis
  proof (cases "d = to")
    case True
    with d fresh have "classify_pair key l (i, from, to) st = st\<lparr>spoken_for := insert (key from) (spoken_for st)\<rparr>"
      by (simp add: classify_pair_def)
    with st fresh disk True show ?thesis by (auto simp: classified_def moves_def)
  next
    case False
    have dest: "key to \<notin> claimed_dests st"
      using ok d fresh False by (auto simp: classify_pair_def add_collision_def split: if_splits)
    define w where "w = \<lparr>w_index = i, w_from = d, w_to = to, w_from_key = key from, w_to_key = key to\<rparr>"
    have eq: "classify_pair key l (i, from, to) st = st\<lparr>spoken_for := insert (key from) (spoken_for st),
        claimed_dests := insert (key to) (claimed_dests st), vacated := insert d (vacated st),
        works := works st @ [w]\<rparr>"
      using d fresh False dest by (simp add: classify_pair_def w_def)
    have w: "work_of key l (i, from, to) = w" "w_to_key w = key to" "w_from w = d"
      by (simp_all add: work_of_def disk w_def)
    show ?thesis
      using st fresh dest disk False w unfolding eq by (auto simp: classified_def moves_def)
  qed
qed

lemma classified_fold:
  assumes "rejected (fold (classify_pair key l) ips classifier_new) = []"
  shows "classified key l ips (fold (classify_pair key l) ips classifier_new)"
  using assms
proof (induction ips rule: rev_induct)
  case Nil
  show ?case by (simp add: classified_def classifier_new_def moves_def)
next
  case (snoc x ips)
  obtain i f t where x: "x = (i, f, t)" by (cases x)
  let ?st = "fold (classify_pair key l) ips classifier_new"
  have "rejected (classify_pair key l (i, f, t) ?st) = []" using snoc.prems by (simp add: x)
  from classified_step [OF snoc.IH [OF rejected_classify_pair [OF this]] this] show ?case
    by (simp add: x)
qed

text \<open>The works of a batch without collisions, against the set of names in the directory.\<close>

definition works_ok :: "(bytes \<Rightarrow> bytes) \<Rightarrow> bytes set \<Rightarrow> work list \<Rightarrow> bool" where
  "works_ok key S ws \<longleftrightarrow>
     distinct (map w_from_key ws) \<and> distinct (map w_to_key ws) \<and>
     (\<forall>w \<in> set ws. w_from w \<in> S \<and> key (w_from w) = w_from_key w \<and> key (w_to w) = w_to_key w \<and>
        w_from w \<noteq> w_to w \<and> (\<forall>e \<in> S. key e = w_to_key w \<longrightarrow> e \<in> w_from ` set ws))"

lemma external_collisions_Nil:
  "external_collisions l st = [] \<longleftrightarrow> (\<forall>w \<in> set (works st). blocker l (w_to w) (w_to_key w) (vacated st) = None)"
  by (auto simp: external_collisions_def split: option.splits)

lemma classify_Nil:
  assumes "classify key pairs l = (ws, [])"
  shows "\<exists>st. classified key l (zip [0..<length pairs] pairs) st \<and> ws = works st \<and> external_collisions l st = []"
proof -
  let ?st = "fold (classify_pair key l) (zip [0..<length pairs] pairs) classifier_new"
  have "sort_key col_pair (rejected ?st @ external_collisions l ?st) = []" and ws: "ws = works ?st"
    using assms by (simp_all add: classify_def Let_def)
  then have "rejected ?st = []" "external_collisions l ?st = []"
    by (metis append_is_Nil_conv length_0_conv length_sort)+
  with classified_fold ws show ?thesis by blast
qed

lemma classify_works_ok:
  assumes l: "listing_ok key S l" and c: "classify key pairs l = (ws, [])"
  shows "works_ok key S ws"
proof -
  obtain st where st: "classified key l (zip [0..<length pairs] pairs) st" "ws = works st"
    "external_collisions l st = []"
    using classify_Nil [OF c] by blast
  let ?ips = "zip [0..<length pairs] pairs"
  have ws: "ws = map (work_of key l) (moves key l ?ips)" and dist: "distinct (map w_to_key ws)"
    and vac: "vacated st = w_from ` set ws" and keys: "distinct (map (\<lambda>(i, from, to). key from) ?ips)"
    and res: "list_all (\<lambda>(i, from, to). disk key l from \<noteq> None) ?ips"
    using st(1) [unfolded classified_def, folded st(2)] by blast+
  have "map w_from_key ws = map (\<lambda>(i, from, to). key from) (moves key l ?ips)"
    by (auto simp: ws work_of_def)
  also have "distinct \<dots>" using keys by (simp add: moves_def distinct_map_filter)
  finally have "distinct (map w_from_key ws)" .
  moreover have "w_from w \<in> S \<and> key (w_from w) = w_from_key w \<and> key (w_to w) = w_to_key w \<and> w_from w \<noteq> w_to w"
    if w: "w \<in> set ws" for w
  proof -
    from w obtain i f t where x: "(i, f, t) \<in> set ?ips" "disk key l f \<noteq> Some t"
      and w_eq: "w = work_of key l (i, f, t)"
      by (auto simp: ws moves_def)
    obtain d where d: "disk key l f = Some d" using res x(1) by (auto simp: list_all_iff)
    then have "resolve l f (key f) = One d" by (auto simp: disk_def split: resolved.splits)
    from resolve_One [OF l this] d x(2) show ?thesis by (simp add: w_eq work_of_def)
  qed
  moreover have "e \<in> w_from ` set ws" if "w \<in> set ws" "e \<in> S" "key e = w_to_key w" for w e
    using blocker_None [OF l _ that(2,3)] st(3) that(1) unfolding external_collisions_Nil vac st(2) by blast
  ultimately show ?thesis using dist unfolding works_ok_def by blast
qed

section \<open>Temporary names\<close>

lemma temp_name_inj: "temp_name tag m = temp_name tag n \<Longrightarrow> m = n"
  by (simp add: temp_name_def) (metis undecimal_decimal)

lemma hex_lower_bytes: "b \<in> set (hex_lower bs) \<Longrightarrow> b \<in> set HEX_LOWER"
proof -
  assume "b \<in> set (hex_lower bs)"
  then obtain c where "b = HEX_LOWER ! (u8 c div 16) \<or> b = HEX_LOWER ! (u8 c mod 16)"
    by (auto simp: hex_lower_def)
  moreover have "length HEX_LOWER = 16" by (simp add: HEX_LOWER_def)
  moreover have "u8 c div 16 < 16" "u8 c mod 16 < 16"
    using u8_less [of c] by (simp_all add: div_less_iff_less_mult)
  ultimately show ?thesis using nth_mem by metis
qed

lemma temp_name_plain_ascii:
  assumes "b \<in> set (temp_name (intent_tag sha mode pairs) n)"
  shows "plain_ascii (u8 b)"
proof -
  from assms consider "b \<in> set TEMP_PREFIX" | "b \<in> set HEX_LOWER" | "b = CHR ''-''" | "b \<in> set (decimal n)"
    by (auto simp: temp_name_def intent_tag_def dest: hex_lower_bytes)
  then show ?thesis
  proof cases
    case 4
    from decimal_bytes [OF this] show ?thesis by (simp add: plain_ascii_def)
  qed (auto simp: TEMP_PREFIX_def HEX_LOWER_def plain_ascii_def)
qed

text \<open>The temporaries of a plan are their own collision keys, so different ones do not collide.\<close>

lemma temp_name_key_inj:
  assumes "unicode_ascii u"
    and "name_key u (temp_name (intent_tag sha mode pairs) m) fmode =
      name_key u (temp_name (intent_tag sha mode pairs) n) fmode"
  shows "m = n"
proof -
  have "name_key u (temp_name (intent_tag sha mode pairs) k) fmode = temp_name (intent_tag sha mode pairs) k" for k
    by (rule name_key_plain_ascii [OF assms(1) temp_name_plain_ascii])
  with assms(2) have "temp_name (intent_tag sha mode pairs) m = temp_name (intent_tag sha mode pairs) n" by simp
  then show ?thesis by (rule temp_name_inj)
qed

text \<open>The counter stands past names that are all taken, so it never runs ahead of the set.\<close>

definition temps_ok :: "(bytes \<Rightarrow> bytes) \<Rightarrow> bytes \<Rightarrow> nat \<Rightarrow> bytes set \<Rightarrow> bool" where
  "temps_ok key tag n taken \<longleftrightarrow> finite taken \<and> (\<forall>m < n. key (temp_name tag m) \<in> taken)"

lemma temps_ok_counter:
  assumes "temps_ok key tag n taken" "\<And>m m'. key (temp_name tag m) = key (temp_name tag m') \<Longrightarrow> m = m'"
  shows "n \<le> card taken"
proof -
  have "inj_on (\<lambda>m. key (temp_name tag m)) {..<n}" using assms(2) by (auto intro: inj_onI)
  moreover have "(\<lambda>m. key (temp_name tag m)) ` {..<n} \<subseteq> taken"
    using assms(1) by (auto simp: temps_ok_def)
  ultimately have "card {..<n} \<le> card taken"
    using assms(1) by (meson card_inj_on_le temps_ok_def)
  then show ?thesis by simp
qed

lemma temp_next_skip:
  assumes "n \<le> m" "\<And>j. n \<le> j \<Longrightarrow> j < m \<Longrightarrow> key (temp_name tag j) \<in> taken"
    and "key (temp_name tag m) \<notin> taken" "m + 1 < 2 ^ 32"
  shows "temp_next key tag n taken = Some (temp_name tag m, m + 1, insert (key (temp_name tag m)) taken)"
  using assms
proof (induction "m - n" arbitrary: n)
  case 0
  then show ?case by (simp add: temp_next.simps [of key tag n] Let_def)
next
  case (Suc d)
  then have "temp_next key tag (n + 1) taken = Some (temp_name tag m, m + 1, insert (key (temp_name tag m)) taken)"
    by (intro Suc.hyps(1)) auto
  moreover have "key (temp_name tag n) \<in> taken" "n + 1 < 2 ^ 32" using Suc by auto
  ultimately show ?case by (simp add: temp_next.simps [of key tag n] Let_def)
qed

lemma temp_next_spec:
  assumes ok: "temps_ok key tag n taken" "card taken + 1 < 2 ^ 32"
    and inj: "\<And>m m'. key (temp_name tag m) = key (temp_name tag m') \<Longrightarrow> m = m'"
  obtains m where
    "temp_next key tag n taken = Some (temp_name tag m, m + 1, insert (key (temp_name tag m)) taken)"
    "key (temp_name tag m) \<notin> taken" "temps_ok key tag (m + 1) (insert (key (temp_name tag m)) taken)"
proof -
  have "\<exists>m. key (temp_name tag m) \<notin> taken"
  proof (rule ccontr)
    assume "\<nexists>m. key (temp_name tag m) \<notin> taken"
    then have "temps_ok key tag (Suc (card taken)) taken" using ok(1) by (simp add: temps_ok_def)
    from temps_ok_counter [OF this inj] show False by simp
  qed
  define m where "m = (LEAST m. key (temp_name tag m) \<notin> taken)"
  have m: "key (temp_name tag m) \<notin> taken" "\<And>j. j < m \<Longrightarrow> key (temp_name tag j) \<in> taken"
    unfolding m_def using LeastI_ex [OF \<open>\<exists>m. key (temp_name tag m) \<notin> taken\<close>] not_less_Least by blast+
  have "n \<le> m" using m(1) ok(1) unfolding temps_ok_def by (meson not_le)
  have "temps_ok key tag m taken" using m(2) ok(1) by (simp add: temps_ok_def)
  from temps_ok_counter [OF this inj] ok(2) have "m + 1 < 2 ^ 32" by simp
  show thesis
  proof (rule that)
    show "temp_next key tag n taken = Some (temp_name tag m, m + 1, insert (key (temp_name tag m)) taken)"
      using \<open>n \<le> m\<close> m \<open>m + 1 < 2 ^ 32\<close> by (intro temp_next_skip)
    show "temps_ok key tag (m + 1) (insert (key (temp_name tag m)) taken)"
      using ok(1) m(2) by (auto simp: temps_ok_def less_Suc_eq)
  qed (rule m(1))
qed

section \<open>Digests\<close>

lemma le_bytes_Suc: "le_bytes (Suc n) x = char_of (x mod 256) # le_bytes n (x div 256)"
  by (simp add: le_bytes_def upt_conv_Cons map_Suc_upt [symmetric] div_mult2_eq del: upt_Suc)

lemma le_bytes_inj: "le_bytes n x = le_bytes n y \<Longrightarrow> x < 256 ^ n \<Longrightarrow> y < 256 ^ n \<Longrightarrow> x = y"
proof (induction n arbitrary: x y)
  case (Suc n)
  have "x div 256 = y div 256"
    using Suc by (simp add: le_bytes_Suc less_mult_imp_div_less mult.commute)
  moreover have "x mod 256 = y mod 256"
    using Suc.prems(1) by (simp add: le_bytes_Suc)
  ultimately show ?case by (metis div_mult_mod_eq)
qed simp

lemma length_le_bytes [simp]: "length (le_bytes n x) = n"
  by (simp add: le_bytes_def)

lemma feed_append_inj:
  assumes "feed a @ x = feed b @ y" "length a < 2 ^ 64" "length b < 2 ^ 64"
  shows "a = b \<and> x = y"
proof -
  have "le_bytes 8 (length a) = le_bytes 8 (length b)" "a @ x = b @ y"
    using assms(1) by (simp_all add: feed_def)
  moreover from this(1) have "length a = length b" using assms(2,3) by (intro le_bytes_inj) auto
  ultimately show ?thesis by simp
qed

lemma concat_prefix_inj:
  assumes "length as = length bs"
    and "\<And>a b x y. a \<in> set as \<Longrightarrow> b \<in> set bs \<Longrightarrow> enc a @ x = enc b @ y \<Longrightarrow> R a b \<and> x = y"
    and "concat (map enc as) @ x = concat (map enc bs) @ y"
  shows "list_all2 R as bs \<and> x = y"
  using assms
proof (induction as bs rule: list_induct2)
  case (Cons a as b bs)
  have "R a b" and rest: "concat (map enc as) @ x = concat (map enc bs) @ y"
    using Cons.prems(1) [of a b "concat (map enc as) @ x" "concat (map enc bs) @ y"] Cons.prems(2)
    by auto
  have "list_all2 R as bs \<and> x = y"
    by (rule Cons.IH [OF _ rest]) (meson Cons.prems(1) list.set_intros(2))
  with \<open>R a b\<close> show ?case by simp
qed simp

definition step_small :: "rename_step \<Rightarrow> bool" where
  "step_small s \<longleftrightarrow> length (step_from s) < 2 ^ 64 \<and> length (step_to s) < 2 ^ 64"

definition collision_small :: "collision \<Rightarrow> bool" where
  "collision_small c \<longleftrightarrow> length (col_name c) < 2 ^ 64 \<and> col_pair c < 2 ^ 32"

definition same_step :: "rename_step \<Rightarrow> rename_step \<Rightarrow> bool" where
  "same_step s t \<longleftrightarrow> step_from s = step_from t \<and> step_to s = step_to t \<and> step_temp s = step_temp t"

lemma feed_byte_append_inj:
  "feed [a] @ x = feed [b] @ y \<Longrightarrow> a = b \<and> x = y"
  using feed_append_inj [of "[a]" x "[b]" y] by simp

lemma kind_tag_inj: "kind_tag a = kind_tag b \<Longrightarrow> a = b"
  by (cases a; cases b) auto

lemma char_of_inj: "m < 256 \<Longrightarrow> n < 256 \<Longrightarrow> char_of (m :: nat) = (char_of n :: byte) \<Longrightarrow> m = n"
  by (metis mod_less u8_char_of)

lemma step_code_inj:
  assumes "step_small s" "step_small t"
    and "(feed (step_from s) @ feed (step_to s) @ feed [char_of (if step_temp s then 1 else 0 :: nat)]) @ x =
      (feed (step_from t) @ feed (step_to t) @ feed [char_of (if step_temp t then 1 else 0 :: nat)]) @ y"
  shows "same_step s t \<and> x = y"
proof -
  have 1: "step_from s = step_from t \<and>
      feed (step_to s) @ feed [char_of (if step_temp s then 1 else 0 :: nat)] @ x =
      feed (step_to t) @ feed [char_of (if step_temp t then 1 else 0 :: nat)] @ y"
    using assms by (intro feed_append_inj) (simp_all add: step_small_def)
  then have 2: "step_to s = step_to t \<and>
      feed [char_of (if step_temp s then 1 else 0 :: nat)] @ x =
      feed [char_of (if step_temp t then 1 else 0 :: nat)] @ y"
    using assms by (intro feed_append_inj) (simp_all add: step_small_def)
  then have 3: "(char_of (if step_temp s then 1 else 0 :: nat) :: byte) =
      char_of (if step_temp t then 1 else 0 :: nat) \<and> x = y"
    by (intro feed_byte_append_inj) simp
  then have "(if step_temp s then 1 else 0 :: nat) = (if step_temp t then 1 else 0)"
    by (intro char_of_inj) simp_all
  with 1 2 3 show ?thesis by (simp add: same_step_def split: if_splits)
qed

lemma collision_code_inj:
  assumes "collision_small c" "collision_small d"
    and "(feed (col_name c) @ feed [char_of (kind_tag (col_kind c))] @ feed (le_bytes 4 (col_pair c))) @ x =
      (feed (col_name d) @ feed [char_of (kind_tag (col_kind d))] @ feed (le_bytes 4 (col_pair d))) @ y"
  shows "c = d \<and> x = y"
proof -
  have 1: "col_name c = col_name d \<and>
      feed [char_of (kind_tag (col_kind c))] @ feed (le_bytes 4 (col_pair c)) @ x =
      feed [char_of (kind_tag (col_kind d))] @ feed (le_bytes 4 (col_pair d)) @ y"
    using assms by (intro feed_append_inj) (simp_all add: collision_small_def)
  then have 2: "(char_of (kind_tag (col_kind c)) :: byte) = char_of (kind_tag (col_kind d)) \<and>
      feed (le_bytes 4 (col_pair c)) @ x = feed (le_bytes 4 (col_pair d)) @ y"
    by (intro feed_byte_append_inj) simp
  then have 3: "le_bytes 4 (col_pair c) = le_bytes 4 (col_pair d) \<and> x = y"
    by (intro feed_append_inj) simp_all
  have "kind_tag k < 256" for k by (cases k) auto
  with 2 have "col_kind c = col_kind d" by (intro kind_tag_inj char_of_inj) auto
  moreover have "col_pair c = col_pair d"
    using 3 assms(1,2) by (intro le_bytes_inj [of 4]) (auto simp: collision_small_def)
  ultimately show ?thesis using 1 3 by (cases c; cases d) simp
qed

lemma fold_byte_inj: "fold_byte a = fold_byte b \<Longrightarrow> a = b"
  by (cases a; cases b) auto

end
