(* ===== verification/Proto_Error.thy ===== *)
theory Proto_Error
  imports Norte_Prelude
begin

text \<open>
  The error taxonomy of the protocol, \<^verbatim>\<open>norte-proto/src/error.rs\<close>: what providers, the engine and the
  daemon answer. The constructors carry a prefix because several of the names are constructors of other
  types of the sources too.
\<close>

datatype conflict_kind = Exists | CaseCollision | Normalization | TypeMismatch | EscapesRoot |
  DestinationGone | StaleRevision | UnknownConflict

datatype root_overlap = SameRoot | SourceInsideDest | DestInsideSource | UnknownOverlap

datatype proto_error =
    E_NotFound
  | E_PermissionDenied
  | E_Conflict conflict_kind
  | E_ProviderUnavailable bool
  | E_NoSpace
  | E_Io bool
  | E_Busy
  | E_Cancelled
  | E_PolicyDenied bytes
  | E_ApprovalGone bytes
  | E_EncodingLoss
  | E_Unsupported
  | E_InvalidPath
  | E_Internal bool
  | E_Loop
  | E_Corrupt
  | E_LimitExceeded bytes
  | E_HostKeyUnknown bytes "nat option" bytes bytes
  | E_SecretNeeded bytes bytes
  | E_HostKeyMismatch bytes "nat option" bytes bytes
  | E_CursorExpired
  | E_PlanStale
  | E_PlanNotExecutable
  | E_OverlappingRoots root_overlap
  | E_JournalUnavailable
  | E_Unknown

end
