(* ===== verification/Capabilities.thy ===== *)
theory Capabilities
  imports Name_Key
begin

text \<open>
  What a provider knows how to do, \<^verbatim>\<open>norte-proto/src/caps.rs\<close>, and the fold of names that follows from it
  (\<^verbatim>\<open>fold_mode_of\<close> of \<^verbatim>\<open>norte-vfs/src/lib.rs\<close>). Flags are a set of named bits; on the wire they are the
  names in bit order, separated by \<^verbatim>\<open>|\<close>, as the \<^verbatim>\<open>bitflags\<close> writer prints them.
\<close>

datatype cap_flag =
    RENAME_ATOMIC | SERVER_COPY | SYMLINKS | CASE_SENSITIVE | CASE_PRESERVING | APPEND | RANDOM_WRITE
  | TRASH | READ_ONLY | FULL_FOLD | CONFINED_WRITES | POSIX_MODE

definition all_flags :: "cap_flag list" where
  "all_flags = [RENAME_ATOMIC, SERVER_COPY, SYMLINKS, CASE_SENSITIVE, CASE_PRESERVING, APPEND, RANDOM_WRITE,
     TRASH, READ_ONLY, FULL_FOLD, CONFINED_WRITES, POSIX_MODE]"

fun flag_name :: "cap_flag \<Rightarrow> bytes" where
  "flag_name RENAME_ATOMIC = ''RENAME_ATOMIC''"
| "flag_name SERVER_COPY = ''SERVER_COPY''"
| "flag_name SYMLINKS = ''SYMLINKS''"
| "flag_name CASE_SENSITIVE = ''CASE_SENSITIVE''"
| "flag_name CASE_PRESERVING = ''CASE_PRESERVING''"
| "flag_name APPEND = ''APPEND''"
| "flag_name RANDOM_WRITE = ''RANDOM_WRITE''"
| "flag_name TRASH = ''TRASH''"
| "flag_name READ_ONLY = ''READ_ONLY''"
| "flag_name FULL_FOLD = ''FULL_FOLD''"
| "flag_name CONFINED_WRITES = ''CONFINED_WRITES''"
| "flag_name POSIX_MODE = ''POSIX_MODE''"

type_synonym capability_flags = "cap_flag set"

definition from_name :: "bytes \<Rightarrow> cap_flag option" where
  "from_name s = find (\<lambda>f. flag_name f = s) all_flags"

datatype flags_error = EmptyFlag | HexFlag | MalformedFlag

definition flag_byte :: "byte \<Rightarrow> bool" where
  "flag_byte b \<longleftrightarrow> 65 \<le> u8 b \<and> u8 b \<le> 90 \<or> 48 \<le> u8 b \<and> u8 b \<le> 57 \<or> b = CHR ''_''"

fun parse_tokens :: "bytes list \<Rightarrow> capability_flags \<Rightarrow> flags_error + capability_flags" where
  "parse_tokens [] flags = Inr flags"
| "parse_tokens (raw # rest) flags =
     (let token = trim raw
      in if token = [] then Inl EmptyFlag
         else if prefix ''0x'' token \<or> prefix ''0X'' token then Inl HexFlag
         else if \<not> list_all flag_byte token then Inl MalformedFlag
         else case from_name token of
           Some known \<Rightarrow> parse_tokens rest (insert known flags)
         | None \<Rightarrow> parse_tokens rest flags)"

definition parse_flags :: "bytes \<Rightarrow> flags_error + capability_flags" where
  "parse_flags s = (if trim s = [] then Inr {} else parse_tokens (split_on CHR ''|'' s) {})"

text \<open>\<^verbatim>\<open>bitflags::parser::to_writer\<close> on a value with no bit outside the named ones.\<close>

definition print_flags :: "capability_flags \<Rightarrow> bytes" where
  "print_flags flags = join_with '' | '' (map flag_name (filter (\<lambda>f. f \<in> flags) all_flags))"

record capabilities =
  cap_flags :: capability_flags
  max_path :: "nat option"

definition fold_mode_of :: "capabilities \<Rightarrow> fold_mode" where
  "fold_mode_of caps =
     (if FULL_FOLD \<in> cap_flags caps then Full
      else if CASE_SENSITIVE \<in> cap_flags caps then FoldNone
      else Simple)"

section \<open>Reading back what is printed\<close>

lemma all_flags_mem [simp]: "f \<in> set all_flags"
  by (cases f) (simp_all add: all_flags_def)

lemma flag_name_inj: "flag_name f = flag_name g \<Longrightarrow> f = g"
  by (cases f; cases g) simp_all

lemma from_name_flag_name [simp]: "from_name (flag_name f) = Some f"
  by (cases f) (simp_all add: from_name_def all_flags_def)

lemma flag_name_bytes: "list_all flag_byte (flag_name f)"
  by (cases f) (simp_all add: flag_byte_def)

lemma flag_byte_plain: "flag_byte b \<Longrightarrow> u8 b < 128 \<and> b \<noteq> CHR ''|'' \<and> \<not> is_whitespace (u8 b)"
  by (auto simp: flag_byte_def is_whitespace_def)

lemma trim_plain:
  assumes "list_all flag_byte s"
  shows "trim s = s" "trim (s @ '' '') = s" "trim ('' '' @ s) = s" "trim ('' '' @ s @ '' '') = s"
proof -
  have b: "u8 b < 128" "\<not> is_whitespace (utf8_code [b])" if "b \<in> set s" for b
    using assms that flag_byte_plain by (fastforce simp: list_all_iff)+
  have sp: "is_whitespace (utf8_code '' '')" by (simp add: is_whitespace_def)
  have dw: "dropWhile (\<lambda>c. is_whitespace (utf8_code c)) (map (\<lambda>b. [b]) xs @ ys) = map (\<lambda>b. [b]) xs @ ys"
    if "set xs \<subseteq> set s" "xs \<noteq> []" for xs ys
    using that b(2) by (cases xs) auto
  have 1: "utf8_chars (xs @ s @ ys) = map (\<lambda>b. [b]) (xs @ s @ ys)" if "xs \<in> {[], '' ''}" "ys \<in> {[], '' ''}" for xs ys
    using that b(1) by (intro utf8_chars_ascii) auto
  have cm: "concat (map (\<lambda>b. [b]) xs) = xs" for xs :: bytes by (induction xs) auto
  have "trim (xs @ s @ ys) = s" if xy: "xs \<in> {[], '' ''}" "ys \<in> {[], '' ''}" for xs ys
  proof (cases "s = []")
    case True
    then show ?thesis using xy sp 1 [OF xy] by (auto simp: trim_def)
  next
    case False
    have "dropWhile (\<lambda>c. is_whitespace (utf8_code c)) (map (\<lambda>b. [b]) (xs @ s @ ys)) = map (\<lambda>b. [b]) (s @ ys)"
      using xy(1) sp dw [of s "map (\<lambda>b. [b]) ys"] False by auto
    moreover have "dropWhile (\<lambda>c. is_whitespace (utf8_code c)) (rev (map (\<lambda>b. [b]) (s @ ys))) = rev (map (\<lambda>b. [b]) s)"
      using xy(2) sp dw [of "rev s" "[]"] False by (auto simp: rev_map)
    ultimately show ?thesis unfolding trim_def 1 [OF xy] by (simp add: cm)
  qed
  from this [of "[]" "[]"] this [of "[]" "'' ''"] this [of "'' ''" "[]"] this [of "'' ''" "'' ''"]
  show "trim s = s" "trim (s @ '' '') = s" "trim ('' '' @ s) = s" "trim ('' '' @ s @ '' '') = s" by simp_all
qed

text \<open>A token that the reader takes: a name of the wire alphabet, known or not.\<close>

definition well_formed_flag :: "bytes \<Rightarrow> bool" where
  "well_formed_flag token \<longleftrightarrow> token \<noteq> [] \<and> \<not> prefix ''0X'' token \<and> list_all flag_byte token"

lemma well_formed_not_hex: "list_all flag_byte token \<Longrightarrow> \<not> prefix ''0x'' token"
  by (auto simp: prefix_def flag_byte_def)

lemma from_name_Some: "from_name s = Some f \<longleftrightarrow> s = flag_name f"
proof
  assume "from_name s = Some f"
  then show "s = flag_name f" by (auto simp: from_name_def find_Some_iff)
qed simp

lemma parse_tokens_iff:
  "parse_tokens raws fs = Inr gs \<longleftrightarrow>
   (\<forall>raw \<in> set raws. well_formed_flag (trim raw)) \<and> gs = fs \<union> {f. \<exists>raw \<in> set raws. trim raw = flag_name f}"
proof (induction raws arbitrary: fs)
  case Nil
  then show ?case by auto
next
  case (Cons raw raws)
  show ?case
  proof (cases "well_formed_flag (trim raw)")
    case False
    then show ?thesis using well_formed_not_hex by (auto simp: well_formed_flag_def Let_def)
  next
    case True
    then have step: "parse_tokens (raw # raws) fs =
        parse_tokens raws (case from_name (trim raw) of Some known \<Rightarrow> insert known fs | None \<Rightarrow> fs)"
      using well_formed_not_hex by (auto simp: well_formed_flag_def Let_def split: option.splits)
    have "(case from_name (trim raw) of Some known \<Rightarrow> insert known fs | None \<Rightarrow> fs) =
        fs \<union> {f. trim raw = flag_name f}"
      using from_name_Some [of "trim raw"] by (auto split: option.splits)
    then show ?thesis unfolding step Cons.IH using True by auto
  qed
qed

lemma flag_name_well_formed: "well_formed_flag (flag_name f)"
  by (cases f) (simp_all add: well_formed_flag_def flag_byte_def)

lemma tokens_of_print:
  assumes "names \<noteq> []" "list_all (list_all flag_byte) names" "pre \<in> {[], '' ''}"
  shows "map trim (split_on CHR ''|'' (pre @ join_with '' | '' names)) = names"
  using assms
proof (induction names arbitrary: pre)
  case Nil
  then show ?case by simp
next
  case (Cons n ns)
  have n: "list_all flag_byte n" "CHR ''|'' \<notin> set n"
    using Cons.prems(2) flag_byte_plain by (auto simp: list_all_iff)
  note t = trim_plain [OF n(1)]
  show ?case
  proof (cases "ns = []")
    case True
    have "CHR ''|'' \<notin> set (pre @ n)" using n(2) Cons.prems(3) by auto
    from split_on_plain [OF this] True t Cons.prems(3) show ?thesis by auto
  next
    case False
    have "CHR ''|'' \<notin> set (pre @ n @ '' '')" using n(2) Cons.prems(3) by auto
    from split_on_append [OF this, of "'' '' @ join_with '' | '' ns"] False
    have "split_on CHR ''|'' (pre @ join_with '' | '' (n # ns)) =
        (pre @ n @ '' '') # split_on CHR ''|'' ('' '' @ join_with '' | '' ns)"
      by (simp add: join_with_Cons)
    with Cons.IH [OF False, of "'' ''"] Cons.prems(2,3) t show ?thesis by auto
  qed
qed

lemma dropWhile_keeps: "\<not> P x \<Longrightarrow> x \<in> set (dropWhile P (xs @ [x]))"
  by (induction xs) auto

lemma print_flags_not_blank:
  assumes "fs \<noteq> {}"
  shows "trim (print_flags fs) \<noteq> []"
proof -
  obtain f names where "filter (\<lambda>f. f \<in> fs) all_flags = f # names"
    using assms all_flags_mem by (cases "filter (\<lambda>f. f \<in> fs) all_flags") (auto simp: filter_empty_conv)
  moreover obtain b bs where "flag_name f = b # bs" "flag_byte b" by (cases f) (auto simp: flag_byte_def)
  ultimately obtain r where r: "print_flags fs = b # r" "flag_byte b"
    by (auto simp: print_flags_def join_with_Cons)
  have item: "utf8_item b r = Scalar 1" using flag_byte_plain [OF r(2)] by (simp add: utf8_item_def)
  have "dropWhile (\<lambda>c. is_whitespace (utf8_code c)) (utf8_chars (b # r)) = [b] # utf8_chars r"
    using flag_byte_plain [OF r(2)] item by simp
  then have "trim (print_flags fs) = concat (rev (dropWhile (\<lambda>c. is_whitespace (utf8_code c)) (rev (utf8_chars r) @ [[b]])))"
    unfolding r(1) trim_def by simp
  moreover have "[b] \<in> set (dropWhile (\<lambda>c. is_whitespace (utf8_code c)) (rev (utf8_chars r) @ [[b]]))"
    using flag_byte_plain [OF r(2)] by (intro dropWhile_keeps) simp
  ultimately show ?thesis by auto
qed

section \<open>Properties\<close>

text \<open>The flags of a provider survive the wire: reading what is printed gives the same set, and the
  reader accepts exactly the blank text and the lists of well-formed names, keeping the names it knows and
  passing over the ones of a newer protocol.\<close>

theorem flags_wire_exact:
  "parse_flags (print_flags fs) = Inr fs \<and>
   (parse_flags s = Inr gs) =
     (if trim s = [] then gs = {}
      else list_all well_formed_flag (map trim (split_on CHR ''|'' s)) \<and>
        gs = {f. flag_name f \<in> set (map trim (split_on CHR ''|'' s))})"
proof
  have iff: "(parse_flags s = Inr gs) =
     (if trim s = [] then gs = {}
      else list_all well_formed_flag (map trim (split_on CHR ''|'' s)) \<and>
        gs = {f. flag_name f \<in> set (map trim (split_on CHR ''|'' s))})" for s gs
    by (force simp: parse_flags_def parse_tokens_iff list_all_iff)
  then show "(parse_flags s = Inr gs) =
     (if trim s = [] then gs = {}
      else list_all well_formed_flag (map trim (split_on CHR ''|'' s)) \<and>
        gs = {f. flag_name f \<in> set (map trim (split_on CHR ''|'' s))})" .
  show "parse_flags (print_flags fs) = Inr fs"
  proof (cases "fs = {}")
    case True
    then show ?thesis by (simp add: print_flags_def parse_flags_def trim_def)
  next
    case False
    let ?ns = "map flag_name (filter (\<lambda>f. f \<in> fs) all_flags)"
    have ns: "?ns \<noteq> []" using False all_flags_mem by (auto simp: filter_empty_conv)
    have "map trim (split_on CHR ''|'' (print_flags fs)) = ?ns"
      using tokens_of_print [OF ns, of "[]"] flag_name_bytes by (simp add: print_flags_def list_all_iff)
    moreover have "{f. flag_name f \<in> set ?ns} = fs" by (auto dest: flag_name_inj)
    moreover have "list_all well_formed_flag ?ns" using flag_name_well_formed by (simp add: list_all_iff)
    ultimately show ?thesis using iff print_flags_not_blank [OF False] by simp
  qed
qed

end
