(* ===== verification/Mem_Provider.thy ===== *)
theory Mem_Provider
  imports Vpath Rename_Plan Proto_Error Capabilities
begin

text \<open>
  The in-memory provider, \<^verbatim>\<open>norte-testkit/src/mem.rs\<close> with the faults of \<^verbatim>\<open>norte-testkit/src/faults.rs\<close>:
  the implementation of the provider interface that the engine's own tests run on, and the only one that is
  not a wrapper of an operating system or of a network client. Modelled are the lookup of a path with both
  folding axes, \<^verbatim>\<open>stat\<close>, \<^verbatim>\<open>list\<close>, \<^verbatim>\<open>rename\<close> and \<^verbatim>\<open>capabilities_at\<close>, and the faults those operations
  consult; latency is not.

  A \<^verbatim>\<open>BTreeMap\<close> is an association list in key order.
\<close>

section \<open>The tree\<close>

type_synonym seg_path = "bytes list"

datatype symlink_kind = SymlinkFile | SymlinkDir | SymlinkUnknown

datatype mem_node =
    Mem_File (content: bytes) (mtime: int) (node_id: nat)
  | Mem_Dir (mtime: int) (node_id: nat)
  | Mem_Symlink (target: bytes) (mtime: int) (node_id: nat) (kind: symlink_kind)

record mem_tree =
  nodes :: "(seg_path \<times> mem_node) list"
  modes :: "(seg_path \<times> nat) list"
  clock :: int

fun btree_insert :: "'k :: linorder \<Rightarrow> 'v \<Rightarrow> ('k \<times> 'v) list \<Rightarrow> ('k \<times> 'v) list" where
  "btree_insert k v [] = [(k, v)]"
| "btree_insert k v ((k', v') # t) =
     (if k < k' then (k, v) # (k', v') # t
      else if k = k' then (k, v) # t
      else (k', v') # btree_insert k v t)"

definition btree_remove :: "'k \<Rightarrow> ('k \<times> 'v) list \<Rightarrow> ('k \<times> 'v) list" where
  "btree_remove k t = filter (\<lambda>(k', _). k' \<noteq> k) t"

definition seg_path_of :: "vpath \<Rightarrow> seg_path" where
  "seg_path_of p = segments p"

fun is_dir :: "mem_node option \<Rightarrow> bool" where
  "is_dir (Some (Mem_Dir _ _)) = True"
| "is_dir _ = False"

section \<open>Faults\<close>

record fault_state =
  fail_list_at :: "seg_path option"
  fail_rename_at :: "seg_path option"
  rename_clobbers :: bool
  cancel_after_renames :: "nat option"
  cancel_after_lists :: "nat option"
  cancel_token :: bool
  cancelled :: bool
  disconnect_after :: "nat option"
  unavailable_next :: nat
  ambiguous_next :: nat

definition no_faults :: fault_state where
  "no_faults = \<lparr>fail_list_at = None, fail_rename_at = None, rename_clobbers = False, cancel_after_renames = None,
     cancel_after_lists = None, cancel_token = False, cancelled = False, disconnect_after = None,
     unavailable_next = 0, ambiguous_next = 0\<rparr>"

definition op_gate :: "fault_state \<Rightarrow> fault_state \<times> (proto_error + unit)" where
  "op_gate st =
     (if unavailable_next st > 0 then
        (st\<lparr>unavailable_next := unavailable_next st - 1\<rparr>, Inl (E_ProviderUnavailable True))
      else case disconnect_after st of
        Some 0 \<Rightarrow> (st, Inl (E_ProviderUnavailable True))
      | Some (Suc n) \<Rightarrow> (st\<lparr>disconnect_after := Some n\<rparr>, Inr ())
      | None \<Rightarrow> (st, Inr ()))"

text \<open>\<^verbatim>\<open>tick_rename\<close> and \<^verbatim>\<open>tick_list\<close>: the armed token is taken and cancelled when the counter runs out.\<close>

definition fire :: "fault_state \<Rightarrow> fault_state" where
  "fire st = st\<lparr>cancelled := cancelled st \<or> cancel_token st, cancel_token := False\<rparr>"

definition tick_rename :: "fault_state \<Rightarrow> fault_state" where
  "tick_rename st =
     (case cancel_after_renames st of
        None \<Rightarrow> st
      | Some remaining \<Rightarrow>
          if remaining \<le> 1 then fire (st\<lparr>cancel_after_renames := None\<rparr>)
          else st\<lparr>cancel_after_renames := Some (remaining - 1)\<rparr>)"

definition tick_list :: "fault_state \<Rightarrow> fault_state" where
  "tick_list st =
     (case cancel_after_lists st of
        None \<Rightarrow> st
      | Some remaining \<Rightarrow>
          if remaining \<le> 1 then fire (st\<lparr>cancel_after_lists := None\<rparr>)
          else st\<lparr>cancel_after_lists := Some (remaining - 1)\<rparr>)"

definition take_ambiguous :: "fault_state \<Rightarrow> fault_state \<times> bool" where
  "take_ambiguous st =
     (if ambiguous_next st > 0 then (st\<lparr>ambiguous_next := ambiguous_next st - 1\<rparr>, True) else (st, False))"

definition ambiguous_gate :: "fault_state \<Rightarrow> fault_state \<times> (proto_error + unit)" where
  "ambiguous_gate st =
     (case take_ambiguous st of
        (st', True) \<Rightarrow> (st', Inl (E_ProviderUnavailable True))
      | (st', False) \<Rightarrow> (st', Inr ()))"

section \<open>Lookup\<close>

record lookup =
  case_sensitive :: bool
  norm_insensitive :: bool

definition to_ascii_lowercase :: "byte \<Rightarrow> byte" where
  "to_ascii_lowercase b = (if 65 \<le> u8 b \<and> u8 b \<le> 90 then char_of (u8 b + 32) else b)"

definition eq_ignore_ascii_case :: "bytes \<Rightarrow> bytes \<Rightarrow> bool" where
  "eq_ignore_ascii_case a b \<longleftrightarrow> map to_ascii_lowercase a = map to_ascii_lowercase b"

definition fold_eq_path :: "seg_path \<Rightarrow> seg_path \<Rightarrow> bool" where
  "fold_eq_path a b \<longleftrightarrow> length a = length b \<and> list_all (\<lambda>(x, y). eq_ignore_ascii_case x y) (zip a b)"

definition nfc_eq :: "unicode \<Rightarrow> bytes \<Rightarrow> bytes \<Rightarrow> bool" where
  "nfc_eq u x y =
     (case (from_utf8 x, from_utf8 y) of
        (None, None) \<Rightarrow> nfc u (text_of x) = nfc u (text_of y)
      | _ \<Rightarrow> x = y)"

definition nfc_eq_path :: "unicode \<Rightarrow> seg_path \<Rightarrow> seg_path \<Rightarrow> bool" where
  "nfc_eq_path u a b \<longleftrightarrow> length a = length b \<and> list_all (\<lambda>(x, y). nfc_eq u x y) (zip a b)"

definition mem_resolve :: "unicode \<Rightarrow> mem_tree \<Rightarrow> lookup \<Rightarrow> seg_path \<Rightarrow> seg_path option" where
  "mem_resolve u tree lk key =
     (if map_of (nodes tree) key \<noteq> None then Some key
      else case (if case_sensitive lk then None else find (\<lambda>k. fold_eq_path k key) (map fst (nodes tree))) of
        Some k \<Rightarrow> Some k
      | None \<Rightarrow>
          if norm_insensitive lk then find (\<lambda>k. nfc_eq_path u k key) (map fst (nodes tree)) else None)"

definition resolve_symlink :: "unicode \<Rightarrow> mem_tree \<Rightarrow> lookup \<Rightarrow> seg_path \<Rightarrow> bytes \<Rightarrow> proto_error + seg_path" where
  "resolve_symlink u tree lk link to =
     (if prefix ''/'' to \<or> list_ex (\<lambda>s. s = ''..'') (split_on CHR ''/'' to) then Inl E_Unsupported
      else ok_or (mem_resolve u tree lk (butlast link @ filter (\<lambda>s. s \<noteq> []) (split_on CHR ''/'' to))) E_NotFound)"

fun traverse :: "unicode \<Rightarrow> mem_tree \<Rightarrow> lookup \<Rightarrow> seg_path \<Rightarrow> seg_path \<Rightarrow> seg_path option" where
  "traverse u tree lk canon [] = Some canon"
| "traverse u tree lk canon (seg # rest) =
     (case mem_resolve u tree lk (canon @ [seg]) of
        None \<Rightarrow> None
      | Some real \<Rightarrow>
          (case (if rest = [] then None else map_of (nodes tree) real) of
             Some (Mem_Symlink to _ _ _) \<Rightarrow>
               (case resolve_symlink u tree lk real to of
                  Inl _ \<Rightarrow> None
                | Inr resolved \<Rightarrow>
                    if is_dir (map_of (nodes tree) resolved) then traverse u tree lk resolved rest else None)
           | _ \<Rightarrow> traverse u tree lk real rest))"

definition resolve_traversing :: "unicode \<Rightarrow> mem_tree \<Rightarrow> lookup \<Rightarrow> seg_path \<Rightarrow> seg_path option" where
  "resolve_traversing u tree lk key =
     (if map_of (nodes tree) key \<noteq> None then Some key else traverse u tree lk [] key)"

fun canonical_loop :: "unicode \<Rightarrow> mem_tree \<Rightarrow> lookup \<Rightarrow> seg_path \<Rightarrow> seg_path \<Rightarrow> seg_path option" where
  "canonical_loop u tree lk canon [] = Some canon"
| "canonical_loop u tree lk canon (seg # rest) =
     (if rest = [] then Some (canon @ [seg])
      else case mem_resolve u tree lk (canon @ [seg]) of
        None \<Rightarrow> None
      | Some real \<Rightarrow>
          if is_dir (map_of (nodes tree) real) then canonical_loop u tree lk real rest else None)"

definition canonical_key :: "unicode \<Rightarrow> mem_tree \<Rightarrow> lookup \<Rightarrow> seg_path \<Rightarrow> seg_path option" where
  "canonical_key u tree lk key = canonical_loop u tree lk [] key"

definition mem_collision_kind :: "unicode \<Rightarrow> seg_path \<Rightarrow> seg_path \<Rightarrow> conflict_kind" where
  "mem_collision_kind u real wanted =
     (if real = wanted then Exists else if nfc_eq_path u real wanted then Normalization else CaseCollision)"

section \<open>The provider\<close>

datatype normalization = ByteExact | Insensitive

record mem_config =
  caps :: capabilities
  norm :: normalization
  noreplace_sees_fold :: bool
  caps_at :: "(seg_path \<times> capabilities) list"

record mem_world =
  tree :: mem_tree
  faults :: fault_state

definition lookup_of :: "mem_config \<Rightarrow> lookup" where
  "lookup_of c = \<lparr>case_sensitive = CASE_SENSITIVE \<in> cap_flags (caps c), norm_insensitive = (norm c = Insensitive)\<rparr>"

definition mem_new :: mem_config where
  "mem_new = \<lparr>caps = \<lparr>cap_flags = {RENAME_ATOMIC, CASE_SENSITIVE, CASE_PRESERVING, SYMLINKS, TRASH, POSIX_MODE},
       max_path = None\<rparr>, norm = ByteExact, noreplace_sees_fold = False, caps_at = []\<rparr>"

definition capabilities_at :: "mem_config \<Rightarrow> vpath \<Rightarrow> capabilities" where
  "capabilities_at c p = (case map_of (caps_at c) (seg_path_of p) of Some k \<Rightarrow> k | None \<Rightarrow> caps c)"

text \<open>Every operation passes the gate of the faults first.\<close>

definition gated :: "mem_world \<Rightarrow> (mem_world \<Rightarrow> mem_world \<times> (proto_error + 'a)) \<Rightarrow> mem_world \<times> (proto_error + 'a)" where
  "gated w f =
     (case op_gate (faults w) of
        (st, Inl e) \<Rightarrow> (w\<lparr>faults := st\<rparr>, Inl e)
      | (st, Inr _) \<Rightarrow> f (w\<lparr>faults := st\<rparr>))"

text \<open>Of the entry that \<^verbatim>\<open>stat\<close> returns only its path matters here.\<close>

definition mem_stat :: "unicode \<Rightarrow> mem_config \<Rightarrow> mem_world \<Rightarrow> vpath \<Rightarrow> mem_world \<times> (proto_error + vpath)" where
  "mem_stat u c w p = gated w (\<lambda>w.
     (w, if seg_path_of p = [] then Inr p
         else case resolve_traversing u (tree w) (lookup_of c) (seg_path_of p) of
           None \<Rightarrow> Inl E_NotFound
         | Some real \<Rightarrow>
             (case map_of (nodes (tree w)) real of
                None \<Rightarrow> Inl E_NotFound
              | Some _ \<Rightarrow> Inr (fold (\<lambda>seg q. VPath_join q seg) real (VPath_root (scheme p) (authority p))))))"

definition list_target :: "unicode \<Rightarrow> mem_tree \<Rightarrow> lookup \<Rightarrow> seg_path \<Rightarrow> proto_error + seg_path" where
  "list_target u t lk key =
     (if key = [] then Inr key
      else and_then (ok_or (resolve_traversing u t lk key) E_NotFound) (\<lambda>real.
        and_then (case map_of (nodes t) real of
                    Some (Mem_Symlink to _ _ _) \<Rightarrow>
                      (case resolve_symlink u t lk real to of Inl _ \<Rightarrow> Inl E_NotFound | Inr r \<Rightarrow> Inr r)
                  | _ \<Rightarrow> Inr real) (\<lambda>real.
          if is_dir (map_of (nodes t) real) then Inr real else Inl (E_Conflict TypeMismatch))))"

definition mem_list :: "unicode \<Rightarrow> mem_config \<Rightarrow> mem_world \<Rightarrow> vpath \<Rightarrow> mem_world \<times> (proto_error + vpath list)" where
  "mem_list u c w p = gated w (\<lambda>w.
     if fail_list_at (faults w) = Some (seg_path_of p) then (w, Inl (E_Io True))
     else (w\<lparr>faults := tick_list (faults w)\<rparr>,
       and_then (list_target u (tree w) (lookup_of c) (seg_path_of p)) (\<lambda>real.
         Inr (map (\<lambda>(k, _). VPath_join p (last k))
           (filter (\<lambda>(k, _). length k = length real + 1 \<and> prefix real k) (nodes (tree w)))))))"

fun touch :: "int \<Rightarrow> mem_node \<Rightarrow> mem_node" where
  "touch m (Mem_File bs _ n) = Mem_File bs m n"
| "touch m (Mem_Dir _ n) = Mem_Dir m n"
| "touch m (Mem_Symlink to _ n k) = Mem_Symlink to m n k"

definition drop_subtree :: "seg_path \<Rightarrow> mem_tree \<Rightarrow> mem_tree" where
  "drop_subtree key t = t\<lparr>nodes := filter (\<lambda>(k, _). \<not> prefix key k) (nodes t)\<rparr>"

definition land_node :: "seg_path \<Rightarrow> seg_path \<Rightarrow> seg_path \<times> mem_node \<Rightarrow> mem_tree \<Rightarrow> mem_tree" where
  "land_node real_from canon_to kn t =
     (let (k, node) = kn;
          new_key = canon_to @ drop (length real_from) k;
          ms = (case map_of (modes t) k of
                  None \<Rightarrow> modes t
                | Some m \<Rightarrow> btree_insert new_key m (btree_remove k (modes t)))
      in t\<lparr>modes := ms, nodes := btree_insert new_key (touch (clock t) node) (nodes t)\<rparr>)"

definition move_subtree :: "seg_path \<Rightarrow> seg_path \<Rightarrow> mem_tree \<Rightarrow> mem_tree" where
  "move_subtree real_from canon_to t =
     (let moving = filter (\<lambda>(k, _). prefix real_from k) (nodes t);
          t = drop_subtree real_from t;
          t = t\<lparr>clock := clock t + 1\<rparr>
      in fold (land_node real_from canon_to) moving t)"

text \<open>What \<^verbatim>\<open>rename\<close> does to the tree, before the faults that follow the effect.\<close>

definition tree_rename :: "unicode \<Rightarrow> mem_config \<Rightarrow> bool \<Rightarrow> mem_tree \<Rightarrow> seg_path \<Rightarrow> seg_path \<Rightarrow> proto_error + mem_tree" where
  "tree_rename u c clobbers t from_key to_key =
     (if from_key = [] \<or> to_key = [] then Inl E_InvalidPath
      else and_then (ok_or (mem_resolve u t (lookup_of c) from_key) E_NotFound) (\<lambda>real_from.
        and_then (ok_or (canonical_key u t (lookup_of c) to_key) E_NotFound) (\<lambda>canon_to.
          if length canon_to > length real_from \<and> prefix real_from canon_to then Inl E_InvalidPath
          else case mem_resolve u t (lookup_of c) canon_to of
            Some real_to \<Rightarrow>
              if real_to \<noteq> real_from \<or> noreplace_sees_fold c \<and> canon_to \<noteq> real_from then
                if \<not> clobbers then Inl (E_Conflict (mem_collision_kind u real_to canon_to))
                else Inr (move_subtree real_from canon_to (drop_subtree real_to t))
              else Inr (move_subtree real_from canon_to t)
          | None \<Rightarrow> Inr (move_subtree real_from canon_to t))))"

definition mem_rename :: "unicode \<Rightarrow> mem_config \<Rightarrow> mem_world \<Rightarrow> vpath \<Rightarrow> vpath \<Rightarrow> mem_world \<times> (proto_error + unit)" where
  "mem_rename u c w source dest = gated w (\<lambda>w.
     if fail_rename_at (faults w) = Some (seg_path_of source) then (w, Inl (E_Io False))
     else case tree_rename u c (rename_clobbers (faults w)) (tree w) (seg_path_of source) (seg_path_of dest) of
       Inl e \<Rightarrow> (w, Inl e)
     | Inr t \<Rightarrow>
         (let (st, r) = ambiguous_gate (tick_rename (faults w)) in (w\<lparr>tree := t, faults := st\<rparr>, r)))"

end
