(* ===== verification/Rename_Order.thy ===== *)
theory Rename_Order
  imports Rename_Plan
begin

text \<open>
  What executing a plan of \<open>Rename_Plan\<close> does to a directory. A directory maps names to files; the
  strict rename \<open>rename_entry\<close> refuses when its source is missing or when any other name with the
  destination's collision key is present, so it refuses whenever a file system, sensitive or
  insensitive to case and form, could overwrite a file. The state after some of the works were
  done is described by \<open>at_state\<close>; the passes of \<open>order\<close> (chains, then cycles through a temporary) are
  shown to move from state to state until every work is done.
\<close>

section \<open>Directories\<close>

type_synonym 'f dir = "bytes \<rightharpoonup> 'f"

definition rename_entry :: "(bytes \<Rightarrow> bytes) \<Rightarrow> rename_step \<Rightarrow> 'f dir \<Rightarrow> 'f dir option" where
  "rename_entry key s d =
     (case d (step_from s) of
        None \<Rightarrow> None
      | Some f \<Rightarrow>
          if \<exists>e \<in> dom d. e \<noteq> step_from s \<and> key e = key (step_to s) then None
          else Some ((d(step_from s := None))(step_to s \<mapsto> f)))"

fun run_steps :: "(bytes \<Rightarrow> bytes) \<Rightarrow> rename_step list \<Rightarrow> 'f dir \<Rightarrow> 'f dir option" where
  "run_steps key [] d = Some d"
| "run_steps key (s # ss) d = Option.bind (rename_entry key s d) (run_steps key ss)"

lemma run_steps_append:
  "run_steps key (ss @ ts) d = Option.bind (run_steps key ss d) (run_steps key ts)"
  by (induction ss arbitrary: d) (auto split: bind_splits)

section \<open>Dependencies\<close>

definition dep :: "work list \<Rightarrow> nat \<Rightarrow> nat \<Rightarrow> bool" where
  "dep ws i j \<longleftrightarrow> i < length ws \<and> j < length ws \<and> i \<noteq> j \<and> w_to_key (ws ! i) = w_from_key (ws ! j)"

lemma source_index_Some:
  assumes "distinct (map w_from_key ws)"
  shows "source_index ws k = Some j \<longleftrightarrow> j < length ws \<and> w_from_key (ws ! j) = k"
proof -
  let ?z = "zip (map w_from_key ws) [0..<length ws]"
  have d: "distinct (map fst ?z)" using assms by simp
  then have "map_of (rev ?z) = map_of ?z" by (metis distinct_rev map_of_inject_set rev_map set_rev)
  then have "source_index ws k = Some j \<longleftrightarrow> (k, j) \<in> set ?z"
    unfolding source_index_def using d by simp
  also have "\<dots> \<longleftrightarrow> j < length ws \<and> w_from_key (ws ! j) = k"
    by (auto simp: in_set_zip intro!: exI [of _ j])
  finally show ?thesis .
qed

lemma dep_unique:
  assumes "distinct (map w_from_key ws)" "dep ws i j" "dep ws i j'"
  shows "j = j'"
proof -
  have "map w_from_key ws ! j = map w_from_key ws ! j'" "j < length ws" "j' < length ws"
    using assms(2,3) by (auto simp: dep_def)
  with assms(1) show ?thesis by (metis length_map nth_eq_iff_index_eq)
qed

lemma dep_inj:
  assumes "distinct (map w_to_key ws)" "dep ws i j" "dep ws i' j"
  shows "i = i'"
proof -
  have "map w_to_key ws ! i = map w_to_key ws ! i'" "i < length ws" "i' < length ws"
    using assms(2,3) by (auto simp: dep_def)
  with assms(1) show ?thesis by (metis length_map nth_eq_iff_index_eq)
qed

lemma block_entry_dep:
  assumes "distinct (map w_from_key ws)" "i < length ws"
  shows "block_entry ws (i, ws ! i) (wt, bl) =
    (if \<exists>j. dep ws i j then (wt[(THE j. dep ws i j) := Some i], bl[i := True]) else (wt, bl))"
proof (cases "source_index ws (w_to_key (ws ! i))")
  case None
  then have "\<not> dep ws i j" for j
    using source_index_Some [OF assms(1), of "w_to_key (ws ! i)" j] by (auto simp: dep_def)
  with None show ?thesis by (simp add: block_entry_def)
next
  case (Some j)
  then have j: "j < length ws" "w_from_key (ws ! j) = w_to_key (ws ! i)"
    using source_index_Some [OF assms(1)] by auto
  show ?thesis
  proof (cases "j = i")
    case True
    have "\<not> dep ws i j'" for j'
      using Some True source_index_Some [OF assms(1), of "w_to_key (ws ! i)" j'] by (auto simp: dep_def)
    with Some True show ?thesis by (simp add: block_entry_def)
  next
    case False
    then have "dep ws i j" using j assms(2) by (simp add: dep_def)
    moreover from this have "(THE j. dep ws i j) = j" using dep_unique [OF assms(1)] by blast
    ultimately show ?thesis using Some False by (auto simp: block_entry_def)
  qed
qed

lemma zip_upt_nth: "zip [0..<length xs] xs = map (\<lambda>i. (i, xs ! i)) [0..<length xs]"
  by (rule nth_equalityI) auto

definition deps_upto :: "work list \<Rightarrow> nat \<Rightarrow> nat option list \<times> bool list \<Rightarrow> bool" where
  "deps_upto ws m = (\<lambda>(wt, bl). length wt = length ws \<and> length bl = length ws \<and>
     (\<forall>i j. j < length ws \<longrightarrow> (wt ! j = Some i \<longleftrightarrow> i < m \<and> dep ws i j)) \<and>
     (\<forall>i < length ws. bl ! i \<longleftrightarrow> i < m \<and> (\<exists>j. dep ws i j)))"

lemma deps_upto_step:
  assumes "distinct (map w_from_key ws)" "distinct (map w_to_key ws)" "m < length ws"
    and "deps_upto ws m (wt, bl)"
  shows "deps_upto ws (Suc m) (block_entry ws (m, ws ! m) (wt, bl))"
proof -
  have len: "length wt = length ws" "length bl = length ws"
    and wt: "\<And>i j. j < length ws \<Longrightarrow> wt ! j = Some i \<longleftrightarrow> i < m \<and> dep ws i j"
    and bl: "\<And>i. i < length ws \<Longrightarrow> bl ! i \<longleftrightarrow> i < m \<and> (\<exists>j. dep ws i j)"
    using assms(4) unfolding deps_upto_def by blast+
  show ?thesis
  proof (cases "\<exists>j. dep ws m j")
    case False
    then have none: "\<not> dep ws m j" for j by blast
    have "wt ! j = Some i \<longleftrightarrow> i < Suc m \<and> dep ws i j" if "j < length ws" for i j
      using wt [OF that, of i] none [of j] by (cases "i = m") auto
    moreover have "bl ! i \<longleftrightarrow> i < Suc m \<and> (\<exists>j. dep ws i j)" if "i < length ws" for i
      using bl [OF that] none by (cases "i = m") auto
    ultimately show ?thesis
      unfolding block_entry_dep [OF assms(1,3)] if_not_P [OF False] deps_upto_def using len by simp
  next
    case True
    then obtain j0 where j0: "dep ws m j0" by blast
    then have the: "(THE j. dep ws m j) = j0" using dep_unique [OF assms(1)] by blast
    have j0': "j0 < length ws" using j0 by (simp add: dep_def)
    have "wt[j0 := Some m] ! j = Some i \<longleftrightarrow> i < Suc m \<and> dep ws i j" if "j < length ws" for i j
    proof (cases "j = j0")
      case True
      have "i < Suc m \<and> dep ws i j0 \<longleftrightarrow> i = m" using dep_inj [OF assms(2) j0, of i] j0 by auto
      with True len j0' show ?thesis by auto
    next
      case False
      then have "\<not> dep ws m j" using dep_unique [OF assms(1) j0, of j] by blast
      with False wt [OF that, of i] show ?thesis by (cases "i = m") auto
    qed
    moreover have "bl[m := True] ! i \<longleftrightarrow> i < Suc m \<and> (\<exists>j. dep ws i j)" if "i < length ws" for i
      using bl [OF that] True len that by (cases "i = m") auto
    ultimately show ?thesis
      unfolding block_entry_dep [OF assms(1,3)] if_P [OF True] the deps_upto_def using len by simp
  qed
qed

lemma dependencies_spec:
  assumes "distinct (map w_from_key ws)" "distinct (map w_to_key ws)"
  shows "deps_upto ws (length ws) (dependencies ws)"
proof -
  have "m \<le> length ws \<Longrightarrow> deps_upto ws m (fold (\<lambda>i. block_entry ws (i, ws ! i)) [0..<m]
      (replicate (length ws) None, replicate (length ws) False))" for m
  proof (induction m)
    case 0
    show ?case by (simp add: deps_upto_def)
  next
    case (Suc m)
    then show ?case
      using deps_upto_step [OF assms, of m] by (cases "fold (\<lambda>i. block_entry ws (i, ws ! i)) [0..<m]
        (replicate (length ws) None, replicate (length ws) False)") simp
  qed
  from this [of "length ws"] show ?thesis
    by (simp add: dependencies_def zip_upt_nth fold_map comp_def)
qed

section \<open>States between the steps\<close>

text \<open>The works \<open>V\<close> have left their old names, the works \<open>M\<close> have arrived at their new ones, and
  \<open>T\<close> is the work that waits under a temporary name, if any.\<close>

definition at_state :: "work list \<Rightarrow> 'f dir \<Rightarrow> nat set \<Rightarrow> nat set \<Rightarrow> (bytes \<times> nat) option \<Rightarrow> 'f dir \<Rightarrow> bool" where
  "at_state ws d V M T d' \<longleftrightarrow> (\<forall>name f. d' name = Some f \<longleftrightarrow>
     d name = Some f \<and> name \<notin> (\<lambda>i. w_from (ws ! i)) ` V \<or>
     (\<exists>i \<in> M. w_to (ws ! i) = name \<and> d (w_from (ws ! i)) = Some f) \<or>
     (\<exists>i. T = Some (name, i) \<and> d (w_from (ws ! i)) = Some f))"

definition state_ok :: "(bytes \<Rightarrow> bytes) \<Rightarrow> bytes set \<Rightarrow> work list \<Rightarrow> nat set \<Rightarrow> nat set \<Rightarrow> (bytes \<times> nat) option \<Rightarrow> bool" where
  "state_ok key S ws V M T \<longleftrightarrow> V \<subseteq> {..<length ws} \<and>
     (\<forall>i \<in> M. \<forall>j. dep ws i j \<longrightarrow> j \<in> V) \<and>
     (case T of
        None \<Rightarrow> V = M
      | Some (t, i) \<Rightarrow> V = insert i M \<and> i \<notin> M \<and> key t \<notin> key ` S \<and> key t \<notin> w_to_key ` set ws)"

text \<open>Facts about the works of a batch, at their positions.\<close>

lemma works_okD:
  assumes "works_ok key S ws" "i < length ws"
  shows "w_from (ws ! i) \<in> S" "key (w_from (ws ! i)) = w_from_key (ws ! i)"
    "key (w_to (ws ! i)) = w_to_key (ws ! i)" "w_from (ws ! i) \<noteq> w_to (ws ! i)"
  using assms by (auto simp: works_ok_def)

lemma works_ok_from_inj:
  assumes "works_ok key S ws" "i < length ws" "j < length ws"
    and "w_from_key (ws ! i) = w_from_key (ws ! j)"
  shows "i = j"
  using assms unfolding works_ok_def by (metis length_map nth_eq_iff_index_eq nth_map)

lemma works_ok_to_inj:
  assumes "works_ok key S ws" "i < length ws" "j < length ws"
    and "w_to_key (ws ! i) = w_to_key (ws ! j)"
  shows "i = j"
  using assms unfolding works_ok_def by (metis length_map nth_eq_iff_index_eq nth_map)

lemma works_ok_at_dest:
  assumes "works_ok key S ws" "i < length ws" "e \<in> S" "key e = w_to_key (ws ! i)"
  obtains j where "j < length ws" "e = w_from (ws ! j)" "j = i \<or> dep ws i j"
proof -
  have "e \<in> w_from ` set ws" using assms unfolding works_ok_def by (meson nth_mem)
  then obtain j where j: "j < length ws" "e = w_from (ws ! j)" by (metis imageE in_set_conv_nth)
  with works_okD(2) [OF assms(1) j(1)] assms(2,4) have "j = i \<or> dep ws i j" by (auto simp: dep_def)
  with j show thesis by (rule that)
qed

text \<open>The destination of a work is free once everything it waits for has left.\<close>

lemma destination_free:
  assumes ok: "works_ok key S ws" and st: "state_ok key S ws V M T" "at_state ws d V M T d'" "dom d = S"
    and i: "i < length ws" "i \<notin> M" "\<And>j. dep ws i j \<Longrightarrow> j \<in> V"
    and e: "e \<in> dom d'" "key e = key (w_to (ws ! i))"
  shows "i \<notin> V \<and> e = w_from (ws ! i)"
proof -
  have k: "key e = w_to_key (ws ! i)" using e(2) works_okD(3) [OF ok i(1)] by simp
  from e(1) st(2) consider
      "e \<in> S" "e \<notin> (\<lambda>i. w_from (ws ! i)) ` V"
    | j where "j \<in> M" "w_to (ws ! j) = e"
    | t j where "T = Some (t, j)" "e = t"
    unfolding at_state_def st(3) [symmetric] by blast
  then show ?thesis
  proof cases
    case 1
    obtain j where j: "j < length ws" "e = w_from (ws ! j)" "j = i \<or> dep ws i j"
      using works_ok_at_dest [OF ok i(1) 1(1) k] .
    with 1(2) i(3) show ?thesis by blast
  next
    case (2 j)
    then have "j < length ws" using st(1) by (auto simp: state_ok_def split: option.splits)
    with 2 k works_okD(3) [OF ok this] have "j = i" by (intro works_ok_to_inj [OF ok _ i(1)]) auto
    with 2(1) i(2) show ?thesis by blast
  next
    case (3 t j)
    then have "key t \<notin> w_to_key ` set ws" using st(1) by (auto simp: state_ok_def)
    with 3(2) k i(1) show ?thesis by auto
  qed
qed

lemma rename_entry_free:
  assumes "d (step_from s) = Some f"
    and "\<And>e. e \<in> dom d \<Longrightarrow> key e = key (step_to s) \<Longrightarrow> e = step_from s"
  shows "rename_entry key s d = Some ((d(step_from s := None))(step_to s \<mapsto> f))"
  using assms by (auto simp: rename_entry_def)

lemma state_ok_range:
  assumes "state_ok key S ws V M T"
  shows "M \<subseteq> V" "i \<in> V \<Longrightarrow> i < length ws" "T = Some (t, j) \<Longrightarrow> key t \<notin> key ` S \<and> key t \<notin> w_to_key ` set ws \<and> j \<in> V \<and> j \<notin> M"
    "i \<in> M \<Longrightarrow> dep ws i k \<Longrightarrow> k \<in> V"
  using assms by (auto simp: state_ok_def split: option.splits)

text \<open>A work that is still in place is found under its old name.\<close>

lemma source_present:
  assumes ok: "works_ok key S ws" and st: "state_ok key S ws V M T" "at_state ws d V M T d'" "dom d = S"
    and c: "c < length ws" "c \<notin> V"
  shows "\<exists>f. d (w_from (ws ! c)) = Some f \<and> d' (w_from (ws ! c)) = Some f"
proof -
  obtain f where f: "d (w_from (ws ! c)) = Some f"
    using works_okD(1) [OF ok c(1)] st(3) by auto
  have "w_from (ws ! c) \<notin> (\<lambda>i. w_from (ws ! i)) ` V"
  proof
    assume "w_from (ws ! c) \<in> (\<lambda>i. w_from (ws ! i)) ` V"
    then obtain i where i: "i \<in> V" "w_from (ws ! i) = w_from (ws ! c)" by auto
    then have il: "i < length ws" using state_ok_range(2) [OF st(1)] by blast
    have "w_from_key (ws ! i) = w_from_key (ws ! c)"
      using works_okD(2) [OF ok il] works_okD(2) [OF ok c(1)] i(2) by simp
    with works_ok_from_inj [OF ok il c(1)] i(1) c(2) show False by blast
  qed
  with f st(2) show ?thesis unfolding at_state_def by blast
qed

lemma at_state_vacate:
  assumes ok: "works_ok key S ws" and st: "state_ok key S ws V M T" "at_state ws d V M T d'" "dom d = S"
    and c: "c < length ws" "c \<notin> V"
  shows "at_state ws d (insert c V) M T (d'(w_from (ws ! c) := None))"
  unfolding at_state_def
proof (intro allI)
  fix name f
  let ?from = "w_from (ws ! c)"
  show "(d'(?from := None)) name = Some f \<longleftrightarrow>
      d name = Some f \<and> name \<notin> (\<lambda>i. w_from (ws ! i)) ` insert c V \<or>
      (\<exists>i \<in> M. w_to (ws ! i) = name \<and> d (w_from (ws ! i)) = Some f) \<or>
      (\<exists>i. T = Some (name, i) \<and> d (w_from (ws ! i)) = Some f)"
  proof (cases "name = ?from")
    case False
    then show ?thesis using st(2) unfolding at_state_def by auto
  next
    case True
    have "w_to (ws ! i) \<noteq> ?from" if "i \<in> M" for i
    proof
      assume to: "w_to (ws ! i) = ?from"
      have i: "i < length ws" "i \<in> V" using that state_ok_range(1,2) [OF st(1)] by auto
      then have "dep ws i c"
        using works_okD(2) [OF ok c(1)] works_okD(3) [OF ok i(1)] to c by (auto simp: dep_def)
      with state_ok_range(4) [OF st(1) that] c(2) show False by blast
    qed
    moreover have "T \<noteq> Some (?from, i)" for i
      using state_ok_range(3) [OF st(1), of ?from i] works_okD(1) [OF ok c(1)] by blast
    ultimately show ?thesis using True by auto
  qed
qed

lemma at_state_land:
  assumes "at_state ws d V M T d'" "d (w_from (ws ! c)) = Some f" "d' (w_to (ws ! c)) = None"
  shows "at_state ws d V (insert c M) T (d'(w_to (ws ! c) \<mapsto> f))"
  unfolding at_state_def
proof (intro allI)
  fix name g
  have old: "d' name = Some g \<longleftrightarrow>
      d name = Some g \<and> name \<notin> (\<lambda>i. w_from (ws ! i)) ` V \<or>
      (\<exists>i \<in> M. w_to (ws ! i) = name \<and> d (w_from (ws ! i)) = Some g) \<or>
      (\<exists>i. T = Some (name, i) \<and> d (w_from (ws ! i)) = Some g)"
    using assms(1) unfolding at_state_def by blast
  show "(d'(w_to (ws ! c) \<mapsto> f)) name = Some g \<longleftrightarrow>
      d name = Some g \<and> name \<notin> (\<lambda>i. w_from (ws ! i)) ` V \<or>
      (\<exists>i \<in> insert c M. w_to (ws ! i) = name \<and> d (w_from (ws ! i)) = Some g) \<or>
      (\<exists>i. T = Some (name, i) \<and> d (w_from (ws ! i)) = Some g)"
  proof (cases "name = w_to (ws ! c)")
    case True
    with old assms(2,3) show ?thesis by auto
  next
    case False
    with old show ?thesis by auto
  qed
qed

lemma move_state:
  assumes ok: "works_ok key S ws" and st: "state_ok key S ws V M T" "at_state ws d V M T d'" "dom d = S"
    and c: "c < length ws" "c \<notin> V" "\<And>j. dep ws c j \<Longrightarrow> j \<in> V"
  shows "\<exists>d''. rename_entry key (move_step (ws ! c)) d' = Some d'' \<and>
    state_ok key S ws (insert c V) (insert c M) T \<and> at_state ws d (insert c V) (insert c M) T d''"
proof -
  obtain f where f: "d (w_from (ws ! c)) = Some f" "d' (w_from (ws ! c)) = Some f"
    using source_present [OF ok st c(1,2)] by blast
  have cM: "c \<notin> M" using state_ok_range(1) [OF st(1)] c(2) by blast
  have free: "e = w_from (ws ! c)" if "e \<in> dom d'" "key e = key (w_to (ws ! c))" for e
    using destination_free [OF ok st c(1) cM c(3) that] by blast
  let ?d = "(d'(w_from (ws ! c) := None))(w_to (ws ! c) \<mapsto> f)"
  have "rename_entry key (move_step (ws ! c)) d' = Some ?d"
    using rename_entry_free [of d' "move_step (ws ! c)" f key] f(2) free by (simp add: move_step_def)
  moreover have "at_state ws d (insert c V) (insert c M) T ?d"
  proof (rule at_state_land [OF at_state_vacate [OF ok st c(1,2)] f(1)])
    show "(d'(w_from (ws ! c) := None)) (w_to (ws ! c)) = None"
      using free [of "w_to (ws ! c)"] by (cases "d' (w_to (ws ! c))") auto
  qed
  moreover have "state_ok key S ws (insert c V) (insert c M) T"
    using st(1) c cM by (auto simp: state_ok_def split: option.splits)
  ultimately show ?thesis by blast
qed

text \<open>The detour through a temporary name.\<close>

definition fresh_temp :: "(bytes \<Rightarrow> bytes) \<Rightarrow> bytes set \<Rightarrow> work list \<Rightarrow> bytes \<Rightarrow> bool" where
  "fresh_temp key S ws t \<longleftrightarrow> key t \<notin> key ` S \<and> key t \<notin> w_to_key ` set ws"

lemma fresh_temp_absent:
  assumes ok: "works_ok key S ws" and st: "state_ok key S ws V M None" "at_state ws d V M None d'" "dom d = S"
    and t: "fresh_temp key S ws t"
  shows "e \<in> dom d' \<Longrightarrow> key e \<noteq> key t"
proof -
  assume "e \<in> dom d'"
  with st(2,3) consider "e \<in> S" | j where "j \<in> M" "w_to (ws ! j) = e" unfolding at_state_def by blast
  then show "key e \<noteq> key t"
  proof cases
    case 1
    with t show ?thesis unfolding fresh_temp_def by (metis image_eqI)
  next
    case (2 j)
    then have "j < length ws" using state_ok_range(1,2) [OF st(1)] by blast
    with works_okD(3) [OF ok this] 2 t show ?thesis unfolding fresh_temp_def by (metis image_eqI nth_mem)
  qed
qed

lemma park_state:
  assumes ok: "works_ok key S ws" and st: "state_ok key S ws V V None" "at_state ws d V V None d'" "dom d = S"
    and i: "i < length ws" "i \<notin> V" and t: "fresh_temp key S ws t"
  shows "\<exists>d''. rename_entry key (park_step (ws ! i) t) d' = Some d'' \<and>
    state_ok key S ws (insert i V) V (Some (t, i)) \<and> at_state ws d (insert i V) V (Some (t, i)) d''"
proof -
  obtain f where f: "d (w_from (ws ! i)) = Some f" "d' (w_from (ws ! i)) = Some f"
    using source_present [OF ok st i] by blast
  have absent: "e \<in> dom d' \<Longrightarrow> key e \<noteq> key t" for e by (rule fresh_temp_absent [OF ok st t])
  let ?d = "d'(w_from (ws ! i) := None)"
  have "rename_entry key (park_step (ws ! i) t) d' = Some (?d(t \<mapsto> f))"
    using rename_entry_free [of d' "park_step (ws ! i) t" f key] f(2) absent by (simp add: park_step_def)
  moreover have "at_state ws d (insert i V) V (Some (t, i)) (?d(t \<mapsto> f))"
    unfolding at_state_def
  proof (intro allI)
    fix name g
    have none: "?d t = None" using absent [of t] by auto
    have old: "?d name = Some g \<longleftrightarrow>
        d name = Some g \<and> name \<notin> (\<lambda>i. w_from (ws ! i)) ` insert i V \<or>
        (\<exists>i \<in> V. w_to (ws ! i) = name \<and> d (w_from (ws ! i)) = Some g) \<or>
        (\<exists>j. None = Some (name, j) \<and> d (w_from (ws ! j)) = Some g)"
      using at_state_vacate [OF ok st i] unfolding at_state_def by blast
    show "(?d(t \<mapsto> f)) name = Some g \<longleftrightarrow>
        d name = Some g \<and> name \<notin> (\<lambda>i. w_from (ws ! i)) ` insert i V \<or>
        (\<exists>i \<in> V. w_to (ws ! i) = name \<and> d (w_from (ws ! i)) = Some g) \<or>
        (\<exists>j. Some (t, i) = Some (name, j) \<and> d (w_from (ws ! j)) = Some g)"
    proof (cases "name = t")
      case True
      with old none f(1) show ?thesis by auto
    next
      case False
      then have "(?d(t \<mapsto> f)) name = ?d name" by (rule fun_upd_other)
      with old False show ?thesis by (simp only:) simp
    qed
  qed
  moreover have "state_ok key S ws (insert i V) V (Some (t, i))"
    using st(1) i t by (auto simp: state_ok_def fresh_temp_def)
  ultimately show ?thesis by blast
qed

lemma land_state:
  assumes ok: "works_ok key S ws"
    and st: "state_ok key S ws V M (Some (t, i))" "at_state ws d V M (Some (t, i)) d'" "dom d = S"
    and deps: "\<And>j. dep ws i j \<Longrightarrow> j \<in> V"
  shows "\<exists>d''. rename_entry key (land_step (ws ! i) t) d' = Some d'' \<and>
    state_ok key S ws V V None \<and> at_state ws d V V None d''"
proof -
  note T = state_ok_range(3) [OF st(1) refl]
  have i: "i < length ws" "i \<notin> M" "i \<in> V" using T state_ok_range(2) [OF st(1)] by auto
  have V: "V = insert i M" using st(1) by (simp add: state_ok_def)
  obtain f where f: "d (w_from (ws ! i)) = Some f"
    using works_okD(1) [OF ok i(1)] st(3) by auto
  then have t: "d' t = Some f" using st(2) unfolding at_state_def by blast
  have free: "e \<in> dom d' \<Longrightarrow> key e \<noteq> key (w_to (ws ! i))" for e
    using destination_free [OF ok st i(1,2) deps] i(3) by blast
  have "t \<notin> S" "t \<noteq> w_to (ws ! j)" if "j \<in> V" for j
    using T works_okD(3) [OF ok] state_ok_range(2) [OF st(1) that] by (force, metis image_eqI nth_mem)
  then have t': "d t = None" "\<And>j. j \<in> M \<Longrightarrow> w_to (ws ! j) \<noteq> t"
    using i(3) st(3) V by auto
  let ?d = "d'(t := None)"
  have "rename_entry key (land_step (ws ! i) t) d' = Some (?d(w_to (ws ! i) \<mapsto> f))"
    using rename_entry_free [of d' "land_step (ws ! i) t" f key] t free by (simp add: land_step_def)
  moreover have "at_state ws d V M None ?d"
    unfolding at_state_def
  proof (intro allI)
    fix name g
    show "?d name = Some g \<longleftrightarrow>
        d name = Some g \<and> name \<notin> (\<lambda>i. w_from (ws ! i)) ` V \<or>
        (\<exists>i \<in> M. w_to (ws ! i) = name \<and> d (w_from (ws ! i)) = Some g) \<or>
        (\<exists>i. None = Some (name, i) \<and> d (w_from (ws ! i)) = Some g)"
      using st(2) t' unfolding at_state_def by (cases "name = t") auto
  qed
  moreover have "?d (w_to (ws ! i)) = None"
    using free [of "w_to (ws ! i)"] by (cases "d' (w_to (ws ! i))") auto
  ultimately have "rename_entry key (land_step (ws ! i) t) d' = Some (?d(w_to (ws ! i) \<mapsto> f))"
    "at_state ws d V (insert i M) None (?d(w_to (ws ! i) \<mapsto> f))"
    using f by (simp_all only: at_state_land)
  moreover have "state_ok key S ws V V None"
    using st(1) deps unfolding V by (auto simp: state_ok_def)
  ultimately show ?thesis unfolding V by blast
qed

section \<open>Running the passes\<close>

definition reached :: "(bytes \<Rightarrow> bytes) \<Rightarrow> work list \<Rightarrow> 'f dir \<Rightarrow> rename_step list \<Rightarrow> nat set \<Rightarrow> nat set \<Rightarrow>
    (bytes \<times> nat) option \<Rightarrow> bool" where
  "reached key ws d ss V M T \<longleftrightarrow>
     (\<exists>d'. run_steps key ss d = Some d' \<and> state_ok key (dom d) ws V M T \<and> at_state ws d V M T d')"

lemma reached_step:
  assumes "run_steps key ss d = Some d'" "rename_entry key s d' = Some d''"
    and "state_ok key (dom d) ws V M T" "at_state ws d V M T d''"
  shows "reached key ws d (ss @ [s]) V M T"
  using assms by (simp add: reached_def run_steps_append)

lemma reached_move:
  assumes "works_ok key (dom d) ws" "reached key ws d ss V M T"
    and "c < length ws" "c \<notin> V" "\<And>j. dep ws c j \<Longrightarrow> j \<in> V"
  shows "reached key ws d (ss @ [move_step (ws ! c)]) (insert c V) (insert c M) T"
proof -
  obtain d' where d': "run_steps key ss d = Some d'" "state_ok key (dom d) ws V M T" "at_state ws d V M T d'"
    using assms(2) by (auto simp: reached_def)
  from move_state [OF assms(1) d'(2,3) refl assms(3,4,5)] d'(1) show ?thesis by (blast intro: reached_step)
qed

lemma reached_park:
  assumes "works_ok key (dom d) ws" "reached key ws d ss V V None"
    and "i < length ws" "i \<notin> V" "fresh_temp key (dom d) ws t"
  shows "reached key ws d (ss @ [park_step (ws ! i) t]) (insert i V) V (Some (t, i))"
proof -
  obtain d' where d': "run_steps key ss d = Some d'" "state_ok key (dom d) ws V V None" "at_state ws d V V None d'"
    using assms(2) by (auto simp: reached_def)
  from park_state [OF assms(1) d'(2,3) refl assms(3,4,5)] d'(1) show ?thesis by (blast intro: reached_step)
qed

lemma reached_land:
  assumes "works_ok key (dom d) ws" "reached key ws d ss V M (Some (t, i))"
    and "\<And>j. dep ws i j \<Longrightarrow> j \<in> V"
  shows "reached key ws d (ss @ [land_step (ws ! i) t]) V V None"
proof -
  obtain d' where d': "run_steps key ss d = Some d'" "state_ok key (dom d) ws V M (Some (t, i))"
      "at_state ws d V M (Some (t, i)) d'"
    using assms(2) by (auto simp: reached_def)
  from land_state [OF assms(1) d'(2,3) refl assms(3)] d'(1) show ?thesis by (blast intro: reached_step)
qed

definition done_set :: "bool list \<Rightarrow> nat set" where
  "done_set ds = {i. i < length ds \<and> ds ! i}"

lemma done_set_update: "c < length ds \<Longrightarrow> done_set (ds[c := True]) = insert c (done_set ds)"
  by (auto simp: done_set_def nth_list_update split: if_splits)

text \<open>Everything that waits for a finished work is finished, but for the work that is next.\<close>

definition waiters_done :: "nat option list \<Rightarrow> nat set \<Rightarrow> nat option \<Rightarrow> bool" where
  "waiters_done wt V cur \<longleftrightarrow> (\<forall>j \<in> V. \<forall>w. wt ! j = Some w \<longrightarrow> w \<in> V \<or> cur = Some w)"

lemma run_from_spec:
  assumes ok: "works_ok key (dom d) ws"
    and wt: "\<And>i j. j < length ws \<Longrightarrow> wt ! j = Some i \<longleftrightarrow> dep ws i j"
    and "run_from ws wt cur (ss, ds) = (ss', ds')" "length ds = length ws"
    and "reached key ws d ss (done_set ds) (done_set ds - P) T" "P \<subseteq> done_set ds"
    and "\<And>c j. cur = Some c \<Longrightarrow> c < length ws \<and> (dep ws c j \<longrightarrow> j \<in> done_set ds)"
    and "waiters_done wt (done_set ds) cur"
  shows "length ds' = length ws \<and> done_set ds \<subseteq> done_set ds' \<and>
    reached key ws d ss' (done_set ds') (done_set ds' - P) T \<and> waiters_done wt (done_set ds') None \<and>
    (\<forall>c. cur = Some c \<longrightarrow> c \<in> done_set ds')"
  using assms
proof (induction ws wt cur "(ss, ds)" arbitrary: ss ds rule: run_from.induct)
  case (1 ws wt ss ds)
  then show ?case by (simp add: waiters_done_def)
next
  case (2 ws wt c ss ds)
  note ok = "2.prems"(1) and wt = "2.prems"(2) and run = "2.prems"(3) and len = "2.prems"(4)
    and reach = "2.prems"(5) and P = "2.prems"(6) and cur = "2.prems"(7) [OF refl] and wait = "2.prems"(8)
  show ?case
  proof (cases "c < length ds \<and> \<not> ds ! c")
    case False
    then have "c \<in> done_set ds" using cur len by (auto simp: done_set_def)
    moreover have "ss' = ss" "ds' = ds" using run False by auto
    ultimately show ?thesis using reach len wait by (auto simp: waiters_done_def)
  next
    case True
    let ?ds = "ds[c := True]" and ?ss = "ss @ [move_step (ws ! c)]"
    have cn: "c < length ws" and cV: "c \<notin> done_set ds" using True len by (auto simp: done_set_def)
    have V: "done_set ?ds = insert c (done_set ds)" using True by (intro done_set_update) simp
    have "insert c (done_set ds) - P = insert c (done_set ds - P)" using P cV by blast
    then have "reached key ws d ?ss (done_set ?ds) (done_set ?ds - P) T"
      using reached_move [OF ok reach cn cV] cur V by simp
    moreover have "waiters_done wt (done_set ?ds) (wt ! c)"
      using wait unfolding waiters_done_def V by auto
    moreover have "w < length ws \<and> (dep ws w j \<longrightarrow> j \<in> done_set ?ds)" if "wt ! c = Some w" for w j
    proof -
      have "dep ws w c" using wt [OF cn, of w] that by blast
      moreover have "distinct (map w_from_key ws)" using ok by (simp add: works_ok_def)
      ultimately show ?thesis using dep_unique [of ws w c j] V by (auto simp: dep_def)
    qed
    moreover have "run_from ws wt (wt ! c) (?ss, ?ds) = (ss', ds')" using run True by simp
    ultimately have "length ds' = length ws \<and> done_set ?ds \<subseteq> done_set ds' \<and>
        reached key ws d ss' (done_set ds') (done_set ds' - P) T \<and> waiters_done wt (done_set ds') None"
      using "2.hyps" [OF True ok wt] len P V by auto
    with V show ?thesis by auto
  qed
qed

text \<open>The chains: afterwards every work that waits for nobody is done.\<close>

lemma run_chains_spec:
  assumes ok: "works_ok key (dom d) ws"
    and wt: "\<And>i j. j < length ws \<Longrightarrow> wt ! j = Some i \<longleftrightarrow> dep ws i j"
    and bl: "length bl = length ws" "\<And>i. i < length ws \<Longrightarrow> bl ! i \<longleftrightarrow> (\<exists>j. dep ws i j)"
    and "m \<le> length ws"
    and "fold (run_chain ws wt) (map (\<lambda>i. (i, bl ! i)) [0..<m]) ([], replicate (length ws) False) = (ss, ds)"
  shows "length ds = length ws \<and> reached key ws d ss (done_set ds) (done_set ds) None \<and>
    waiters_done wt (done_set ds) None \<and> (\<forall>i < m. (\<nexists>j. dep ws i j) \<longrightarrow> i \<in> done_set ds)"
  using assms(5,6)
proof (induction m arbitrary: ss ds)
  case 0
  then have eq: "ss = []" "ds = replicate (length ws) False" by simp_all
  moreover have "done_set (replicate (length ws) False) = {}" by (auto simp: done_set_def)
  moreover have "at_state ws d {} {} None d" by (simp add: at_state_def)
  ultimately show ?case
    by (auto simp: reached_def state_ok_def waiters_done_def)
next
  case (Suc m)
  obtain ss1 ds1 where fold1: "fold (run_chain ws wt) (map (\<lambda>i. (i, bl ! i)) [0..<m])
      ([], replicate (length ws) False) = (ss1, ds1)" by fastforce
  have IH: "length ds1 = length ws" "reached key ws d ss1 (done_set ds1) (done_set ds1) None"
    "waiters_done wt (done_set ds1) None" "\<And>i. i < m \<Longrightarrow> \<nexists>j. dep ws i j \<Longrightarrow> i \<in> done_set ds1"
    using Suc.IH [OF _ fold1] Suc.prems(1) by auto
  have step: "(ss, ds) = run_chain ws wt (m, bl ! m) (ss1, ds1)"
    using Suc.prems(2) fold1 by simp
  show ?case
  proof (cases "bl ! m")
    case True
    then have "ss = ss1" "ds = ds1" using step by (simp_all add: run_chain_def)
    moreover have "\<exists>j. dep ws m j" using True bl(2) [of m] Suc.prems(1) by simp
    ultimately show ?thesis using IH by (auto simp: less_Suc_eq)
  next
    case False
    then have run: "run_from ws wt (Some m) (ss1, ds1) = (ss, ds)" using step by (simp add: run_chain_def)
    have none: "\<nexists>j. dep ws m j" using False bl(2) [of m] Suc.prems(1) by simp
    have "length ds = length ws \<and> done_set ds1 \<subseteq> done_set ds \<and>
        reached key ws d ss (done_set ds) (done_set ds - {}) None \<and> waiters_done wt (done_set ds) None \<and>
        (\<forall>c. Some m = Some c \<longrightarrow> c \<in> done_set ds)"
      by (rule run_from_spec [OF ok wt run])
        (use IH none Suc.prems(1) in \<open>auto simp: waiters_done_def\<close>)
    with IH(4) show ?thesis by (auto simp: less_Suc_eq)
  qed
qed

text \<open>In a closed set of works in which everybody waits for somebody, nobody is left out.\<close>

lemma cycle_closes:
  assumes dist: "distinct (map w_to_key ws)"
    and wt: "\<And>i j. j < length ws \<Longrightarrow> wt ! j = Some i \<longleftrightarrow> dep ws i j"
    and blocked: "\<And>i. i < length ws \<Longrightarrow> i \<notin> V \<Longrightarrow> \<exists>j. dep ws i j"
    and wait: "waiters_done wt V None"
    and i: "i \<in> V" "dep ws i j"
  shows "j \<in> V"
proof (rule ccontr)
  assume "j \<notin> V"
  define R where "R = {..<length ws} - V"
  define b where "b = (\<lambda>x. SOME y. dep ws x y)"
  have dep_b: "dep ws x (b x)" if "x \<in> R" for x
  proof -
    have "x < length ws" "x \<notin> V" using that by (simp_all add: R_def)
    from someI_ex [OF blocked [OF this]] show ?thesis unfolding b_def .
  qed
  have "b x \<in> R" if "x \<in> R" for x
  proof -
    have "b x \<notin> V"
    proof
      assume "b x \<in> V"
      moreover have "b x < length ws" using dep_b [OF that] by (simp add: dep_def)
      then have "wt ! b x = Some x" using wt [of "b x" x] dep_b [OF that] by blast
      ultimately have "x \<in> V" using wait unfolding waiters_done_def by blast
      with that show False by (simp add: R_def)
    qed
    moreover have "b x < length ws" using dep_b [OF that] by (simp add: dep_def)
    ultimately show ?thesis by (simp add: R_def)
  qed
  then have "b ` R \<subseteq> R" by blast
  moreover have "inj_on b R"
  proof (rule inj_onI)
    fix x y
    assume "x \<in> R" "y \<in> R" "b x = b y"
    with dep_b [of x] dep_b [of y] show "x = y" using dep_inj [OF dist, of x "b x" y] by simp
  qed
  moreover have "finite R" by (simp add: R_def)
  ultimately have surj: "b ` R = R" by (metis card_image card_subset_eq)
  have "j < length ws" using i(2) by (simp add: dep_def)
  then have "j \<in> R" using \<open>j \<notin> V\<close> by (simp add: R_def)
  then obtain x where "x \<in> R" "b x = j" using surj by (metis imageE)
  then have "x = i" using dep_b [of x] dep_inj [OF dist _ i(2), of x] by blast
  with \<open>x \<in> R\<close> i(1) show False by (simp add: R_def)
qed

text \<open>One cycle: park a member, run the others, land it.\<close>

lemma run_cycle_spec:
  assumes ok: "works_ok key (dom d) ws"
    and wt: "\<And>i j. j < length ws \<Longrightarrow> wt ! j = Some i \<longleftrightarrow> dep ws i j"
    and len: "length ds = length ws" and reach: "reached key ws d ss (done_set ds) (done_set ds) None"
    and wait: "waiters_done wt (done_set ds) None"
    and blocked: "\<And>i. i < length ws \<Longrightarrow> i \<notin> done_set ds \<Longrightarrow> \<exists>j. dep ws i j"
    and k: "k < length ws" "k \<notin> done_set ds" and t: "fresh_temp key (dom d) ws temp"
    and run: "run_from ws wt (wt ! k) (ss @ [park_step (ws ! k) temp], ds[k := True]) = (ss', ds')"
  shows "length ds' = length ws \<and> insert k (done_set ds) \<subseteq> done_set ds' \<and> waiters_done wt (done_set ds') None \<and>
    reached key ws d (ss' @ [land_step (ws ! k) temp]) (done_set ds') (done_set ds') None"
proof -
  have V: "done_set (ds[k := True]) = insert k (done_set ds)" using k(1) len by (intro done_set_update) simp
  have dist: "distinct (map w_from_key ws)" "distinct (map w_to_key ws)" using ok by (auto simp: works_ok_def)
  have "reached key ws d (ss @ [park_step (ws ! k) temp]) (insert k (done_set ds)) (done_set ds) (Some (temp, k))"
    by (rule reached_park [OF ok reach k t])
  then have parked: "reached key ws d (ss @ [park_step (ws ! k) temp]) (done_set (ds[k := True]))
      (done_set (ds[k := True]) - {k}) (Some (temp, k))"
    using k(2) V by simp
  have cur: "c < length ws \<and> (dep ws c j \<longrightarrow> j \<in> done_set (ds[k := True]))" if "wt ! k = Some c" for c j
  proof -
    have "dep ws c k" using wt [OF k(1), of c] that by blast
    then show ?thesis using dep_unique [OF dist(1), of c k j] V by (auto simp: dep_def)
  qed
  have "waiters_done wt (done_set (ds[k := True])) (wt ! k)"
    using wait unfolding waiters_done_def V by auto
  then have post: "length ds' = length ws \<and> done_set (ds[k := True]) \<subseteq> done_set ds' \<and>
      reached key ws d ss' (done_set ds') (done_set ds' - {k}) (Some (temp, k)) \<and>
      waiters_done wt (done_set ds') None \<and> (\<forall>c. wt ! k = Some c \<longrightarrow> c \<in> done_set ds')"
    using len V by (intro run_from_spec [OF ok wt run _ parked _ cur]) auto
  have "j \<in> done_set ds'" if "dep ws k j" for j
    using post V blocked by (intro cycle_closes [OF dist(2) wt _ _ _ that]) auto
  with post V reached_land [OF ok] show ?thesis by blast
qed

lemma run_cycles_spec:
  assumes ok: "works_ok key (dom d) ws"
    and wt: "\<And>i j. j < length ws \<Longrightarrow> wt ! j = Some i \<longleftrightarrow> dep ws i j"
    and inj: "\<And>m m'. key (temp_name tag m) = key (temp_name tag m') \<Longrightarrow> m = m'"
    and "k \<le> length ws" "length ds = length ws" "reached key ws d ss (done_set ds) (done_set ds) None"
    and "waiters_done wt (done_set ds) None"
    and "\<And>i. i < length ws \<Longrightarrow> i \<notin> done_set ds \<Longrightarrow> \<exists>j. dep ws i j" "\<And>i. i < k \<Longrightarrow> i \<in> done_set ds"
    and "temps_ok key tag m taken" "key ` dom d \<union> w_to_key ` set ws \<subseteq> taken"
    and "card taken + (length ws - k) + 1 < 2 ^ 32"
  shows "\<exists>ss'. run_cycles key tag ws wt [k..<length ws] m taken (ss, ds) = Some ss' \<and>
    reached key ws d ss' {..<length ws} {..<length ws} None"
  using assms(4-12)
proof (induction "length ws - k" arbitrary: k ss ds m taken)
  case 0
  then have "done_set ds = {..<length ws}" by (auto simp: done_set_def)
  with 0 show ?case by simp
next
  case (Suc n)
  then have k: "k < length ws" by simp
  then have upt: "[k..<length ws] = k # [Suc k..<length ws]" by (rule upt_conv_Cons)
  show ?case
  proof (cases "ds ! k")
    case True
    then have "k \<in> done_set ds" using k Suc.prems(2) by (simp add: done_set_def)
    with Suc.prems have "\<And>i. i < Suc k \<Longrightarrow> i \<in> done_set ds" by (auto simp: less_Suc_eq)
    with Suc.prems k Suc.hyps(2) show ?thesis
      unfolding upt using Suc.hyps(1) [of "Suc k" ds ss m taken] True by simp
  next
    case False
    then have kV: "k \<notin> done_set ds" by (simp add: done_set_def)
    have "card taken + 1 < 2 ^ 32" using Suc.prems(9) by simp
    from temp_next_spec [OF Suc.prems(7) this inj] obtain r where
      next': "temp_next key tag m taken = Some (temp_name tag r, r + 1, insert (key (temp_name tag r)) taken)"
      and fresh: "key (temp_name tag r) \<notin> taken"
      and temps: "temps_ok key tag (r + 1) (insert (key (temp_name tag r)) taken)" .
    let ?t = "temp_name tag r"
    obtain ss1 ds1 where run: "run_from ws wt (wt ! k) (ss @ [park_step (ws ! k) ?t], ds[k := True]) = (ss1, ds1)"
      by fastforce
    have "fresh_temp key (dom d) ws ?t" using fresh Suc.prems(8) by (auto simp: fresh_temp_def)
    note cyc = run_cycle_spec [OF ok wt Suc.prems(2,3,4,5) k kV this run]
    have "finite taken" using Suc.prems(7) by (simp add: temps_ok_def)
    then have card: "card (insert (key ?t) taken) + (length ws - Suc k) + 1 < 2 ^ 32"
      using Suc.prems(9) fresh k by simp
    have "\<exists>ss'. run_cycles key tag ws wt [Suc k..<length ws] (r + 1) (insert (key ?t) taken)
        (ss1 @ [land_step (ws ! k) ?t], ds1) = Some ss' \<and> reached key ws d ss' {..<length ws} {..<length ws} None"
    proof (rule Suc.hyps(1))
      show "i < Suc k \<Longrightarrow> i \<in> done_set ds1" for i
        using cyc Suc.prems(6) by (cases "i = k") auto
      show "\<exists>j. dep ws i j" if "i < length ws" "i \<notin> done_set ds1" for i
        using Suc.prems(5) [OF that(1)] that(2) cyc by blast
    qed (use cyc temps card Suc.prems(8) Suc.hyps(2) k in auto)
    with next' False run show ?thesis unfolding upt by simp
  qed
qed

lemma order_spec:
  assumes ok: "works_ok key (dom d) ws" and fin: "finite (dom d)"
    and inj: "\<And>m m'. key (temp_name tag m) = key (temp_name tag m') \<Longrightarrow> m = m'"
    and small: "card (dom d) + 2 * length ws + 1 < 2 ^ 32"
  shows "\<exists>ss. order key ws (key ` dom d) tag = Some ss \<and> reached key ws d ss {..<length ws} {..<length ws} None"
proof -
  have dist: "distinct (map w_from_key ws)" "distinct (map w_to_key ws)" using ok by (auto simp: works_ok_def)
  obtain wt bl where dp: "dependencies ws = (wt, bl)" by fastforce
  have "deps_upto ws (length ws) (wt, bl)" using dependencies_spec [OF dist] dp by simp
  then have wt: "\<And>i j. j < length ws \<Longrightarrow> wt ! j = Some i \<longleftrightarrow> dep ws i j"
    and bl: "length bl = length ws" "\<And>i. i < length ws \<Longrightarrow> bl ! i \<longleftrightarrow> (\<exists>j. dep ws i j)"
    unfolding deps_upto_def by (auto simp: dep_def)
  let ?taken = "key ` dom d \<union> w_to_key ` set ws"
  obtain ss ds where ch: "fold (run_chain ws wt) (map (\<lambda>i. (i, bl ! i)) [0..<length ws])
      ([], replicate (length ws) False) = (ss, ds)" by fastforce
  note chains = run_chains_spec [OF ok wt bl order.refl ch]
  have "card ?taken \<le> card (key ` dom d) + card (w_to_key ` set ws)" by (rule card_Un_le)
  also have "\<dots> \<le> card (dom d) + length ws"
    by (intro add_mono card_image_le fin) (metis card_length list.set_map length_map)
  finally have card: "card ?taken + (length ws - 0) + 1 < 2 ^ 32" using small by simp
  have "\<exists>ss'. run_cycles key tag ws wt [0..<length ws] 0 ?taken (ss, ds) = Some ss' \<and>
      reached key ws d ss' {..<length ws} {..<length ws} None"
    by (rule run_cycles_spec [OF ok wt inj]) (use chains card fin in \<open>auto simp: temps_ok_def\<close>)
  moreover have "zip [0..<length ws] bl = map (\<lambda>i. (i, bl ! i)) [0..<length ws]"
    using zip_upt_nth [of bl] bl(1) by simp
  ultimately show ?thesis by (simp add: order_def dp ch)
qed

end
