(* ===== verification/Rename_Batch.thy ===== *)
theory Rename_Batch
  imports Rename_Order
begin

text \<open>
  The planner against its contract. \<open>requested\<close> says what a batch of pairs asks of a directory and
  \<open>acceptable\<close> which batches can be granted, both in terms of files and collision keys only; the
  planner grants exactly the acceptable batches (\<open>plan_executable_iff\<close>), always answers
  (\<open>plan_batch_total\<close>), and the steps it returns do what was asked (\<open>executable_plan_correct\<close>). The
  digest that ties an approval to a plan determines the plan's conclusions
  (\<open>plan_hash_input_exact\<close>).
\<close>

section \<open>What a batch asks for\<close>

text \<open>The file that a name of the request means: the one of exactly that name or, failing that, the
  only one that the directory's equality identifies with it.\<close>

definition meant :: "(bytes \<Rightarrow> bytes) \<Rightarrow> bytes set \<Rightarrow> bytes \<Rightarrow> bytes \<Rightarrow> bool" where
  "meant key S from e \<longleftrightarrow> e \<in> S \<and>
     (e = from \<or> from \<notin> S \<and> key e = key from \<and> (\<forall>e' \<in> S. key e' = key from \<longrightarrow> e' = e))"

definition requested :: "(bytes \<Rightarrow> bytes) \<Rightarrow> (bytes \<times> bytes) list \<Rightarrow> 'f dir \<Rightarrow> 'f dir \<Rightarrow> bool" where
  "requested key pairs d d' \<longleftrightarrow> (\<forall>name f. d' name = Some f \<longleftrightarrow>
     d name = Some f \<and> (\<nexists>from to. (from, to) \<in> set pairs \<and> meant key (dom d) from name) \<or>
     (\<exists>from e. (from, name) \<in> set pairs \<and> meant key (dom d) from e \<and> d e = Some f))"

lemma singleton_list: "distinct xs \<Longrightarrow> xs = [x] \<longleftrightarrow> set xs = {x}"
proof
  assume "distinct xs" "set xs = {x}"
  then have "length xs = 1" by (metis distinct_card card.empty card_insert_disjoint empty_iff finite.emptyI One_nat_def)
  with \<open>set xs = {x}\<close> show "xs = [x]" by (cases xs) auto
qed simp

lemma disk_Some:
  assumes l: "listing_ok key S l"
  shows "disk key l from = Some e \<longleftrightarrow> meant key S from e"
proof (cases "from \<in> S")
  case True
  then show ?thesis using listing_okD(1) [OF l] by (auto simp: disk_def resolve_def meant_def)
next
  case False
  then have ne: "from \<notin> exact l" using listing_okD(1) [OF l] by simp
  show ?thesis
  proof (cases "map_of (folded l) (key from)")
    case None
    then have "\<not> meant key S from e" using listing_okD(2) [OF l None] False by (auto simp: meant_def)
    with None ne show ?thesis by (simp add: disk_def resolve_def)
  next
    case (Some ts)
    note ts = listing_okD(3) [OF l Some]
    have "disk key l from = Some e \<longleftrightarrow> ts = [e]"
      using Some ne by (auto simp: disk_def resolve_def split: list.splits resolved.splits)
    also have "\<dots> \<longleftrightarrow> set ts = {e}"
      using ts by (intro singleton_list) auto
    also have "\<dots> \<longleftrightarrow> meant key S from e" using ts False by (auto simp: meant_def)
    finally show ?thesis .
  qed
qed

text \<open>The pairs of an accepted batch, as moves between names.\<close>

definition asked :: "(bytes \<Rightarrow> bytes) \<Rightarrow> (bytes \<times> bytes) list \<Rightarrow> bytes set \<Rightarrow> (bytes \<times> bytes) set" where
  "asked key pairs S = {(e, to). \<exists>from. (from, to) \<in> set pairs \<and> meant key S from e}"

lemma meant_key: "meant key S from e \<Longrightarrow> key e = key from"
  by (auto simp: meant_def)

lemma asked_unique:
  assumes keys: "distinct (map (\<lambda>(i, from, to). key from) (zip [0..<length pairs] pairs))"
    and "(e, t) \<in> asked key pairs S" "(e, t') \<in> asked key pairs S"
  shows "t = t'"
proof -
  obtain f f' where m: "(f, t) \<in> set pairs" "meant key S f e" "(f', t') \<in> set pairs" "meant key S f' e"
    using assms(2,3) unfolding asked_def by blast
  note f = m(1) meant_key [OF m(2), symmetric] m(3) meant_key [OF m(4), symmetric]
  have "map (\<lambda>(i, from, to). key from) (zip [0..<length pairs] pairs) = map (\<lambda>(from, to). key from) pairs"
    by (rule nth_equalityI) (auto split: prod.splits)
  with keys have "inj_on (\<lambda>(from, to). key from) (set pairs)" by (simp add: distinct_map)
  from inj_onD [OF this _ f(1,3)] f(2,4) show ?thesis by simp
qed

lemma works_asked:
  assumes l: "listing_ok key S l" and st: "classified key l (zip [0..<length pairs] pairs) st"
  shows "(\<lambda>w. (w_from w, w_to w)) ` set (works st) = {(e, to). (e, to) \<in> asked key pairs S \<and> e \<noteq> to}"
proof -
  let ?ips = "zip [0..<length pairs] pairs"
  have ws: "works st = map (work_of key l) (moves key l ?ips)"
    and res: "list_all (\<lambda>(i, from, to). disk key l from \<noteq> None) ?ips"
    using st unfolding classified_def by blast+
  have "set pairs = snd ` set ?ips" by (metis list.set_map map_snd_zip length_upt diff_zero)
  then have pairs: "(f, t) \<in> set pairs \<longleftrightarrow> (\<exists>i. (i, f, t) \<in> set ?ips)" for f t by force
  have "(e, to) \<in> (\<lambda>w. (w_from w, w_to w)) ` set (works st) \<longleftrightarrow>
      (\<exists>i f. (i, f, to) \<in> set ?ips \<and> disk key l f = Some e \<and> e \<noteq> to)" for e to
  proof
    assume "(e, to) \<in> (\<lambda>w. (w_from w, w_to w)) ` set (works st)"
    then obtain i f where x: "(i, f, to) \<in> set ?ips" "disk key l f \<noteq> Some to" "e = the (disk key l f)"
      by (auto simp: ws moves_def work_of_def)
    moreover have "disk key l f \<noteq> None" using res x(1) by (auto simp: list_all_iff)
    ultimately have "disk key l f = Some e \<and> e \<noteq> to" by auto
    with x(1) show "\<exists>i f. (i, f, to) \<in> set ?ips \<and> disk key l f = Some e \<and> e \<noteq> to" by blast
  next
    assume "\<exists>i f. (i, f, to) \<in> set ?ips \<and> disk key l f = Some e \<and> e \<noteq> to"
    then obtain i f where x: "(i, f, to) \<in> set ?ips" "disk key l f = Some e" "e \<noteq> to" by blast
    then have "work_of key l (i, f, to) \<in> set (works st)" by (auto simp: ws moves_def)
    from imageI [OF this, of "\<lambda>w. (w_from w, w_to w)"] x(2)
    show "(e, to) \<in> (\<lambda>w. (w_from w, w_to w)) ` set (works st)" by (simp add: work_of_def)
  qed
  then have "(e, to) \<in> (\<lambda>w. (w_from w, w_to w)) ` set (works st) \<longleftrightarrow> (e, to) \<in> asked key pairs S \<and> e \<noteq> to" for e to
    unfolding asked_def pairs disk_Some [OF l] by blast
  then show ?thesis by (intro set_eqI) (simp only: split_paired_all mem_Collect_eq case_prod_conv)
qed

lemma image_nth: "(\<lambda>i. f (xs ! i)) ` {..<length xs} = f ` set xs"
  by (force simp: set_conv_nth)

lemma bex_nth: "(\<exists>i \<in> {..<length xs}. P (xs ! i)) \<longleftrightarrow> (\<exists>x \<in> set xs. P x)"
  by (metis in_set_conv_nth lessThan_iff)

lemma fst_moves: "x \<in> fst ` {(e, to). (e, to) \<in> A \<and> e \<noteq> to} \<longleftrightarrow> (\<exists>to. (x, to) \<in> A \<and> x \<noteq> to)"
  by force

lemma requested_asked: "requested key pairs d d' \<longleftrightarrow> (\<forall>name f. d' name = Some f \<longleftrightarrow>
    d name = Some f \<and> (\<nexists>to. (name, to) \<in> asked key pairs (dom d)) \<or>
    (\<exists>e. (e, name) \<in> asked key pairs (dom d) \<and> d e = Some f))"
proof -
  have 1: "(\<exists>to. (name, to) \<in> asked key pairs (dom d)) \<longleftrightarrow> (\<exists>from to. (from, to) \<in> set pairs \<and> meant key (dom d) from name)" for name
    unfolding asked_def by blast
  have 2: "(\<exists>e. (e, name) \<in> asked key pairs (dom d) \<and> d e = Some f) \<longleftrightarrow> 
    (\<exists>from e. (from, name) \<in> set pairs \<and> meant key (dom d) from e \<and> d e = Some f)" for name f
    unfolding asked_def by blast
  show ?thesis unfolding requested_def 1 2 ..
qed

lemma final_requested:
  assumes l: "listing_ok key (dom d) l" and c: "classify key pairs l = (ws, [])"
    and d': "at_state ws d {..<length ws} {..<length ws} None d'"
  shows "requested key pairs d d'"
proof -
  obtain st where st: "classified key l (zip [0..<length pairs] pairs) st" "ws = works st"
    using classify_Nil [OF c] by blast
  define A where "A = asked key pairs (dom d)"
  have ws: "(\<lambda>w. (w_from w, w_to w)) ` set ws = {(e, to). (e, to) \<in> A \<and> e \<noteq> to}"
    using works_asked [OF l st(1)] by (simp add: st(2) A_def)
  have uniq: "t = t'" if "(e, t) \<in> A" "(e, t') \<in> A" for e t t'
    using that st(1) asked_unique [of key pairs e t "dom d" t'] by (simp add: A_def classified_def)
  have froms: "name \<in> (\<lambda>i. w_from (ws ! i)) ` {..<length ws} \<longleftrightarrow> (\<exists>to. (name, to) \<in> A \<and> name \<noteq> to)" for name
  proof -
    have "(\<lambda>i. w_from (ws ! i)) ` {..<length ws} = fst ` (\<lambda>w. (w_from w, w_to w)) ` set ws"
      unfolding image_nth image_image fst_conv ..
    also have "\<dots> = fst ` {(e, to). (e, to) \<in> A \<and> e \<noteq> to}" by (simp only: ws)
    finally show ?thesis by (simp only: fst_moves)
  qed
  have tos: "(\<exists>i \<in> {..<length ws}. w_to (ws ! i) = name \<and> d (w_from (ws ! i)) = Some f) \<longleftrightarrow>
      (\<exists>e. (e, name) \<in> A \<and> e \<noteq> name \<and> d e = Some f)" for name f
  proof -
    have "(\<exists>i \<in> {..<length ws}. w_to (ws ! i) = name \<and> d (w_from (ws ! i)) = Some f) \<longleftrightarrow>
        (\<exists>(e, to) \<in> (\<lambda>w. (w_from w, w_to w)) ` set ws. to = name \<and> d e = Some f)"
      using bex_nth [of ws "\<lambda>w. w_to w = name \<and> d (w_from w) = Some f"] by simp
    also have "\<dots> \<longleftrightarrow> (\<exists>e. (e, name) \<in> A \<and> e \<noteq> name \<and> d e = Some f)" unfolding ws by blast
    finally show ?thesis .
  qed
  have "d' name = Some f \<longleftrightarrow>
      d name = Some f \<and> (\<nexists>to. (name, to) \<in> A) \<or> (\<exists>e. (e, name) \<in> A \<and> d e = Some f)" for name f
  proof -
    have "d' name = Some f \<longleftrightarrow> d name = Some f \<and> (\<nexists>to. (name, to) \<in> A \<and> name \<noteq> to) \<or>
        (\<exists>e. (e, name) \<in> A \<and> e \<noteq> name \<and> d e = Some f)"
      using d' [unfolded at_state_def froms tos] by simp
    with uniq show ?thesis by blast
  qed
  then show ?thesis unfolding requested_asked A_def by blast
qed

lemma requested_ran:
  assumes "requested key pairs d d'"
  shows "ran d' = ran d"
proof -
  have d': "d' name = Some f \<longleftrightarrow>
      d name = Some f \<and> (\<nexists>to. (name, to) \<in> asked key pairs (dom d)) \<or>
      (\<exists>e. (e, name) \<in> asked key pairs (dom d) \<and> d e = Some f)" for name f
    using assms unfolding requested_asked by blast
  have "f \<in> ran d' \<longleftrightarrow> f \<in> ran d" for f unfolding ran_def mem_Collect_eq d' by blast
  then show ?thesis by blast
qed

lemma classify_length:
  assumes "classify key pairs l = (ws, [])"
  shows "length ws \<le> length pairs"
proof -
  obtain st where "classified key l (zip [0..<length pairs] pairs) st" "ws = works st"
    using classify_Nil [OF assms] by blast
  then have "length ws = length (moves key l (zip [0..<length pairs] pairs))" by (simp add: classified_def)
  also have "\<dots> \<le> length (zip [0..<length pairs] pairs)" unfolding moves_def by (rule length_filter_le)
  finally show ?thesis by simp
qed

text \<open>The second pass succeeds on what the first accepts, for a listing and a batch of fewer than
  $2^{32}$ names together.\<close>

lemma accepted_order:
  assumes u: "unicode_ascii u" and dom: "set entries = dom d"
    and small: "length entries + 2 * length pairs + 1 < 2 ^ 32"
    and key: "key = (\<lambda>name. name_key u name mode)" and l: "l = Listing_index key entries"
    and c: "classify key pairs l = (ws, [])"
  obtains ss d' where "order key ws (into_keys l) (intent_tag sha mode pairs) = Some ss"
    "run_steps key ss d = Some d'" "requested key pairs d d'"
proof -
  have ok: "listing_ok key (dom d) l" using listing_ok_index dom l by metis
  have works: "works_ok key (dom d) ws" by (rule classify_works_ok [OF ok c])
  have fin: "finite (dom d)" using dom by (metis List.finite_set)
  have "card (dom d) \<le> length entries" using dom card_length by metis
  then have "card (dom d) + 2 * length ws + 1 < 2 ^ 32" using classify_length [OF c] small by linarith
  moreover have "m = m'" if "key (temp_name (intent_tag sha mode pairs) m) = key (temp_name (intent_tag sha mode pairs) m')" for m m'
    using temp_name_key_inj [OF u] that unfolding key .
  ultimately obtain ss where ss: "order key ws (key ` dom d) (intent_tag sha mode pairs) = Some ss"
    and reach: "reached key ws d ss {..<length ws} {..<length ws} None"
    using order_spec [OF works fin] by blast
  obtain d' where "run_steps key ss d = Some d'" "at_state ws d {..<length ws} {..<length ws} None d'"
    using reach by (auto simp: reached_def)
  with final_requested [OF ok c this(2)] ss into_keys_eq [OF ok] show thesis by (intro that) auto
qed

lemma plan_batch_cases:
  assumes "plan_batch u sha mode pairs entries = Some p"
  obtains (refused) "collisions p \<noteq> []" "steps p = []"
      "snd (classify (\<lambda>name. name_key u name mode) pairs (Listing_index (\<lambda>name. name_key u name mode) entries)) = collisions p"
  | (accepted) ws where "collisions p = []"
      "classify (\<lambda>name. name_key u name mode) pairs (Listing_index (\<lambda>name. name_key u name mode) entries) = (ws, [])"
      "order (\<lambda>name. name_key u name mode) ws (into_keys (Listing_index (\<lambda>name. name_key u name mode) entries))
        (intent_tag sha mode pairs) = Some (steps p)"
proof -
  obtain ws cs where c: "classify (\<lambda>name. name_key u name mode) pairs (Listing_index (\<lambda>name. name_key u name mode) entries) = (ws, cs)"
    by fastforce
  show thesis
  proof (cases "cs = []")
    case False
    then show thesis using assms c by (intro refused) (auto simp: plan_batch_def)
  next
    case True
    then show thesis using assms c by (intro accepted [of ws]) (auto simp: plan_batch_def Let_def split: option.splits)
  qed
qed

section \<open>Which batches are accepted\<close>

definition moving :: "(bytes \<Rightarrow> bytes) \<Rightarrow> bytes set \<Rightarrow> (bytes \<times> bytes) list \<Rightarrow> (bytes \<times> bytes) list" where
  "moving key S pairs = filter (\<lambda>(from, to). \<not> meant key S from to) pairs"

text \<open>Every source means a file, no two sources share a collision key, no two destinations of the
  pairs that move do, and whatever stands in the slot of a destination moves too.\<close>

definition acceptable :: "(bytes \<Rightarrow> bytes) \<Rightarrow> bytes set \<Rightarrow> (bytes \<times> bytes) list \<Rightarrow> bool" where
  "acceptable key S pairs \<longleftrightarrow>
     (\<forall>(from, to) \<in> set pairs. \<exists>e. meant key S from e) \<and>
     distinct (map (\<lambda>(from, to). key from) pairs) \<and>
     distinct (map (\<lambda>(from, to). key to) (moving key S pairs)) \<and>
     (\<forall>(from, to) \<in> set (moving key S pairs). \<forall>e \<in> S. key e = key to \<longrightarrow>
        (\<exists>(f, t) \<in> set (moving key S pairs). meant key S f e))"

text \<open>The conditions of the first pass on a prefix of the batch, with the positions of the pairs.\<close>

definition admitted :: "(bytes \<Rightarrow> bytes) \<Rightarrow> listing \<Rightarrow> (nat \<times> bytes \<times> bytes) list \<Rightarrow> bool" where
  "admitted key l ips \<longleftrightarrow>
     list_all (\<lambda>(i, from, to). disk key l from \<noteq> None) ips \<and>
     distinct (map (\<lambda>(i, from, to). key from) ips) \<and>
     distinct (map (\<lambda>(i, from, to). key to) (moves key l ips))"

lemma works_to_keys: "map w_to_key (map (work_of key l) ips) = map (\<lambda>(i, from, to). key to) ips"
  by (auto simp: work_of_def)

lemma classified_admitted: "classified key l ips st \<Longrightarrow> admitted key l ips"
  unfolding classified_def admitted_def by (metis works_to_keys)

lemma admitted_rejected:
  "admitted key l ips \<Longrightarrow> rejected (fold (classify_pair key l) ips classifier_new) = []"
proof (induction ips rule: rev_induct)
  case Nil
  show ?case by (simp add: classifier_new_def)
next
  case (snoc x ips)
  obtain i f t where x: "x = (i, f, t)" by (cases x)
  let ?st = "fold (classify_pair key l) ips classifier_new"
  have adm: "admitted key l ips" using snoc.prems by (auto simp: admitted_def moves_def)
  then have rej: "rejected ?st = []" by (rule snoc.IH)
  from classified_fold [OF this] have st: "classified key l ips ?st" .
  obtain d where d: "resolve l f (key f) = One d" "disk key l f = Some d"
    using snoc.prems x by (auto simp: admitted_def disk_def split: resolved.splits)
  have "key f \<notin> spoken_for ?st"
    using st snoc.prems x unfolding classified_def admitted_def by auto
  moreover have "key t \<notin> claimed_dests ?st" if "d \<noteq> t"
  proof -
    have "claimed_dests ?st = set (map (\<lambda>(i, from, to). key to) (moves key l ips))"
      using st unfolding classified_def by (metis works_to_keys list.set_map)
    moreover have "moves key l (ips @ [x]) = moves key l ips @ [x]" using that d(2) x by (simp add: moves_def)
    ultimately show ?thesis using snoc.prems x unfolding admitted_def by auto
  qed
  ultimately have "rejected (classify_pair key l x ?st) = rejected ?st"
    using d(1) x by (auto simp: classify_pair_def Let_def)
  with rej show ?case by simp
qed

lemma blocker_free:
  assumes "listing_ok key S l" "\<And>e. e \<in> S \<Longrightarrow> key e = k \<Longrightarrow> e \<in> vac"
  shows "blocker l name k vac = None"
proof (cases "map_of (folded l) k")
  case (Some ts)
  then have "set ts \<subseteq> vac" using listing_okD(3) [OF assms(1) Some] assms(2) by blast
  with Some show ?thesis by (simp add: blocker_def blocker_loop_None)
qed (simp add: blocker_def)

lemma blocker_None_iff:
  assumes "listing_ok key S l"
  shows "blocker l name k vac = None \<longleftrightarrow> (\<forall>e \<in> S. key e = k \<longrightarrow> e \<in> vac)"
proof
  assume "blocker l name k vac = None"
  from blocker_None [OF assms this] show "\<forall>e \<in> S. key e = k \<longrightarrow> e \<in> vac" by blast
next
  assume "\<forall>e \<in> S. key e = k \<longrightarrow> e \<in> vac"
  then show "blocker l name k vac = None" by (intro blocker_free [OF assms]) blast
qed

lemma ball_moves:
  "(\<forall>(e, to) \<in> {(e, to). (e, to) \<in> A \<and> e \<noteq> to}. P to) \<longleftrightarrow> (\<forall>(e, to) \<in> A. e \<noteq> to \<longrightarrow> P to)"
  by auto

lemma external_accepts:
  assumes l: "listing_ok key S l" and st: "classified key l (zip [0..<length pairs] pairs) st"
  shows "external_collisions l st = [] \<longleftrightarrow> (\<forall>(e, to) \<in> asked key pairs S. e \<noteq> to \<longrightarrow>
    (\<forall>e' \<in> S. key e' = key to \<longrightarrow> (\<exists>to'. (e', to') \<in> asked key pairs S \<and> e' \<noteq> to')))"
proof -
  define A where "A = {(e, to). (e, to) \<in> asked key pairs S \<and> e \<noteq> to}"
  have A: "(\<lambda>w. (w_from w, w_to w)) ` set (works st) = A" unfolding A_def by (rule works_asked [OF l st])
  have vac: "vacated st = fst ` A"
    using st unfolding classified_def A [symmetric] image_image fst_conv by blast
  have keys: "\<forall>w \<in> set (works st). w_to_key w = key (w_to w)"
    using st unfolding classified_def by (auto simp: work_of_def)
  have "external_collisions l st = [] \<longleftrightarrow>
      (\<forall>w \<in> set (works st). \<forall>e' \<in> S. key e' = key (w_to w) \<longrightarrow> e' \<in> vacated st)"
    using keys by (simp add: external_collisions_Nil blocker_None_iff [OF l])
  also have "\<dots> \<longleftrightarrow> (\<forall>(e, to) \<in> (\<lambda>w. (w_from w, w_to w)) ` set (works st).
      \<forall>e' \<in> S. key e' = key to \<longrightarrow> e' \<in> vacated st)"
    by simp
  finally show ?thesis unfolding vac A unfolding A_def fst_moves
    ball_moves [where P = "\<lambda>to. \<forall>e' \<in> S. key e' = key to \<longrightarrow> (\<exists>to'. (e', to') \<in> asked key pairs S \<and> e' \<noteq> to')"] .
qed

lemma classify_accepts:
  assumes l: "listing_ok key S l"
  shows "snd (classify key pairs l) = [] \<longleftrightarrow> admitted key l (zip [0..<length pairs] pairs) \<and>
    (\<forall>(e, to) \<in> asked key pairs S. e \<noteq> to \<longrightarrow> (\<forall>e' \<in> S. key e' = key to \<longrightarrow>
       (\<exists>to'. (e', to') \<in> asked key pairs S \<and> e' \<noteq> to')))"
proof -
  let ?ips = "zip [0..<length pairs] pairs"
  let ?st = "fold (classify_pair key l) ?ips classifier_new"
  have nil: "snd (classify key pairs l) = [] \<longleftrightarrow> rejected ?st = [] \<and> external_collisions l ?st = []"
    by (simp add: classify_def Let_def) (metis append_is_Nil_conv length_0_conv length_sort)
  have rej: "rejected ?st = [] \<longleftrightarrow> admitted key l ?ips"
    using classified_fold classified_admitted admitted_rejected by blast
  show ?thesis
  proof (cases "rejected ?st = []")
    case True
    from nil rej True external_accepts [OF l classified_fold [OF True]] show ?thesis by simp
  qed (use nil rej in simp)
qed


lemma zip_keys: "map (\<lambda>(i, x). f x) (zip [0..<length xs] xs) = map f xs"
  by (rule nth_equalityI) auto

lemma zip_filter: "map snd (filter (\<lambda>(i, x). P x) (zip [0..<length xs] xs)) = filter P xs"
proof -
  have "filter P (map snd (zip [0..<length xs] xs)) = map snd (filter (P \<circ> snd) (zip [0..<length xs] xs))"
    by (rule filter_map)
  then show ?thesis by (simp add: case_prod_unfold comp_def)
qed

lemma admitted_acceptable:
  assumes l: "listing_ok key S l"
  shows "admitted key l (zip [0..<length pairs] pairs) \<longleftrightarrow>
    (\<forall>(from, to) \<in> set pairs. \<exists>e. meant key S from e) \<and>
    distinct (map (\<lambda>(from, to). key from) pairs) \<and>
    distinct (map (\<lambda>(from, to). key to) (moving key S pairs))"
proof -
  let ?ips = "zip [0..<length pairs] pairs"
  have dk: "disk key l from = None \<longleftrightarrow> (\<nexists>e. meant key S from e)" for "from"
    unfolding disk_Some [OF l, symmetric] by (cases "disk key l from") auto
  have "map (\<lambda>(i, from, to). key to) (moves key l ?ips) = map (\<lambda>(from, to). key to) (map snd (moves key l ?ips))"
    by (simp add: case_prod_unfold)
  also have "map snd (moves key l ?ips) = moving key S pairs"
    unfolding moves_def moving_def disk_Some [OF l] by (rule zip_filter)
  finally have mv: "map (\<lambda>(i, from, to). key to) (moves key l ?ips) = map (\<lambda>(from, to). key to) (moving key S pairs)"
    .
  have ps: "set pairs = snd ` set ?ips" by (metis list.set_map map_snd_zip length_upt diff_zero)
  have "list_all (\<lambda>(i, from, to). disk key l from \<noteq> None) ?ips \<longleftrightarrow> (\<forall>(from, to) \<in> set pairs. \<exists>e. meant key S from e)"
    unfolding ps list_all_iff dk by (simp add: case_prod_unfold)
  moreover have "map (\<lambda>(i, from, to). key from) ?ips = map (\<lambda>(from, to). key from) pairs" by (rule zip_keys)
  ultimately show ?thesis unfolding admitted_def mv by simp
qed

lemma meant_unique: "meant key S from e \<Longrightarrow> meant key S from e' \<Longrightarrow> e = e'"
  by (auto simp: meant_def)

lemma asked_moving:
  assumes "(from, to) \<in> set pairs" "meant key S from e"
  shows "(from, to) \<in> set (moving key S pairs) \<longleftrightarrow> e \<noteq> to"
proof -
  have "meant key S from to \<longleftrightarrow> e = to" using assms(2) meant_unique [OF assms(2), of to] by blast
  with assms(1) show ?thesis by (simp add: moving_def)
qed

lemma asked_to_moving:
  assumes "\<forall>(from, to) \<in> set pairs. \<exists>e. meant key S from e"
  shows "(\<exists>e. (e, to) \<in> asked key pairs S \<and> e \<noteq> to) \<longleftrightarrow> (\<exists>from. (from, to) \<in> set (moving key S pairs))"
proof
  assume "\<exists>e. (e, to) \<in> asked key pairs S \<and> e \<noteq> to"
  then obtain e f where "(f, to) \<in> set pairs" "meant key S f e" "e \<noteq> to" unfolding asked_def by blast
  with asked_moving [OF this(1,2)] show "\<exists>from. (from, to) \<in> set (moving key S pairs)" by blast
next
  assume "\<exists>from. (from, to) \<in> set (moving key S pairs)"
  then obtain f where f: "(f, to) \<in> set (moving key S pairs)" by blast
  then have p: "(f, to) \<in> set pairs" by (simp add: moving_def)
  then obtain e where e: "meant key S f e" using assms by blast
  then have "e \<noteq> to" using asked_moving [OF p e] f by blast
  with p e show "\<exists>e. (e, to) \<in> asked key pairs S \<and> e \<noteq> to" unfolding asked_def by blast
qed

lemma asked_from_moving:
  "(\<exists>to. (e, to) \<in> asked key pairs S \<and> e \<noteq> to) \<longleftrightarrow> (\<exists>(f, t) \<in> set (moving key S pairs). meant key S f e)"
proof
  assume "\<exists>to. (e, to) \<in> asked key pairs S \<and> e \<noteq> to"
  then obtain f t where "(f, t) \<in> set pairs" "meant key S f e" "e \<noteq> t" unfolding asked_def by blast
  with asked_moving [OF this(1,2)] show "\<exists>(f, t) \<in> set (moving key S pairs). meant key S f e" by blast
next
  assume "\<exists>(f, t) \<in> set (moving key S pairs). meant key S f e"
  then obtain f t where ft: "(f, t) \<in> set (moving key S pairs)" and m: "meant key S f e" by blast
  then have p: "(f, t) \<in> set pairs" by (simp add: moving_def)
  with asked_moving [OF p m] ft have "e \<noteq> t" by blast
  with p m show "\<exists>to. (e, to) \<in> asked key pairs S \<and> e \<noteq> to" unfolding asked_def by blast
qed

lemma ball_snd_iff:
  assumes "\<And>to. (\<exists>e. (e, to) \<in> A \<and> e \<noteq> to) \<longleftrightarrow> (\<exists>from. (from, to) \<in> B)"
  shows "(\<forall>(e, to) \<in> A. e \<noteq> to \<longrightarrow> Q to) \<longleftrightarrow> (\<forall>(from, to) \<in> B. Q to)"
  unfolding Ball_def split_paired_All prod.case using assms by metis

lemma classify_acceptable:
  assumes l: "listing_ok key S l"
  shows "snd (classify key pairs l) = [] \<longleftrightarrow> acceptable key S pairs"
proof (cases "\<forall>(from, to) \<in> set pairs. \<exists>e. meant key S from e")
  case True
  have "(\<forall>(e, to) \<in> asked key pairs S. e \<noteq> to \<longrightarrow> Q to) \<longleftrightarrow> (\<forall>(from, to) \<in> set (moving key S pairs). Q to)" for Q
    using ball_snd_iff [of "asked key pairs S" "set (moving key S pairs)" Q, OF asked_to_moving [OF True]] .
  then show ?thesis
    unfolding classify_accepts [OF l] admitted_acceptable [OF l] acceptable_def asked_from_moving by (simp only: conj_assoc)
next
  case False
  then show ?thesis unfolding classify_accepts [OF l] admitted_acceptable [OF l] acceptable_def
    by (simp only: simp_thms)
qed

lemma plan_batch_answers:
  assumes "unicode_ascii u" "length entries + 2 * length pairs + 1 < 2 ^ 32"
  obtains p where "plan_batch u sha mode pairs entries = Some p"
proof -
  let ?key = "\<lambda>name. name_key u name mode"
  obtain ws cs where c: "classify ?key pairs (Listing_index ?key entries) = (ws, cs)" by fastforce
  show thesis
  proof (cases "cs = []")
    case False
    with c show thesis by (intro that) (simp add: plan_batch_def)
  next
    case True
    let ?d = "\<lambda>e. if e \<in> set entries then Some () else None"
    have "set entries = dom ?d" by (auto split: if_splits)
    from accepted_order [OF assms(1) this assms(2) refl refl, of mode ws sha] c True
    obtain ss where "order ?key ws (into_keys (Listing_index ?key entries)) (intent_tag sha mode pairs) = Some ss"
      by blast
    with c True show thesis by (intro that) (simp add: plan_batch_def)
  qed
qed

lemma plan_batch_executable:
  assumes "plan_batch u sha mode pairs entries = Some p"
  shows "executable p \<longleftrightarrow> acceptable (\<lambda>name. name_key u name mode) (set entries) pairs"
    "\<not> executable p \<Longrightarrow> steps p = []"
proof -
  have acc: "snd (classify (\<lambda>name. name_key u name mode) pairs (Listing_index (\<lambda>name. name_key u name mode) entries)) = []
      \<longleftrightarrow> acceptable (\<lambda>name. name_key u name mode) (set entries) pairs"
    by (rule classify_acceptable [OF listing_ok_index])
  show "executable p \<longleftrightarrow> acceptable (\<lambda>name. name_key u name mode) (set entries) pairs"
    using assms by (cases rule: plan_batch_cases) (use acc in \<open>auto simp: executable_def\<close>)
  show "\<not> executable p \<Longrightarrow> steps p = []"
    using assms by (cases rule: plan_batch_cases) (auto simp: executable_def)
qed

section \<open>The digested text\<close>

lemma same_step_codes:
  "list_all2 same_step ss ss' \<Longrightarrow>
   map (\<lambda>s. feed (step_from s) @ feed (step_to s) @ feed [char_of (if step_temp s then 1 else 0 :: nat)]) ss =
   map (\<lambda>s. feed (step_from s) @ feed (step_to s) @ feed [char_of (if step_temp s then 1 else 0 :: nat)]) ss'"
  by (induction rule: list_all2_induct) (auto simp: same_step_def)

lemma feed_count_append_inj:
  assumes "feed (le_bytes 8 m) @ x = feed (le_bytes 8 n) @ y" "m < 2 ^ 64" "n < 2 ^ 64"
  shows "m = n \<and> x = y"
proof -
  have "le_bytes 8 m = le_bytes 8 n \<and> x = y" using assms(1) by (intro feed_append_inj) simp_all
  with le_bytes_inj [of 8 m n] assms(2,3) show ?thesis by simp
qed

lemma plan_hash_input_split:
  assumes eq: "plan_hash_input mode ss cs = plan_hash_input mode' ss' cs'"
    and len: "length ss < 2 ^ 64" "length ss' < 2 ^ 64" "length cs < 2 ^ 64" "length cs' < 2 ^ 64"
    and small: "list_all step_small ss" "list_all step_small ss'"
      "list_all collision_small cs" "list_all collision_small cs'"
  shows "mode = mode' \<and> list_all2 same_step ss ss' \<and> cs = cs'"
proof -
  let ?S = "\<lambda>s. feed (step_from s) @ feed (step_to s) @ feed [char_of (if step_temp s then 1 else 0 :: nat)]"
  let ?C = "\<lambda>c. feed (col_name c) @ feed [char_of (kind_tag (col_kind c))] @ feed (le_bytes 4 (col_pair c))"
  let ?cs = "feed (le_bytes 8 (length cs)) @ concat (map ?C cs)"
  let ?cs' = "feed (le_bytes 8 (length cs')) @ concat (map ?C cs')"
  have 1: "(char_of (fold_byte mode) :: byte) = char_of (fold_byte mode') \<and>
      feed (le_bytes 8 (length ss)) @ concat (map ?S ss) @ ?cs = feed (le_bytes 8 (length ss')) @ concat (map ?S ss') @ ?cs'"
    using eq unfolding plan_hash_input_def by (intro feed_byte_append_inj) simp
  have "fold_byte m < 256" for m by (cases m) auto
  with 1 have "mode = mode'" by (intro fold_byte_inj char_of_inj) auto
  moreover have 2: "length ss = length ss' \<and> concat (map ?S ss) @ ?cs = concat (map ?S ss') @ ?cs'"
    using 1 len(1,2) by (intro feed_count_append_inj) auto
  moreover have 3: "list_all2 same_step ss ss' \<and> ?cs = ?cs'"
  proof (rule concat_prefix_inj)
    fix a b x y
    assume "a \<in> set ss" "b \<in> set ss'" "?S a @ x = ?S b @ y"
    then show "same_step a b \<and> x = y"
      using small(1,2) by (intro step_code_inj) (auto simp: list_all_iff)
  qed (use 2 in auto)
  moreover have 4: "length cs = length cs' \<and> concat (map ?C cs) = concat (map ?C cs')"
    using 3 len(3,4) by (intro feed_count_append_inj) auto
  moreover have "list_all2 (=) cs cs' \<and> [] = ([] :: bytes)"
  proof (rule concat_prefix_inj)
    fix a b x y
    assume "a \<in> set cs" "b \<in> set cs'" "?C a @ x = ?C b @ y"
    then show "a = b \<and> x = y"
      using small(3,4) by (intro collision_code_inj) (auto simp: list_all_iff)
  qed (use 4 in auto)
  ultimately show ?thesis by (simp add: list.rel_eq)
qed

section \<open>An instance\<close>

text \<open>The exchange of two names, as an instance: granted on every kind of volume.\<close>

definition swap_pairs :: "(bytes \<times> bytes) list" where
  "swap_pairs = [(''a'', ''b''), (''b'', ''a'')]"

lemma swap_keys [simp]: "name_key ascii_tables ''a'' mode = ''a''" "name_key ascii_tables ''b'' mode = ''b''"
  by (rule name_key_plain_ascii [OF ascii_tables_ok(1)]; auto simp: plain_ascii_def)+

lemma swap_meant:
  "meant (\<lambda>name. name_key ascii_tables name mode) {''a'', ''b''} ''a'' e \<longleftrightarrow> e = ''a''"
  "meant (\<lambda>name. name_key ascii_tables name mode) {''a'', ''b''} ''b'' e \<longleftrightarrow> e = ''b''"
  by (auto simp: meant_def)

lemma swap_acceptable:
  "acceptable (\<lambda>name. name_key ascii_tables name mode) {''a'', ''b''} swap_pairs"
proof -
  have "Ex (meant (\<lambda>name. name_key ascii_tables name mode) {''a'', ''b''} ''a'')"
    "Ex (meant (\<lambda>name. name_key ascii_tables name mode) {''a'', ''b''} ''b'')"
    using swap_meant by blast+
  then show ?thesis by (simp add: acceptable_def moving_def swap_pairs_def swap_meant)
qed

lemma swap_plan:
  obtains p where "plan_batch ascii_tables sha mode swap_pairs [''a'', ''b''] = Some p" "executable p"
proof -
  have "length [''a'', ''b''] + 2 * length swap_pairs + 1 < 2 ^ 32" by (simp add: swap_pairs_def)
  from plan_batch_answers [OF ascii_tables_ok(1) this]
  obtain p where p: "plan_batch ascii_tables sha mode swap_pairs [''a'', ''b''] = Some p" .
  with plan_batch_executable(1) [OF p] swap_acceptable show thesis by (intro that) simp_all
qed

section \<open>Properties\<close>

text \<open>C9: an executable plan does what was asked. Take a directory whose names are the listing, and
  a strict rename that refuses to touch any name the directory's equality could identify with the
  destination. Running the steps of the plan in order, every step succeeds; afterwards each pair's
  file stands under its new name, every file that no pair meant is where it was, there is nothing
  else (no temporary is left behind), and no file was lost.\<close>

theorem executable_plan_correct:
  assumes "unicode_ascii u" "set entries = dom d" "length entries + 2 * length pairs + 1 < 2 ^ 32"
    and "plan_batch u sha mode pairs entries = Some p" "executable p"
  shows "\<exists>d'. run_steps (\<lambda>name. name_key u name mode) (steps p) d = Some d' \<and>
    requested (\<lambda>name. name_key u name mode) pairs d d' \<and> ran d' = ran d"
  using assms(4)
proof (cases rule: plan_batch_cases)
  case refused
  with assms(5) show ?thesis by (simp add: executable_def)
next
  case (accepted ws)
  from accepted_order [OF assms(1-3) refl refl accepted(2), of sha] accepted(3) requested_ran
  show ?thesis by (metis option.inject)
qed

theorem executable_plan_correct_witness:
  "\<exists>p d'. plan_batch ascii_tables (\<lambda>bs. bs) Simple swap_pairs [''a'', ''b''] = Some p \<and>
     run_steps (\<lambda>name. name_key ascii_tables name Simple) (steps p) [''a'' \<mapsto> (1 :: nat), ''b'' \<mapsto> 2] = Some d' \<and>
     d' ''a'' = Some 2 \<and> d' ''b'' = Some 1"
proof -
  obtain p where p: "plan_batch ascii_tables (\<lambda>bs. bs) Simple swap_pairs [''a'', ''b''] = Some p" "executable p"
    by (rule swap_plan)
  let ?d = "[''a'' \<mapsto> (1 :: nat), ''b'' \<mapsto> 2]"
  let ?key = "\<lambda>name. name_key ascii_tables name Simple"
  have dom: "set [''a'', ''b''] = dom ?d" by auto
  obtain d' where d': "run_steps ?key (steps p) ?d = Some d'" "requested ?key swap_pairs ?d d'"
    using executable_plan_correct [OF ascii_tables_ok(1) dom _ p] by (auto simp: swap_pairs_def)
  have dom': "dom ?d = {''a'', ''b''}" by auto
  have "d' ''a'' = Some 2" "d' ''b'' = Some 1"
    using d'(2) unfolding requested_def dom' by (auto simp: swap_pairs_def swap_meant)
  with p(1) d'(1) show ?thesis by blast
qed

text \<open>C26: the planner answers on every input of fewer than $2^{32}$ names (the counter of the
  temporary names does not overflow), and a batch with any collision gets no step at all.\<close>

theorem plan_batch_total:
  assumes "unicode_ascii u" "length entries + 2 * length pairs + 1 < 2 ^ 32"
  shows "\<exists>p. plan_batch u sha mode pairs entries = Some p \<and> (executable p \<or> steps p = [])"
  using plan_batch_answers [OF assms] plan_batch_executable(2) by metis

theorem plan_batch_total_witness:
  "\<exists>p. plan_batch ascii_tables (\<lambda>bs. bs) Simple [(''a'', ''b'')] [''b''] = Some p \<and> (executable p \<or> steps p = [])"
  by (rule plan_batch_total [OF ascii_tables_ok(1)]) simp

text \<open>C10: the planner refuses exactly what must be refused. A plan is executable if and only if every
  source means a file, no two sources and no two moving destinations share a collision key, and
  every file in the slot of a destination is itself moved away.\<close>

theorem plan_executable_iff:
  assumes "plan_batch u sha mode pairs entries = Some p"
  shows "executable p \<longleftrightarrow> acceptable (\<lambda>name. name_key u name mode) (set entries) pairs"
  by (rule plan_batch_executable(1) [OF assms])

theorem plan_executable_iff_witness:
  "\<exists>p. plan_batch ascii_tables (\<lambda>bs. bs) Simple swap_pairs [''a'', ''b''] = Some p \<and> executable p"
proof -
  obtain p where p: "plan_batch ascii_tables (\<lambda>bs. bs) Simple swap_pairs [''a'', ''b''] = Some p"
    by (rule swap_plan)
  from plan_executable_iff [OF p] swap_acceptable p show ?thesis by auto
qed

text \<open>the text that is digested into a plan's hash determines the conclusions of the plan: the
  fold of the volume, the source, the destination and the temporary mark of every step in order,
  and every collision.\<close>

theorem plan_hash_input_exact:
  assumes "length ss < 2 ^ 64" "length ss' < 2 ^ 64" "length cs < 2 ^ 64" "length cs' < 2 ^ 64"
    and "list_all step_small ss" "list_all step_small ss'"
    and "list_all collision_small cs" "list_all collision_small cs'"
  shows "plan_hash_input mode ss cs = plan_hash_input mode' ss' cs' \<longleftrightarrow>
    mode = mode' \<and> list_all2 same_step ss ss' \<and> cs = cs'"
proof
  assume "plan_hash_input mode ss cs = plan_hash_input mode' ss' cs'"
  from plan_hash_input_split [OF this assms] show "mode = mode' \<and> list_all2 same_step ss ss' \<and> cs = cs'" .
next
  assume "mode = mode' \<and> list_all2 same_step ss ss' \<and> cs = cs'"
  then show "plan_hash_input mode ss cs = plan_hash_input mode' ss' cs'"
    using same_step_codes [of ss ss'] list_all2_lengthD [of same_step ss ss'] by (simp add: plan_hash_input_def)
qed

theorem plan_hash_input_exact_witness:
  "plan_hash_input Simple [park_step (work_of id \<lparr>exact = {''a''}, folded = []\<rparr> (0, ''a'', ''b'')) ''t''] [] \<noteq>
   plan_hash_input Full [park_step (work_of id \<lparr>exact = {''a''}, folded = []\<rparr> (0, ''a'', ''b'')) ''t''] []"
proof -
  let ?s = "park_step (work_of id \<lparr>exact = {''a''}, folded = []\<rparr> (0, ''a'', ''b'')) ''t''"
  have "step_small ?s" by (simp add: step_small_def park_step_def work_of_def disk_def resolve_def)
  then show ?thesis using plan_hash_input_exact [of "[?s]" "[?s]" "[]" "[]" Simple Full] by simp
qed

end
