(* ===== verification/Journal.thy ===== *)
theory Journal
  imports Rename_Plan Policy
begin

text \<open>
  The transactional journal of \<^verbatim>\<open>norte-core/src/journal.rs\<close>: one row per mutation, each with the digest
  of the row before it, a format marker at \<open>seq\<close> 0, undo by compensating rows, compaction of the
  oldest rows onto a recorded base.

  The SQLite file is explicit state. The table \<^verbatim>\<open>journal\<close> is the list of its rows in the order of the
  primary key \<open>seq\<close>; its column names are kept because the open migrates them. A value read with
  \<^verbatim>\<open>try_get\<close> is a \<open>cell\<close>: \<open>Val\<close> when it decodes as the type the code asks for (with \<open>Val None\<close> for
  \<^verbatim>\<open>NULL\<close> in a nullable column) and \<open>Opaque\<close> for a text or a blob that SQLite's dynamic typing let into
  the column. SQL compares cells by value and sorts text and blobs after every integer. SHA-256 is the
  parameter \<open>sha\<close> of the operations that hash, the clock is their parameter \<open>now\<close>, and whether a
  write reaches the disk is the parameter \<open>io\<close> of the operations that write. An \<^verbatim>\<open>i64\<close> is an
  integer whose additions wrap as in the release profile.
\<close>

section \<open>Values and rows\<close>

definition i64 :: "int \<Rightarrow> int" where
  "i64 x = (x + 2 ^ 63) mod 2 ^ 64 - 2 ^ 63"

definition i64_le_bytes :: "int \<Rightarrow> bytes" where
  "i64_le_bytes x = le_bytes 8 (nat (x mod 2 ^ 64))"

datatype 'a cell = Val 'a | Opaque bytes

fun try_get :: "'a cell \<Rightarrow> 'a option" where
  "try_get (Val x) = Some x"
| "try_get (Opaque _) = None"

datatype journal_error = Sqlx | Corrupt bytes | Io | Changed bytes

definition get_cell :: "'a cell \<Rightarrow> journal_error + 'a" where
  "get_cell c = ok_or (try_get c) Sqlx"

record journal_row =
  seq :: int
  c_ts_ms :: "int cell"
  c_actor_kind :: "bytes cell"
  c_actor_id :: "bytes option cell"
  c_op :: "bytes cell"
  c_path :: "bytes cell"
  c_path_to :: "bytes option cell"
  c_reversal :: "bytes cell"
  c_reversal_ref :: "bytes option cell"
  c_undoes_seq :: "int option cell"
  c_batch_id :: "int option cell"
  c_prev_hash :: "bytes cell"
  c_entry_hash :: "bytes cell"

record compaction_base =
  through_seq :: int
  through_hash :: bytes

record database =
  table_columns :: "bytes list"
  table_rows :: "journal_row list"
  base_table :: "(int cell \<times> bytes cell) option option"

datatype reversal = DeleteNode | RenameBack | RestoreTrash | Irreversible | SetModeBack

fun reversal_as_str :: "reversal \<Rightarrow> bytes" where
  "reversal_as_str DeleteNode = ''delete''"
| "reversal_as_str RenameBack = ''rename_back''"
| "reversal_as_str RestoreTrash = ''restore_trash''"
| "reversal_as_str Irreversible = ''irreversible''"
| "reversal_as_str SetModeBack = ''set_mode_back''"

definition reversal_from_str_opt :: "bytes \<Rightarrow> reversal option" where
  "reversal_from_str_opt s =
     (if s = ''delete'' then Some DeleteNode
      else if s = ''rename_back'' then Some RenameBack
      else if s = ''restore_trash'' then Some RestoreTrash
      else if s = ''irreversible'' then Some Irreversible
      else if s = ''set_mode_back'' then Some SetModeBack
      else None)"

section \<open>The digest of a row\<close>

record journal_record =
  r_seq :: int
  r_ts_ms :: int
  r_actor_kind :: bytes
  r_actor_id :: "bytes option"
  r_op :: bytes
  r_path :: bytes
  r_path_to :: "bytes option"
  r_reversal :: bytes
  r_reversal_ref :: "bytes option"
  r_undoes_seq :: "int option"
  r_batch_id :: "int option"

fun feed_opt :: "bytes option \<Rightarrow> bytes" where
  "feed_opt None = [char_of (0 :: nat)]"
| "feed_opt (Some b) = [char_of (1 :: nat)] @ feed b"

definition chain_hash_input :: "bytes \<Rightarrow> journal_record \<Rightarrow> bytes" where
  "chain_hash_input prev r =
     prev @ feed (i64_le_bytes (r_seq r)) @ feed (i64_le_bytes (r_ts_ms r)) @ feed (r_actor_kind r) @
     feed_opt (r_actor_id r) @ feed (r_op r) @ feed (r_path r) @ feed_opt (r_path_to r) @
     feed (r_reversal r) @ feed_opt (r_reversal_ref r) @
     (case r_undoes_seq r of None \<Rightarrow> [char_of (0 :: nat)] | Some s \<Rightarrow> [char_of (1 :: nat)] @ feed (i64_le_bytes s)) @
     (case r_batch_id r of None \<Rightarrow> [] | Some b \<Rightarrow> [char_of (1 :: nat)] @ feed (i64_le_bytes b))"

definition chain_hash :: "(bytes \<Rightarrow> bytes) \<Rightarrow> bytes \<Rightarrow> journal_record \<Rightarrow> bytes" where
  "chain_hash sha prev r = sha (chain_hash_input prev r)"

definition zero_hash :: bytes where
  "zero_hash = replicate 32 (char_of (0 :: nat))"

text \<open>The row that \<^verbatim>\<open>INSERT_ENTRY\<close> binds for a record and its two digests.\<close>

definition stored_row :: "journal_record \<Rightarrow> bytes \<Rightarrow> bytes \<Rightarrow> journal_row" where
  "stored_row r prev entry_hash =
     \<lparr>seq = r_seq r, c_ts_ms = Val (r_ts_ms r), c_actor_kind = Val (r_actor_kind r),
      c_actor_id = Val (r_actor_id r), c_op = Val (r_op r), c_path = Val (r_path r),
      c_path_to = Val (r_path_to r), c_reversal = Val (r_reversal r),
      c_reversal_ref = Val (r_reversal_ref r), c_undoes_seq = Val (r_undoes_seq r),
      c_batch_id = Val (r_batch_id r), c_prev_hash = Val prev, c_entry_hash = Val entry_hash\<rparr>"

text \<open>The decoded content of a row, \<^verbatim>\<open>decode_verified_row\<close> followed by \<^verbatim>\<open>VerifiedRow::record\<close>.\<close>

definition decode_verified_row :: "journal_row \<Rightarrow> journal_record option" where
  "decode_verified_row row =
     (case (try_get (c_ts_ms row), try_get (c_actor_kind row), try_get (c_actor_id row),
            try_get (c_op row), try_get (c_path row), try_get (c_path_to row),
            try_get (c_reversal row), try_get (c_reversal_ref row),
            try_get (c_undoes_seq row), try_get (c_batch_id row)) of
        (Some ts, Some ak, Some ai, Some op, Some p, Some pt, Some rv, Some rr, Some us, Some b) \<Rightarrow>
          Some \<lparr>r_seq = seq row, r_ts_ms = ts, r_actor_kind = ak, r_actor_id = ai, r_op = op, r_path = p,
            r_path_to = pt, r_reversal = rv, r_reversal_ref = rr, r_undoes_seq = us, r_batch_id = b\<rparr>
      | _ \<Rightarrow> None)"

section \<open>The format marker\<close>

definition JOURNAL_FORMAT :: nat where
  "JOURNAL_FORMAT = 1"

definition FORMAT_SEQ :: int where
  "FORMAT_SEQ = 0"

definition FORMAT_OP :: bytes where
  "FORMAT_OP = ''journal_format''"

definition FORMAT_ACTOR_KIND :: bytes where
  "FORMAT_ACTOR_KIND = ''system''"

datatype journal_format = Unmarked | Version nat | Unreadable

fun is_unknown :: "journal_format \<Rightarrow> bool" where
  "is_unknown Unmarked \<longleftrightarrow> False"
| "is_unknown (Version v) \<longleftrightarrow> \<not> (1 \<le> v \<and> v \<le> JOURNAL_FORMAT)"
| "is_unknown Unreadable \<longleftrightarrow> True"

definition format_record :: "int \<Rightarrow> bytes \<Rightarrow> journal_record" where
  "format_record ts version =
     \<lparr>r_seq = FORMAT_SEQ, r_ts_ms = ts, r_actor_kind = FORMAT_ACTOR_KIND, r_actor_id = None,
      r_op = FORMAT_OP, r_path = version, r_path_to = None, r_reversal = ''irreversible'',
      r_reversal_ref = None, r_undoes_seq = None, r_batch_id = None\<rparr>"

text \<open>\<^verbatim>\<open>u32::from_str\<close>: an optional plus sign and at least one digit, below \<open>2 ^ 32\<close>.\<close>

definition u32_from_str :: "bytes \<Rightarrow> nat option" where
  "u32_from_str s =
     (let ds = (case s of c # r \<Rightarrow> if c = CHR ''+'' then r else s | [] \<Rightarrow> [])
      in if ds \<noteq> [] \<and> list_all (\<lambda>b. 48 \<le> u8 b \<and> u8 b \<le> 57) ds \<and> undecimal ds < 2 ^ 32
         then Some (undecimal ds) else None)"

definition parse_format :: "bytes \<Rightarrow> bytes \<Rightarrow> journal_format" where
  "parse_format op p =
     (if op \<noteq> FORMAT_OP then Unreadable
      else if \<not> utf8_valid p then Unreadable
      else case u32_from_str p of
        Some v \<Rightarrow> if decimal v = p then Version v else Unreadable
      | None \<Rightarrow> Unreadable)"

definition is_canonical_marker :: "journal_record \<Rightarrow> bool" where
  "is_canonical_marker c \<longleftrightarrow>
     (let canonical = format_record (r_ts_ms c) (r_path c) in
      r_op c = r_op canonical \<and> r_actor_kind c = r_actor_kind canonical \<and>
      r_reversal c = r_reversal canonical \<and> r_actor_id c = None \<and> r_path_to c = None \<and>
      r_reversal_ref c = None \<and> r_undoes_seq c = None \<and> r_batch_id c = None)"

section \<open>The journal\<close>

record chain_state =
  last_seq :: int
  last_hash :: bytes
  batch_counter :: int

record hook_event =
  ev_seq :: int
  ev_ts_ms :: int
  ev_op :: bytes
  ev_actor_kind :: bytes
  ev_path :: bytes
  ev_path_to :: "bytes option"
  ev_batch_id :: "int option"

text \<open>\<open>hooks\<close> is \<open>None\<close> until a sender is installed, and then the events offered to it so far.\<close>

record journal =
  file_db :: database
  chain :: chain_state
  has_batch_id :: bool
  read_only :: bool
  hooks :: "hook_event list option"

abbreviation rows :: "journal \<Rightarrow> journal_row list" where
  "rows j \<equiv> table_rows (file_db j)"

record new_entry =
  n_op :: bytes
  n_path :: bytes
  n_path_to :: "bytes option"
  n_reversal :: reversal
  n_reversal_ref :: "bytes option"
  n_actor :: actor
  n_undoes_seq :: "int option"
  n_batch_id :: "int option"

record journal_entry =
  e_seq :: int
  e_ts_ms :: int
  e_entry_hash :: bytes
  e_actor_kind :: bytes
  e_actor_id :: "bytes option"
  e_op :: bytes
  e_path :: bytes
  e_path_to :: "bytes option"
  e_reversal :: bytes
  e_reversal_ref :: "bytes option"
  e_undoes_seq :: "int option"
  e_batch_id :: "int option"

definition row_to_entry :: "journal_row \<Rightarrow> journal_error + journal_entry" where
  "row_to_entry row =
     (case (try_get (c_entry_hash row), decode_verified_row row) of
        (Some h, Some c) \<Rightarrow>
          Inr \<lparr>e_seq = seq row, e_ts_ms = r_ts_ms c, e_entry_hash = h, e_actor_kind = r_actor_kind c,
            e_actor_id = r_actor_id c, e_op = r_op c, e_path = r_path c, e_path_to = r_path_to c,
            e_reversal = r_reversal c, e_reversal_ref = r_reversal_ref c,
            e_undoes_seq = r_undoes_seq c, e_batch_id = r_batch_id c\<rparr>
      | _ \<Rightarrow> Inl Sqlx)"

section \<open>Opening\<close>

definition SCHEMA_columns :: "bytes list" where
  "SCHEMA_columns = [''seq'', ''ts_ms'', ''actor_kind'', ''actor_id'', ''op'', ''path'', ''path_to'',
     ''reversal'', ''reversal_ref'', ''undoes_seq'', ''prev_hash'', ''entry_hash'']"

definition create_schema :: "database \<Rightarrow> database" where
  "create_schema db =
     (if table_columns db = [] then db\<lparr>table_columns := SCHEMA_columns, table_rows := []\<rparr> else db)"

definition has_column :: "database \<Rightarrow> bytes \<Rightarrow> bool" where
  "has_column db name \<longleftrightarrow> list_ex (\<lambda>c. c = name) (table_columns db)"

text \<open>\<^verbatim>\<open>ALTER TABLE journal ADD COLUMN\<close>: the rows that are there have \<^verbatim>\<open>NULL\<close> in the new column.\<close>

definition migrate_batch_id :: "database \<Rightarrow> database" where
  "migrate_batch_id db = db\<lparr>table_columns := table_columns db @ [''batch_id''],
     table_rows := map (\<lambda>r. r\<lparr>c_batch_id := Val None\<rparr>) (table_rows db)\<rparr>"

definition migrate_undoes_seq :: "database \<Rightarrow> database" where
  "migrate_undoes_seq db = db\<lparr>table_columns := table_columns db @ [''undoes_seq''],
     table_rows := map (\<lambda>r. r\<lparr>c_undoes_seq := Val None\<rparr>) (table_rows db)\<rparr>"

text \<open>\<^verbatim>\<open>INSERT\<close>: the primary key is unique, and the table stays in its order.\<close>

definition insert_entry :: "journal_row \<Rightarrow> journal_row list \<Rightarrow> journal_error + journal_row list" where
  "insert_entry row rs =
     (if list_ex (\<lambda>r. seq r = seq row) rs then Inl Sqlx
      else Inr (takeWhile (\<lambda>r. seq r < seq row) rs @ row # dropWhile (\<lambda>r. seq r < seq row) rs))"

definition stamp_format_if_new :: "(bytes \<Rightarrow> bytes) \<Rightarrow> int \<Rightarrow> database \<Rightarrow> journal_error + database" where
  "stamp_format_if_new sha now db =
     (if length (table_rows db) \<noteq> 0 then Inr db
      else
        let r = format_record now (decimal JOURNAL_FORMAT);
            prev = zero_hash;
            entry_hash = chain_hash sha prev r
        in and_then (insert_entry (stored_row r prev entry_hash) (table_rows db))
             (\<lambda>rs. Inr (db\<lparr>table_rows := rs\<rparr>)))"

definition row_at :: "journal_row list \<Rightarrow> int \<Rightarrow> journal_row option" where
  "row_at rs s = find (\<lambda>r. seq r = s) rs"

text \<open>The marker is read for a log line only, but a marker that does not decode fails the open.\<close>

definition warn_if_format_unknown :: "database \<Rightarrow> journal_error + unit" where
  "warn_if_format_unknown db =
     (case row_at (table_rows db) FORMAT_SEQ of
        None \<Rightarrow> Inr ()
      | Some row \<Rightarrow>
          and_then (get_cell (c_op row)) (\<lambda>op.
          and_then (get_cell (c_path row)) (\<lambda>p. Inr ())))"

text \<open>\<^verbatim>\<open>SELECT COALESCE(MAX(batch_id), 0)\<close>: an opaque value is larger than every integer.\<close>

definition max_batch_id :: "journal_row list \<Rightarrow> journal_error + int" where
  "max_batch_id rs =
     (if list_ex (\<lambda>r. try_get (c_batch_id r) = None) rs then Inl Sqlx
      else Inr (case concat (map (\<lambda>r. case c_batch_id r of Val (Some b) \<Rightarrow> [b] | _ \<Rightarrow> []) rs) of
                  [] \<Rightarrow> 0 | b # bs \<Rightarrow> foldl max b bs))"

definition last_link :: "journal_row list \<Rightarrow> journal_error + int \<times> bytes" where
  "last_link rs =
     (case rev rs of
        [] \<Rightarrow> Inr (0, zero_hash)
      | row # _ \<Rightarrow>
          and_then (get_cell (c_entry_hash row)) (\<lambda>v.
            if length v \<noteq> 32 then Inl (Corrupt ''entry_hash is not 32 bytes long'')
            else Inr (seq row, v)))"

definition from_options :: "(bytes \<Rightarrow> bytes) \<Rightarrow> int \<Rightarrow> database \<Rightarrow> journal_error + journal" where
  "from_options sha now db0 =
     (let db1 = create_schema db0;
          db2 = (if has_column db1 ''batch_id'' then db1 else migrate_batch_id db1)
      in if \<not> has_column db2 ''batch_id'' then Inl (Corrupt ''the batch_id column is still missing after migrating'')
         else if \<not> has_column db2 ''undoes_seq'' \<and> length (table_rows db2) \<noteq> 0
           then Inl (Corrupt ''journal older than undoes_seq and WITH history'')
         else
           let db3 = (if has_column db2 ''undoes_seq'' then db2 else migrate_undoes_seq db2)
           in if \<not> has_column db3 ''undoes_seq'' then Inl (Corrupt ''the undoes_seq column is still missing after migrating'')
              else and_then (stamp_format_if_new sha now db3) (\<lambda>db.
                   and_then (warn_if_format_unknown db) (\<lambda>_.
                   and_then (last_link (table_rows db)) (\<lambda>(s, h).
                   and_then (max_batch_id (table_rows db)) (\<lambda>b.
                     Inr \<lparr>file_db = db, chain = \<lparr>last_seq = s, last_hash = h, batch_counter = b\<rparr>,
                       has_batch_id = True, read_only = False, hooks = None\<rparr>)))))"

definition open_read_only :: "database \<Rightarrow> journal_error + journal" where
  "open_read_only db =
     (if table_columns db \<noteq> [] \<and> \<not> list_ex (\<lambda>c. c = ''undoes_seq'') (table_columns db)
      then Inl (Corrupt ''journal older than undoes_seq: this binary does not know how to read it'')
      else
        let has_batch = has_column db ''batch_id''
        in and_then (if has_batch then max_batch_id (table_rows db) else Inr 0) (\<lambda>b.
             Inr \<lparr>file_db = db, chain = \<lparr>last_seq = 0, last_hash = zero_hash, batch_counter = b\<rparr>,
               has_batch_id = has_batch, read_only = True, hooks = None\<rparr>))"

definition declared_format :: "journal \<Rightarrow> journal_error + journal_format" where
  "declared_format j =
     (case row_at (rows j) FORMAT_SEQ of
        None \<Rightarrow> Inr Unmarked
      | Some row \<Rightarrow>
          and_then (get_cell (c_op row)) (\<lambda>op.
          and_then (get_cell (c_path row)) (\<lambda>p. Inr (parse_format op p))))"

section \<open>Writing\<close>

definition set_hook_sender :: "journal \<Rightarrow> journal" where
  "set_hook_sender j = j\<lparr>hooks := Some []\<rparr>"

definition alloc_batch :: "journal \<Rightarrow> journal \<times> int" where
  "alloc_batch j =
     (let b = i64 (batch_counter (chain j) + 1) in (j\<lparr>chain := (chain j)\<lparr>batch_counter := b\<rparr>\<rparr>, b))"

definition entry_record :: "int \<Rightarrow> int \<Rightarrow> new_entry \<Rightarrow> journal_record" where
  "entry_record s now e =
     \<lparr>r_seq = s, r_ts_ms = now, r_actor_kind = fst (actor_parts (n_actor e)),
      r_actor_id = snd (actor_parts (n_actor e)), r_op = n_op e, r_path = n_path e,
      r_path_to = n_path_to e, r_reversal = reversal_as_str (n_reversal e),
      r_reversal_ref = n_reversal_ref e, r_undoes_seq = n_undoes_seq e, r_batch_id = n_batch_id e\<rparr>"

definition entry_event :: "int \<Rightarrow> int \<Rightarrow> new_entry \<Rightarrow> hook_event" where
  "entry_event s now e =
     \<lparr>ev_seq = s, ev_ts_ms = now, ev_op = n_op e, ev_actor_kind = fst (actor_parts (n_actor e)),
      ev_path = n_path e, ev_path_to = n_path_to e, ev_batch_id = n_batch_id e\<rparr>"

definition record_entry :: "(bytes \<Rightarrow> bytes) \<Rightarrow> bool \<Rightarrow> int \<Rightarrow> new_entry \<Rightarrow> journal \<Rightarrow>
    journal \<times> (journal_error + int)" where
  "record_entry sha io now e j =
     (let s = i64 (last_seq (chain j) + 1);
          prev = last_hash (chain j);
          r = entry_record s now e;
          entry_hash = chain_hash sha prev r
      in if read_only j \<or> \<not> io then (j, Inl Sqlx)
         else case insert_entry (stored_row r prev entry_hash) (rows j) of
           Inl er \<Rightarrow> (j, Inl er)
         | Inr rs \<Rightarrow>
             (j\<lparr>file_db := (file_db j)\<lparr>table_rows := rs\<rparr>,
                chain := (chain j)\<lparr>last_seq := s, last_hash := entry_hash\<rparr>,
                hooks := map_option (\<lambda>evs. evs @ [entry_event s now e]) (hooks j)\<rparr>, Inr s))"

definition record_undoing :: "(bytes \<Rightarrow> bytes) \<Rightarrow> bool \<Rightarrow> int \<Rightarrow> bytes \<Rightarrow> bytes \<Rightarrow> bytes option \<Rightarrow>
    reversal \<Rightarrow> bytes option \<Rightarrow> actor \<Rightarrow> int option \<Rightarrow> journal \<Rightarrow> journal \<times> (journal_error + int)" where
  "record_undoing sha io now op p p_to rv rref a undoes j =
     record_entry sha io now \<lparr>n_op = op, n_path = p, n_path_to = p_to, n_reversal = rv,
       n_reversal_ref = rref, n_actor = a, n_undoes_seq = undoes, n_batch_id = None\<rparr> j"

definition record_mutation :: "(bytes \<Rightarrow> bytes) \<Rightarrow> bool \<Rightarrow> int \<Rightarrow> bytes \<Rightarrow> bytes \<Rightarrow> bytes option \<Rightarrow>
    reversal \<Rightarrow> bytes option \<Rightarrow> actor \<Rightarrow> journal \<Rightarrow> journal \<times> (journal_error + int)" where
  "record_mutation sha io now op p p_to rv rref a j =
     record_undoing sha io now op p p_to rv rref a None j"

section \<open>Reading\<close>

text \<open>\<^verbatim>\<open>pick\<close>: a handle on a table without the batch column reads \<^verbatim>\<open>NULL\<close> in its place.\<close>

definition picked :: "journal \<Rightarrow> journal_row list" where
  "picked j = (if has_batch_id j then rows j else map (\<lambda>r. r\<lparr>c_batch_id := Val None\<rparr>) (rows j))"

definition mutations :: "journal_row list \<Rightarrow> journal_row list" where
  "mutations rs = filter (\<lambda>r. 1 \<le> seq r) rs"

definition count :: "journal \<Rightarrow> nat" where
  "count j = length (mutations (rows j))"

definition hash32 :: "bytes \<Rightarrow> journal_row \<Rightarrow> journal_error + bytes" where
  "hash32 msg row =
     and_then (get_cell (c_entry_hash row)) (\<lambda>h. if length h = 32 then Inr h else Inl (Corrupt msg))"

definition head :: "journal \<Rightarrow> journal_error + (int \<times> bytes) option" where
  "head j =
     (case rev (mutations (rows j)) of
        [] \<Rightarrow> Inr None
      | row # _ \<Rightarrow> and_then (hash32 ''head's entry_hash is not 32 bytes long'' row) (\<lambda>h. Inr (Some (seq row, h))))"

definition entry_hash_at :: "journal \<Rightarrow> int \<Rightarrow> journal_error + bytes option" where
  "entry_hash_at j s =
     (case row_at (mutations (rows j)) s of
        None \<Rightarrow> Inr None
      | Some row \<Rightarrow> and_then (hash32 ''entry_hash is not 32 bytes long'' row) (\<lambda>h. Inr (Some h)))"

definition marker_hash :: "journal \<Rightarrow> journal_error + bytes option" where
  "marker_hash j =
     (case row_at (rows j) FORMAT_SEQ of
        None \<Rightarrow> Inr None
      | Some row \<Rightarrow> and_then (hash32 ''the marker's entry_hash is not 32 bytes long'' row) (\<lambda>h. Inr (Some h)))"

definition base :: "journal \<Rightarrow> journal_error + compaction_base option" where
  "base j =
     (case base_table (file_db j) of
        None \<Rightarrow> Inr None
      | Some None \<Rightarrow> Inr None
      | Some (Some (s, h)) \<Rightarrow>
          and_then (get_cell h) (\<lambda>blob.
            if length blob \<noteq> 32 then Inl (Corrupt ''the base's hash is not 32 bytes long'')
            else and_then (get_cell s) (\<lambda>through. Inr (Some \<lparr>through_seq = through, through_hash = blob\<rparr>))))"

definition entries :: "journal \<Rightarrow> journal_error + journal_entry list" where
  "entries j = try_map row_to_entry (mutations (picked j))"

section \<open>Verification of the chain\<close>

datatype chain_status =
    Intact nat
  | Broken int
  | UnknownFormat journal_format nat "int option"

fun is_intact :: "chain_status \<Rightarrow> bool" where
  "is_intact (Intact _) \<longleftrightarrow> True"
| "is_intact _ \<longleftrightarrow> False"

fun verdict :: "compaction_base option \<Rightarrow> nat \<Rightarrow> journal_format \<Rightarrow> int option \<Rightarrow> chain_status" where
  "verdict (Some b) verified declared first_bad = Broken (i64 (through_seq b + 1))"
| "verdict None verified declared first_bad =
     (if is_unknown declared then UnknownFormat declared JOURNAL_FORMAT first_bad
      else case first_bad of None \<Rightarrow> Intact verified | Some s \<Rightarrow> Broken s)"

fun verify_rows :: "(bytes \<Rightarrow> bytes) \<Rightarrow> compaction_base option \<Rightarrow> bytes \<Rightarrow> nat \<Rightarrow> journal_format \<Rightarrow>
    int option \<Rightarrow> journal_row list \<Rightarrow> journal_error + chain_status" where
  "verify_rows sha bs prev verified declared first_bad [] = Inr (verdict bs verified declared first_bad)"
| "verify_rows sha bs prev verified declared first_bad (row # rs) =
     (case (try_get (c_prev_hash row), try_get (c_entry_hash row)) of
        (Some stored_prev, Some stored) \<Rightarrow>
          let taken = (if FORMAT_SEQ < seq row then bs else None);
              bs' = (if FORMAT_SEQ < seq row then None else bs);
              prev' = (case taken of Some b \<Rightarrow> through_hash b | None \<Rightarrow> prev)
          in if (case taken of Some b \<Rightarrow> seq row \<noteq> i64 (through_seq b + 1) | None \<Rightarrow> False)
             then Inr (Broken (seq row))
             else if seq row < FORMAT_SEQ \<or> stored_prev \<noteq> prev'
             then Inr (Broken (if is_unknown declared then seq row
                               else case first_bad of Some s \<Rightarrow> s | None \<Rightarrow> seq row))
             else if length stored \<noteq> 32
             then Inr (Broken (case first_bad of Some s \<Rightarrow> s | None \<Rightarrow> seq row))
             else if seq row = FORMAT_SEQ
             then (case decode_verified_row row of
                     None \<Rightarrow> Inr (Broken (seq row))
                   | Some c \<Rightarrow>
                       if \<not> is_canonical_marker c \<or> chain_hash sha prev' c \<noteq> stored
                       then Inr (Broken (seq row))
                       else verify_rows sha bs' stored verified (parse_format (r_op c) (r_path c)) first_bad rs)
             else if (case decode_verified_row row of
                        Some c \<Rightarrow> chain_hash sha prev' c = stored | None \<Rightarrow> False)
             then verify_rows sha bs' stored (verified + 1) declared first_bad rs
             else verify_rows sha bs' stored verified declared
                    (case first_bad of None \<Rightarrow> Some (seq row) | Some s \<Rightarrow> Some s) rs
      | _ \<Rightarrow> Inl Sqlx)"

definition verify_chain :: "(bytes \<Rightarrow> bytes) \<Rightarrow> journal \<Rightarrow> journal_error + chain_status" where
  "verify_chain sha j =
     and_then (base j) (\<lambda>bs. verify_rows sha bs zero_hash 0 Unmarked None (picked j))"

section \<open>Compaction\<close>

text \<open>The smallest sequence number of a row at or below the cut whose batch also has a row above it.
  Equality of batches is SQL equality of the column, which \<^verbatim>\<open>NULL\<close> never satisfies.\<close>

definition split_batch :: "journal_row list \<Rightarrow> int \<Rightarrow> int option" where
  "split_batch rs through =
     map_option seq (find (\<lambda>a. 1 \<le> seq a \<and> seq a \<le> through \<and> c_batch_id a \<noteq> Val None \<and>
       list_ex (\<lambda>b. c_batch_id b = c_batch_id a \<and> through < seq b) rs) rs)"

function settle_cut :: "journal_row list \<Rightarrow> int \<Rightarrow> int \<Rightarrow> int" where
  "settle_cut rs start through =
     (if start \<le> through then
        (case split_batch rs through of
           None \<Rightarrow> through
         | Some first \<Rightarrow> settle_cut rs start (first - 1))
      else through)"
  by auto
termination
  by (relation "measure (\<lambda>(rs, start, through). nat (through + 1 - start))")
     (auto simp: split_batch_def find_Some_iff)

definition ts_at_least :: "int \<Rightarrow> int cell \<Rightarrow> bool" where
  "ts_at_least t c = (case c of Val ts \<Rightarrow> t \<le> ts | Opaque _ \<Rightarrow> True)"

definition compaction_plan :: "journal \<Rightarrow> int \<Rightarrow> journal_error + compaction_base option" where
  "compaction_plan j before_ms =
     and_then (head j) (\<lambda>hd_link.
       case hd_link of
         None \<Rightarrow> Inr None
       | Some (hd_seq, _) \<Rightarrow>
           and_then (base j) (\<lambda>bs.
             let start = (case bs of None \<Rightarrow> 1 | Some b \<Rightarrow> i64 (through_seq b + 1));
                 first_young = find (\<lambda>r. ts_at_least before_ms (c_ts_ms r)) (mutations (rows j));
                 through = min (case first_young of Some r \<Rightarrow> seq r | None \<Rightarrow> hd_seq) hd_seq - 1;
                 through = (if has_batch_id j then settle_cut (rows j) start through else through)
             in if through < start then Inr None
                else and_then (entry_hash_at j through) (\<lambda>h.
                  case h of
                    None \<Rightarrow> Inl (Corrupt ''a gap in the chain below the head'')
                  | Some h \<Rightarrow> Inr (Some \<lparr>through_seq = through, through_hash = h\<rparr>))))"

definition compact_journal :: "bool \<Rightarrow> compaction_base \<Rightarrow> journal \<Rightarrow> journal \<times> (journal_error + nat)" where
  "compact_journal io plan j =
     (if read_only j \<or> \<not> io then (j, Inl Sqlx)
      else case map_option (\<lambda>r. try_get (c_entry_hash r)) (row_at (mutations (rows j)) (through_seq plan)) of
        Some None \<Rightarrow> (j, Inl Sqlx)
      | at \<Rightarrow>
          if at \<noteq> Some (Some (through_hash plan)) then (j, Inl (Changed ''the planned row is not there''))
          else if (case rev (rows j) of [] \<Rightarrow> True | r # _ \<Rightarrow> seq r \<le> through_seq plan)
          then (j, Inl (Changed ''the head would be dropped''))
          else
            let dropped = filter (\<lambda>r. 1 \<le> seq r \<and> seq r \<le> through_seq plan) (rows j);
                kept = filter (\<lambda>r. \<not> (1 \<le> seq r \<and> seq r \<le> through_seq plan)) (rows j)
            in (j\<lparr>file_db := (file_db j)\<lparr>table_rows := kept,
                   base_table := Some (Some (Val (through_seq plan), Val (through_hash plan)))\<rparr>\<rparr>,
                Inr (length dropped)))"

section \<open>The timeline and the undo\<close>

text \<open>\<^verbatim>\<open>COL_UNDONE\<close>: some compensation of the entry is not itself compensated.\<close>

definition undone :: "journal_row list \<Rightarrow> int \<Rightarrow> bool" where
  "undone rs s \<longleftrightarrow> list_ex (\<lambda>c. c_undoes_seq c = Val (Some s) \<and>
     \<not> list_ex (\<lambda>d. c_undoes_seq d = Val (Some (seq c))) rs) rs"

definition revertible :: "actor \<Rightarrow> journal_row list \<Rightarrow> journal_row \<Rightarrow> bool" where
  "revertible a rs r \<longleftrightarrow> 1 \<le> seq r \<and> c_undoes_seq r = Val None \<and>
     c_actor_kind r = Val (fst (actor_parts a)) \<and> c_actor_id r = Val (snd (actor_parts a)) \<and>
     \<not> undone rs (seq r)"

definition revertible_for :: "journal \<Rightarrow> actor \<Rightarrow> journal_error + journal_entry list" where
  "revertible_for j a =
     try_map row_to_entry (rev (filter (revertible a (picked j)) (picked j)))"

text \<open>A batch with a row on the wrong side of the cutoff or of the ceiling is left out whole.\<close>

definition batch_crosses :: "journal_row list \<Rightarrow> (int \<Rightarrow> bool) \<Rightarrow> journal_row \<Rightarrow> bool" where
  "batch_crosses rs outside r \<longleftrightarrow>
     c_batch_id r \<noteq> Val None \<and> list_ex (\<lambda>b. c_batch_id b = c_batch_id r \<and> outside (seq b)) rs"

definition revertible_after :: "actor \<Rightarrow> int \<Rightarrow> int option \<Rightarrow> journal_row list \<Rightarrow> journal_row \<Rightarrow> bool" where
  "revertible_after a after_seq upto_seq rs r \<longleftrightarrow> after_seq < seq r \<and> revertible a rs r \<and>
     \<not> batch_crosses rs (\<lambda>s. s \<le> after_seq) r \<and>
     (case upto_seq of None \<Rightarrow> True | Some u \<Rightarrow> seq r \<le> u \<and> \<not> batch_crosses rs (\<lambda>s. u < s) r)"

definition revertible_for_after :: "journal \<Rightarrow> actor \<Rightarrow> int \<Rightarrow> int option \<Rightarrow> journal_error + journal_entry list" where
  "revertible_for_after j a after_seq upto_seq =
     try_map row_to_entry (rev (filter (revertible_after a after_seq upto_seq (picked j)) (picked j)))"

record page_entry =
  page_row :: journal_entry
  page_undone :: bool

definition page :: "journal \<Rightarrow> int option \<Rightarrow> nat \<Rightarrow> bytes option \<Rightarrow> journal_error + page_entry list" where
  "page j before_seq limit kind =
     try_map (\<lambda>r. and_then (row_to_entry r) (\<lambda>e. Inr \<lparr>page_row = e, page_undone = undone (picked j) (seq r)\<rparr>))
       (take limit (rev (filter (\<lambda>r. 1 \<le> seq r \<and>
          (case before_seq of None \<Rightarrow> True | Some s \<Rightarrow> seq r < s) \<and>
          (case kind of None \<Rightarrow> True | Some k \<Rightarrow> c_actor_kind r = Val k)) (picked j))))"

text \<open>The cursor of \<^verbatim>\<open>page_to_wire\<close>: offered only behind a full page.\<close>

definition next_before_seq :: "page_entry list \<Rightarrow> nat \<Rightarrow> int option" where
  "next_before_seq es limit =
     (if length es = limit then (case rev es of [] \<Rightarrow> None | e # _ \<Rightarrow> Some (e_seq (page_row e))) else None)"

fun chunks :: "nat \<Rightarrow> 'a list \<Rightarrow> 'a list list" where
  "chunks n xs = (if xs = [] \<or> n = 0 then [] else take n xs # chunks n (drop n xs))"

declare chunks.simps [simp del]

definition undone_among :: "journal \<Rightarrow> int list \<Rightarrow> int list" where
  "undone_among j seqs =
     concat (map (\<lambda>chunk. map seq (filter (\<lambda>r. seq r \<in> set chunk \<and> undone (rows j) (seq r)) (rows j)))
       (chunks 500 seqs))"

end
