(* ===== verification/Journal_Chain.thy ===== *)
theory Journal_Chain
  imports Journal
begin

text \<open>
  The chain of the journal. \<open>chain_rows\<close> is the specification of a table: the rows of a list of
  records, each linked to the digest before it. \<open>journal_run\<close> is the life of a journal as a step
  relation (create, reopen, record with or without a failing write, allocate a batch, install a hook
  sender, compact with any plan), with the list of all mutations ever recorded as its history.
  The invariant says that the table is the format marker and the chain of a suffix of that history;
  that every such journal verifies, that its readers answer from the history, and that the head digest
  commits to the whole history follow from it.
\<close>

section \<open>Rows of a list of records\<close>

primrec chain_rows :: "(bytes \<Rightarrow> bytes) \<Rightarrow> bytes \<Rightarrow> journal_record list \<Rightarrow> journal_row list" where
  "chain_rows sha prev [] = []"
| "chain_rows sha prev (c # cs) =
     stored_row c prev (chain_hash sha prev c) # chain_rows sha (chain_hash sha prev c) cs"

definition chain_end :: "(bytes \<Rightarrow> bytes) \<Rightarrow> bytes \<Rightarrow> journal_record list \<Rightarrow> bytes" where
  "chain_end sha = foldl (chain_hash sha)"

lemma chain_end_simps [simp]:
  "chain_end sha prev [] = prev"
  "chain_end sha prev (c # cs) = chain_end sha (chain_hash sha prev c) cs"
  "chain_end sha prev (cs @ ds) = chain_end sha (chain_end sha prev cs) ds"
  by (simp_all add: chain_end_def)

lemma chain_rows_append [simp]:
  "chain_rows sha prev (cs @ ds) = chain_rows sha prev cs @ chain_rows sha (chain_end sha prev cs) ds"
  by (induction cs arbitrary: prev) simp_all

lemma length_chain_rows [simp]: "length (chain_rows sha prev cs) = length cs"
  by (induction cs arbitrary: prev) simp_all

lemma chain_rows_eq_Nil [simp]: "chain_rows sha prev cs = [] \<longleftrightarrow> cs = []"
  by (cases cs) simp_all

lemma stored_row_simps [simp]:
  "seq (stored_row c p h) = r_seq c" "c_prev_hash (stored_row c p h) = Val p"
  "c_entry_hash (stored_row c p h) = Val h" "c_op (stored_row c p h) = Val (r_op c)"
  "c_path (stored_row c p h) = Val (r_path c)" "c_batch_id (stored_row c p h) = Val (r_batch_id c)"
  "c_undoes_seq (stored_row c p h) = Val (r_undoes_seq c)" "c_ts_ms (stored_row c p h) = Val (r_ts_ms c)"
  "c_actor_kind (stored_row c p h) = Val (r_actor_kind c)" "c_actor_id (stored_row c p h) = Val (r_actor_id c)"
  by (simp_all add: stored_row_def)

lemma decode_stored_row [simp]: "decode_verified_row (stored_row c p h) = Some c"
  by (simp add: decode_verified_row_def stored_row_def)

lemma seqs_chain_rows [simp]: "map seq (chain_rows sha prev cs) = map r_seq cs"
  by (induction cs arbitrary: prev) simp_all

lemma seq_chain_rows: "r \<in> set (chain_rows sha prev cs) \<Longrightarrow> seq r \<in> r_seq ` set cs"
  by (metis image_eqI list.set_map seqs_chain_rows)

lemma chain_rows_stored: "r \<in> set (chain_rows sha prev cs) \<Longrightarrow> \<exists>c p h. c \<in> set cs \<and> r = stored_row c p h"
proof (induction cs arbitrary: prev)
  case (Cons c cs)
  show ?case
  proof (cases "r \<in> set (chain_rows sha (chain_hash sha prev c) cs)")
    case True
    then show ?thesis using Cons.IH by (metis list.set_intros(2))
  next
    case False
    then show ?thesis using Cons.prems by auto
  qed
qed simp

lemma last_chain_rows:
  "cs \<noteq> [] \<Longrightarrow> \<exists>p. last (chain_rows sha prev cs) = stored_row (last cs) p (chain_end sha prev cs)"
  by (induction cs arbitrary: prev) auto

text \<open>Verification of the rows of a list of records: every one recomputes.\<close>

lemma verify_chain_rows_linked:
  assumes "\<forall>c\<in>set cs. 1 \<le> r_seq c" "\<forall>x. length (sha x) = 32"
  shows "verify_rows sha None prev n declared None (chain_rows sha prev cs) =
    Inr (verdict None (n + length cs) declared None)"
  using assms(1)
  by (induction cs arbitrary: prev n) (auto simp: FORMAT_SEQ_def chain_hash_def assms(2))

lemma verify_chain_rows_base:
  assumes "\<forall>c\<in>set cs. 1 \<le> r_seq c" "\<forall>x. length (sha x) = 32" "cs \<noteq> []"
    and "r_seq (hd cs) = i64 (through_seq b + 1)"
  shows "verify_rows sha (Some b) prev n declared None (chain_rows sha (through_hash b) cs) =
    Inr (verdict None (n + length cs) declared None)"
proof -
  obtain c cs' where "cs = c # cs'" using assms(3) by (cases cs) auto
  then show ?thesis
    using assms(1,2,4) verify_chain_rows_linked [of cs' sha "chain_hash sha (through_hash b) c" "n + 1" declared]
    by (simp add: FORMAT_SEQ_def chain_hash_def)
qed

lemma insert_entry_last:
  assumes "\<forall>r\<in>set rs. seq r < seq row"
  shows "insert_entry row rs = Inr (rs @ [row])"
proof -
  have "\<not> list_ex (\<lambda>r. seq r = seq row) rs" using assms by (auto simp: list_ex_iff)
  moreover have "takeWhile (\<lambda>r. seq r < seq row) rs = rs" "dropWhile (\<lambda>r. seq r < seq row) rs = []"
    using assms by (simp_all add: takeWhile_eq_all_conv)
  ultimately show ?thesis by (simp add: insert_entry_def)
qed

section \<open>The format marker of a new journal\<close>

definition marker_record :: "int \<Rightarrow> journal_record" where
  "marker_record ts = format_record ts (decimal JOURNAL_FORMAT)"

definition marker_digest :: "(bytes \<Rightarrow> bytes) \<Rightarrow> int \<Rightarrow> bytes" where
  "marker_digest sha ts = chain_hash sha zero_hash (marker_record ts)"

definition marker_row :: "(bytes \<Rightarrow> bytes) \<Rightarrow> int \<Rightarrow> journal_row" where
  "marker_row sha ts = stored_row (marker_record ts) zero_hash (marker_digest sha ts)"

lemma marker_simps [simp]:
  "r_seq (marker_record ts) = 0" "r_batch_id (marker_record ts) = None" "r_undoes_seq (marker_record ts) = None"
  "is_canonical_marker (marker_record ts)"
  by (simp_all add: marker_record_def format_record_def FORMAT_SEQ_def is_canonical_marker_def Let_def)

lemma utf8_valid_decimal: "utf8_valid (decimal v)"
  by (rule utf8_valid_ascii) (use decimal_bytes in fastforce)

lemma decimal_not_Nil [simp]: "decimal v \<noteq> []"
  by (subst decimal.simps) simp

lemma u32_from_str_decimal:
  assumes "v < 2 ^ 32"
  shows "u32_from_str (decimal v) = Some v"
proof -
  obtain c r where cr: "decimal v = c # r" by (cases "decimal v") auto
  then have "c \<noteq> CHR ''+''" using decimal_bytes [of c v] by auto
  moreover have "list_all (\<lambda>b. 48 \<le> u8 b \<and> u8 b \<le> 57) (decimal v)"
    using decimal_bytes by (auto simp: list_all_iff)
  ultimately show ?thesis
    using assms cr undecimal_decimal [of v] by (simp add: u32_from_str_def)
qed

lemma parse_format_decimal: "v < 2 ^ 32 \<Longrightarrow> parse_format FORMAT_OP (decimal v) = Version v"
  by (simp add: parse_format_def utf8_valid_decimal u32_from_str_decimal)

lemma parse_format_marker: "parse_format (r_op (marker_record ts)) (r_path (marker_record ts)) = Version 1"
  using parse_format_decimal [of JOURNAL_FORMAT]
  by (simp add: marker_record_def format_record_def JOURNAL_FORMAT_def)

lemma verify_marker:
  assumes "\<forall>x. length (sha x) = 32"
  shows "verify_rows sha b zero_hash 0 Unmarked None (marker_row sha ts # rs) =
    verify_rows sha b (marker_digest sha ts) 0 (Version 1) None rs"
  using assms by (simp add: marker_row_def FORMAT_SEQ_def marker_digest_def chain_hash_def parse_format_marker)

section \<open>The life of a journal\<close>

definition empty_database :: database where
  "empty_database = \<lparr>table_columns = [], table_rows = [], base_table = None\<rparr>"

inductive journal_run :: "(bytes \<Rightarrow> bytes) \<Rightarrow> journal \<Rightarrow> journal_record list \<Rightarrow> bool" for sha where
  create: "from_options sha now empty_database = Inr j \<Longrightarrow> journal_run sha j []"
| reopen: "journal_run sha j log \<Longrightarrow> from_options sha now (file_db j) = Inr j' \<Longrightarrow> journal_run sha j' log"
| record_ok: "journal_run sha j log \<Longrightarrow> last_seq (chain j) < 2 ^ 63 - 1 \<Longrightarrow>
    record_entry sha io now e j = (j', Inr s) \<Longrightarrow> journal_run sha j' (log @ [entry_record s now e])"
| record_failed: "journal_run sha j log \<Longrightarrow> record_entry sha io now e j = (j', Inl er) \<Longrightarrow> journal_run sha j' log"
| alloc: "journal_run sha j log \<Longrightarrow> journal_run sha (fst (alloc_batch j)) log"
| hook: "journal_run sha j log \<Longrightarrow> journal_run sha (set_hook_sender j) log"
| compacted: "journal_run sha j log \<Longrightarrow> compact_journal io plan j = (j', r) \<Longrightarrow> journal_run sha j' log"

definition record_event :: "journal_record \<Rightarrow> hook_event" where
  "record_event c =
     \<lparr>ev_seq = r_seq c, ev_ts_ms = r_ts_ms c, ev_op = r_op c, ev_actor_kind = r_actor_kind c,
      ev_path = r_path c, ev_path_to = r_path_to c, ev_batch_id = r_batch_id c\<rparr>"

text \<open>The events of a sender that was installed when the history had \<open>n\<close> mutations.\<close>

definition offered :: "journal_record list \<Rightarrow> hook_event list \<Rightarrow> bool" where
  "offered log evs \<longleftrightarrow> (\<exists>n \<le> length log. evs = map record_event (drop n log))"

lemma offered_snoc: "offered log evs \<Longrightarrow> offered (log @ [c]) (evs @ [record_event c])"
  unfolding offered_def by (metis (no_types) diff_is_0_eq' drop_0 drop_append le_SucI length_append_singleton
      list.simps(8,9) map_append)

lemma offered_Nil: "offered log []"
  unfolding offered_def by (rule exI [of _ "length log"]) simp

text \<open>The state of a journal at which the first \<open>k\<close> mutations of the history \<open>log\<close> have been compacted
  away and whose marker was written at \<open>ts\<close>.\<close>

definition table_of :: "(bytes \<Rightarrow> bytes) \<Rightarrow> int \<Rightarrow> nat \<Rightarrow> journal_record list \<Rightarrow> journal_row list" where
  "table_of sha ts k log =
     marker_row sha ts # chain_rows sha (chain_end sha (marker_digest sha ts) (take k log)) (drop k log)"

definition base_of :: "(bytes \<Rightarrow> bytes) \<Rightarrow> int \<Rightarrow> nat \<Rightarrow> journal_record list \<Rightarrow> (int cell \<times> bytes cell) option option" where
  "base_of sha ts k log =
     (if k = 0 then None
      else Some (Some (Val (int k), Val (chain_end sha (marker_digest sha ts) (take k log)))))"

definition numbered :: "journal_record list \<Rightarrow> bool" where
  "numbered log \<longleftrightarrow> length log < 2 ^ 63 \<and> (\<forall>i < length log. r_seq (log ! i) = int i + 1)"

definition database_at :: "(bytes \<Rightarrow> bytes) \<Rightarrow> database \<Rightarrow> journal_record list \<Rightarrow> int \<Rightarrow> nat \<Rightarrow> bool" where
  "database_at sha db log ts k \<longleftrightarrow>
     has_column db ''batch_id'' \<and> has_column db ''undoes_seq'' \<and> numbered log \<and>
     (k = 0 \<or> k < length log) \<and> table_rows db = table_of sha ts k log \<and> base_table db = base_of sha ts k log"

definition journal_at :: "(bytes \<Rightarrow> bytes) \<Rightarrow> journal \<Rightarrow> journal_record list \<Rightarrow> int \<Rightarrow> nat \<Rightarrow> bool" where
  "journal_at sha j log ts k \<longleftrightarrow>
     has_batch_id j \<and> \<not> read_only j \<and> database_at sha (file_db j) log ts k \<and>
     last_seq (chain j) = int (length log) \<and> last_hash (chain j) = chain_end sha (marker_digest sha ts) log \<and>
     pred_option (offered log) (hooks j)"

lemma numbered_positive: "numbered log \<Longrightarrow> c \<in> set (drop k log) \<Longrightarrow> 1 \<le> r_seq c"
  by (auto simp: numbered_def in_set_conv_nth dest!: in_set_dropD)

lemma numbered_bounded: "numbered log \<Longrightarrow> c \<in> set log \<Longrightarrow> r_seq c \<le> int (length log)"
  by (auto simp: numbered_def in_set_conv_nth)

lemma numbered_snoc:
  "numbered log \<Longrightarrow> length log < 2 ^ 63 - 1 \<Longrightarrow> r_seq c = int (length log) + 1 \<Longrightarrow> numbered (log @ [c])"
  by (auto simp: numbered_def nth_append less_Suc_eq)

lemma i64_id: "- (2 ^ 63) \<le> x \<Longrightarrow> x < 2 ^ 63 \<Longrightarrow> i64 x = x"
  by (simp add: i64_def)

lemma mutations_table_of:
  assumes "numbered log"
  shows "mutations (table_of sha ts k log) =
    chain_rows sha (chain_end sha (marker_digest sha ts) (take k log)) (drop k log)"
proof -
  have "filter (\<lambda>r. 1 \<le> seq r) (chain_rows sha p (drop k log)) = chain_rows sha p (drop k log)" for p
    by (rule filter_True) (use numbered_positive [OF assms] seq_chain_rows in fastforce)
  then show ?thesis by (simp add: mutations_def table_of_def marker_row_def)
qed

lemma last_table_of:
  assumes "numbered log" "k = 0 \<or> k < length log"
  shows "\<exists>c p. last (table_of sha ts k log) = stored_row c p (chain_end sha (marker_digest sha ts) log) \<and>
    r_seq c = int (length log)"
proof (cases "log = []")
  case True
  then show ?thesis using assms by (auto simp: table_of_def marker_row_def)
next
  case False
  then have ne: "drop k log \<noteq> []" using assms(2) by auto
  obtain p where "last (chain_rows sha (chain_end sha (marker_digest sha ts) (take k log)) (drop k log)) =
      stored_row (last (drop k log)) p
        (chain_end sha (chain_end sha (marker_digest sha ts) (take k log)) (drop k log))"
    using last_chain_rows [OF ne] by blast
  moreover have "chain_end sha (chain_end sha d (take k log)) (drop k log) = chain_end sha d log" for d
    by (simp flip: chain_end_simps(3))
  moreover have "r_seq (last (drop k log)) = int (length log)"
    using ne False assms(1) by (auto simp: last_drop last_conv_nth numbered_def)
  ultimately show ?thesis using ne by (auto simp: table_of_def)
qed

lemma table_of_below:
  assumes "numbered log" "r \<in> set (table_of sha ts k log)"
  shows "seq r \<le> int (length log)"
proof -
  have "r = marker_row sha ts \<or> seq r \<in> r_seq ` set (drop k log)"
    using assms(2) seq_chain_rows by (auto simp: table_of_def)
  then show ?thesis
    using numbered_bounded [OF assms(1)] by (auto simp: marker_row_def dest: in_set_dropD)
qed

lemma table_of_stored:
  assumes "r \<in> set (table_of sha ts k log)"
  shows "\<exists>c p h. r = stored_row c p h"
  using assms chain_rows_stored unfolding table_of_def marker_row_def by fastforce

lemma last_link_stored:
  "rs \<noteq> [] \<Longrightarrow> last rs = stored_row c p h \<Longrightarrow> length h = 32 \<Longrightarrow> last_link rs = Inr (r_seq c, h)"
  by (cases rs rule: rev_cases) (simp_all add: last_link_def get_cell_def)

lemma length_chain_end:
  "\<forall>x. length (sha x) = 32 \<Longrightarrow> length (chain_end sha (marker_digest sha ts) log) = 32"
  by (induction log rule: rev_induct) (simp_all add: marker_digest_def chain_hash_def)

lemma last_link_table_of:
  assumes "\<forall>x. length (sha x) = 32" "numbered log" "k = 0 \<or> k < length log"
  shows "last_link (table_of sha ts k log) = Inr (int (length log), chain_end sha (marker_digest sha ts) log)"
proof -
  obtain c p where c: "last (table_of sha ts k log) = stored_row c p (chain_end sha (marker_digest sha ts) log)"
      "r_seq c = int (length log)"
    using last_table_of [OF assms(2,3)] by blast
  then show ?thesis
    using last_link_stored [OF _ c(1) length_chain_end [OF assms(1)]] by (simp add: table_of_def)
qed

lemma max_batch_id_total:
  assumes "\<forall>r\<in>set rs. \<exists>c p h. r = stored_row c p h"
  shows "\<exists>b. max_batch_id rs = Inr b"
proof -
  have "\<not> list_ex (\<lambda>r. try_get (c_batch_id r) = None) rs" using assms by (auto simp: list_ex_iff)
  then show ?thesis by (simp add: max_batch_id_def)
qed

section \<open>Every step keeps the table a chain of the history\<close>

lemma open_database_at:
  assumes "\<forall>x. length (sha x) = 32" "database_at sha db log ts k"
  shows "\<exists>b. from_options sha now db = Inr \<lparr>file_db = db,
    chain = \<lparr>last_seq = int (length log), last_hash = chain_end sha (marker_digest sha ts) log, batch_counter = b\<rparr>,
    has_batch_id = True, read_only = False, hooks = None\<rparr>"
proof -
  note db = assms(2) [unfolded database_at_def]
  have "table_columns db \<noteq> []" using db by (auto simp: has_column_def)
  then have "create_schema db = db" by (simp add: create_schema_def)
  moreover have "stamp_format_if_new sha now db = Inr db"
    using db by (simp add: stamp_format_if_new_def table_of_def)
  moreover have "warn_if_format_unknown db = Inr ()"
    using db by (simp add: warn_if_format_unknown_def row_at_def table_of_def marker_row_def FORMAT_SEQ_def get_cell_def)
  moreover obtain b where "max_batch_id (table_rows db) = Inr b"
    using db max_batch_id_total [of "table_rows db"] table_of_stored by metis
  ultimately show ?thesis
    using db last_link_table_of [OF assms(1)] by (simp add: from_options_def Let_def)
qed

lemma open_empty:
  assumes "\<forall>x. length (sha x) = 32"
  shows "\<exists>j. from_options sha now empty_database = Inr j \<and> journal_at sha j [] now 0"
proof -
  define db where "db = \<lparr>table_columns = SCHEMA_columns @ [''batch_id''],
     table_rows = [marker_row sha now], base_table = None\<rparr>"
  have at: "database_at sha db [] now 0"
    by (simp add: db_def database_at_def has_column_def SCHEMA_columns_def numbered_def table_of_def base_of_def)
  have "from_options sha now empty_database = from_options sha now db"
    by (simp add: from_options_def empty_database_def create_schema_def has_column_def SCHEMA_columns_def
        migrate_batch_id_def stamp_format_if_new_def insert_entry_def db_def marker_row_def marker_digest_def
        marker_record_def Let_def)
  then show ?thesis
    using open_database_at [OF assms at, of now] at by (auto simp: journal_at_def)
qed

lemma record_step:
  assumes "journal_at sha j log ts k" "last_seq (chain j) < 2 ^ 63 - 1"
    and "record_entry sha io now e j = (j', Inr s)"
  shows "journal_at sha j' (log @ [entry_record s now e]) ts k \<and> s = int (length log) + 1"
proof -
  note at = assms(1) [unfolded journal_at_def database_at_def]
  let ?s = "int (length log) + 1" and ?p = "chain_end sha (marker_digest sha ts) log"
  let ?c = "entry_record ?s now e"
  let ?h = "chain_hash sha ?p ?c"
  have s: "i64 (last_seq (chain j) + 1) = ?s" using at assms(2) by (simp add: i64_id)
  have "\<forall>r\<in>set (rows j). seq r < seq (stored_row ?c ?p ?h)"
  proof
    fix r assume "r \<in> set (rows j)"
    then have "seq r \<le> int (length log)" using at table_of_below by metis
    then show "seq r < seq (stored_row ?c ?p ?h)" by (simp add: entry_record_def)
  qed
  from insert_entry_last [OF this]
  have "record_entry sha io now e j = (if io then
      (j\<lparr>file_db := (file_db j)\<lparr>table_rows := rows j @ [stored_row ?c ?p ?h]\<rparr>,
       chain := (chain j)\<lparr>last_seq := ?s, last_hash := ?h\<rparr>,
       hooks := map_option (\<lambda>evs. evs @ [entry_event ?s now e]) (hooks j)\<rparr>, Inr ?s) else (j, Inl Sqlx))"
    using at unfolding record_entry_def s Let_def by simp
  then have j': "j' = j\<lparr>file_db := (file_db j)\<lparr>table_rows := rows j @ [stored_row ?c ?p ?h]\<rparr>,
       chain := (chain j)\<lparr>last_seq := ?s, last_hash := ?h\<rparr>,
       hooks := map_option (\<lambda>evs. evs @ [entry_event ?s now e]) (hooks j)\<rparr>" and "s = ?s"
    using assms(3) by (cases io, simp_all)+
  have num: "numbered (log @ [?c])"
    using at assms(2) by (intro numbered_snoc) (auto simp: entry_record_def)
  have tab: "rows j @ [stored_row ?c ?p ?h] = table_of sha ts k (log @ [?c])"
  proof -
    have "chain_end sha (chain_end sha (marker_digest sha ts) (take k log)) (drop k log) = ?p"
      by (simp flip: chain_end_simps(3))
    moreover have "k \<le> length log" using at by auto
    ultimately show ?thesis using at by (simp add: table_of_def)
  qed
  have "base_of sha ts k (log @ [?c]) = base_of sha ts k log" using at by (auto simp: base_of_def)
  moreover have "entry_event ?s now e = record_event ?c"
    by (simp add: entry_event_def record_event_def entry_record_def)
  then have "pred_option (offered (log @ [?c])) (hooks j')"
    using at offered_snoc unfolding j' by (cases "hooks j") auto
  ultimately show ?thesis
    using at num tab \<open>s = ?s\<close> unfolding j' journal_at_def database_at_def by (auto simp: has_column_def)
qed

lemma record_failed_unchanged: "record_entry sha io now e j = (j', Inl er) \<Longrightarrow> j' = j"
  by (auto simp: record_entry_def Let_def split: if_splits sum.splits)

lemma nth_chain_rows:
  "i < length cs \<Longrightarrow> chain_rows sha p cs ! i =
    stored_row (cs ! i) (chain_end sha p (take i cs)) (chain_end sha p (take (Suc i) cs))"
  by (induction cs arbitrary: p i) (auto simp: nth_Cons split: nat.splits)

text \<open>The surviving mutation with a given number.\<close>

lemma row_at_survivor:
  assumes "numbered log" "k \<le> i" "i < length log"
  shows "row_at (chain_rows sha (chain_end sha d (take k log)) (drop k log)) (int i + 1) =
    Some (stored_row (log ! i) (chain_end sha d (take i log)) (chain_end sha d (take (Suc i) log)))"
proof -
  let ?rs = "chain_rows sha (chain_end sha d (take k log)) (drop k log)"
  have seqs: "seq (?rs ! n) = int (k + n) + 1" if "n < length log - k" for n
    using that assms(1) by (simp add: nth_chain_rows numbered_def)
  have ends: "chain_end sha (chain_end sha d (take k log)) (take n (drop k log)) = chain_end sha d (take (k + n) log)" for n
    by (simp add: take_add flip: chain_end_simps(3))
  have "?rs ! (i - k) = stored_row (log ! i) (chain_end sha d (take i log)) (chain_end sha d (take (Suc i) log))"
    using assms(2,3) ends [of "i - k"] ends [of "Suc (i - k)"] by (simp add: nth_chain_rows)
  moreover have "row_at ?rs (int i + 1) = Some (?rs ! (i - k))"
    unfolding row_at_def find_Some_iff
    using assms(2,3) seqs by (intro exI [of _ "i - k"]) auto
  ultimately show ?thesis by simp
qed

lemma row_at_survivor_number:
  assumes "numbered log" "row_at (chain_rows sha p (drop k log)) s = Some r"
  shows "\<exists>i. k \<le> i \<and> i < length log \<and> s = int i + 1"
proof -
  obtain n where n: "n < length log - k" "seq (chain_rows sha p (drop k log) ! n) = s"
    using assms(2) unfolding row_at_def find_Some_iff by auto
  then have "s = int (k + n) + 1" using assms(1) by (simp add: nth_chain_rows numbered_def)
  then show ?thesis using n(1) by (intro exI [of _ "k + n"]) simp
qed

lemma filter_table_of:
  assumes "numbered log" "k \<le> k'" "k' \<le> length log"
  shows "filter (\<lambda>r. \<not> (1 \<le> seq r \<and> seq r \<le> int k')) (table_of sha ts k log) = table_of sha ts k' log"
proof -
  let ?d = "marker_digest sha ts" and ?out = "\<lambda>r. \<not> (1 \<le> seq r \<and> seq r \<le> int k')"
  have split: "drop k log = drop k (take k' log) @ drop k' log"
    using append_take_drop_id [of "k' - k" "drop k log"] assms(2) by (simp add: drop_take)
  have ce: "chain_end sha (chain_end sha ?d (take k log)) (drop k (take k' log)) = chain_end sha ?d (take k' log)"
  proof -
    have "take k (take k' log) = take k log" using assms(2) by simp
    then show ?thesis using append_take_drop_id [of k "take k' log"] by (simp flip: chain_end_simps(3))
  qed
  have "filter ?out (chain_rows sha p (drop k (take k' log))) = []" for p
  proof (rule filter_False, rule ballI)
    fix r assume "r \<in> set (chain_rows sha p (drop k (take k' log)))"
    from seq_chain_rows [OF this] obtain c where "c \<in> set (drop k (take k' log))" "seq r = r_seq c" by blast
    then have "c \<in> set (take k' log)" "seq r = r_seq c" by (auto dest: in_set_dropD)
    then obtain i where "i < k'" "seq r = r_seq (log ! i)"
      using assms(3) by (auto simp: in_set_conv_nth)
    then show "\<not> ?out r" using assms(1,3) by (auto simp: numbered_def)
  qed
  moreover have "filter ?out (chain_rows sha p (drop k' log)) = chain_rows sha p (drop k' log)" for p
  proof (rule filter_True, rule ballI)
    fix r assume "r \<in> set (chain_rows sha p (drop k' log))"
    from seq_chain_rows [OF this] obtain c where "c \<in> set (drop k' log)" "seq r = r_seq c" by blast
    then obtain i where "i < length log - k'" "seq r = r_seq (drop k' log ! i)"
      by (auto simp: in_set_conv_nth)
    then show "?out r" using assms(1) by (auto simp: numbered_def)
  qed
  moreover have "?out (marker_row sha ts)" by (simp add: marker_row_def)
  ultimately have "filter ?out (marker_row sha ts # chain_rows sha p (drop k log)) =
      marker_row sha ts # chain_rows sha (chain_end sha p (drop k (take k' log))) (drop k' log)" for p
    unfolding split by simp
  from this [of "chain_end sha ?d (take k log)"] show ?thesis unfolding table_of_def ce .
qed

lemma compact_step:
  assumes "journal_at sha j log ts k" "compact_journal io plan j = (j', r)"
  shows "(j' = j \<and> (\<exists>er. r = Inl er)) \<or>
    (\<exists>k'. k < k' \<and> k' < length log \<and> through_seq plan = int k' \<and> r = Inr (k' - k) \<and> journal_at sha j' log ts k')"
proof (cases r)
  case (Inl er)
  then show ?thesis
    using assms(2) by (auto simp: compact_journal_def Let_def split: if_splits option.splits)
next
  case (Inr n)
  note at = assms(1) [unfolded journal_at_def database_at_def]
  let ?d = "marker_digest sha ts"
  have mut: "mutations (rows j) = chain_rows sha (chain_end sha ?d (take k log)) (drop k log)"
    using at mutations_table_of by simp
  obtain row where row: "row_at (mutations (rows j)) (through_seq plan) = Some row"
      and hash: "try_get (c_entry_hash row) = Some (through_hash plan)"
    using assms(2) Inr by (auto simp: compact_journal_def split: if_splits option.splits)
  obtain i where i: "k \<le> i" "i < length log" "through_seq plan = int i + 1"
    using row_at_survivor_number row at unfolding mut by metis
  have th: "through_hash plan = chain_end sha ?d (take (Suc i) log)"
    using row hash row_at_survivor [of log k i sha ?d] at i unfolding mut by (simp flip: stored_row_simps) (metis stored_row_simps(3) option.inject try_get.simps(1))
  obtain c p where last: "last (rows j) = stored_row c p (chain_end sha ?d log)" "r_seq c = int (length log)"
    using at last_table_of by metis
  have "\<not> (case rev (rows j) of [] \<Rightarrow> True | r # _ \<Rightarrow> seq r \<le> through_seq plan)"
    using assms(2) Inr row hash by (auto simp: compact_journal_def split: if_splits)
  then have "Suc i < length log"
    using last i(3) by (cases "rows j" rule: rev_cases) simp_all
  have kept: "filter (\<lambda>r. \<not> (1 \<le> seq r \<and> seq r \<le> through_seq plan)) (rows j) = table_of sha ts (Suc i) log"
    using filter_table_of [of log k "Suc i"] at i by (simp add: add.commute)
  define j2 where "j2 = j\<lparr>file_db := (file_db j)\<lparr>table_rows := table_of sha ts (Suc i) log,
     base_table := Some (Some (Val (through_seq plan), Val (through_hash plan)))\<rparr>\<rparr>"
  have dropped: "length (filter (\<lambda>r. 1 \<le> seq r \<and> seq r \<le> through_seq plan) (rows j)) = Suc i - k"
    using sum_length_filter_compl [of "\<lambda>r. 1 \<le> seq r \<and> seq r \<le> through_seq plan" "rows j"] kept at i
    by (simp add: table_of_def)
  have "compact_journal io plan j = (if io then (j2, Inr (Suc i - k)) else (j, Inl Sqlx))"
    using at row hash \<open>\<not> (case rev (rows j) of [] \<Rightarrow> True | r # _ \<Rightarrow> seq r \<le> through_seq plan)\<close>
    unfolding compact_journal_def Let_def kept dropped j2_def by simp
  then have "j' = j2" "r = Inr (Suc i - k)" using assms(2) Inr by (cases io, simp_all)+
  moreover have "journal_at sha j2 log ts (Suc i)"
    using at \<open>Suc i < length log\<close> i th
    by (simp add: journal_at_def database_at_def j2_def base_of_def has_column_def)
  ultimately show ?thesis using i \<open>Suc i < length log\<close> by (auto intro!: exI [of _ "Suc i"])
qed

text \<open>The invariant of every run.\<close>

theorem journal_run_at:
  assumes "\<forall>x. length (sha x) = 32" "journal_run sha j log"
  shows "\<exists>ts k. journal_at sha j log ts k"
  using assms(2)
proof induction
  case (create now j)
  then show ?case using open_empty [OF assms(1), of now] by auto
next
  case (reopen j log now j')
  then obtain ts k where at: "database_at sha (file_db j) log ts k" by (auto simp: journal_at_def)
  with open_database_at [OF assms(1) at, of now] reopen.hyps(2) have "journal_at sha j' log ts k"
    by (auto simp: journal_at_def)
  then show ?case by blast
next
  case (record_ok j log io now e j' s)
  then show ?case using record_step by metis
next
  case (record_failed j log io now e j' er)
  then show ?case using record_failed_unchanged by metis
next
  case (alloc j log)
  then show ?case by (auto simp: journal_at_def alloc_batch_def Let_def)
next
  case (hook j log)
  then obtain ts k where "journal_at sha j log ts k" by blast
  then have "journal_at sha (set_hook_sender j) log ts k"
    by (simp add: journal_at_def set_hook_sender_def offered_Nil)
  then show ?case by blast
next
  case (compacted j log io plan j' r)
  then show ?case using compact_step by metis
qed

section \<open>What the readers answer\<close>

lemma base_journal_at:
  assumes "\<forall>x. length (sha x) = 32" "journal_at sha j log ts k"
  shows "base j = Inr (if k = 0 then None
    else Some \<lparr>through_seq = int k, through_hash = chain_end sha (marker_digest sha ts) (take k log)\<rparr>)"
  using assms length_chain_end [OF assms(1)]
  by (simp add: journal_at_def database_at_def base_def base_of_def get_cell_def)

lemma picked_journal_at: "journal_at sha j log ts k \<Longrightarrow> picked j = table_of sha ts k log"
  by (simp add: journal_at_def database_at_def picked_def)

lemma verify_journal_at:
  assumes "\<forall>x. length (sha x) = 32" "journal_at sha j log ts k"
  shows "verify_chain sha j = Inr (Intact (length log - k))"
proof -
  let ?d = "marker_digest sha ts"
  note at = assms(2) [unfolded journal_at_def database_at_def]
  have pos: "\<forall>c\<in>set (drop k log). 1 \<le> r_seq c" using at numbered_positive by blast
  have "verify_rows sha (if k = 0 then None else Some \<lparr>through_seq = int k, through_hash = chain_end sha ?d (take k log)\<rparr>)
      ?d 0 (Version 1) None (chain_rows sha (chain_end sha ?d (take k log)) (drop k log)) =
    Inr (verdict None (0 + length (drop k log)) (Version 1) None)"
  proof (cases "k = 0")
    case True
    then show ?thesis using verify_chain_rows_linked [OF pos assms(1)] by simp
  next
    case False
    let ?b = "\<lparr>through_seq = int k, through_hash = chain_end sha ?d (take k log)\<rparr>"
    have k: "k < length log" using False at by simp
    then have "r_seq (hd (drop k log)) = i64 (through_seq ?b + 1)"
      using at by (simp add: hd_drop_conv_nth numbered_def i64_id)
    then show ?thesis using verify_chain_rows_base [OF pos assms(1), of ?b] k False by simp
  qed
  then show ?thesis
    unfolding verify_chain_def base_journal_at [OF assms] picked_journal_at [OF assms(2)] table_of_def
      and_then.simps verify_marker [OF assms(1)]
    by (simp add: JOURNAL_FORMAT_def)
qed

lemma count_journal_at: "journal_at sha j log ts k \<Longrightarrow> count j = length log - k"
  by (simp add: journal_at_def database_at_def count_def mutations_table_of)

definition entry_content :: "journal_entry \<Rightarrow> journal_record" where
  "entry_content e =
     \<lparr>r_seq = e_seq e, r_ts_ms = e_ts_ms e, r_actor_kind = e_actor_kind e, r_actor_id = e_actor_id e,
      r_op = e_op e, r_path = e_path e, r_path_to = e_path_to e, r_reversal = e_reversal e,
      r_reversal_ref = e_reversal_ref e, r_undoes_seq = e_undoes_seq e, r_batch_id = e_batch_id e\<rparr>"

lemma row_to_entry_stored:
  "\<exists>e. row_to_entry (stored_row c p h) = Inr e \<and> entry_content e = c \<and> e_entry_hash e = h"
  by (simp add: row_to_entry_def entry_content_def)

lemma entries_chain_rows:
  "\<exists>es. try_map row_to_entry (chain_rows sha p cs) = Inr es \<and> map entry_content es = cs"
proof (induction cs arbitrary: p)
  case (Cons c cs)
  then obtain es where "try_map row_to_entry (chain_rows sha (chain_hash sha p c) cs) = Inr es" "map entry_content es = cs"
    by blast
  with row_to_entry_stored [of c p "chain_hash sha p c"] show ?case by auto
qed simp

lemma entries_journal_at:
  "journal_at sha j log ts k \<Longrightarrow> \<exists>es. entries j = Inr es \<and> map entry_content es = drop k log"
  unfolding entries_def journal_at_def
  using entries_chain_rows by (metis database_at_def mutations_table_of picked_def)

lemma head_stored:
  "mutations (rows j) \<noteq> [] \<Longrightarrow> last (mutations (rows j)) = stored_row c p h \<Longrightarrow> length h = 32 \<Longrightarrow>
    head j = Inr (Some (r_seq c, h))"
  by (cases "mutations (rows j)" rule: rev_cases) (simp_all add: head_def hash32_def get_cell_def)

lemma head_journal_at:
  assumes "\<forall>x. length (sha x) = 32" "journal_at sha j log ts k"
  shows "head j = Inr (if log = [] then None else Some (int (length log), last_hash (chain j)))"
proof (cases "log = []")
  case True
  then show ?thesis
    using assms(2) by (simp add: journal_at_def database_at_def head_def mutations_table_of)
next
  case False
  note at = assms(2) [unfolded journal_at_def database_at_def]
  have ne: "drop k log \<noteq> []" using at False by auto
  have mut: "mutations (rows j) = chain_rows sha (chain_end sha (marker_digest sha ts) (take k log)) (drop k log)"
    using at mutations_table_of by simp
  have "mutations (rows j) \<noteq> []" "last (mutations (rows j)) = last (table_of sha ts k log)"
    unfolding mut using ne by (simp_all add: table_of_def)
  moreover obtain c p where "last (table_of sha ts k log) = stored_row c p (chain_end sha (marker_digest sha ts) log)"
      "r_seq c = int (length log)"
    using at last_table_of by metis
  ultimately show ?thesis
    using head_stored [of j c p] length_chain_end [OF assms(1)] at False by simp
qed

lemma record_accepted:
  assumes "journal_at sha j log ts k" "last_seq (chain j) < 2 ^ 63 - 1"
  shows "snd (record_entry sha True now e j) = Inr (int (length log) + 1)"
proof -
  note at = assms(1) [unfolded journal_at_def database_at_def]
  have "i64 (last_seq (chain j) + 1) = int (length log) + 1" using at assms(2) by (simp add: i64_id)
  moreover have "\<not> list_ex (\<lambda>r. seq r = int (length log) + 1) (rows j)"
    using at table_of_below by (fastforce simp: list_ex_iff)
  ultimately show ?thesis
    using at by (simp add: record_entry_def Let_def insert_entry_def entry_record_def)
qed

lemma run_record:
  assumes "\<forall>x. length (sha x) = 32" "journal_run sha j log" "journal_at sha j log ts k" "int (length log) < 2 ^ 63 - 1"
  shows "\<exists>j'. record_entry sha True now e j = (j', Inr (int (length log) + 1)) \<and>
    journal_run sha j' (log @ [entry_record (int (length log) + 1) now e]) \<and>
    journal_at sha j' (log @ [entry_record (int (length log) + 1) now e]) ts k"
proof -
  have small: "last_seq (chain j) < 2 ^ 63 - 1" using assms(3,4) by (simp add: journal_at_def)
  then obtain j' where j': "record_entry sha True now e j = (j', Inr (int (length log) + 1))"
    using record_accepted [OF assms(3) small] by (metis prod.collapse)
  show ?thesis
    using j' journal_run.record_ok [OF assms(2) small j'] record_step [OF assms(3) small j'] by blast
qed

section \<open>The journal is its history\<close>

text \<open>C5: Whatever a journal goes through from its creation (reopened, written with or without a failing
  disk, compacted with any plan), its chain verifies as intact with every surviving mutation counted;
  the mutations are numbered 1, 2, 3, and so on in the order in which they were recorded, without a gap;
  the reader returns them unchanged except for a compacted prefix that never contains the head; the head
  is the last one recorded, with the digest the chain state carries; what a hook sender was offered is
  exactly what was recorded since it was installed; the next write is accepted when the disk takes it;
  and the file opens again.\<close>

theorem journal_faithful:
  assumes "\<forall>x. length (sha x) = 32" and "journal_run sha j log"
  shows "verify_chain sha j = Inr (Intact (count j)) \<and>
    (\<forall>i < length log. r_seq (log ! i) = int i + 1) \<and>
    (\<exists>k es. (k = 0 \<or> k < length log) \<and> entries j = Inr es \<and> map entry_content es = drop k log) \<and>
    head j = Inr (if log = [] then None else Some (int (length log), last_hash (chain j))) \<and>
    (\<forall>evs. hooks j = Some evs \<longrightarrow> (\<exists>n \<le> length log. evs = map record_event (drop n log))) \<and>
    (last_seq (chain j) < 2 ^ 63 - 1 \<longrightarrow> snd (record_entry sha True now e j) = Inr (int (length log) + 1)) \<and>
    (\<exists>j'. from_options sha now (file_db j) = Inr j')"
proof -
  obtain ts k where at: "journal_at sha j log ts k" using journal_run_at [OF assms] by blast
  note parts = at [unfolded journal_at_def database_at_def numbered_def]
  have "verify_chain sha j = Inr (Intact (count j))"
    using verify_journal_at [OF assms(1) at] count_journal_at [OF at] by simp
  moreover have "\<exists>k es. (k = 0 \<or> k < length log) \<and> entries j = Inr es \<and> map entry_content es = drop k log"
    using entries_journal_at [OF at] parts by blast
  moreover have "\<exists>j'. from_options sha now (file_db j) = Inr j'"
    using open_database_at [OF assms(1)] at unfolding journal_at_def by metis
  moreover have "\<forall>evs. hooks j = Some evs \<longrightarrow> (\<exists>n \<le> length log. evs = map record_event (drop n log))"
    using parts by (auto simp: offered_def)
  ultimately show ?thesis
    using head_journal_at [OF assms(1) at] record_accepted [OF at] parts by blast
qed

definition sample_sha :: "bytes \<Rightarrow> bytes" where
  "sample_sha x = take 32 (rev x @ zero_hash)"

definition sample_entry :: "bytes \<Rightarrow> int option \<Rightarrow> int option \<Rightarrow> new_entry" where
  "sample_entry p undoes batch = \<lparr>n_op = ''created'', n_path = p, n_path_to = None, n_reversal = DeleteNode,
     n_reversal_ref = None, n_actor = Agent ''s1'', n_undoes_seq = undoes, n_batch_id = batch\<rparr>"

lemma sample_sha_32: "\<forall>x. length (sample_sha x) = 32"
  by (auto simp: sample_sha_def zero_hash_def min_def)

definition sample_record :: "int \<Rightarrow> int \<Rightarrow> int option \<Rightarrow> journal_record" where
  "sample_record s now undoes = entry_record s now (sample_entry ''local:/a'' undoes None)"

text \<open>A journal with one recorded mutation, and with a second one recorded later.\<close>

lemma sample_run:
  "\<exists>j. journal_run sample_sha j [sample_record 1 8 None] \<and> journal_at sample_sha j [sample_record 1 8 None] 7 0"
proof -
  obtain j where j: "from_options sample_sha 7 empty_database = Inr j" "journal_at sample_sha j [] 7 0"
    using open_empty [OF sample_sha_32] by blast
  from run_record [OF sample_sha_32 journal_run.create [OF j(1)] j(2)] show ?thesis
    by (fastforce simp: sample_record_def)
qed

lemma sample_run2:
  "\<exists>j. journal_run sample_sha j [sample_record 1 8 None, sample_record 2 20 None] \<and>
     journal_at sample_sha j [sample_record 1 8 None, sample_record 2 20 None] 7 0"
proof -
  obtain j where j: "journal_run sample_sha j [sample_record 1 8 None]" "journal_at sample_sha j [sample_record 1 8 None] 7 0"
    using sample_run by blast
  from run_record [OF sample_sha_32 j, of 20 "sample_entry ''local:/a'' None None"] show ?thesis
    by (auto simp: sample_record_def)
qed

theorem journal_faithful_witness:
  "\<exists>j. journal_run sample_sha j [sample_record 1 8 None] \<and> verify_chain sample_sha j = Inr (Intact (count j)) \<and>
     (\<exists>es. entries j = Inr es \<and> map entry_content es = [sample_record 1 8 None])"
proof -
  obtain j where run: "journal_run sample_sha j [sample_record 1 8 None]" using sample_run by blast
  from journal_faithful [OF sample_sha_32 run] run show ?thesis by (intro exI [of _ j]) auto
qed

end
