(* ===== verification/Journal_Verify.thy ===== *)
theory Journal_Verify
  imports Journal_Chain
begin

text \<open>
  What the walk over the chain shows of an arbitrary file, whoever wrote it. \<open>first_bad\<close> is the
  declarative reading of the documentation of \<^verbatim>\<open>verify_chain\<close>: the first row whose link or digest does
  not hold. The walk answers exactly that, and the digest of the head commits to every field of every
  row: two intact files with the same head are the same, or two of the digested texts collide.
\<close>

section \<open>The walk names the first bad row\<close>

definition bad_row :: "(bytes \<Rightarrow> bytes) \<Rightarrow> bytes \<Rightarrow> journal_row \<Rightarrow> bool" where
  "bad_row sha prev row \<longleftrightarrow> seq row < 0 \<or> c_prev_hash row \<noteq> Val prev \<or>
     (\<forall>h c. c_entry_hash row = Val h \<and> length h = 32 \<and> decode_verified_row row = Some c \<and>
        (seq row = 0 \<longrightarrow> is_canonical_marker c) \<longrightarrow> chain_hash sha prev c \<noteq> h)"

primrec first_bad_seq :: "(bytes \<Rightarrow> bytes) \<Rightarrow> bytes \<Rightarrow> journal_row list \<Rightarrow> int option" where
  "first_bad_seq sha prev [] = None"
| "first_bad_seq sha prev (row # rs) =
     (if bad_row sha prev row then Some (seq row)
      else first_bad_seq sha (case c_entry_hash row of Val h \<Rightarrow> h | Opaque _ \<Rightarrow> []) rs)"

definition hashes_decode :: "journal_row list \<Rightarrow> bool" where
  "hashes_decode rs \<longleftrightarrow> list_all (\<lambda>r. try_get (c_prev_hash r) \<noteq> None \<and> try_get (c_entry_hash r) \<noteq> None) rs"

lemma hashes_decode_Cons:
  "hashes_decode (r # rs) \<longleftrightarrow> (\<exists>p h. c_prev_hash r = Val p \<and> c_entry_hash r = Val h) \<and> hashes_decode rs"
  by (cases "c_prev_hash r"; cases "c_entry_hash r") (auto simp: hashes_decode_def)

lemma hashes_decode_Nil [simp]: "hashes_decode []"
  by (simp add: hashes_decode_def)

lemma verify_tail_bad:
  assumes "hashes_decode rs" "\<forall>r\<in>set rs. 1 \<le> seq r" "\<not> is_unknown declared"
  shows "verify_rows sha None prev n declared (Some s) rs = Inr (Broken s)"
  using assms(1,2)
proof (induction rs arbitrary: prev n)
  case Nil
  then show ?case using assms(3) by simp
next
  case (Cons r rs)
  then obtain p h where "c_prev_hash r = Val p" "c_entry_hash r = Val h" by (auto simp: hashes_decode_Cons)
  with Cons show ?case
    using assms(3) by (auto simp: FORMAT_SEQ_def hashes_decode_Cons split: option.splits)
qed

lemma verify_tail:
  assumes "hashes_decode rs" "\<forall>r\<in>set rs. 1 \<le> seq r" "\<not> is_unknown declared"
  shows "verify_rows sha None prev n declared None rs =
    Inr (case first_bad_seq sha prev rs of None \<Rightarrow> Intact (n + length rs) | Some s \<Rightarrow> Broken s)"
  using assms(1,2)
proof (induction rs arbitrary: prev n)
  case Nil
  then show ?case using assms(3) by simp
next
  case (Cons r rs)
  then obtain p h where ph: "c_prev_hash r = Val p" "c_entry_hash r = Val h" by (auto simp: hashes_decode_Cons)
  have tail: "hashes_decode rs" "\<forall>r\<in>set rs. 1 \<le> seq r" "1 \<le> seq r"
    using Cons.prems by (auto simp: hashes_decode_Cons)
  show ?case
  proof (cases "bad_row sha prev r")
    case True
    then have "p \<noteq> prev \<or> length h \<noteq> 32 \<or> \<not> (case decode_verified_row r of Some c \<Rightarrow> chain_hash sha prev c = h | None \<Rightarrow> False)"
      using ph tail(3) by (auto simp: bad_row_def split: option.splits)
    then show ?thesis
      using ph tail True assms(3) verify_tail_bad [OF tail(1,2) assms(3)] by (auto simp: FORMAT_SEQ_def)
  next
    case False
    then obtain c where "p = prev" "length h = 32" "decode_verified_row r = Some c" "chain_hash sha prev c = h"
      using ph by (auto simp: bad_row_def)
    then show ?thesis
      using ph tail False Cons.IH [OF tail(1,2)] by (simp add: FORMAT_SEQ_def split: option.split)
  qed
qed

lemma verify_from_start:
  assumes "hashes_decode rs" "sorted_wrt (<) (map seq rs)"
    and "\<forall>r\<in>set rs. seq r = 0 \<longrightarrow> (\<forall>c. decode_verified_row r = Some c \<longrightarrow> \<not> is_unknown (parse_format (r_op c) (r_path c)))"
  shows "verify_rows sha None zero_hash 0 Unmarked None rs =
    Inr (case first_bad_seq sha zero_hash rs of
           None \<Rightarrow> Intact (length (mutations rs)) | Some s \<Rightarrow> Broken s)"
proof (cases rs)
  case Nil
  then show ?thesis by (simp add: mutations_def)
next
  case (Cons r rs')
  obtain p h where ph: "c_prev_hash r = Val p" "c_entry_hash r = Val h" and dec: "hashes_decode rs'"
    using assms(1) Cons by (auto simp: hashes_decode_Cons)
  have above: "\<forall>r'\<in>set rs'. seq r < seq r'" using assms(2) Cons by auto
  consider "seq r < 0" | "seq r = 0" | "1 \<le> seq r" by linarith
  then show ?thesis
  proof cases
    case 1
    then show ?thesis using Cons ph by (simp add: bad_row_def FORMAT_SEQ_def)
  next
    case 2
    have pos: "\<forall>r'\<in>set rs'. 1 \<le> seq r'" using above 2 by auto
    then have muts: "mutations rs' = rs'" by (simp add: mutations_def)
    show ?thesis
    proof (cases "bad_row sha zero_hash r")
      case True
      then show ?thesis
        using Cons ph 2 by (auto simp: bad_row_def FORMAT_SEQ_def split: option.splits)
    next
      case False
      then obtain c where c: "p = zero_hash" "length h = 32" "decode_verified_row r = Some c"
          "is_canonical_marker c" "chain_hash sha zero_hash c = h"
        using ph 2 by (auto simp: bad_row_def)
      then have "\<not> is_unknown (parse_format (r_op c) (r_path c))" using assms(3) Cons 2 by auto
      from verify_tail [OF dec pos this, of sha h 0]
      show ?thesis using Cons ph 2 c False muts by (simp add: FORMAT_SEQ_def mutations_def split: option.split)
    qed
  next
    case 3
    then have pos: "\<forall>r'\<in>set rs. 1 \<le> seq r'" using above Cons by auto
    then have "mutations rs = rs" by (simp add: mutations_def)
    then show ?thesis using verify_tail [OF assms(1) pos, of Unmarked sha zero_hash 0] by (simp split: option.split)
  qed
qed

section \<open>The digested text determines the row\<close>

definition i64_range :: "int \<Rightarrow> bool" where
  "i64_range x \<longleftrightarrow> - (2 ^ 63) \<le> x \<and> x < 2 ^ 63"

definition small_bytes :: "bytes \<Rightarrow> bool" where
  "small_bytes b \<longleftrightarrow> length b < 2 ^ 64"

definition small_record :: "journal_record \<Rightarrow> bool" where
  "small_record c \<longleftrightarrow> i64_range (r_seq c) \<and> i64_range (r_ts_ms c) \<and> small_bytes (r_actor_kind c) \<and>
     pred_option small_bytes (r_actor_id c) \<and> small_bytes (r_op c) \<and> small_bytes (r_path c) \<and>
     pred_option small_bytes (r_path_to c) \<and> small_bytes (r_reversal c) \<and>
     pred_option small_bytes (r_reversal_ref c) \<and> pred_option i64_range (r_undoes_seq c) \<and>
     pred_option i64_range (r_batch_id c)"

lemma i64_le_bytes_inj:
  assumes "i64_le_bytes x = i64_le_bytes y" "i64_range x" "i64_range y"
  shows "x = y"
proof -
  have "nat (x mod 2 ^ 64) = nat (y mod 2 ^ 64)"
    using assms(1) unfolding i64_le_bytes_def by (rule le_bytes_inj) (simp_all add: nat_less_iff)
  then have "x mod 2 ^ 64 = y mod 2 ^ 64" by (simp add: eq_nat_nat_iff)
  then have "(x + 2 ^ 63) mod 2 ^ 64 = (y + 2 ^ 63) mod 2 ^ 64" by (rule mod_add_cong) simp
  then show ?thesis using assms(2,3) by (simp add: i64_range_def)
qed

lemma length_i64_le_bytes [simp]: "length (i64_le_bytes x) = 8"
  by (simp add: i64_le_bytes_def)

lemma feed_i64_append_inj:
  "feed (i64_le_bytes x) @ a = feed (i64_le_bytes y) @ b \<Longrightarrow> i64_range x \<Longrightarrow> i64_range y \<Longrightarrow> x = y \<and> a = b"
  using feed_append_inj [of "i64_le_bytes x" a "i64_le_bytes y" b] i64_le_bytes_inj by auto

lemma feed_small_append_inj:
  "feed x @ a = feed y @ b \<Longrightarrow> small_bytes x \<Longrightarrow> small_bytes y \<Longrightarrow> x = y \<and> a = b"
  by (rule feed_append_inj) (auto simp: small_bytes_def)

lemma feed_opt_append_inj:
  "feed_opt x @ a = feed_opt y @ b \<Longrightarrow> pred_option small_bytes x \<Longrightarrow> pred_option small_bytes y \<Longrightarrow> x = y \<and> a = b"
  using feed_small_append_inj [of "the x" a "the y" b] by (cases x; cases y) simp_all

text \<open>An optional number is fed as the optional text of its bytes; the batch is the same without a byte
  for its absence, which nothing follows.\<close>

definition opt_number :: "int option \<Rightarrow> bytes" where
  "opt_number x = feed_opt (map_option i64_le_bytes x)"

lemma opt_number_append_inj:
  assumes "opt_number x @ a = opt_number y @ b" "pred_option i64_range x" "pred_option i64_range y"
  shows "x = y \<and> a = b"
proof -
  have "map_option i64_le_bytes x = map_option i64_le_bytes y \<and> a = b"
    using assms(1) unfolding opt_number_def
    by (rule feed_opt_append_inj) (simp_all add: small_bytes_def option.pred_map option.pred_True comp_def)
  then show ?thesis using assms(2,3) i64_le_bytes_inj by (cases x; cases y) auto
qed

definition batch_text :: "int option \<Rightarrow> bytes" where
  "batch_text x = (if x = None then [] else opt_number x)"

lemma batch_text_inj:
  assumes "batch_text x = batch_text y" "pred_option i64_range x" "pred_option i64_range y"
  shows "x = y"
proof -
  have "opt_number z \<noteq> []" "[] \<noteq> opt_number z" for z by (cases z; simp add: opt_number_def)+
  then show ?thesis
    using assms opt_number_append_inj [of x "[]" y "[]"] by (auto simp: batch_text_def split: if_splits)
qed

lemma chain_hash_input_parts:
  "chain_hash_input prev r =
     prev @ feed (i64_le_bytes (r_seq r)) @ feed (i64_le_bytes (r_ts_ms r)) @ feed (r_actor_kind r) @
     feed_opt (r_actor_id r) @ feed (r_op r) @ feed (r_path r) @ feed_opt (r_path_to r) @
     feed (r_reversal r) @ feed_opt (r_reversal_ref r) @ opt_number (r_undoes_seq r) @ batch_text (r_batch_id r)"
  by (simp add: chain_hash_input_def opt_number_def batch_text_def split: option.split)

lemma small_recordD:
  assumes "small_record c"
  shows "i64_range (r_seq c)" "i64_range (r_ts_ms c)" "small_bytes (r_actor_kind c)"
    "pred_option small_bytes (r_actor_id c)" "small_bytes (r_op c)" "small_bytes (r_path c)"
    "pred_option small_bytes (r_path_to c)" "small_bytes (r_reversal c)"
    "pred_option small_bytes (r_reversal_ref c)" "pred_option i64_range (r_undoes_seq c)"
    "pred_option i64_range (r_batch_id c)"
  using assms by (simp_all add: small_record_def)

lemma chain_hash_input_inj:
  assumes eq: "chain_hash_input p c = chain_hash_input q d"
    and len: "length p = length q" and small: "small_record c" "small_record d"
  shows "p = q \<and> c = d"
proof -
  note parts = eq [unfolded chain_hash_input_parts append_eq_append_conv [OF disjI1 [OF len]]]
  note e = parts [THEN conjunct2]
  note e1 = feed_i64_append_inj [OF e small_recordD(1) [OF small(1)] small_recordD(1) [OF small(2)]]
  note e2 = feed_i64_append_inj [OF e1 [THEN conjunct2] small_recordD(2) [OF small(1)] small_recordD(2) [OF small(2)]]
  note e3 = feed_small_append_inj [OF e2 [THEN conjunct2] small_recordD(3) [OF small(1)] small_recordD(3) [OF small(2)]]
  note e4 = feed_opt_append_inj [OF e3 [THEN conjunct2] small_recordD(4) [OF small(1)] small_recordD(4) [OF small(2)]]
  note e5 = feed_small_append_inj [OF e4 [THEN conjunct2] small_recordD(5) [OF small(1)] small_recordD(5) [OF small(2)]]
  note e6 = feed_small_append_inj [OF e5 [THEN conjunct2] small_recordD(6) [OF small(1)] small_recordD(6) [OF small(2)]]
  note e7 = feed_opt_append_inj [OF e6 [THEN conjunct2] small_recordD(7) [OF small(1)] small_recordD(7) [OF small(2)]]
  note e8 = feed_small_append_inj [OF e7 [THEN conjunct2] small_recordD(8) [OF small(1)] small_recordD(8) [OF small(2)]]
  note e9 = feed_opt_append_inj [OF e8 [THEN conjunct2] small_recordD(9) [OF small(1)] small_recordD(9) [OF small(2)]]
  note e10 = opt_number_append_inj [OF e9 [THEN conjunct2] small_recordD(10) [OF small(1)] small_recordD(10) [OF small(2)]]
  note e11 = batch_text_inj [OF e10 [THEN conjunct2] small_recordD(11) [OF small(1)] small_recordD(11) [OF small(2)]]
  from parts e1 e2 e3 e4 e5 e6 e7 e8 e9 e10 e11 show ?thesis by (simp add: journal_record.equality)
qed

section \<open>An intact file is a chain\<close>

lemma decoded_stored:
  assumes "decode_verified_row r = Some c" "c_prev_hash r = Val p" "c_entry_hash r = Val h"
  shows "r = stored_row c p h"
proof -
  have texts: "try_get x = Some v \<longleftrightarrow> x = Val v" for x :: "bytes cell" and v by (cases x) auto
  have numbers: "try_get x = Some v \<longleftrightarrow> x = Val v" for x :: "int cell" and v by (cases x) auto
  have opts: "try_get x = Some v \<longleftrightarrow> x = Val v" for x :: "bytes option cell" and v by (cases x) auto
  have opts': "try_get x = Some v \<longleftrightarrow> x = Val v" for x :: "int option cell" and v by (cases x) auto
  show ?thesis
    using assms
    by (intro journal_row.equality)
       (auto simp: decode_verified_row_def stored_row_def texts numbers opts opts' split: option.splits)
qed

lemma intact_no_bad: "verify_rows sha bs prev n declared (Some s) rs \<noteq> Inr (Intact m)"
proof (induction rs arbitrary: bs prev n declared)
  case Nil
  then show ?case by (cases bs) auto
next
  case (Cons r rs)
  then show ?case by (auto simp: Let_def split: option.splits if_splits)
qed

lemma intact_chain:
  "verify_rows sha None prev n declared None rs = Inr (Intact m) \<Longrightarrow> \<exists>cs. rs = chain_rows sha prev cs"
proof (induction rs arbitrary: prev n declared)
  case Nil
  then show ?case by (metis chain_rows.simps(1))
next
  case (Cons r rs)
  obtain p h where ph: "c_prev_hash r = Val p" "c_entry_hash r = Val h"
    using Cons.prems by (cases "c_prev_hash r"; cases "c_entry_hash r") auto
  have "p = prev \<and> (\<exists>c. decode_verified_row r = Some c \<and> chain_hash sha prev c = h) \<and>
      (\<exists>n declared. verify_rows sha None h n declared None rs = Inr (Intact m))"
    using Cons.prems ph intact_no_bad
    by (auto simp: Let_def split: option.splits if_splits)
  then obtain c where "decode_verified_row r = Some c" "chain_hash sha prev c = h" "p = prev"
      and "\<exists>cs. rs = chain_rows sha h cs"
    using Cons.IH by blast
  then show ?case using decoded_stored [of r c p h] ph by (metis chain_rows.simps(2))
qed

section \<open>The head commits to the history\<close>

primrec chain_texts :: "(bytes \<Rightarrow> bytes) \<Rightarrow> bytes \<Rightarrow> journal_record list \<Rightarrow> bytes list" where
  "chain_texts sha prev [] = []"
| "chain_texts sha prev (c # cs) = chain_hash_input prev c # chain_texts sha (chain_hash sha prev c) cs"

lemma chain_texts_snoc:
  "chain_texts sha p (cs @ [c]) = chain_texts sha p cs @ [chain_hash_input (chain_end sha p cs) c]"
  by (induction cs arbitrary: p) simp_all

definition collision_in :: "(bytes \<Rightarrow> bytes) \<Rightarrow> bytes \<Rightarrow> bytes set \<Rightarrow> bool" where
  "collision_in sha start texts \<longleftrightarrow>
     (\<exists>x\<in>texts. sha x = start) \<or> (\<exists>x\<in>texts. \<exists>y\<in>texts. x \<noteq> y \<and> sha x = sha y)"

lemma collision_in_mono: "collision_in sha p A \<Longrightarrow> A \<subseteq> B \<Longrightarrow> collision_in sha p B"
  unfolding collision_in_def by blast

lemma chain_end_commits:
  assumes "\<forall>x. length (sha x) = 32" "length p = 32"
  shows "chain_end sha p cs = chain_end sha p ds \<Longrightarrow> list_all small_record cs \<Longrightarrow> list_all small_record ds \<Longrightarrow>
    cs = ds \<or> collision_in sha p (set (chain_texts sha p cs) \<union> set (chain_texts sha p ds))"
proof (induction cs arbitrary: ds rule: rev_induct)
  case Nil
  show ?case
  proof (cases ds rule: rev_cases)
    case (snoc ds' d)
    then have "sha (chain_hash_input (chain_end sha p ds') d) = p" using Nil.prems(1) by (simp add: chain_hash_def)
    then show ?thesis using snoc by (auto simp: collision_in_def chain_texts_snoc)
  qed simp
next
  case (snoc c cs)
  have len: "length (chain_end sha p es) = 32" for es
    by (cases es rule: rev_cases) (simp_all add: chain_hash_def assms)
  show ?case
  proof (cases ds rule: rev_cases)
    case Nil
    then have "sha (chain_hash_input (chain_end sha p cs) c) = p" using snoc.prems(1) by (simp add: chain_hash_def)
    then show ?thesis by (auto simp: collision_in_def chain_texts_snoc)
  next
    case (snoc ds' d)
    let ?x = "chain_hash_input (chain_end sha p cs) c" and ?y = "chain_hash_input (chain_end sha p ds') d"
    have eq: "sha ?x = sha ?y" using snoc.prems(1) snoc by (simp add: chain_hash_def)
    show ?thesis
    proof (cases "?x = ?y")
      case False
      with eq show ?thesis using snoc by (auto simp: collision_in_def chain_texts_snoc)
    next
      case True
      have same: "chain_end sha p cs = chain_end sha p ds' \<and> c = d"
        using chain_hash_input_inj [OF True] len snoc.prems(2,3) snoc by simp
      then have "cs = ds' \<or> collision_in sha p (set (chain_texts sha p cs) \<union> set (chain_texts sha p ds'))"
        using snoc.IH [of ds'] snoc.prems(2,3) snoc by simp
      then show ?thesis
        using same snoc by (auto simp: chain_texts_snoc dest: collision_in_mono [OF _ subset_insertI])
    qed
  qed
qed

text \<open>C31: On a file that was never compacted, whose digest columns decode and whose marker, if it has one,
  declares a known format, the verdict is exactly the first bad row: a row below the marker, a row
  that does not carry the stored digest of the row before it, a marker that is not canonical, or a row
  whose content does not decode or does not recompute its digest. Without such a row the file is
  intact and every mutation is counted.\<close>

theorem verify_chain_exact:
  assumes "has_batch_id j" "base j = Inr None" "hashes_decode (rows j)" "sorted_wrt (<) (map seq (rows j))"
    and "\<forall>f. declared_format j = Inr f \<longrightarrow> \<not> is_unknown f"
  shows "verify_chain sha j = Inr (case first_bad_seq sha zero_hash (rows j) of
    None \<Rightarrow> Intact (count j) | Some s \<Rightarrow> Broken s)"
proof -
  have "\<not> is_unknown (parse_format (r_op c) (r_path c))"
    if r: "r \<in> set (rows j)" "seq r = 0" "decode_verified_row r = Some c" for r c
  proof -
    obtain r' where r': "row_at (rows j) FORMAT_SEQ = Some r'"
      using r(1,2) by (cases "row_at (rows j) FORMAT_SEQ") (auto simp: row_at_def find_None_iff FORMAT_SEQ_def)
    then have "r' \<in> set (rows j)" "seq r' = 0"
      by (auto simp: row_at_def find_Some_iff FORMAT_SEQ_def)
    moreover have "inj_on seq (set (rows j))"
      using assms(4) strict_sorted_iff [of "map seq (rows j)"] by (simp add: distinct_map)
    ultimately have "r' = r" using r(1,2) by (auto simp: inj_on_def)
    have "c_op r = Val (r_op c) \<and> c_path r = Val (r_path c)"
      using r(3) by (cases "c_op r"; cases "c_path r") (auto simp: decode_verified_row_def split: option.splits)
    then have "declared_format j = Inr (parse_format (r_op c) (r_path c))"
      using r' \<open>r' = r\<close> by (simp add: declared_format_def get_cell_def)
    then show ?thesis using assms(5) by blast
  qed
  then show ?thesis
    using verify_from_start [OF assms(3,4), of sha] assms(1,2)
    by (simp add: verify_chain_def picked_def count_def split: option.split)
qed

definition tampered_row :: journal_row where
  "tampered_row = (stored_row (sample_record 1 8 None) zero_hash zero_hash)
     \<lparr>c_op := Opaque ''x''\<rparr>"

definition tampered_journal :: journal where
  "tampered_journal = \<lparr>file_db = \<lparr>table_columns = SCHEMA_columns @ [''batch_id''], table_rows = [tampered_row],
     base_table = None\<rparr>, chain = \<lparr>last_seq = 1, last_hash = zero_hash, batch_counter = 0\<rparr>,
     has_batch_id = True, read_only = False, hooks = None\<rparr>"

theorem verify_chain_exact_witness: "verify_chain sample_sha tampered_journal = Inr (Broken 1)"
proof -
  have "first_bad_seq sample_sha zero_hash [tampered_row] = Some 1"
    by (simp add: tampered_row_def bad_row_def decode_verified_row_def sample_record_def entry_record_def)
  moreover have "base tampered_journal = Inr None" "hashes_decode (rows tampered_journal)"
    by (simp_all add: tampered_journal_def base_def hashes_decode_def tampered_row_def)
  moreover have "declared_format tampered_journal = Inr Unmarked"
    by (simp add: tampered_journal_def declared_format_def row_at_def tampered_row_def sample_record_def entry_record_def FORMAT_SEQ_def)
  ultimately show ?thesis
    using verify_chain_exact [of tampered_journal sample_sha] by (simp add: tampered_journal_def)
qed

definition certified :: "(bytes \<Rightarrow> bytes) \<Rightarrow> journal \<Rightarrow> bool" where
  "certified sha j \<longleftrightarrow> (\<exists>n. verify_chain sha j = Inr (Intact n)) \<and> base j = Inr None \<and> has_batch_id j \<and>
     sorted_wrt (<) (map seq (rows j)) \<and>
     (\<forall>r c. r \<in> set (rows j) \<longrightarrow> decode_verified_row r = Some c \<longrightarrow> small_record c)"

lemma chain_rows_in: "c \<in> set cs \<Longrightarrow> \<exists>p h. stored_row c p h \<in> set (chain_rows sha prev cs)"
  by (induction cs arbitrary: prev) (auto, blast+)

lemma sorted_last: "sorted_wrt (<) (map seq (rs @ [x])) \<Longrightarrow> r \<in> set (rs @ [x]) \<Longrightarrow> seq r \<le> seq x"
  by (auto simp: sorted_wrt_append)

lemma certified_head:
  assumes "\<forall>x. length (sha x) = 32" "certified sha j" "head j \<noteq> Inr None"
  shows "\<exists>cs s. rows j = chain_rows sha zero_hash cs \<and> list_all small_record cs \<and>
    head j = Inr (Some (s, chain_end sha zero_hash cs))"
proof -
  obtain cs where cs: "rows j = chain_rows sha zero_hash cs"
  proof -
    have "\<exists>n. verify_rows sha None zero_hash 0 Unmarked None (rows j) = Inr (Intact n)"
      using assms(2) by (auto simp: certified_def verify_chain_def picked_def)
    then show thesis using intact_chain that by metis
  qed
  have sorted: "sorted_wrt (<) (map seq (rows j))"
    and small: "\<And>r c. r \<in> set (rows j) \<Longrightarrow> decode_verified_row r = Some c \<Longrightarrow> small_record c"
    using assms(2) by (simp_all add: certified_def)
  have "small_record c" if c: "c \<in> set cs" for c
  proof -
    obtain p h where "stored_row c p h \<in> set (rows j)" using chain_rows_in [OF c] unfolding cs by blast
    then show ?thesis by (rule small) simp
  qed
  then have "list_all small_record cs" by (simp add: list_all_iff)
  moreover have "\<exists>s. head j = Inr (Some (s, chain_end sha zero_hash cs))"
  proof (cases cs rule: rev_cases)
    case Nil
    then show ?thesis using cs assms(3) by (simp add: head_def mutations_def)
  next
    case (snoc cs' c)
    let ?p = "chain_end sha zero_hash cs'"
    have rows: "rows j = chain_rows sha zero_hash cs' @ [stored_row c ?p (chain_hash sha ?p c)]"
      using cs snoc by simp
    have "1 \<le> r_seq c"
    proof (rule ccontr)
      assume low: "\<not> 1 \<le> r_seq c"
      have "seq r \<le> r_seq c" if "r \<in> set (rows j)" for r
        using sorted_last [OF sorted [unfolded rows]] that unfolding rows by simp
      then have "mutations (rows j) = []"
        using low unfolding mutations_def by (intro filter_False ballI) (metis order_trans)
      then show False using assms(3) by (simp add: head_def)
    qed
    then show ?thesis
      using rows snoc assms(1) by (simp add: head_def mutations_def hash32_def get_cell_def chain_hash_def)
  qed
  ultimately show ?thesis using cs by blast
qed

text \<open>C32: The digest of the head commits to the whole history. Take two files that verify as intact,
  were never compacted, and have the same head (number and digest, which is what an audit anchor
  signs). They hold the same rows in every field, or two of the texts that were digested collide, or one
  of them has the all-zero digest.\<close>

theorem head_commits_history:
  assumes "\<forall>x. length (sha x) = 32" and "certified sha j" "certified sha j'"
    and "head j = head j'" "head j \<noteq> Inr None"
  shows "rows j = rows j' \<or>
    (\<exists>cs cs'. rows j = chain_rows sha zero_hash cs \<and> rows j' = chain_rows sha zero_hash cs' \<and>
       collision_in sha zero_hash (set (chain_texts sha zero_hash cs) \<union> set (chain_texts sha zero_hash cs')))"
proof -
  obtain cs s where cs: "rows j = chain_rows sha zero_hash cs" "list_all small_record cs"
      "head j = Inr (Some (s, chain_end sha zero_hash cs))"
    using certified_head [OF assms(1,2,5)] by blast
  obtain ds t where ds: "rows j' = chain_rows sha zero_hash ds" "list_all small_record ds"
      "head j' = Inr (Some (t, chain_end sha zero_hash ds))"
    using certified_head [OF assms(1,3)] assms(4,5) by metis
  have "chain_end sha zero_hash cs = chain_end sha zero_hash ds" using cs(3) ds(3) assms(4) by simp
  then have "cs = ds \<or> collision_in sha zero_hash (set (chain_texts sha zero_hash cs) \<union> set (chain_texts sha zero_hash ds))"
    using chain_end_commits [OF assms(1), of zero_hash cs ds] cs(2) ds(2) by (simp add: zero_hash_def)
  then show ?thesis
  proof
    assume "cs = ds"
    then show ?thesis using cs(1) ds(1) by simp
  next
    assume "collision_in sha zero_hash (set (chain_texts sha zero_hash cs) \<union> set (chain_texts sha zero_hash ds))"
    then show ?thesis using cs(1) ds(1) by (intro disjI2 exI conjI)
  qed
qed

lemma certified_journal_at:
  assumes "\<forall>x. length (sha x) = 32" "journal_at sha j log ts 0" "list_all small_record (marker_record ts # log)"
  shows "certified sha j"
proof -
  note at = assms(2) [unfolded journal_at_def database_at_def]
  have rows: "rows j = chain_rows sha zero_hash (marker_record ts # log)"
    using at by (simp add: table_of_def marker_row_def marker_digest_def)
  have "sorted_wrt (<) (map r_seq log)"
    using at by (auto simp: sorted_wrt_iff_nth_less numbered_def)
  moreover have "0 < r_seq c" if "c \<in> set log" for c
    using numbered_positive [of log c 0] that at by simp
  ultimately have "sorted_wrt (<) (map seq (rows j))"
    unfolding rows seqs_chain_rows by simp
  moreover have "small_record c" if r: "r \<in> set (rows j)" "decode_verified_row r = Some c" for r c
    using chain_rows_stored r assms(3) unfolding rows by (fastforce simp: list_all_iff)
  ultimately show ?thesis
    using verify_journal_at [OF assms(1,2)] base_journal_at [OF assms(1,2)] at by (simp add: certified_def)
qed

lemma set_hook_sender_readers [simp]:
  "rows (set_hook_sender j) = rows j" "has_batch_id (set_hook_sender j) = has_batch_id j"
  "base (set_hook_sender j) = base j" "verify_chain sha (set_hook_sender j) = verify_chain sha j"
  by (simp_all add: set_hook_sender_def base_def verify_chain_def picked_def)

theorem head_commits_history_witness:
  "\<exists>j. certified sample_sha j \<and> certified sample_sha (set_hook_sender j) \<and> head j \<noteq> Inr None \<and>
     (rows j = rows (set_hook_sender j) \<or>
      (\<exists>cs cs'. rows j = chain_rows sample_sha zero_hash cs \<and> rows (set_hook_sender j) = chain_rows sample_sha zero_hash cs' \<and>
         collision_in sample_sha zero_hash
           (set (chain_texts sample_sha zero_hash cs) \<union> set (chain_texts sample_sha zero_hash cs'))))"
proof -
  obtain j' where at: "journal_at sample_sha j' [sample_record 1 8 None] 7 0" using sample_run by blast
  have "list_all small_record (marker_record 7 # [sample_record 1 8 None])"
    by (simp add: small_record_def i64_range_def small_bytes_def marker_record_def format_record_def
        FORMAT_SEQ_def FORMAT_OP_def FORMAT_ACTOR_KIND_def sample_record_def entry_record_def sample_entry_def
        JOURNAL_FORMAT_def decimal.simps)
  from certified_journal_at [OF sample_sha_32 at this] have cert: "certified sample_sha j'" .
  then have "certified sample_sha (set_hook_sender j')" by (simp add: certified_def)
  moreover have "head j' = head (set_hook_sender j')" by (simp add: head_def set_hook_sender_def)
  moreover have "head j' \<noteq> Inr None" using head_journal_at [OF sample_sha_32 at] by simp
  ultimately show ?thesis using head_commits_history [OF sample_sha_32 cert] cert by blast
qed

end
