(* ===== verification/Journal_Undo.thy ===== *)
theory Journal_Undo
  imports Journal_Verify
begin

text \<open>
  Compaction and undo. A compaction plan is settled on a cut that splits no batch; carrying it out keeps
  the chain, the head and what can be undone among the surviving rows. The selections of the undo return
  whole batches or nothing of them.
\<close>

section \<open>The cut of a compaction\<close>

lemma split_batch_None_iff:
  "split_batch rs t = None \<longleftrightarrow>
    (\<forall>a\<in>set rs. \<forall>b\<in>set rs. 1 \<le> seq a \<longrightarrow> seq a \<le> t \<longrightarrow> c_batch_id a \<noteq> Val None \<longrightarrow>
       c_batch_id b = c_batch_id a \<longrightarrow> seq b \<le> t)"
  by (auto simp: split_batch_def find_None_iff list_ex_iff not_less)

lemma settle_cut_spec:
  "settle_cut rs start t \<le> t \<and> (settle_cut rs start t < start \<or> split_batch rs (settle_cut rs start t) = None)"
proof (induction rs start t rule: settle_cut.induct)
  case (1 rs start t)
  show ?case
  proof (cases "start \<le> t")
    case True
    show ?thesis
    proof (cases "split_batch rs t")
      case None
      then show ?thesis using True by (simp add: settle_cut.simps [of rs start t])
    next
      case (Some first)
      then have "first \<le> t" by (auto simp: split_batch_def find_Some_iff)
      then show ?thesis using 1 [OF True Some] True Some by (simp add: settle_cut.simps [of rs start t])
    qed
  qed (simp add: settle_cut.simps [of rs start t])
qed

declare settle_cut.simps [simp del]

lemma young_bound:
  assumes "sorted_wrt (<) (map seq rs)" "r \<in> set rs" "Q r"
  shows "\<exists>r'. find Q rs = Some r' \<and> seq r' \<le> seq r"
proof -
  obtain r' where r': "find Q rs = Some r'" using assms(2,3) by (cases "find Q rs") (auto simp: find_None_iff)
  then obtain i where i: "i < length rs" "r' = rs ! i" "\<forall>n < i. \<not> Q (rs ! n)" by (auto simp: find_Some_iff)
  obtain n where n: "n < length rs" "r = rs ! n" using assms(2) by (auto simp: in_set_conv_nth)
  then have "i \<le> n" using i(3) assms(3) not_less by auto
  then have "seq r' \<le> seq r"
    using assms(1) i n by (cases "i = n") (auto simp: sorted_wrt_iff_nth_less intro: less_imp_le)
  with r' show ?thesis by blast
qed

lemma chain_rows_sorted:
  assumes "numbered log"
  shows "sorted_wrt (<) (map seq (chain_rows sha p (drop k log)))"
  using assms by (auto simp: sorted_wrt_iff_nth_less numbered_def)

lemma survivor_in:
  assumes "k \<le> i" "i < length log"
  shows "\<exists>p h. stored_row (log ! i) p h \<in> set (chain_rows sha prev (drop k log))"
proof -
  have "log ! i \<in> set (drop k log)"
    using assms nth_mem [of "i - k" "drop k log"] by simp
  then show ?thesis by (rule chain_rows_in)
qed

text \<open>Every plan is a cut below the head, above the last one, between whole batches, and only over rows
  older than the limit.\<close>

lemma compaction_plan_at:
  assumes "\<forall>x. length (sha x) = 32" "journal_at sha j log ts k"
  shows "compaction_plan j t = Inr None \<or>
    (\<exists>k'. k < k' \<and> k' < length log \<and> split_batch (rows j) (int k') = None \<and>
      (\<forall>i. k \<le> i \<and> i < k' \<longrightarrow> r_ts_ms (log ! i) < t) \<and>
      compaction_plan j t = Inr (Some \<lparr>through_seq = int k',
        through_hash = chain_end sha (marker_digest sha ts) (take k' log)\<rparr>))"
proof (cases "log = []")
  case True
  then show ?thesis using head_journal_at [OF assms] by (simp add: compaction_plan_def)
next
  case False
  note at = assms(2) [unfolded journal_at_def database_at_def]
  let ?d = "marker_digest sha ts"
  let ?ms = "chain_rows sha (chain_end sha ?d (take k log)) (drop k log)"
  have num: "numbered log" and mut: "mutations (rows j) = ?ms" using at mutations_table_of by simp_all
  define young where "young = find (\<lambda>r. ts_at_least t (c_ts_ms r)) (mutations (rows j))"
  define cut where "cut = min (case young of Some r \<Rightarrow> seq r | None \<Rightarrow> int (length log)) (int (length log)) - 1"
  define through where "through = settle_cut (rows j) (int k + 1) cut"
  have start: "(case (if k = 0 then None else Some \<lparr>through_seq = int k, through_hash = chain_end sha ?d (take k log)\<rparr>) of
      None \<Rightarrow> 1 | Some b \<Rightarrow> i64 (through_seq b + 1)) = int k + 1"
    using at num by (auto simp: numbered_def i64_id)
  have plan: "compaction_plan j t = (if through < int k + 1 then Inr None
      else and_then (entry_hash_at j through) (\<lambda>h. case h of
        None \<Rightarrow> Inl (Corrupt ''a gap in the chain below the head'')
      | Some h \<Rightarrow> Inr (Some \<lparr>through_seq = through, through_hash = h\<rparr>)))"
    unfolding compaction_plan_def head_journal_at [OF assms] base_journal_at [OF assms] if_not_P [OF False]
      and_then.simps option.case prod.case Let_def start through_def cut_def young_def
      if_P [OF at [THEN conjunct1]] ..
  show ?thesis
  proof (cases "through < int k + 1")
    case True
    then show ?thesis using plan by simp
  next
    case False
    have spec: "through \<le> cut" "split_batch (rows j) through = None"
      using settle_cut_spec [of "rows j" "int k + 1" cut] False by (simp_all add: through_def)
    define i where "i = nat through - 1"
    have i: "k \<le> i" "through = int i + 1" "Suc i < length log"
      using False spec(1) unfolding i_def cut_def by (auto simp: min_def split: if_splits)
    have hash: "entry_hash_at j through = Inr (Some (chain_end sha ?d (take (Suc i) log)))"
      using row_at_survivor [OF num i(1), of sha ?d] i length_chain_end [OF assms(1)] unfolding entry_hash_at_def mut i(2)
      by (simp add: hash32_def get_cell_def)
    have old: "r_ts_ms (log ! n) < t" if n: "k \<le> n" "n < Suc i" for n
    proof (rule ccontr)
      assume late: "\<not> r_ts_ms (log ! n) < t"
      obtain p h where row: "stored_row (log ! n) p h \<in> set ?ms"
        using survivor_in [of k n log] n i(3) by fastforce
      have "\<exists>r'. young = Some r' \<and> seq r' \<le> seq (stored_row (log ! n) p h)"
        unfolding young_def mut
        by (rule young_bound [OF chain_rows_sorted [OF num] row]) (use late in \<open>simp add: ts_at_least_def\<close>)
      then obtain r' where "young = Some r'" "seq r' \<le> r_seq (log ! n)" by auto
      moreover have "r_seq (log ! n) = int n + 1" using num n i(3) by (simp add: numbered_def)
      ultimately show False using spec(1) n i(2) unfolding cut_def by simp
    qed
    show ?thesis
      using plan hash False i spec(2) old by (intro disjI2 exI [of _ "Suc i"]) (auto simp: add.commute)
  qed
qed

lemma rev_last: "xs \<noteq> [] \<Longrightarrow> rev xs = last xs # rev (butlast xs)"
  by (cases xs rule: rev_cases) simp_all

lemma compact_accepted:
  assumes "journal_at sha j log ts k" "k < k'" "k' < length log"
    and "plan = \<lparr>through_seq = int k', through_hash = chain_end sha (marker_digest sha ts) (take k' log)\<rparr>"
  shows "snd (compact_journal True plan j) = Inr (k' - k)"
proof -
  note at = assms(1) [unfolded journal_at_def database_at_def]
  have num: "numbered log" and mut: "mutations (rows j) =
      chain_rows sha (chain_end sha (marker_digest sha ts) (take k log)) (drop k log)"
    using at mutations_table_of by simp_all
  obtain i where i: "k' = Suc i" using assms(2) by (cases k') auto
  have row: "row_at (mutations (rows j)) (through_seq plan) = Some (stored_row (log ! i)
      (chain_end sha (marker_digest sha ts) (take i log)) (through_hash plan))"
    using row_at_survivor [OF num, of k i sha "marker_digest sha ts"] assms(2-4) i unfolding mut
    by (simp add: add.commute)
  have head: "\<not> (case rev (rows j) of [] \<Rightarrow> True | r # _ \<Rightarrow> seq r \<le> through_seq plan)"
  proof -
    obtain c p h where "last (rows j) = stored_row c p h" "r_seq c = int (length log)"
      using at last_table_of by metis
    moreover have "rows j \<noteq> []" using at by (simp add: table_of_def)
    ultimately show ?thesis using assms(3,4) by (simp add: rev_last)
  qed
  have "\<exists>n. snd (compact_journal True plan j) = Inr n"
    unfolding compact_journal_def row using at head by simp
  then obtain n where n: "snd (compact_journal True plan j) = Inr n" by blast
  from compact_step [OF assms(1), of True plan "fst (compact_journal True plan j)" "snd (compact_journal True plan j)"]
  show ?thesis using n assms(4) by auto
qed

section \<open>Compaction does not change what can be undone\<close>

definition points_back :: "journal_record list \<Rightarrow> bool" where
  "points_back log \<longleftrightarrow> (\<forall>c\<in>set log. \<forall>s. r_undoes_seq c = Some s \<longrightarrow> s < r_seq c)"

lemma undone_kept:
  assumes "\<forall>r\<in>set rs. \<forall>s. c_undoes_seq r = Val (Some s) \<longrightarrow> s < seq r" "int k \<le> s"
    and "\<forall>r\<in>set rs. \<forall>s. c_undoes_seq r = Val (Some s) \<longrightarrow> 1 \<le> seq r"
  shows "undone (filter (\<lambda>r. \<not> (1 \<le> seq r \<and> seq r \<le> int k)) rs) s = undone rs s"
proof -
  have keep: "\<not> (1 \<le> seq r \<and> seq r \<le> int k)" if r: "r \<in> set rs" "c_undoes_seq r = Val (Some t)" "int k \<le> t" for r t
    using assms(1) r by force
  have "int k \<le> seq c" if "c \<in> set rs" "c_undoes_seq c = Val (Some s)" for c
    using assms(1,2) that by force
  then show ?thesis
    unfolding undone_def list_ex_iff set_filter using keep assms(2) by blast
qed

lemma revertible_kept:
  assumes "\<forall>r\<in>set rs. \<forall>s. c_undoes_seq r = Val (Some s) \<longrightarrow> s < seq r"
    and "\<forall>r\<in>set rs. \<forall>s. c_undoes_seq r = Val (Some s) \<longrightarrow> 1 \<le> seq r"
  shows "filter (revertible a (filter (\<lambda>r. \<not> (1 \<le> seq r \<and> seq r \<le> int k)) rs))
      (filter (\<lambda>r. \<not> (1 \<le> seq r \<and> seq r \<le> int k)) rs) =
    filter (\<lambda>r. int k < seq r) (filter (revertible a rs) rs)"
  unfolding filter_filter
proof (rule filter_cong [OF refl])
  fix r
  show "(\<not> (1 \<le> seq r \<and> seq r \<le> int k) \<and> revertible a (filter (\<lambda>r. \<not> (1 \<le> seq r \<and> seq r \<le> int k)) rs) r) =
    (revertible a rs r \<and> int k < seq r)"
    using undone_kept [OF assms(1) _ assms(2), of k "seq r"] by (auto simp: revertible_def)
qed

lemma row_to_entry_seq: "row_to_entry r = Inr e \<Longrightarrow> e_seq e = seq r"
  by (auto simp: row_to_entry_def split: option.splits)

lemma row_to_entry_batch: "row_to_entry r = Inr e \<Longrightarrow> c_batch_id r = Val (e_batch_id e)"
  by (cases "c_batch_id r") (auto simp: row_to_entry_def decode_verified_row_def split: option.splits)

lemma try_map_filter:
  "try_map f xs = Inr ys \<Longrightarrow> (\<And>x y. x \<in> set xs \<Longrightarrow> f x = Inr y \<Longrightarrow> P x = Q y) \<Longrightarrow>
    try_map f (filter P xs) = Inr (filter Q ys)"
  by (induction xs arbitrary: ys) (auto simp: and_then_Inr_iff)

lemma try_map_total:
  assumes "\<forall>r\<in>set rs. \<exists>c p h. r = stored_row c p h"
  shows "\<exists>es. try_map row_to_entry rs = Inr es"
  using assms
proof (induction rs)
  case (Cons r rs)
  then obtain c p h where "r = stored_row c p h" by auto
  with row_to_entry_stored [of c p h] Cons show ?case by auto
qed simp

lemma table_of_points_back:
  assumes "points_back log" "numbered log" "r \<in> set (table_of sha ts k log)" "c_undoes_seq r = Val (Some s)"
  shows "s < seq r \<and> 1 \<le> seq r"
proof -
  have "r \<noteq> marker_row sha ts" using assms(4) by (auto simp: marker_row_def)
  then have "r \<in> set (chain_rows sha (chain_end sha (marker_digest sha ts) (take k log)) (drop k log))"
    using assms(3) by (simp add: table_of_def)
  then obtain c p h where c: "c \<in> set (drop k log)" "r = stored_row c p h" using chain_rows_stored by blast
  then show ?thesis
    using assms(1,4) numbered_positive [OF assms(2) c(1)] in_set_dropD [OF c(1)] by (auto simp: points_back_def)
qed

lemma revertible_for_compacted:
  assumes "journal_at sha j log ts k" "journal_at sha j' log ts k'" "k \<le> k'" "k' \<le> length log" "points_back log"
  shows "\<exists>es. revertible_for j a = Inr es \<and> revertible_for j' a = Inr (filter (\<lambda>e. int k' < e_seq e) es)"
proof -
  let ?rs = "table_of sha ts k log"
  have num: "numbered log" using assms(1) by (simp add: journal_at_def database_at_def)
  have kept: "table_of sha ts k' log = filter (\<lambda>r. \<not> (1 \<le> seq r \<and> seq r \<le> int k')) ?rs"
    using filter_table_of [OF num assms(3,4)] by simp
  have "\<exists>es. try_map row_to_entry (rev (filter (revertible a ?rs) ?rs)) = Inr es"
    using table_of_stored by (intro try_map_total) auto
  then obtain es where es: "try_map row_to_entry (rev (filter (revertible a ?rs) ?rs)) = Inr es" by blast
  have "filter (revertible a (table_of sha ts k' log)) (table_of sha ts k' log) =
      filter (\<lambda>r. int k' < seq r) (filter (revertible a ?rs) ?rs)"
    unfolding kept using table_of_points_back [OF assms(5) num] by (intro revertible_kept) blast+
  then show ?thesis
    using es try_map_filter [OF es, of "\<lambda>r. int k' < seq r" "\<lambda>e. int k' < e_seq e"] row_to_entry_seq picked_journal_at [OF assms(1)] picked_journal_at [OF assms(2)]
    by (simp add: revertible_for_def rev_filter)
qed

text \<open>C33: Compaction is safe. On a journal with any history whose compensations point back, a plan either
  finds nothing to drop or can be carried out; then exactly the mutations up to the cut are gone, every
  one of them older than the limit, no batch has lost a part of its rows, the head is the same, the rest
  still verifies as intact, and for every actor what can be undone is what could be undone before among
  the rows that are left.\<close>

theorem compaction_safe:
  assumes "\<forall>x. length (sha x) = 32" and "journal_run sha j log" and "points_back log"
  shows "compaction_plan j t = Inr None \<or>
    (\<exists>plan j' n. compaction_plan j t = Inr (Some plan) \<and> compact_journal True plan j = (j', Inr n) \<and>
      rows j' = filter (\<lambda>r. \<not> (1 \<le> seq r \<and> seq r \<le> through_seq plan)) (rows j) \<and> count j = count j' + n \<and>
      verify_chain sha j' = Inr (Intact (count j')) \<and> head j' = head j \<and>
      (\<forall>r\<in>set (rows j). 1 \<le> seq r \<and> seq r \<le> through_seq plan \<longrightarrow> (\<exists>ts. c_ts_ms r = Val ts \<and> ts < t)) \<and>
      (\<forall>r\<in>set (rows j). \<forall>r'\<in>set (rows j). 1 \<le> seq r \<longrightarrow> seq r \<le> through_seq plan \<longrightarrow>
         c_batch_id r \<noteq> Val None \<longrightarrow> c_batch_id r' = c_batch_id r \<longrightarrow> seq r' \<le> through_seq plan) \<and>
      (\<forall>a. \<exists>es. revertible_for j a = Inr es \<and>
         revertible_for j' a = Inr (filter (\<lambda>e. through_seq plan < e_seq e) es)))"
proof (cases "compaction_plan j t = Inr None")
  case False
  obtain ts k where at: "journal_at sha j log ts k" using journal_run_at [OF assms(1,2)] by blast
  let ?plan = "\<lambda>k'. \<lparr>through_seq = int k', through_hash = chain_end sha (marker_digest sha ts) (take k' log)\<rparr>"
  obtain k' where k': "k < k'" "k' < length log" "split_batch (rows j) (int k') = None"
      "\<And>i. k \<le> i \<Longrightarrow> i < k' \<Longrightarrow> r_ts_ms (log ! i) < t" "compaction_plan j t = Inr (Some (?plan k'))"
    using compaction_plan_at [OF assms(1) at, of t] False by blast
  obtain j' where j': "compact_journal True (?plan k') j = (j', Inr (k' - k))"
    using compact_accepted [OF at k'(1,2) refl] by (metis prod.collapse)
  from compact_step [OF at j'] have at': "journal_at sha j' log ts k'" using k'(1) by auto
  note parts = at [unfolded journal_at_def database_at_def] and parts' = at' [unfolded journal_at_def database_at_def]
  have num: "numbered log" using parts by simp
  have rows: "rows j' = filter (\<lambda>r. \<not> (1 \<le> seq r \<and> seq r \<le> int k')) (rows j)"
    using filter_table_of [OF num, of k k'] k'(1,2) parts parts' by simp
  have old: "\<exists>ts. c_ts_ms r = Val ts \<and> ts < t" if r: "r \<in> set (rows j)" "1 \<le> seq r" "seq r \<le> int k'" for r
  proof -
    have "r \<in> set (mutations (rows j))" using r by (simp add: mutations_def)
    then have "r \<in> set (chain_rows sha (chain_end sha (marker_digest sha ts) (take k log)) (drop k log))"
      using mutations_table_of [OF num] parts by simp
    then obtain c p h where c: "c \<in> set (drop k log)" "r = stored_row c p h" using chain_rows_stored by blast
    then obtain i where "i < length log - k" "c = log ! (k + i)" by (auto simp: in_set_conv_nth)
    moreover from this have "r_seq c = int (k + i) + 1" using num by (simp add: numbered_def)
    ultimately show ?thesis using c r(3) k'(4) [of "k + i"] by simp
  qed
  have "head j' = head j"
    using head_journal_at [OF assms(1) at] head_journal_at [OF assms(1) at'] parts parts' by simp
  moreover have "verify_chain sha j' = Inr (Intact (count j'))" "count j = count j' + (k' - k)"
    using verify_journal_at [OF assms(1) at'] count_journal_at [OF at] count_journal_at [OF at'] k'(1,2) by simp_all
  moreover have "\<forall>a. \<exists>es. revertible_for j a = Inr es \<and> revertible_for j' a = Inr (filter (\<lambda>e. int k' < e_seq e) es)"
    using revertible_for_compacted [OF at at' _ _ assms(3)] k'(1,2) by simp
  ultimately show ?thesis
    using k'(5) j' rows old k'(3) [unfolded split_batch_None_iff]
    by (intro disjI2 exI [of _ "?plan k'"] exI [of _ j'] exI [of _ "k' - k"]) simp
qed simp

section \<open>What the undo selects\<close>

text \<open>C34: The undo after a point selects, in the same order, exactly the entries of the whole undo above the
  cutoff and at most the ceiling whose batch has no row of the journal outside that range: a batch is
  undone whole or not at all.\<close>

theorem revertible_for_after_exact:
  assumes "revertible_for j a = Inr es"
  shows "revertible_for_after j a after_seq upto_seq = Inr (filter (\<lambda>e.
    after_seq < e_seq e \<and> (\<forall>u. upto_seq = Some u \<longrightarrow> e_seq e \<le> u) \<and>
    (\<forall>r\<in>set (picked j). e_batch_id e \<noteq> None \<longrightarrow> c_batch_id r = Val (e_batch_id e) \<longrightarrow>
       after_seq < seq r \<and> (\<forall>u. upto_seq = Some u \<longrightarrow> seq r \<le> u))) es)"
proof -
  let ?rs = "picked j"
  let ?whole = "\<lambda>r. \<not> batch_crosses ?rs (\<lambda>s. s \<le> after_seq) r \<and>
    (case upto_seq of None \<Rightarrow> True | Some u \<Rightarrow> seq r \<le> u \<and> \<not> batch_crosses ?rs (\<lambda>s. u < s) r)"
  have "rev (filter (revertible_after a after_seq upto_seq ?rs) ?rs) =
      filter (\<lambda>r. after_seq < seq r \<and> ?whole r) (rev (filter (revertible a ?rs) ?rs))"
    unfolding rev_filter [symmetric] filter_filter revertible_after_def
    by (rule arg_cong [where f = rev], rule filter_cong) auto
  moreover have "(after_seq < seq r \<and> ?whole r) \<longleftrightarrow> after_seq < e_seq e \<and> (\<forall>u. upto_seq = Some u \<longrightarrow> e_seq e \<le> u) \<and>
    (\<forall>r\<in>set ?rs. e_batch_id e \<noteq> None \<longrightarrow> c_batch_id r = Val (e_batch_id e) \<longrightarrow>
       after_seq < seq r \<and> (\<forall>u. upto_seq = Some u \<longrightarrow> seq r \<le> u))" if e: "row_to_entry r = Inr e" for r e
    using row_to_entry_seq [OF e] row_to_entry_batch [OF e]
    by (cases upto_seq; cases "e_batch_id e = None") (simp_all add: batch_crosses_def list_ex_iff not_le not_less, blast+)
  ultimately show ?thesis
    unfolding revertible_for_after_def using try_map_filter [OF assms [unfolded revertible_for_def]] by presburger
qed

section \<open>Undoing an undo\<close>

text \<open>A compensation of an entry that is none itself covers that entry; a compensation of the
  compensation uncovers it.\<close>

lemma undone_compensated:
  assumes "c_undoes_seq C = Val (Some s)" "s \<noteq> seq C"
    and "\<forall>r\<in>set rs. c_undoes_seq r \<noteq> Val (Some (seq C))"
    and "\<forall>r\<in>set rs. seq r = s \<longrightarrow> c_undoes_seq r = Val None"
  shows "undone (rs @ [C]) x \<longleftrightarrow> undone rs x \<or> x = s"
proof -
  have "\<not> (\<exists>d\<in>set rs \<union> {C}. c_undoes_seq d = Val (Some (seq C)))" using assms(1-3) by auto
  moreover have "(\<exists>d\<in>set rs \<union> {C}. c_undoes_seq d = Val (Some (seq r))) \<longleftrightarrow>
      (\<exists>d\<in>set rs. c_undoes_seq d = Val (Some (seq r)))" if "r \<in> set rs" "c_undoes_seq r = Val (Some x)" for r
    using assms(1,4) that by auto
  ultimately show ?thesis
    using assms(1) unfolding undone_def list_ex_iff set_append set_simps by (auto; meson)
qed

lemma undone_recompensated:
  assumes "c_undoes_seq C = Val (Some s)" "s \<noteq> seq C" "c_undoes_seq D = Val (Some (seq C))" "seq C \<noteq> seq D" "s \<noteq> seq D"
    and "\<forall>r\<in>set rs. c_undoes_seq r \<noteq> Val (Some (seq C)) \<and> c_undoes_seq r \<noteq> Val (Some (seq D)) \<and> seq r \<noteq> seq C"
    and "\<forall>r\<in>set rs. seq r = s \<longrightarrow> c_undoes_seq r = Val None"
  shows "undone (rs @ [C, D]) x \<longleftrightarrow> undone rs x \<or> x = seq C"
proof -
  let ?U = "set rs \<union> {C, D}"
  have "\<not> (\<exists>d\<in>?U. c_undoes_seq d = Val (Some (seq D)))" using assms(1,3-6) by auto
  moreover have "(\<exists>d\<in>?U. c_undoes_seq d = Val (Some (seq r))) \<longleftrightarrow> (\<exists>d\<in>set rs. c_undoes_seq d = Val (Some (seq r)))"
    if "r \<in> set rs" "c_undoes_seq r = Val (Some x)" for r
    using assms(1,3,6,7) that by auto
  moreover have "\<exists>d\<in>?U. c_undoes_seq d = Val (Some (seq C))" using assms(3) by auto
  ultimately show ?thesis
    using assms(1,3) unfolding undone_def list_ex_iff set_append set_simps by (auto; meson)
qed

lemma revertible_compensated:
  assumes "c_undoes_seq C = Val (Some s)" "s \<noteq> seq C"
    and "\<forall>r\<in>set rs. c_undoes_seq r \<noteq> Val (Some (seq C))"
    and "\<forall>r\<in>set rs. seq r = s \<longrightarrow> c_undoes_seq r = Val None"
  shows "filter (revertible a (rs @ [C])) (rs @ [C]) = filter (\<lambda>r. seq r \<noteq> s) (filter (revertible a rs) rs)"
proof -
  have "revertible a (rs @ [C]) = (\<lambda>r. revertible a rs r \<and> seq r \<noteq> s)"
    using undone_compensated [OF assms] by (auto simp: revertible_def fun_eq_iff)
  moreover have "\<not> revertible a rs C" using assms(1) by (simp add: revertible_def)
  ultimately show ?thesis by simp
qed

lemma revertible_recompensated:
  assumes "c_undoes_seq C = Val (Some s)" "s \<noteq> seq C" "c_undoes_seq D = Val (Some (seq C))" "seq C \<noteq> seq D" "s \<noteq> seq D"
    and "\<forall>r\<in>set rs. c_undoes_seq r \<noteq> Val (Some (seq C)) \<and> c_undoes_seq r \<noteq> Val (Some (seq D)) \<and> seq r \<noteq> seq C"
    and "\<forall>r\<in>set rs. seq r = s \<longrightarrow> c_undoes_seq r = Val None"
  shows "filter (revertible a (rs @ [C, D])) (rs @ [C, D]) = filter (revertible a rs) rs"
proof -
  have "revertible a (rs @ [C, D]) r \<longleftrightarrow> revertible a rs r" if "seq r \<noteq> seq C" for r
    using undone_recompensated [OF assms, of "seq r"] that by (auto simp: revertible_def)
  moreover have "\<not> revertible a (rs @ [C, D]) C" "\<not> revertible a (rs @ [C, D]) D"
    using assms(1,3) by (simp_all add: revertible_def)
  ultimately show ?thesis using assms(6) by (auto intro: filter_cong)
qed

lemma record_rows:
  assumes "journal_at sha j log ts k" "last_seq (chain j) < 2 ^ 63 - 1" "record_entry sha io now e j = (j', Inr s)"
  shows "\<exists>p h. rows j' = rows j @ [stored_row (entry_record s now e) p h]"
proof -
  have at': "journal_at sha j' (log @ [entry_record s now e]) ts k" using record_step [OF assms] by blast
  have "k \<le> length log" using assms(1) by (auto simp: journal_at_def database_at_def)
  then show ?thesis
    using assms(1) at' by (simp add: journal_at_def database_at_def table_of_def) blast
qed

lemma journal_at_undoes:
  assumes "journal_at sha j log ts k" "points_back log" "r \<in> set (rows j)"
  shows "seq r \<le> int (length log) \<and> (\<forall>s. c_undoes_seq r = Val (Some s) \<longrightarrow> s < int (length log))"
proof -
  note at = assms(1) [unfolded journal_at_def database_at_def]
  have "r \<in> set (table_of sha ts k log)" using assms(3) at by simp
  then show ?thesis
    using table_of_below table_of_points_back [OF assms(2)] at by fastforce
qed

lemma journal_at_distinct: "journal_at sha j log ts k \<Longrightarrow> distinct (map seq (rows j))"
proof -
  assume "journal_at sha j log ts k"
  note at = this [unfolded journal_at_def database_at_def]
  then have "seq (marker_row sha ts) \<notin> set (map r_seq (drop k log))"
    using numbered_positive [of log _ k] at by (force simp: marker_row_def)
  moreover have "sorted_wrt (<) (map r_seq (drop k log))"
    using chain_rows_sorted [of log sha "[]" k] at by simp
  then have "distinct (map r_seq (drop k log))" using strict_sorted_iff by blast
  ultimately show ?thesis using at by (simp add: table_of_def del: set_map)
qed

lemma revertible_for_rows:
  assumes "has_batch_id j"
  shows "revertible_for j a = try_map row_to_entry (rev (filter (revertible a (rows j)) (rows j)))"
  using assms by (simp add: revertible_for_def picked_def)

lemma try_map_origin: "try_map f xs = Inr ys \<Longrightarrow> y \<in> set ys \<Longrightarrow> \<exists>x\<in>set xs. f x = Inr y"
  by (induction xs arbitrary: ys) (auto simp: and_then_Inr_iff)

lemma revertible_source:
  assumes "has_batch_id j" "revertible_for j a = Inr es" "e \<in> set es"
  shows "\<exists>r\<in>set (rows j). seq r = e_seq e \<and> c_undoes_seq r = Val None"
proof -
  obtain r where "r \<in> set (rev (filter (revertible a (rows j)) (rows j)))" "row_to_entry r = Inr e"
    using try_map_origin [OF assms(2) [unfolded revertible_for_rows [OF assms(1)]] assms(3)] by blast
  then show ?thesis by (auto simp: revertible_def row_to_entry_seq)
qed

text \<open>Undoing and redoing. In a journal with any history whose compensations point back, recording a
  compensation of an entry that can be undone removes exactly that entry from what can be undone, for
  every actor; recording a compensation of that compensation, as an undo that fails half way does,
  gives back exactly what could be undone at first.\<close>

theorem undo_toggles:
  assumes "\<forall>x. length (sha x) = 32" and "journal_run sha j log" and "points_back log"
    and "last_seq (chain j) < 2 ^ 63 - 2"
    and "revertible_for j a = Inr es" "e \<in> set es"
    and "n_undoes_seq u = Some (e_seq e)" "record_entry sha io now u j = (j1, Inr c)"
    and "n_undoes_seq w = Some c" "record_entry sha io' now' w j1 = (j2, Inr d)"
    and "revertible_for j b = Inr bs"
  shows "revertible_for j1 b = Inr (filter (\<lambda>x. e_seq x \<noteq> e_seq e) bs) \<and> revertible_for j2 b = Inr bs"
proof -
  obtain ts k where at: "journal_at sha j log ts k" using journal_run_at [OF assms(1,2)] by blast
  let ?n = "int (length log)"
  have seqs: "last_seq (chain j) = ?n" using at by (simp add: journal_at_def)
  have at1: "journal_at sha j1 (log @ [entry_record c now u]) ts k" and c: "c = ?n + 1"
    using record_step [OF at _ assms(8)] assms(4) by auto
  have "last_seq (chain j1) = ?n + 1" using at1 by (simp add: journal_at_def)
  then have low1: "last_seq (chain j1) < 2 ^ 63 - 1" using seqs assms(4) by simp
  have at2: "journal_at sha j2 ((log @ [entry_record c now u]) @ [entry_record d now' w]) ts k" and d: "d = ?n + 2"
    using record_step [OF at1 low1 assms(10)] by auto
  obtain p h where j1: "rows j1 = rows j @ [stored_row (entry_record c now u) p h]"
    using record_rows [OF at _ assms(8)] assms(4) by auto
  obtain p' h' where j2: "rows j2 = rows j @ [stored_row (entry_record c now u) p h, stored_row (entry_record d now' w) p' h']"
    using record_rows [OF at1 low1 assms(10)] j1 by auto
  let ?C = "stored_row (entry_record c now u) p h" and ?D = "stored_row (entry_record d now' w) p' h'"
  have C: "c_undoes_seq ?C = Val (Some (e_seq e))" "seq ?C = c" "c_undoes_seq ?D = Val (Some c)" "seq ?D = d"
    using assms(7,9) by (simp_all add: entry_record_def)
  have rows: "seq r \<le> ?n \<and> (\<forall>s. c_undoes_seq r = Val (Some s) \<longrightarrow> s < ?n)" if "r \<in> set (rows j)" for r
    using journal_at_undoes [OF at assms(3) that] .
  have batch: "has_batch_id j" "has_batch_id j1" "has_batch_id j2"
    using at at1 at2 by (simp_all add: journal_at_def)
  obtain r where r: "r \<in> set (rows j)" "seq r = e_seq e" "c_undoes_seq r = Val None"
    using revertible_source [OF batch(1) assms(5,6)] by blast
  have only: "\<forall>r'\<in>set (rows j). seq r' = e_seq e \<longrightarrow> c_undoes_seq r' = Val None"
    using journal_at_distinct [OF at] r by (auto simp: distinct_map inj_on_def)
  have low: "e_seq e \<le> ?n" using rows r(1,2) by fastforce
  have fresh: "\<forall>r\<in>set (rows j). c_undoes_seq r \<noteq> Val (Some c) \<and> c_undoes_seq r \<noteq> Val (Some d) \<and> seq r \<noteq> c"
    using rows c d by fastforce
  have "filter (revertible b (rows j1)) (rows j1) = filter (\<lambda>r. seq r \<noteq> e_seq e) (filter (revertible b (rows j)) (rows j))"
    unfolding j1 by (rule revertible_compensated) (use C fresh only low c in auto)
  moreover have "filter (revertible b (rows j2)) (rows j2) = filter (revertible b (rows j)) (rows j)"
    unfolding j2 by (rule revertible_recompensated) (use C fresh only low c d in auto)
  moreover have "try_map row_to_entry (filter (\<lambda>r. seq r \<noteq> e_seq e) (rev (filter (revertible b (rows j)) (rows j)))) =
      Inr (filter (\<lambda>x. e_seq x \<noteq> e_seq e) bs)"
    using assms(11) unfolding revertible_for_rows [OF batch(1)] by (rule try_map_filter) (simp add: row_to_entry_seq)
  ultimately show ?thesis
    using assms(11) unfolding revertible_for_rows [OF batch(1)] revertible_for_rows [OF batch(2)] revertible_for_rows [OF batch(3)]
    by (simp add: rev_filter)
qed

section \<open>Instances\<close>

lemma sample_plan:
  assumes "journal_at sample_sha j [sample_record 1 8 None, sample_record 2 20 None] 7 0"
  shows "compaction_plan j 10 \<noteq> Inr None"
proof -
  let ?log = "[sample_record 1 8 None, sample_record 2 20 None]"
  note at = assms [unfolded journal_at_def database_at_def]
  have rec: "r_seq (sample_record s now u) = s" "r_ts_ms (sample_record s now u) = now"
    "r_batch_id (sample_record s now u) = None" for s now u
    by (simp_all add: sample_record_def entry_record_def sample_entry_def)
  have rows: "rows j = table_of sample_sha 7 0 ?log" "has_batch_id j" using at by simp_all
  then have "split_batch (rows j) 1 = None"
    by (simp add: split_batch_def table_of_def marker_row_def rec)
  then have cut: "settle_cut (rows j) 1 1 = 1" by (simp add: settle_cut.simps)
  have mut: "mutations (rows j) = chain_rows sample_sha (marker_digest sample_sha 7) ?log"
    using mutations_table_of [of ?log sample_sha 7 0] rows at by simp
  have young: "find (\<lambda>r. ts_at_least 10 (c_ts_ms r)) (mutations (rows j)) \<noteq> None \<and>
      seq (the (find (\<lambda>r. ts_at_least 10 (c_ts_ms r)) (mutations (rows j)))) = 2"
    unfolding mut by (simp add: ts_at_least_def rec)
  have "entry_hash_at j 1 \<noteq> Inr None"
    unfolding entry_hash_at_def mut by (simp add: row_at_def rec hash32_def get_cell_def)
  then show ?thesis
    unfolding compaction_plan_def head_journal_at [OF sample_sha_32 assms] base_journal_at [OF sample_sha_32 assms]
    using young rows(2) cut by (cases "entry_hash_at j 1") (auto simp: Let_def split: option.splits)
qed

theorem compaction_safe_witness:
  "\<exists>j plan j' n. journal_run sample_sha j [sample_record 1 8 None, sample_record 2 20 None] \<and>
     compaction_plan j 10 = Inr (Some plan) \<and> compact_journal True plan j = (j', Inr n) \<and>
     verify_chain sample_sha j' = Inr (Intact (count j')) \<and> head j' = head j"
proof -
  let ?log = "[sample_record 1 8 None, sample_record 2 20 None]"
  obtain j where j: "journal_run sample_sha j ?log" "journal_at sample_sha j ?log 7 0" using sample_run2 by blast
  have "points_back ?log" by (simp add: points_back_def sample_record_def entry_record_def sample_entry_def)
  from compaction_safe [OF sample_sha_32 j(1) this, of 10] sample_plan [OF j(2)] j(1) show ?thesis by blast
qed

lemma sample_revertible:
  assumes "journal_at sample_sha j [sample_record 1 8 None] 7 0"
  shows "\<exists>e. revertible_for j (Agent ''s1'') = Inr [e] \<and> e_seq e = 1 \<and> e_batch_id e = None"
proof -
  have rows: "rows j = table_of sample_sha 7 0 [sample_record 1 8 None]" "has_batch_id j"
    using assms by (simp_all add: journal_at_def database_at_def)
  have rec: "r_seq (sample_record 1 8 None) = 1" "r_undoes_seq (sample_record 1 8 None) = None"
    "r_actor_kind (sample_record 1 8 None) = ''agent''" "r_actor_id (sample_record 1 8 None) = Some ''s1''"
    "r_batch_id (sample_record 1 8 None) = None"
    by (simp_all add: sample_record_def entry_record_def sample_entry_def)
  have "\<not> undone (rows j) 1"
    unfolding rows by (simp add: undone_def table_of_def marker_row_def rec)
  then have "filter (revertible (Agent ''s1'') (rows j)) (rows j) =
      [stored_row (sample_record 1 8 None) (marker_digest sample_sha 7)
        (chain_hash sample_sha (marker_digest sample_sha 7) (sample_record 1 8 None))]"
    unfolding rows by (simp add: revertible_def table_of_def marker_row_def rec)
  then show ?thesis
    using rows(2) by (simp add: revertible_for_rows row_to_entry_def rec)
qed

theorem revertible_for_after_exact_witness:
  "\<exists>j e. revertible_for j (Agent ''s1'') = Inr [e] \<and> revertible_for_after j (Agent ''s1'') 1 None = Inr []"
proof -
  obtain j where "journal_at sample_sha j [sample_record 1 8 None] 7 0" using sample_run by blast
  from sample_revertible [OF this] obtain e where e: "revertible_for j (Agent ''s1'') = Inr [e]" "e_seq e = 1" by blast
  from revertible_for_after_exact [OF e(1), of 1 None] e show ?thesis by auto
qed

theorem undo_toggles_witness:
  "\<exists>j e j1 j2. revertible_for j (Agent ''s1'') = Inr [e] \<and>
     record_entry sample_sha True 9 (sample_entry ''local:/a'' (Some 1) None) j = (j1, Inr 2) \<and>
     record_entry sample_sha True 10 (sample_entry ''local:/a'' (Some 2) None) j1 = (j2, Inr 3) \<and>
     revertible_for j1 (Agent ''s1'') = Inr [] \<and> revertible_for j2 (Agent ''s1'') = Inr [e]"
proof -
  let ?u = "sample_entry ''local:/a'' (Some 1) None" and ?w = "sample_entry ''local:/a'' (Some 2) None"
  obtain j where j: "journal_run sample_sha j [sample_record 1 8 None]" "journal_at sample_sha j [sample_record 1 8 None] 7 0"
    using sample_run by blast
  obtain e where e: "revertible_for j (Agent ''s1'') = Inr [e]" "e_seq e = 1" using sample_revertible [OF j(2)] by blast
  obtain j1 log1 where j1: "record_entry sample_sha True 9 ?u j = (j1, Inr 2)"
      "journal_run sample_sha j1 log1" "journal_at sample_sha j1 log1 7 0" "length log1 = 2"
    using run_record [OF sample_sha_32 j, of 9 ?u] by auto
  obtain j2 where j2: "record_entry sample_sha True 10 ?w j1 = (j2, Inr 3)"
    using run_record [OF sample_sha_32 j1(2,3), of 10 ?w] j1(4) by auto
  have "points_back [sample_record 1 8 None]"
    by (simp add: points_back_def sample_record_def entry_record_def sample_entry_def)
  moreover have "last_seq (chain j) < 2 ^ 63 - 2" using j(2) by (simp add: journal_at_def)
  ultimately have "revertible_for j1 (Agent ''s1'') = Inr (filter (\<lambda>x. e_seq x \<noteq> e_seq e) [e]) \<and>
      revertible_for j2 (Agent ''s1'') = Inr [e]"
    using e j1(1) j2
    by (intro undo_toggles [OF sample_sha_32 j(1) _ _ e(1)]) (auto simp: sample_entry_def)
  then show ?thesis using e j1(1) j2 by auto
qed

end
