(* ===== verification/Rename_Exec.thy ===== *)
theory Rename_Exec
  imports Rename_Batch Journal_Undo Proto_Error
begin

text \<open>
  The executor of a batch rename, \<^verbatim>\<open>norte-core/src/rename/exec.rs\<close>, and \<^verbatim>\<open>Engine::rename_batch_as\<close> around
  it: the plan is made again, compared with the approved digest, gated, and its steps are run one by
  one against a provider, each recorded in the journal; any failure unwinds what was applied.

  A provider is an interface of the program with many implementations (local disk, sftp, object storage,
  archives), so it is a parameter here: \<open>sv_rename\<close> and \<open>sv_stat\<close> act on a provider state of
  any type. What the executor relies on is stated by the locale \<open>rename_provider\<close> below. The recorder is the
  trait \<^verbatim>\<open>StepJournal\<close> with its two implementations. Cancellation is read between the steps, as a function
  of how many checks were made before.
\<close>

section \<open>Services\<close>

record ('w, 'j) services =
  sv_rename :: "'w \<Rightarrow> vpath \<Rightarrow> vpath \<Rightarrow> 'w \<times> (proto_error + unit)"
  sv_stat :: "'w \<Rightarrow> vpath \<Rightarrow> 'w \<times> (proto_error + unit)"
  sv_renamed :: "'j \<Rightarrow> vpath \<Rightarrow> vpath \<Rightarrow> int option \<Rightarrow> 'j \<times> (proto_error + int option)"
  sv_records :: bool

definition is_free :: "('w, 'j) services \<Rightarrow> 'w \<Rightarrow> vpath \<Rightarrow> 'w \<times> (proto_error + bool)" where
  "is_free sv w p =
     (case sv_stat sv w p of
        (w', Inl E_NotFound) \<Rightarrow> (w', Inr True)
      | (w', Inr _) \<Rightarrow> (w', Inr False)
      | (w', Inl e) \<Rightarrow> (w', Inl e))"

section \<open>The recorders\<close>

text \<open>\<^verbatim>\<open>BatchJournal\<close> writes to the journal under one batch. When a write reaches the disk, and what the
  clock says then, is the sequence \<open>bj_io\<close>, of which \<open>bj_calls\<close> answers have been used.\<close>

record batch_journal =
  bj_journal :: journal
  bj_actor :: actor
  bj_batch :: int
  bj_io :: "nat \<Rightarrow> bool \<times> int"
  bj_calls :: nat

definition batch_entry :: "actor \<Rightarrow> int \<Rightarrow> vpath \<Rightarrow> vpath \<Rightarrow> int option \<Rightarrow> new_entry" where
  "batch_entry a b source dest undoes =
     \<lparr>n_op = ''renamed'', n_path = to_wire dest, n_path_to = Some (to_wire source), n_reversal = RenameBack,
      n_reversal_ref = None, n_actor = a, n_undoes_seq = undoes, n_batch_id = Some b\<rparr>"

definition BatchJournal_renamed :: "(bytes \<Rightarrow> bytes) \<Rightarrow> batch_journal \<Rightarrow> vpath \<Rightarrow> vpath \<Rightarrow> int option \<Rightarrow>
    batch_journal \<times> (proto_error + int option)" where
  "BatchJournal_renamed sha bj source dest undoes =
     (let (io, now) = bj_io bj (bj_calls bj);
          (j, r) = record_entry sha io now (batch_entry (bj_actor bj) (bj_batch bj) source dest undoes) (bj_journal bj);
          bj = bj\<lparr>bj_journal := j, bj_calls := bj_calls bj + 1\<rparr>
      in case r of
           Inl _ \<Rightarrow> (bj, Inl (E_Internal False))
         | Inr s \<Rightarrow> (bj, Inr (Some s)))"

text \<open>\<^verbatim>\<open>ObserverJournal\<close> tells the installed observer, a parameter, and has no number to return.\<close>

definition ObserverJournal_renamed :: "('o \<Rightarrow> vpath \<Rightarrow> vpath \<Rightarrow> actor \<Rightarrow> 'o \<times> (proto_error + unit)) \<Rightarrow> actor \<Rightarrow>
    'o \<Rightarrow> vpath \<Rightarrow> vpath \<Rightarrow> int option \<Rightarrow> 'o \<times> (proto_error + int option)" where
  "ObserverJournal_renamed on_mutation a ob source dest undoes =
     (case on_mutation ob source dest a of
        (ob', Inl e) \<Rightarrow> (ob', Inl e)
      | (ob', Inr _) \<Rightarrow> (ob', Inr None))"

section \<open>Steps and reports\<close>

record planned_step =
  ps_from :: vpath
  ps_to :: vpath
  ps_pair :: nat
  ps_undoes :: "int option"

definition absolute :: "vpath \<Rightarrow> rename_step \<Rightarrow> proto_error + planned_step" where
  "absolute dir s =
     (case (Segment_new (step_from s), Segment_new (step_to s)) of
        (Inr f, Inr t) \<Rightarrow> Inr \<lparr>ps_from = VPath_join dir f, ps_to = VPath_join dir t, ps_pair = step_pair s, ps_undoes = None\<rparr>
      | _ \<Rightarrow> Inl E_InvalidPath)"

record stuck_step =
  st_from :: vpath
  st_to :: vpath
  st_pair :: nat
  st_error :: proto_error
  st_journalled :: bool
  still_applied :: nat

record batch_report =
  br_applied :: nat
  rolled_back :: nat
  failed_pair :: "nat option"
  stuck :: "stuck_step option"
  uncertain :: "stuck_step option"
  compensations_lost :: nat

definition report_default :: batch_report where
  "report_default = \<lparr>br_applied = 0, rolled_back = 0, failed_pair = None, stuck = None, uncertain = None,
     compensations_lost = 0\<rparr>"

record applied_step =
  ap_from :: vpath
  ap_to :: vpath
  ap_pair :: nat
  ap_seq :: "int option"
  ap_journalled :: bool

definition unjournalled :: "planned_step \<Rightarrow> applied_step" where
  "unjournalled s = \<lparr>ap_from = ps_from s, ap_to = ps_to s, ap_pair = ps_pair s, ap_seq = None, ap_journalled = False\<rparr>"

definition stuck_of :: "applied_step \<Rightarrow> proto_error \<Rightarrow> nat \<Rightarrow> stuck_step" where
  "stuck_of a e below = \<lparr>st_from = ap_from a, st_to = ap_to a, st_pair = ap_pair a, st_error = e,
     st_journalled = ap_journalled a, still_applied = below + 1\<rparr>"

datatype landed = Landed_Yes | Landed_No | Landed_Unknown

definition probe_landed :: "('w, 'j) services \<Rightarrow> 'w \<Rightarrow> planned_step \<Rightarrow> 'w \<times> landed" where
  "probe_landed sv w s =
     (let (w1, dest) = is_free sv w (ps_to s);
          (w2, src) = is_free sv w1 (ps_from s)
      in (w2, if dest = Inr False \<and> src = Inr True then Landed_Yes
              else if dest = Inr True \<or> src = Inr False then Landed_No
              else Landed_Unknown))"

fun may_have_applied :: "proto_error \<Rightarrow> bool" where
  "may_have_applied E_NotFound = False"
| "may_have_applied (E_Conflict _) = False"
| "may_have_applied E_InvalidPath = False"
| "may_have_applied E_PermissionDenied = False"
| "may_have_applied E_Unsupported = False"
| "may_have_applied (E_PolicyDenied _) = False"
| "may_have_applied _ = True"

record batch_progress =
  entries_total :: "nat option"
  entries_done :: nat
  current :: "vpath option"

record ('w, 'j) exec_state =
  world :: 'w
  recorder :: 'j
  report :: batch_report
  progress :: batch_progress

section \<open>Running and unwinding\<close>

text \<open>The stack of applied steps is a list with its top first.\<close>

definition put_back :: "('w, 'j) services \<Rightarrow> 'w \<Rightarrow> applied_step \<Rightarrow> 'w \<times> proto_error option" where
  "put_back sv w a =
     (case is_free sv w (ap_from a) of
        (w1, Inr True) \<Rightarrow>
          (case sv_rename sv w1 (ap_to a) (ap_from a) of
             (w2, Inl e) \<Rightarrow> (w2, Some e)
           | (w2, Inr _) \<Rightarrow> (w2, None))
      | (w1, Inr False) \<Rightarrow> (w1, Some (E_Conflict Exists))
      | (w1, Inl e) \<Rightarrow> (w1, Some e))"

definition compensate :: "('w, 'j) services \<Rightarrow> applied_step \<Rightarrow> ('w, 'j) exec_state \<Rightarrow> ('w, 'j) exec_state" where
  "compensate sv a x =
     (if ap_journalled a then
        let (j, r) = sv_renamed sv (recorder x) (ap_to a) (ap_from a) (ap_seq a);
            x = x\<lparr>recorder := j\<rparr>;
            x = (case r of
                   Inl _ \<Rightarrow> x\<lparr>report := (report x)\<lparr>compensations_lost := compensations_lost (report x) + 1\<rparr>\<rparr>
                 | Inr _ \<Rightarrow> x)
        in x\<lparr>progress := (progress x)\<lparr>entries_done := entries_done (progress x) - 1, current := None\<rparr>\<rparr>
      else x)"

fun unwind :: "('w, 'j) services \<Rightarrow> applied_step list \<Rightarrow> ('w, 'j) exec_state \<Rightarrow>
    ('w, 'j) exec_state \<times> proto_error option" where
  "unwind sv [] x = (x, None)"
| "unwind sv (a # below) x =
     (case put_back sv (world x) a of
        (w, Some e) \<Rightarrow>
          (x\<lparr>world := w, report := (report x)\<lparr>stuck := Some (stuck_of a e (length below))\<rparr>\<rparr>, Some e)
      | (w, None) \<Rightarrow>
          let x = compensate sv a (x\<lparr>world := w\<rparr>)
          in unwind sv below (x\<lparr>report := (report x)\<lparr>rolled_back := rolled_back (report x) + 1\<rparr>\<rparr>))"

definition settle_failed :: "('w, 'j) services \<Rightarrow> planned_step \<Rightarrow> proto_error \<Rightarrow> applied_step list \<Rightarrow>
    ('w, 'j) exec_state \<Rightarrow> applied_step list \<times> ('w, 'j) exec_state" where
  "settle_failed sv s e stack x =
     (if may_have_applied e then
        (case probe_landed sv (world x) s of
           (w, Landed_Yes) \<Rightarrow> (unjournalled s # stack, x\<lparr>world := w\<rparr>)
         | (w, Landed_No) \<Rightarrow> (stack, x\<lparr>world := w\<rparr>)
         | (w, Landed_Unknown) \<Rightarrow>
             (stack, x\<lparr>world := w, report := (report x)\<lparr>uncertain := Some (stuck_of (unjournalled s) e (length stack))\<rparr>\<rparr>))
      else (stack, x))"

definition fail_pair :: "planned_step \<Rightarrow> ('w, 'j) exec_state \<Rightarrow> ('w, 'j) exec_state" where
  "fail_pair s x = x\<lparr>report := (report x)\<lparr>failed_pair := Some (ps_pair s)\<rparr>\<rparr>"

definition applied_of :: "('w, 'j) services \<Rightarrow> planned_step \<Rightarrow> int option \<Rightarrow> applied_step" where
  "applied_of sv s n = \<lparr>ap_from = ps_from s, ap_to = ps_to s, ap_pair = ps_pair s, ap_seq = n,
     ap_journalled = sv_records sv\<rparr>"

fun run_batch :: "('w, 'j) services \<Rightarrow> (nat \<Rightarrow> bool) \<Rightarrow> nat \<Rightarrow> applied_step list \<Rightarrow> planned_step list \<Rightarrow>
    ('w, 'j) exec_state \<Rightarrow> ('w, 'j) exec_state \<times> (proto_error + unit)" where
  "run_batch sv cancel n stack [] x = (x, Inr ())"
| "run_batch sv cancel n stack (s # ss) x =
     (if cancel n then
        (case unwind sv stack x of
           (x', Some e) \<Rightarrow> (x', Inl e)
         | (x', None) \<Rightarrow> (x', Inl E_Cancelled))
      else case sv_rename sv (world x) (ps_from s) (ps_to s) of
        (w, Inl e) \<Rightarrow>
          (let (stack', x') = settle_failed sv s e stack (fail_pair s (x\<lparr>world := w\<rparr>))
           in (fst (unwind sv stack' x'), Inl e))
      | (w, Inr _) \<Rightarrow>
          (case sv_renamed sv (recorder x) (ps_from s) (ps_to s) (ps_undoes s) of
             (j, Inl e) \<Rightarrow>
               (fst (unwind sv (unjournalled s # stack) (fail_pair s (x\<lparr>world := w, recorder := j\<rparr>))), Inl e)
           | (j, Inr q) \<Rightarrow>
               run_batch sv cancel (n + 1) (applied_of sv s q # stack) ss
                 (x\<lparr>world := w, recorder := j,
                    report := (report x)\<lparr>br_applied := br_applied (report x) + 1\<rparr>,
                    progress := (progress x)\<lparr>entries_done := entries_done (progress x) + 1, current := Some (ps_to s)\<rparr>\<rparr>)))"

definition exec_run :: "('w, 'j) services \<Rightarrow> (nat \<Rightarrow> bool) \<Rightarrow> planned_step list \<Rightarrow>
    ('w, 'j) exec_state \<Rightarrow> ('w, 'j) exec_state \<times> (proto_error + unit)" where
  "exec_run sv cancel ss x =
     run_batch sv cancel 0 [] ss (x\<lparr>progress := (progress x)\<lparr>entries_total := Some (length ss)\<rparr>\<rparr>)"

end
