(* ===== verification/Rename_Transaction.thy ===== *)
theory Rename_Transaction
  imports Rename_Exec
begin

text \<open>
  The executor is a transaction. \<open>rename_provider\<close> states what the executor relies on: a rename that
  succeeds moves one file to a free name, a rename that fails changed nothing or, for the errors that
  leave it open, took effect, and \<^verbatim>\<open>stat\<close> answers truly when it answers. Under that contract, and with
  steps that are feasible one after the other, the directory ends with every step applied, or as it was,
  or the report says where it stopped.
\<close>

section \<open>The contract of a provider\<close>

text \<open>A state of the directory maps paths to files. \<open>key\<close> is the volume's own equality of names: two paths
  with one key are one name for it. A rename moves a file to a name that is free in that sense.\<close>

definition occupied :: "(vpath \<Rightarrow> 'k) \<Rightarrow> (vpath \<Rightarrow> 'f option) \<Rightarrow> vpath \<Rightarrow> bool" where
  "occupied key d p \<longleftrightarrow> (\<exists>e \<in> dom d. key e = key p)"

definition moved :: "(vpath \<Rightarrow> 'k) \<Rightarrow> (vpath \<Rightarrow> 'f option) \<Rightarrow> vpath \<Rightarrow> vpath \<Rightarrow> (vpath \<Rightarrow> 'f option) option" where
  "moved key d a b =
     (case d a of None \<Rightarrow> None
      | Some f \<Rightarrow> if occupied key d b then None else Some (d(a := None, b := Some f)))"

fun run_moves :: "(vpath \<Rightarrow> 'k) \<Rightarrow> (vpath \<times> vpath) list \<Rightarrow> (vpath \<Rightarrow> 'f option) \<Rightarrow> (vpath \<Rightarrow> 'f option) option" where
  "run_moves key [] d = Some d"
| "run_moves key ((a, b) # ms) d = Option.bind (moved key d a b) (run_moves key ms)"

lemma run_moves_append: "run_moves key (ms @ ns) d = Option.bind (run_moves key ms d) (run_moves key ns)"
  by (induction ms arbitrary: d) (auto split: bind_splits)

lemma moved_Some_iff: "moved key d a b = Some d' \<longleftrightarrow>
    (\<exists>f. d a = Some f \<and> \<not> occupied key d b \<and> d' = d(a := None, b := Some f))"
  by (auto simp: moved_def split: option.splits)

lemma moved_keys: "moved key d a b = Some d' \<Longrightarrow> key a \<noteq> key b \<and> a \<noteq> b"
  by (auto simp: moved_Some_iff occupied_def)

lemma moved_inj:
  assumes "moved key d a b = Some d'" "inj_on key (dom d)"
  shows "inj_on key (dom d')"
proof -
  obtain f where d': "d' = d(a := None, b := Some f)" and free: "\<not> occupied key d b" using assms(1) by (auto simp: moved_Some_iff)
  have "dom d' = insert b (dom d - {a})" using moved_keys [OF assms(1)] d' by auto
  with inj_on_subset [OF assms(2), of "dom d - {a}"] free show ?thesis by (auto simp: occupied_def inj_on_insert)
qed

lemma run_moves_inj: "run_moves key ms d = Some d' \<Longrightarrow> inj_on key (dom d) \<Longrightarrow> inj_on key (dom d')"
proof (induction ms arbitrary: d)
  case (Cons m ms)
  then show ?case by (cases m) (auto simp: bind_eq_Some_conv dest: moved_inj)
qed simp

lemma moved_frees:
  assumes "moved key d a b = Some d'" "inj_on key (dom d)"
  shows "\<not> occupied key d' a" "d' b = d a" "d a \<noteq> None" "\<not> occupied key d b" "d' b \<noteq> None"
proof -
  obtain f where f: "d a = Some f" "d' = d(a := None, b := Some f)" "\<not> occupied key d b"
    using assms(1) by (auto simp: moved_Some_iff)
  have "e = a" if "e \<in> dom d" "key e = key a" for e using that f(1) assms(2) by (auto simp: inj_on_def)
  then show "\<not> occupied key d' a" using moved_keys [OF assms(1)] f by (auto simp: occupied_def split: if_splits)
qed (use assms(1) in \<open>auto simp: moved_Some_iff\<close>)

lemma moved_back:
  assumes "moved key d a b = Some d'" "inj_on key (dom d)"
  shows "moved key d' b a = Some d"
proof -
  obtain f where f: "d a = Some f" "d' = d(a := None, b := Some f)" "\<not> occupied key d b"
    using assms(1) by (auto simp: moved_Some_iff)
  then have "d b = None" by (cases "d b") (auto simp: occupied_def)
  with f have "d'(b := None, a := Some f) = d" by (auto simp: fun_eq_iff)
  with moved_frees(1) [OF assms] f(2) show ?thesis by (auto simp: moved_Some_iff)
qed

definition step_move :: "planned_step \<Rightarrow> vpath \<times> vpath" where
  "step_move s = (ps_from s, ps_to s)"

definition applied_move :: "applied_step \<Rightarrow> vpath \<times> vpath" where
  "applied_move a = (ap_from a, ap_to a)"

lemma applied_move_simps [simp]:
  "applied_move (unjournalled s) = step_move s" "applied_move (applied_of sv s q) = step_move s"
  by (simp_all add: applied_move_def step_move_def unjournalled_def applied_of_def)

lemma applied_move_eq: "applied_move a = (p, q) \<longleftrightarrow> ap_from a = p \<and> ap_to a = q"
  by (simp add: applied_move_def)

text \<open>Where a batch that could not be put back stopped: the named step and everything before it is still
  applied, except that its own reversal may have taken effect when the error leaves that open.\<close>

definition stopped_at :: "(vpath \<Rightarrow> 'k) \<Rightarrow> (vpath \<times> vpath) list \<Rightarrow> (vpath \<Rightarrow> 'f option) \<Rightarrow> stuck_step \<Rightarrow>
    (vpath \<Rightarrow> 'f option) \<Rightarrow> bool" where
  "stopped_at key ms d s d' \<longleftrightarrow> (\<exists>stay rest. ms = stay @ (st_from s, st_to s) # rest \<and>
     still_applied s = length stay + 1 \<and>
     (run_moves key (stay @ [(st_from s, st_to s)]) d = Some d' \<or>
      may_have_applied (st_error s) \<and> run_moves key stay d = Some d'))"

lemma stopped_at_append: "stopped_at key ms d s d' \<Longrightarrow> stopped_at key (ms @ ns) d s d'"
  unfolding stopped_at_def by (metis append.assoc append_Cons)

definition rolled_or_stuck :: "(vpath \<Rightarrow> 'k) \<Rightarrow> (vpath \<times> vpath) list \<Rightarrow> (vpath \<Rightarrow> 'f option) \<Rightarrow> batch_report \<Rightarrow>
    (vpath \<Rightarrow> 'f option) \<Rightarrow> bool" where
  "rolled_or_stuck key ms d rep d' \<longleftrightarrow>
     (case uncertain rep of
        Some u \<Rightarrow> (st_from u, st_to u) \<in> set ms \<and> may_have_applied (st_error u)
      | None \<Rightarrow> (case stuck rep of None \<Rightarrow> d' = d | Some s \<Rightarrow> stopped_at key ms d s d'))"

definition siblings :: "(vpath \<Rightarrow> bool) \<Rightarrow> (vpath \<times> vpath) list \<Rightarrow> bool" where
  "siblings sibling ms \<longleftrightarrow> list_all (\<lambda>(a, b). sibling a \<and> sibling b) ms"

text \<open>\<open>good\<close> are the states of the provider it works in, \<open>sibling\<close> the paths of the directory at hand and
  \<open>entry\<close> what stands at them.\<close>

locale rename_provider =
  fixes sv :: "('w, 'j) services"
    and good :: "'w \<Rightarrow> bool"
    and sibling :: "vpath \<Rightarrow> bool"
    and entry :: "'w \<Rightarrow> vpath \<Rightarrow> 'f option"
    and key :: "vpath \<Rightarrow> 'k"
  assumes rename_kept: "good w \<Longrightarrow> sibling a \<Longrightarrow> sibling b \<Longrightarrow> a \<noteq> b \<Longrightarrow> entry w a \<noteq> None \<Longrightarrow>
      sv_rename sv w a b = (w', r) \<Longrightarrow> good w'"
    and rename_done: "good w \<Longrightarrow> sibling a \<Longrightarrow> sibling b \<Longrightarrow> a \<noteq> b \<Longrightarrow> entry w a \<noteq> None \<Longrightarrow>
      sv_rename sv w a b = (w', Inr u) \<Longrightarrow> moved key (entry w) a b = Some (entry w')"
    and rename_failed: "good w \<Longrightarrow> sibling a \<Longrightarrow> sibling b \<Longrightarrow> a \<noteq> b \<Longrightarrow> entry w a \<noteq> None \<Longrightarrow>
      sv_rename sv w a b = (w', Inl e) \<Longrightarrow>
      entry w' = entry w \<or> may_have_applied e \<and> moved key (entry w) a b = Some (entry w')"
    and stat_kept: "good w \<Longrightarrow> sibling p \<Longrightarrow> sv_stat sv w p = (w', r) \<Longrightarrow> good w' \<and> entry w' = entry w"
    and stat_found: "good w \<Longrightarrow> sibling p \<Longrightarrow> sv_stat sv w p = (w', Inr u) \<Longrightarrow> occupied key (entry w) p"
    and stat_missing: "good w \<Longrightarrow> sibling p \<Longrightarrow> sv_stat sv w p = (w', Inl E_NotFound) \<Longrightarrow> \<not> occupied key (entry w) p"
    and distinct_keys: "good w \<Longrightarrow> inj_on key (dom (entry w))"
begin

lemma is_free_entry:
  assumes "good w" "sibling p" "is_free sv w p = (w', r)"
  shows "good w' \<and> entry w' = entry w \<and> (\<forall>b. r = Inr b \<longrightarrow> b = (\<not> occupied key (entry w) p))"
proof -
  obtain v q where st: "sv_stat sv w p = (v, q)" by fastforce
  have v: "w' = v" using assms(3) st by (auto simp: is_free_def split: sum.splits proto_error.splits)
  have "b = (\<not> occupied key (entry w) p)" if "r = Inr b" for b
  proof (cases q)
    case (Inl e)
    then show ?thesis
      using assms st stat_missing [of w p v] that by (cases e) (auto simp: is_free_def)
  next
    case (Inr u)
    then show ?thesis using assms st stat_found [of w p v u] that by (auto simp: is_free_def)
  qed
  with stat_kept [OF assms(1,2) st] v show ?thesis by blast
qed

lemma put_back_entry:
  assumes "good w" "sibling (ap_from a)" "sibling (ap_to a)" "inj_on key (dom d)"
    and "put_back sv w a = (w', r)" "moved key d (ap_from a) (ap_to a) = Some (entry w)"
  shows "good w' \<and> (case r of None \<Rightarrow> entry w' = d | Some e \<Rightarrow> entry w' = entry w \<or> may_have_applied e \<and> entry w' = d)"
proof -
  obtain v q where free: "is_free sv w (ap_from a) = (v, q)" by fastforce
  have v: "good v" "entry v = entry w" using is_free_entry [OF assms(1,2) free] by simp_all
  have undo: "moved key (entry v) (ap_to a) (ap_from a) = Some d" unfolding v(2) by (rule moved_back [OF assms(6,4)])
  have src: "ap_to a \<noteq> ap_from a" "entry v (ap_to a) \<noteq> None"
    using moved_keys [OF undo] undo by (auto simp: moved_Some_iff)
  show ?thesis
  proof (cases "q = Inr True")
    case True
    obtain u t where ren: "sv_rename sv v (ap_to a) (ap_from a) = (u, t)" by fastforce
    have u: "good u" by (rule rename_kept [OF v(1) assms(3,2) src ren])
    show ?thesis
    proof (cases t)
      case (Inl e)
      then show ?thesis
        using assms(5) free True ren rename_failed [OF v(1) assms(3,2) src ren [unfolded Inl]] undo v(2) u
        by (auto simp: put_back_def)
    next
      case (Inr y)
      then show ?thesis
        using assms(5) free True ren rename_done [OF v(1) assms(3,2) src ren [unfolded Inr]] undo u
        by (auto simp: put_back_def)
    qed
  next
    case False
    then show ?thesis
      using assms(5) free v by (cases q) (auto simp: put_back_def split: bool.splits)
  qed
qed

lemma compensate_keeps [simp]:
  "world (compensate sv a x) = world x" "stuck (report (compensate sv a x)) = stuck (report x)"
  "uncertain (report (compensate sv a x)) = uncertain (report x)"
  by (auto simp: compensate_def Let_def split: prod.splits sum.splits)

lemma unwind_entry:
  assumes "good (world x)" "inj_on key (dom d)" "siblings sibling (map applied_move st)"
    and "unwind sv st x = (x', r)" "run_moves key (map applied_move (rev st)) d = Some (entry (world x))"
    and "stuck (report x) = None"
  shows "uncertain (report x') = uncertain (report x) \<and>
    (case r of None \<Rightarrow> stuck (report x') = None \<and> entry (world x') = d
     | Some e \<Rightarrow> \<exists>s. stuck (report x') = Some s \<and> stopped_at key (map applied_move (rev st)) d s (entry (world x')))"
  using assms
proof (induction st arbitrary: x)
  case Nil
  then show ?case by auto
next
  case (Cons a below)
  obtain d1 where d1: "run_moves key (map applied_move (rev below)) d = Some d1"
      "moved key d1 (ap_from a) (ap_to a) = Some (entry (world x))"
    using Cons.prems(5) by (cases "applied_move a") (auto simp: run_moves_append bind_eq_Some_conv applied_move_eq)
  have sib: "sibling (ap_from a)" "sibling (ap_to a)" "siblings sibling (map applied_move below)"
    using Cons.prems(3) by (auto simp: siblings_def applied_move_def [of a])
  obtain w q where pb: "put_back sv (world x) a = (w, q)" by fastforce
  note restored = put_back_entry [OF Cons.prems(1) sib(1,2) run_moves_inj [OF d1(1) Cons.prems(2)] pb d1(2)]
  show ?case
  proof (cases q)
    case None
    let ?x = "compensate sv a (x\<lparr>world := w\<rparr>)"
    let ?y = "?x\<lparr>report := (report ?x)\<lparr>rolled_back := rolled_back (report ?x) + 1\<rparr>\<rparr>"
    have un: "unwind sv below ?y = (x', r)" using Cons.prems(4) pb None by (simp add: Let_def)
    have y: "good (world ?y)" "run_moves key (map applied_move (rev below)) d = Some (entry (world ?y))"
        "stuck (report ?y) = None"
      using restored None d1(1) Cons.prems(6) by simp_all
    from Cons.IH [OF y(1) Cons.prems(2) sib(3) un y(2,3)]
    show ?thesis by (auto split: option.splits dest: stopped_at_append)
  next
    case (Some e)
    let ?s = "stuck_of a e (length below)"
    have x': "x' = x\<lparr>world := w, report := (report x)\<lparr>stuck := Some ?s\<rparr>\<rparr>" "r = Some e"
      using Cons.prems(4) pb Some by auto
    have "applied_move a = (ap_from a, ap_to a)" by (simp add: applied_move_eq)
    then have "stopped_at key (map applied_move (rev (a # below))) d ?s (entry w)"
      unfolding stopped_at_def
      using restored Some d1 Cons.prems(5)
      by (intro exI [of _ "map applied_move (rev below)"] exI [of _ "[]"]) (auto simp: stuck_of_def)
    then show ?thesis using x' by simp
  qed
qed

lemma probe_landed_entry:
  assumes "good w" "sibling (ps_from s)" "sibling (ps_to s)" "inj_on key (dom d)"
    and "probe_landed sv w s = (w', l)"
    and "entry w = d \<or> moved key d (ps_from s) (ps_to s) = Some (entry w)" "moved key d (ps_from s) (ps_to s) \<noteq> None"
  shows "good w' \<and> entry w' = entry w \<and> (l = Landed_Yes \<longrightarrow> moved key d (ps_from s) (ps_to s) = Some (entry w)) \<and>
    (l = Landed_No \<longrightarrow> entry w = d)"
proof -
  obtain w1 p where p: "is_free sv w (ps_to s) = (w1, p)" by fastforce
  note f1 = is_free_entry [OF assms(1,3) p]
  obtain w2 q where q: "is_free sv w1 (ps_from s) = (w2, q)" by fastforce
  have f2: "good w2" "entry w2 = entry w" "q = Inr b \<Longrightarrow> b = (\<not> occupied key (entry w) (ps_from s))" for b
    using is_free_entry [OF _ assms(2) q] f1 by simp_all
  have l: "w' = w2" "l = (if p = Inr False \<and> q = Inr True then Landed_Yes
      else if p = Inr True \<or> q = Inr False then Landed_No else Landed_Unknown)"
    using assms(5) p q by (simp_all add: probe_landed_def)
  obtain d' where d': "moved key d (ps_from s) (ps_to s) = Some d'" using assms(7) by blast
  note frees = moved_frees [OF d' assms(4)]
  have still: "\<not> occupied key (entry w) (ps_to s)" if eq: "entry w = d" unfolding eq by (rule frees(4))
  have gone: "occupied key (entry w) (ps_to s)" "\<not> occupied key (entry w) (ps_from s)"
    if eq: "moved key d (ps_from s) (ps_to s) = Some (entry w)"
    using moved_frees(1,5) [OF eq assms(4)] by (auto simp: occupied_def)
  show ?thesis
  proof (cases l)
    case Landed_Yes
    then have "p = Inr False" using l(2) by (simp split: if_splits)
    with f1 still have "entry w \<noteq> d" by blast
    with assms(6) Landed_Yes f2 l(1) show ?thesis by simp
  next
    case Landed_No
    then have "p = Inr True \<or> q = Inr False" using l(2) by (simp split: if_splits)
    with f1 f2(3) [of False] gone have "moved key d (ps_from s) (ps_to s) \<noteq> Some (entry w)" by blast
    with assms(6) Landed_No f2 l(1) show ?thesis by simp
  qed (simp add: f2 l(1))
qed

lemma settle_failed_entry:
  assumes "good (world x)" "sibling (ps_from s)" "sibling (ps_to s)" "inj_on key (dom d)"
    and "settle_failed sv s e stack x = (stack', x')"
    and "entry (world x) = d \<or> may_have_applied e \<and> moved key d (ps_from s) (ps_to s) = Some (entry (world x))"
    and "moved key d (ps_from s) (ps_to s) \<noteq> None" "run_moves key (map applied_move (rev stack)) d0 = Some d"
  shows "good (world x') \<and> stuck (report x') = stuck (report x) \<and> (uncertain (report x') = None \<longrightarrow>
    (stack' = stack \<or> stack' = unjournalled s # stack) \<and>
    run_moves key (map applied_move (rev stack')) d0 = Some (entry (world x')))"
proof (cases "may_have_applied e")
  case True
  obtain w l where pr: "probe_landed sv (world x) s = (w, l)" by fastforce
  have w: "good w" "entry w = entry (world x)"
      "l = Landed_Yes \<Longrightarrow> moved key d (ps_from s) (ps_to s) = Some (entry (world x))" "l = Landed_No \<Longrightarrow> entry (world x) = d"
    using probe_landed_entry [OF assms(1-4) pr _ assms(7)] assms(6) by blast+
  show ?thesis
    using assms(5,8) True pr w
    by (cases l) (auto simp: settle_failed_def run_moves_append step_move_def)
next
  case False
  then show ?thesis using assms(1,5,6,8) by (auto simp: settle_failed_def)
qed

lemma unwind_uncertain: "uncertain (report (fst (unwind sv st x))) = uncertain (report x)"
  by (induction st arbitrary: x) (auto simp: Let_def split: prod.splits option.splits)

lemma settle_failed_uncertain:
  assumes "settle_failed sv s e stack x = (stack', x')" "uncertain (report x) = None" "uncertain (report x') = Some u"
  shows "(st_from u, st_to u) = step_move s \<and> may_have_applied (st_error u)"
  using assms
  by (auto simp: settle_failed_def stuck_of_def unjournalled_def step_move_def
      split: if_splits prod.splits landed.splits)

lemma unwind_rolled:
  assumes "good (world x)" "inj_on key (dom d)" "siblings sibling (map applied_move stack)"
    and "run_moves key (map applied_move (rev stack)) d = Some (entry (world x))"
    and "stuck (report x) = None" "uncertain (report x) = None"
  shows "rolled_or_stuck key (map applied_move (rev stack) @ ns) d (report (fst (unwind sv stack x)))
    (entry (world (fst (unwind sv stack x))))"
proof -
  obtain y r where un: "unwind sv stack x = (y, r)" by fastforce
  show ?thesis
    using unwind_entry [OF assms(1-3) un assms(4,5)] assms(6)
    by (cases r) (auto simp: rolled_or_stuck_def un intro: stopped_at_append)
qed

lemma settle_unwind_rolled:
  assumes "good (world x)" "inj_on key (dom d0)" "siblings sibling (step_move s # map applied_move stack)"
    and "settle_failed sv s e stack x = (stack', x')"
    and "entry (world x) = d \<or> may_have_applied e \<and> moved key d (ps_from s) (ps_to s) = Some (entry (world x))"
    and "moved key d (ps_from s) (ps_to s) \<noteq> None" "run_moves key (map applied_move (rev stack)) d0 = Some d"
    and "stuck (report x) = None" "uncertain (report x) = None"
  shows "rolled_or_stuck key (map applied_move (rev stack) @ step_move s # ns) d0
    (report (fst (unwind sv stack' x'))) (entry (world (fst (unwind sv stack' x'))))"
proof (cases "uncertain (report x')")
  case None
  have sib: "sibling (ps_from s)" "sibling (ps_to s)" "siblings sibling (map applied_move stack)"
    using assms(3) by (auto simp: siblings_def step_move_def)
  have st: "good (world x')" "stuck (report x') = None" "stack' = stack \<or> stack' = unjournalled s # stack"
      "run_moves key (map applied_move (rev stack')) d0 = Some (entry (world x'))"
    using settle_failed_entry [OF assms(1) sib(1,2) run_moves_inj [OF assms(7,2)] assms(4-7)] None assms(8) by simp_all
  have "siblings sibling (map applied_move stack')" using st(3) assms(3) by (auto simp: siblings_def)
  note un = unwind_rolled [OF st(1) assms(2) this st(4,2) None]
  from st(3) show ?thesis using un [of "step_move s # ns"] un [of ns] by auto
next
  case (Some u)
  with settle_failed_uncertain [OF assms(4,9)] show ?thesis
    by (simp add: rolled_or_stuck_def unwind_uncertain)
qed

lemma run_batch_entry:
  assumes "good (world x)" "inj_on key (dom d0)" "siblings sibling (map applied_move stack @ map step_move ss)"
    and "run_moves key (map applied_move (rev stack)) d0 = Some (entry (world x))"
    and "run_moves key (map step_move ss) (entry (world x)) = Some d1"
    and "stuck (report x) = None" "uncertain (report x) = None"
    and "run_batch sv cancel n stack ss x = (x', r)"
  shows "case r of
      Inr _ \<Rightarrow> entry (world x') = d1 \<and> br_applied (report x') = br_applied (report x) + length ss \<and>
        stuck (report x') = None \<and> uncertain (report x') = None
    | Inl _ \<Rightarrow> rolled_or_stuck key (map applied_move (rev stack) @ map step_move ss) d0 (report x') (entry (world x'))"
  using assms
proof (induction ss arbitrary: n stack x)
  case Nil
  then show ?case by auto
next
  case (Cons s ss)
  let ?ns = "map step_move (s # ss)"
  have sib: "sibling (ps_from s)" "sibling (ps_to s)" "siblings sibling (map applied_move stack)"
      "siblings sibling (step_move s # map applied_move stack)"
    using Cons.prems(3) by (auto simp: siblings_def step_move_def [of s])
  obtain d where d: "moved key (entry (world x)) (ps_from s) (ps_to s) = Some d" "run_moves key (map step_move ss) d = Some d1"
    using Cons.prems(5) by (auto simp: step_move_def [of s] bind_eq_Some_conv)
  have src: "ps_from s \<noteq> ps_to s" "entry (world x) (ps_from s) \<noteq> None"
    using moved_keys [OF d(1)] d(1) by (auto simp: moved_Some_iff)
  obtain w q where ren: "sv_rename sv (world x) (ps_from s) (ps_to s) = (w, q)" by fastforce
  have w: "good w" by (rule rename_kept [OF Cons.prems(1) sib(1,2) src ren])
  show ?case
  proof (cases "cancel n")
    case True
    then have "x' = fst (unwind sv stack x) \<and> (\<exists>e. r = Inl e)"
      using Cons.prems(8) by (auto split: prod.splits option.splits)
    with unwind_rolled [OF Cons.prems(1,2) sib(3) Cons.prems(4,6,7), of ?ns] show ?thesis by auto
  next
    case go: False
    show ?thesis
    proof (cases q)
      case (Inl e)
      let ?x = "fail_pair s (x\<lparr>world := w\<rparr>)"
      obtain stack' y where se: "settle_failed sv s e stack ?x = (stack', y)" by fastforce
      have "x' = fst (unwind sv stack' y)" "r = Inl e" using Cons.prems(8) go ren Inl se by auto
      moreover have "rolled_or_stuck key (map applied_move (rev stack) @ ?ns) d0
          (report (fst (unwind sv stack' y))) (entry (world (fst (unwind sv stack' y))))"
        using settle_unwind_rolled [OF _ Cons.prems(2) sib(4) se _ _ Cons.prems(4)]
          rename_failed [OF Cons.prems(1) sib(1,2) src ren [unfolded Inl]] d(1) w Cons.prems(6,7)
        by (simp add: fail_pair_def)
      ultimately show ?thesis by simp
    next
      case (Inr u)
      have ew: "entry w = d" using rename_done [OF Cons.prems(1) sib(1,2) src ren [unfolded Inr]] d(1) by simp
      obtain j t where rec: "sv_renamed sv (recorder x) (ps_from s) (ps_to s) (ps_undoes s) = (j, t)" by fastforce
      have top: "run_moves key (map applied_move (rev stack) @ [step_move s]) d0 = Some (entry w)"
        using Cons.prems(4) d(1) ew by (simp add: run_moves_append step_move_def)
      show ?thesis
      proof (cases t)
        case (Inl e)
        let ?x = "fail_pair s (x\<lparr>world := w, recorder := j\<rparr>)"
        have "x' = fst (unwind sv (unjournalled s # stack) ?x)" "r = Inl e"
          using Cons.prems(8) go ren Inr rec Inl by auto
        with unwind_rolled [of ?x d0 "unjournalled s # stack" "map step_move ss"] top w sib(4) Cons.prems(2,6,7)
        show ?thesis by (simp add: fail_pair_def)
      next
        case (Inr q')
        let ?y = "x\<lparr>world := w, recorder := j, report := (report x)\<lparr>br_applied := br_applied (report x) + 1\<rparr>,
          progress := (progress x)\<lparr>entries_done := entries_done (progress x) + 1, current := Some (ps_to s)\<rparr>\<rparr>"
        have run: "run_batch sv cancel (n + 1) (applied_of sv s q' # stack) ss ?y = (x', r)"
          using Cons.prems(8) go ren \<open>q = Inr u\<close> rec Inr by simp
        have "siblings sibling (map applied_move (applied_of sv s q' # stack) @ map step_move ss)"
          using Cons.prems(3) by (auto simp: siblings_def)
        from Cons.IH [OF _ Cons.prems(2) this _ _ _ _ run] top d(2) w ew Cons.prems(6,7) show ?thesis
          by (auto split: sum.splits)
      qed
    qed
  qed
qed

lemma same_name_refused:
  assumes "good w" "sibling a" "sibling b" "a \<noteq> b" "entry w a \<noteq> None" "key a = key b"
    and "sv_rename sv w a b = (w', r)"
  shows "\<exists>e. r = Inl e"
proof (cases r)
  case (Inr u)
  from rename_done [OF assms(1-5), of w' u] assms(7) Inr have "moved key (entry w) a b = Some (entry w')" by simp
  from moved_keys [OF this] assms(6) show ?thesis by simp
qed simp

lemma exec_run_entry:
  assumes "good (world x)" "siblings sibling (map step_move ss)" "report x = report_default"
    and "run_moves key (map step_move ss) (entry (world x)) = Some d"
    and "exec_run sv cancel ss x = (x', r)"
  shows "case r of
      Inr _ \<Rightarrow> entry (world x') = d \<and> br_applied (report x') = length ss \<and> stuck (report x') = None \<and>
        uncertain (report x') = None
    | Inl _ \<Rightarrow> rolled_or_stuck key (map step_move ss) (entry (world x)) (report x') (entry (world x'))"
  using run_batch_entry [OF _ distinct_keys [OF assms(1)] _ _ _ _ _ assms(5) [unfolded exec_run_def]] assms
  by (auto simp: report_default_def split: sum.splits)

end

end
