(* ===== verification/Mem_Directory.thy ===== *)
theory Mem_Directory
  imports Mem_Provider Rename_Transaction
begin

text \<open>
  The in-memory provider meets the contract of a batch rename. \<open>mem_good\<close> says in which states: the directory
  and its parents are directories of the tree, the map is in key order, no rename clobbers and, on a volume that
  folds case, no two names of the directory are one. In these states the operations of \<open>Mem_Provider\<close> on the
  entries of the directory are the moves and the lookups of \<open>rename_provider\<close>, with every fault that can be
  injected: unavailability, disconnection, a rename that fails before its effect and one that fails after it.
\<close>

section \<open>Maps in key order\<close>

definition in_order :: "('k :: linorder \<times> 'v) list \<Rightarrow> bool" where
  "in_order t \<longleftrightarrow> sorted_wrt (<) (map fst t)"

lemma map_of_btree_insert [simp]: "map_of (btree_insert k v t) = (map_of t)(k \<mapsto> v)"
  by (induction t) (auto simp: fun_eq_iff)

lemma fst_btree_insert: "set (map fst (btree_insert k v t)) = insert k (set (map fst t))"
proof (induction t)
  case (Cons kv t)
  then show ?case by (cases kv) (simp add: insert_commute)
qed simp

lemma in_order_insert: "in_order t \<Longrightarrow> in_order (btree_insert k v t)"
proof (induction t)
  case (Cons kv t)
  then show ?case using fst_btree_insert [of k v t] by (cases kv) (fastforce simp: in_order_def)
qed (simp add: in_order_def)

lemma in_order_filter: "in_order t \<Longrightarrow> in_order (filter P t)"
  unfolding in_order_def by (induction t) auto

lemma in_order_distinct: "in_order t \<Longrightarrow> distinct (map fst t)"
  unfolding in_order_def by (rule strict_sorted_iff [THEN iffD1, THEN conjunct2]) (simp add: strict_sorted_iff)

lemma map_of_filter_key: "map_of (filter (\<lambda>(k, _). P k) t) x = (if P x then map_of t x else None)"
  by (induction t) auto

section \<open>A rename in the tree\<close>

lemma land_clock [simp]: "clock (fold (land_node f t) ms T) = clock T"
  by (induction ms arbitrary: T) (simp_all add: land_node_def Let_def split: prod.splits)

lemma nodes_land_node [simp]:
  "nodes (land_node f t (k, n) T) = btree_insert (t @ drop (length f) k) (touch (clock T) n) (nodes T)"
  "clock (land_node f t (k, n) T) = clock T"
  by (simp_all add: land_node_def Let_def)

lemma land_in_order: "in_order (nodes T) \<Longrightarrow> in_order (nodes (fold (land_node f t) ms T))"
proof (induction ms arbitrary: T)
  case (Cons m ms)
  then show ?case by (cases m) (simp add: in_order_insert)
qed simp

lemma land_nodes:
  assumes "distinct (map fst ms)" "\<forall>k \<in> set (map fst ms). prefix f k"
  shows "map_of (nodes (fold (land_node f t) ms T)) k =
      (case (if prefix t k then map_of ms (f @ drop (length t) k) else None) of
         Some n \<Rightarrow> Some (touch (clock T) n) | None \<Rightarrow> map_of (nodes T) k)"
  using assms
proof (induction ms arbitrary: T)
  case Nil
  then show ?case by simp
next
  case (Cons m ms)
  obtain k0 n where m: "m = (k0, n)" by (cases m)
  obtain r where r: "k0 = f @ r" using Cons.prems(2) m prefixE by auto
  let ?T = "land_node f t m T"
  have IH: "map_of (nodes (fold (land_node f t) ms ?T)) k =
      (case (if prefix t k then map_of ms (f @ drop (length t) k) else None) of
         Some n \<Rightarrow> Some (touch (clock ?T) n) | None \<Rightarrow> map_of (nodes ?T) k)"
    using Cons.prems by (intro Cons.IH) auto
  have k0: "map_of ms k0 = None" using Cons.prems(1) m by (auto simp: map_of_eq_None_iff)
  have k: "k = t @ r \<longleftrightarrow> prefix t k \<and> f @ drop (length t) k = k0" by (auto simp: r prefix_def)
  show ?case
  proof (cases "k = t @ r")
    case True
    with IH k0 k m r show ?thesis by auto
  next
    case False
    with IH k m r show ?thesis by (auto split: option.splits)
  qed
qed

lemma move_subtree_nodes:
  assumes "in_order (nodes T)"
  shows "map_of (nodes (move_subtree f t T)) k =
      (case (if prefix t k then map_of (nodes T) (f @ drop (length t) k) else None) of
         Some n \<Rightarrow> Some (touch (clock T + 1) n) | None \<Rightarrow> if prefix f k then None else map_of (nodes T) k)"
    "in_order (nodes (move_subtree f t T))"
proof -
  let ?ms = "filter (\<lambda>(k, _). prefix f k) (nodes T)"
  let ?T = "T\<lparr>nodes := filter (\<lambda>(k, _). \<not> prefix f k) (nodes T), clock := clock T + 1\<rparr>"
  have T: "move_subtree f t T = fold (land_node f t) ?ms ?T"
    by (simp add: move_subtree_def Let_def drop_subtree_def)
  have d: "distinct (map fst ?ms)" by (rule in_order_distinct [OF in_order_filter [OF assms]])
  have p: "\<forall>k \<in> set (map fst ?ms). prefix f k" by auto
  have ms: "map_of ?ms (f @ x) = map_of (nodes T) (f @ x)" for x
    by (subst map_of_filter_key) simp
  have T': "map_of (nodes ?T) k = (if prefix f k then None else map_of (nodes T) k)"
    using map_of_filter_key [of "\<lambda>k. \<not> prefix f k" "nodes T" k] by simp
  have c: "clock ?T = clock T + 1" by simp
  show "map_of (nodes (move_subtree f t T)) k =
      (case (if prefix t k then map_of (nodes T) (f @ drop (length t) k) else None) of
         Some n \<Rightarrow> Some (touch (clock T + 1) n) | None \<Rightarrow> if prefix f k then None else map_of (nodes T) k)"
    unfolding T land_nodes [OF d p] ms T' c ..
  show "in_order (nodes (move_subtree f t T))"
    unfolding move_subtree_def Let_def drop_subtree_def using assms by (intro land_in_order) (simp add: in_order_filter)
qed

section \<open>The entries of a directory\<close>

definition sibling_of :: "vpath \<Rightarrow> vpath \<Rightarrow> bool" where
  "sibling_of dir p \<longleftrightarrow> scheme p = scheme dir \<and> authority p = authority dir \<and> segments p \<noteq> [] \<and>
     butlast (segments p) = segments dir"

definition mem_entry :: "vpath \<Rightarrow> mem_world \<Rightarrow> vpath \<Rightarrow> nat option" where
  "mem_entry dir w p = (if sibling_of dir p then map_option node_id (map_of (nodes (tree w)) (segments p)) else None)"

definition fold_key :: "bool \<Rightarrow> seg_path \<Rightarrow> seg_path" where
  "fold_key cs k = (if cs then k else map (map to_ascii_lowercase) k)"

definition mem_key :: "bool \<Rightarrow> vpath \<Rightarrow> seg_path" where
  "mem_key cs p = fold_key cs (segments p)"

text \<open>A volume of the test kit: \<^verbatim>\<open>MemProvider::with_flags(..).with_folding_noreplace()\<close>.\<close>

definition volume :: "capabilities \<Rightarrow> (seg_path \<times> capabilities) list \<Rightarrow> mem_config" where
  "volume k ca = \<lparr>caps = k, norm = ByteExact, noreplace_sees_fold = True, caps_at = ca\<rparr>"

definition sensitive :: "capabilities \<Rightarrow> bool" where
  "sensitive k \<longleftrightarrow> CASE_SENSITIVE \<in> cap_flags k"

text \<open>No two paths of the directory are one for the volume, and none of another spelling of the directory.\<close>

definition spelt_once :: "bool \<Rightarrow> seg_path \<Rightarrow> seg_path list \<Rightarrow> bool" where
  "spelt_once cs D ks \<longleftrightarrow> list_all (\<lambda>k. length k = length D + 1 \<and> fold_key cs (butlast k) = fold_key cs D \<longrightarrow>
     butlast k = D \<and> list_all (\<lambda>k'. fold_key cs k' = fold_key cs k \<longrightarrow> k' = k) ks) ks"

definition mem_good :: "bool \<Rightarrow> vpath \<Rightarrow> mem_world \<Rightarrow> bool" where
  "mem_good cs dir w \<longleftrightarrow> in_order (nodes (tree w)) \<and>
     list_all (\<lambda>d. d \<noteq> [] \<longrightarrow> is_dir (map_of (nodes (tree w)) d)) (prefixes (segments dir)) \<and>
     \<not> rename_clobbers (faults w) \<and> spelt_once cs (segments dir) (map fst (nodes (tree w)))"

lemma fold_eq_path_iff: "fold_eq_path a b \<longleftrightarrow> fold_key False a = fold_key False b"
proof -
  have "length a = length b \<Longrightarrow> list_all (\<lambda>(x, y). eq_ignore_ascii_case x y) (zip a b) \<longleftrightarrow>
      map (map to_ascii_lowercase) a = map (map to_ascii_lowercase) b"
    by (induction a b rule: list_induct2) (auto simp: eq_ignore_ascii_case_def)
  then show ?thesis by (auto simp: fold_eq_path_def fold_key_def dest: map_eq_imp_length_eq)
qed

lemma fold_key_butlast: "fold_key cs (butlast k) = butlast (fold_key cs k)"
  by (simp add: fold_key_def map_butlast)

lemma fold_key_length: "length (fold_key cs k) = length k"
  by (simp add: fold_key_def)

lemma keys_map_of: "k \<in> set (map fst t) \<longleftrightarrow> map_of t k \<noteq> None"
  by (simp add: map_of_eq_None_iff image_iff)

lemma find_key: "find (\<lambda>k. fold_eq_path k key) (map fst t) = Some k \<Longrightarrow> map_of t k \<noteq> None \<and> fold_key False k = fold_key False key"
proof -
  assume "find (\<lambda>k. fold_eq_path k key) (map fst t) = Some k"
  then have "k \<in> set (map fst t)" "fold_eq_path k key" by (metis find_Some_iff nth_mem)+
  then show ?thesis unfolding keys_map_of fold_eq_path_iff by blast
qed

lemma find_key_None: "find (\<lambda>k. fold_eq_path k key) (map fst t) = None \<longleftrightarrow>
    (\<nexists>k. map_of t k \<noteq> None \<and> fold_key False k = fold_key False key)"
  unfolding find_None_iff fold_eq_path_iff keys_map_of by blast

text \<open>Looking up a path of the volume, exactly or by its fold.\<close>

lemma mem_resolve_exact: "map_of (nodes t) key \<noteq> None \<Longrightarrow> mem_resolve u t lk key = Some key"
  by (simp add: mem_resolve_def)

lemma mem_resolve_volume: "mem_resolve u t (lookup_of (volume k ca)) key =
    (if map_of (nodes t) key \<noteq> None then Some key
     else if sensitive k then None else find (\<lambda>k. fold_eq_path k key) (map fst (nodes t)))"
  by (simp add: mem_resolve_def lookup_of_def volume_def sensitive_def split: option.split)

lemma mem_resolve_Some:
  assumes "mem_resolve u t (lookup_of (volume k ca)) key = Some r"
  shows "map_of (nodes t) r \<noteq> None" "fold_key (sensitive k) r = fold_key (sensitive k) key"
  using assms find_key [of key "nodes t" r] unfolding mem_resolve_volume by (auto split: if_splits)

lemma mem_resolve_None: "mem_resolve u t (lookup_of (volume k ca)) key = None \<longleftrightarrow>
    (\<nexists>r. map_of (nodes t) r \<noteq> None \<and> fold_key (sensitive k) r = fold_key (sensitive k) key)"
proof (cases "sensitive k")
  case True
  then show ?thesis unfolding mem_resolve_volume by (simp add: fold_key_def)
next
  case False
  then show ?thesis
    using find_key_None [of key "nodes t"] unfolding mem_resolve_volume by (cases "map_of (nodes t) key") auto
qed

lemma sibling_ofE:
  assumes "sibling_of dir p"
  obtains n where "segments p = segments dir @ [n]" "p = VPath_join dir n"
proof -
  have "segments p = segments dir @ [last (segments p)]"
    using assms append_butlast_last_id [of "segments p"] by (auto simp: sibling_of_def)
  moreover from this have "p = VPath_join dir (last (segments p))"
    using assms by (cases p) (auto simp: VPath_join_def sibling_of_def)
  ultimately show thesis using that by blast
qed

lemma sibling_of_join [simp]: "sibling_of dir (VPath_join dir n)"
  by (simp add: sibling_of_def VPath_join_def)

lemma sibling_of_eq: "sibling_of dir p \<Longrightarrow> sibling_of dir q \<Longrightarrow> segments p = segments q \<longleftrightarrow> p = q"
  by (cases p; cases q) (auto simp: sibling_of_def)

lemma mem_goodD:
  assumes "mem_good cs dir w"
  shows "in_order (nodes (tree w))" "d \<noteq> [] \<Longrightarrow> prefix d (segments dir) \<Longrightarrow> is_dir (map_of (nodes (tree w)) d)"
    "\<not> rename_clobbers (faults w)"
    "map_of (nodes (tree w)) k \<noteq> None \<Longrightarrow> fold_key cs k = fold_key cs (segments dir @ [n]) \<Longrightarrow> butlast k = segments dir"
    "map_of (nodes (tree w)) k \<noteq> None \<Longrightarrow> fold_key cs k = fold_key cs (segments dir @ [n]) \<Longrightarrow>
      map_of (nodes (tree w)) k' \<noteq> None \<Longrightarrow> fold_key cs k' = fold_key cs k \<Longrightarrow> k' = k"
proof -
  show "in_order (nodes (tree w))" "\<not> rename_clobbers (faults w)" using assms by (simp_all add: mem_good_def)
  show "is_dir (map_of (nodes (tree w)) d)" if "d \<noteq> []" "prefix d (segments dir)"
    using assms that by (simp add: mem_good_def list_all_iff)
  have once: "spelt_once cs (segments dir) (map fst (nodes (tree w)))" using assms by (simp add: mem_good_def)
  have len: "length k = length (segments dir) + 1" "fold_key cs (butlast k) = fold_key cs (segments dir)"
    if "fold_key cs k = fold_key cs (segments dir @ [n])" for k n
    using arg_cong [OF that, of length] arg_cong [OF that, of butlast]
    by (simp_all add: fold_key_length flip: fold_key_butlast)
  have both: "butlast k = segments dir \<and> (\<forall>k' \<in> set (map fst (nodes (tree w))). fold_key cs k' = fold_key cs k \<longrightarrow> k' = k)"
    if "map_of (nodes (tree w)) k \<noteq> None" "fold_key cs k = fold_key cs (segments dir @ [n])" for k n
  proof -
    have "k \<in> set (map fst (nodes (tree w)))" unfolding keys_map_of by (rule that(1))
    from once [unfolded spelt_once_def list_all_iff, rule_format, OF this conjI [OF len [OF that(2)]]]
    show ?thesis by blast
  qed
  show "butlast k = segments dir"
    if "map_of (nodes (tree w)) k \<noteq> None" "fold_key cs k = fold_key cs (segments dir @ [n])" for k n
    using both [OF that] by (rule conjunct1)
  show "k' = k" if "map_of (nodes (tree w)) k \<noteq> None" "fold_key cs k = fold_key cs (segments dir @ [n])"
      "map_of (nodes (tree w)) k' \<noteq> None" "fold_key cs k' = fold_key cs k" for k n k'
    using both [OF that(1,2), THEN conjunct2, rule_format, unfolded keys_map_of, OF that(3,4)] .
qed

lemma mem_good_faults: "mem_good cs dir w \<Longrightarrow> rename_clobbers st = rename_clobbers (faults w) \<Longrightarrow> mem_good cs dir (w\<lparr>faults := st\<rparr>)"
  by (simp add: mem_good_def)

lemma mem_entry_faults [simp]: "mem_entry dir (w\<lparr>faults := st\<rparr>) = mem_entry dir w"
  by (simp add: mem_entry_def fun_eq_iff)

lemma traverse_dir:
  assumes "\<forall>d. d \<noteq> [] \<and> prefix d (pre @ xs) \<longrightarrow> is_dir (map_of (nodes t) d)"
  shows "traverse u t lk pre (xs @ [n]) = mem_resolve u t lk (pre @ xs @ [n]) \<and>
    canonical_loop u t lk pre (xs @ [n]) = Some (pre @ xs @ [n])"
  using assms
proof (induction xs arbitrary: pre)
  case Nil
  show ?case by (cases "mem_resolve u t lk (pre @ [n])") simp_all
next
  case (Cons x xs)
  have d: "is_dir (map_of (nodes t) (pre @ [x]))" using Cons.prems by (auto simp: prefix_def)
  then obtain m i where "map_of (nodes t) (pre @ [x]) = Some (Mem_Dir m i)" by (auto elim: is_dir.elims)
  moreover from this have "mem_resolve u t lk (pre @ [x]) = Some (pre @ [x])" by (intro mem_resolve_exact) simp
  ultimately show ?case using Cons.IH [of "pre @ [x]"] Cons.prems by simp
qed

lemma lookup_sibling:
  assumes "mem_good (sensitive k) dir w" "sibling_of dir p"
  shows "resolve_traversing u (tree w) (lookup_of (volume k ca)) (segments p) =
      mem_resolve u (tree w) (lookup_of (volume k ca)) (segments p)"
    "canonical_key u (tree w) (lookup_of (volume k ca)) (segments p) = Some (segments p)"
proof -
  obtain n where n: "segments p = segments dir @ [n]" using assms(2) by (rule sibling_ofE)
  have "\<forall>d. d \<noteq> [] \<and> prefix d ([] @ segments dir) \<longrightarrow> is_dir (map_of (nodes (tree w)) d)"
    using mem_goodD(2) [OF assms(1)] by simp
  from traverse_dir [OF this, of u "lookup_of (volume k ca)" n]
  show "canonical_key u (tree w) (lookup_of (volume k ca)) (segments p) = Some (segments p)"
    "resolve_traversing u (tree w) (lookup_of (volume k ca)) (segments p) =
      mem_resolve u (tree w) (lookup_of (volume k ca)) (segments p)"
    by (simp_all add: canonical_key_def resolve_traversing_def n mem_resolve_exact)
qed

lemma entry_Some: "sibling_of dir p \<Longrightarrow> mem_entry dir w p \<noteq> None \<longleftrightarrow> map_of (nodes (tree w)) (segments p) \<noteq> None"
  by (simp add: mem_entry_def)

text \<open>What the volume finds at a path of the directory is an entry of the directory.\<close>

lemma found_sibling:
  assumes "mem_good (sensitive k) dir w" "sibling_of dir p"
    and "map_of (nodes (tree w)) r \<noteq> None" "fold_key (sensitive k) r = fold_key (sensitive k) (segments p)"
  obtains e where "sibling_of dir e" "segments e = r" "mem_entry dir w e \<noteq> None" "mem_key (sensitive k) e = mem_key (sensitive k) p"
proof -
  obtain n where n: "segments p = segments dir @ [n]" using assms(2) by (rule sibling_ofE)
  have b: "butlast r = segments dir" by (rule mem_goodD(4) [OF assms(1,3)]) (simp add: assms(4) n)
  have ne: "r \<noteq> []" using arg_cong [OF assms(4), of length] n by (auto simp: fold_key_length)
  let ?e = "dir\<lparr>segments := r\<rparr>"
  have e: "sibling_of dir ?e" "segments ?e = r" using b ne by (simp_all add: sibling_of_def)
  with assms(3,4) that [of ?e] show thesis by (simp add: mem_entry_def mem_key_def)
qed

lemma occupied_iff:
  assumes "mem_good (sensitive k) dir w" "sibling_of dir p"
  shows "occupied (mem_key (sensitive k)) (mem_entry dir w) p \<longleftrightarrow>
    (\<exists>r. map_of (nodes (tree w)) r \<noteq> None \<and> fold_key (sensitive k) r = fold_key (sensitive k) (segments p))"
proof
  assume "occupied (mem_key (sensitive k)) (mem_entry dir w) p"
  then obtain e where "mem_entry dir w e \<noteq> None" "mem_key (sensitive k) e = mem_key (sensitive k) p"
    by (auto simp: occupied_def)
  then show "\<exists>r. map_of (nodes (tree w)) r \<noteq> None \<and> fold_key (sensitive k) r = fold_key (sensitive k) (segments p)"
    by (intro exI [of _ "segments e"]) (auto simp: mem_entry_def mem_key_def split: if_splits)
next
  assume "\<exists>r. map_of (nodes (tree w)) r \<noteq> None \<and> fold_key (sensitive k) r = fold_key (sensitive k) (segments p)"
  then obtain r where "map_of (nodes (tree w)) r \<noteq> None" "fold_key (sensitive k) r = fold_key (sensitive k) (segments p)"
    by blast
  from found_sibling [OF assms this] show "occupied (mem_key (sensitive k)) (mem_entry dir w) p"
    unfolding occupied_def by (metis domIff)
qed

lemma entry_inj:
  assumes "mem_good (sensitive k) dir w"
  shows "inj_on (mem_key (sensitive k)) (dom (mem_entry dir w))"
proof (rule inj_onI)
  fix p q
  assume pq: "p \<in> dom (mem_entry dir w)" "q \<in> dom (mem_entry dir w)" "mem_key (sensitive k) p = mem_key (sensitive k) q"
  then have s: "sibling_of dir p" "sibling_of dir q" "map_of (nodes (tree w)) (segments p) \<noteq> None"
      "map_of (nodes (tree w)) (segments q) \<noteq> None"
    by (auto simp: mem_entry_def split: if_splits)
  obtain n where n: "segments q = segments dir @ [n]" using s(2) by (rule sibling_ofE)
  have "segments p = segments q"
    by (rule mem_goodD(5) [OF assms s(4) _ s(3)]) (use pq(3) n in \<open>simp_all add: mem_key_def\<close>)
  with sibling_of_eq [OF s(1,2)] show "p = q" by blast
qed

lemma tree_rename_sibling:
  assumes w: "mem_good (sensitive k) dir w" and ab: "sibling_of dir a" "sibling_of dir b" "a \<noteq> b"
    and src: "mem_entry dir w a \<noteq> None"
  shows "\<exists>kind. tree_rename u (volume k ca) (rename_clobbers (faults w)) (tree w) (segments a) (segments b) =
    (if occupied (mem_key (sensitive k)) (mem_entry dir w) b then Inl (E_Conflict kind)
     else Inr (move_subtree (segments a) (segments b) (tree w)))"
proof -
  have len: "segments a \<noteq> []" "segments b \<noteq> []" "length (segments a) = length (segments b)" "segments a \<noteq> segments b"
    using ab sibling_of_eq [OF ab(1,2)] by (auto elim!: sibling_ofE)
  have a: "mem_resolve u (tree w) (lookup_of (volume k ca)) (segments a) = Some (segments a)"
    using src entry_Some [OF ab(1)] by (intro mem_resolve_exact) simp
  note b = lookup_sibling(2) [OF w ab(2)]
  have "\<not> rename_clobbers (faults w)" by (rule mem_goodD(3) [OF w])
  moreover have "occupied (mem_key (sensitive k)) (mem_entry dir w) b \<longleftrightarrow>
      mem_resolve u (tree w) (lookup_of (volume k ca)) (segments b) \<noteq> None"
    unfolding occupied_iff [OF w ab(2)] mem_resolve_None by simp
  moreover have "noreplace_sees_fold (volume k ca)" by (simp add: volume_def)
  ultimately show ?thesis
    using len a b by (cases "mem_resolve u (tree w) (lookup_of (volume k ca)) (segments b)") (auto simp: tree_rename_def)
qed

lemma move_level:
  assumes "in_order (nodes t)" "length A = length B" "A \<noteq> B" "map_of (nodes t) A = Some n" "length k \<le> length A"
  shows "map_of (nodes (move_subtree A B t)) k =
    (if k = B then Some (touch (clock t + 1) n) else if k = A then None else map_of (nodes t) k)"
proof -
  have "prefix B k \<longleftrightarrow> k = B" "prefix A k \<longleftrightarrow> k = A"
    using assms(2,5) by (auto simp: prefix_def)
  with assms(2-4) show ?thesis unfolding move_subtree_nodes(1) [OF assms(1)] by auto
qed

lemma touch_id [simp]: "node_id (touch m n) = node_id n"
  by (cases n) simp_all

lemma spelt_once_moved:
  assumes once: "spelt_once cs D ks" and ks': "\<And>k. length k = length D + 1 \<Longrightarrow> k \<in> set ks' \<Longrightarrow> k = B \<or> k \<in> set ks"
    and B: "butlast B = D" "length B = length D + 1" "\<And>k. k \<in> set ks \<Longrightarrow> fold_key cs k \<noteq> fold_key cs B"
  shows "spelt_once cs D ks'"
  unfolding spelt_once_def list_all_iff
proof (intro ballI impI conjI)
  fix k
  assume k: "k \<in> set ks'" and f: "length k = length D + 1 \<and> fold_key cs (butlast k) = fold_key cs D"
  have old: "butlast k = D \<and> (\<forall>k' \<in> set ks. fold_key cs k' = fold_key cs k \<longrightarrow> k' = k)" if "k \<in> set ks"
    using once that f unfolding spelt_once_def list_all_iff by blast
  have kB: "k = B \<or> k \<in> set ks" using ks' f k by blast
  then show "butlast k = D" using old B(1) by blast
  fix k'
  assume k': "k' \<in> set ks'" "fold_key cs k' = fold_key cs k"
  have "length k' = length D + 1" using arg_cong [OF k'(2), of length] f by (simp add: fold_key_length)
  then have k'B: "k' = B \<or> k' \<in> set ks" using ks' k'(1) by blast
  show "k' = k" using kB
  proof
    assume "k = B"
    then show ?thesis using k'B k'(2) B(3) [of k'] by blast
  next
    assume "k \<in> set ks"
    then show ?thesis using k'B k'(2) B(3) [of k] old by metis
  qed
qed

lemma move_sibling:
  assumes w: "mem_good (sensitive k) dir w" and ab: "sibling_of dir a" "sibling_of dir b" "a \<noteq> b"
    and src: "mem_entry dir w a \<noteq> None" and free: "\<not> occupied (mem_key (sensitive k)) (mem_entry dir w) b"
    and st: "rename_clobbers st = rename_clobbers (faults w)"
    and w': "w' = w\<lparr>tree := move_subtree (segments a) (segments b) (tree w), faults := st\<rparr>"
  shows "moved (mem_key (sensitive k)) (mem_entry dir w) a b = Some (mem_entry dir w')" "mem_good (sensitive k) dir w'"
proof -
  let ?D = "segments dir" and ?A = "segments a" and ?B = "segments b"
  obtain x where x: "?A = ?D @ [x]" using ab(1) by (rule sibling_ofE)
  obtain y where y: "?B = ?D @ [y]" using ab(2) by (rule sibling_ofE)
  have ne: "?A \<noteq> ?B" using ab(3) sibling_of_eq [OF ab(1,2)] by blast
  obtain n where n: "map_of (nodes (tree w)) ?A = Some n" using src entry_Some [OF ab(1)] by auto
  note ord = mem_goodD(1) [OF w]
  have level: "map_of (nodes (tree w')) K =
      (if K = ?B then Some (touch (clock (tree w) + 1) n) else if K = ?A then None else map_of (nodes (tree w)) K)"
    if "length K \<le> length ?D + 1" for K
    using move_level [OF ord _ ne n, of K] that by (simp add: w' x y)
  have "mem_entry dir w' p = (if p = b then Some (node_id n) else if p = a then None else mem_entry dir w p)" for p
  proof (cases "sibling_of dir p")
    case True
    then have "length (segments p) \<le> length ?D + 1" by (auto elim!: sibling_ofE)
    from level [OF this] True sibling_of_eq [OF True ab(1)] sibling_of_eq [OF True ab(2)]
    show ?thesis by (simp add: mem_entry_def)
  next
    case False
    then show ?thesis using ab by (auto simp: mem_entry_def)
  qed
  then have "mem_entry dir w' = (mem_entry dir w)(a := None, b := Some (node_id n))" using ab(3) by auto
  moreover have "mem_entry dir w a = Some (node_id n)" using n ab(1) by (simp add: mem_entry_def)
  ultimately show "moved (mem_key (sensitive k)) (mem_entry dir w) a b = Some (mem_entry dir w')"
    using free by (simp add: moved_def)
  have "spelt_once (sensitive k) ?D (map fst (nodes (tree w')))"
  proof (rule spelt_once_moved)
    show "spelt_once (sensitive k) ?D (map fst (nodes (tree w)))" using w by (simp add: mem_good_def)
    show "butlast ?B = ?D" "length ?B = length ?D + 1" by (simp_all add: y)
    show "K = ?B \<or> K \<in> set (map fst (nodes (tree w)))"
      if "length K = length ?D + 1" "K \<in> set (map fst (nodes (tree w')))" for K
      using that(2) level [of K] that(1) unfolding keys_map_of by (auto split: if_splits)
    show "fold_key (sensitive k) K \<noteq> fold_key (sensitive k) ?B" if "K \<in> set (map fst (nodes (tree w)))" for K
      using free that unfolding occupied_iff [OF w ab(2)] keys_map_of by blast
  qed
  moreover have "is_dir (map_of (nodes (tree w')) d)" if "d \<noteq> []" "prefix d ?D" for d
  proof -
    have "length d \<le> length ?D" using that(2) by (rule prefix_length_le)
    then have "map_of (nodes (tree w')) d = map_of (nodes (tree w)) d" using level [of d] by (auto simp: x y)
    with mem_goodD(2) [OF w that] show ?thesis by simp
  qed
  moreover have "in_order (nodes (tree w'))" using move_subtree_nodes(2) [OF ord] by (simp add: w')
  ultimately show "mem_good (sensitive k) dir w'"
    using mem_goodD(3) [OF w] st by (simp add: mem_good_def w' list_all_iff)
qed

section \<open>The contract\<close>

definition mem_services :: "unicode \<Rightarrow> mem_config \<Rightarrow> ('j \<Rightarrow> vpath \<Rightarrow> vpath \<Rightarrow> int option \<Rightarrow> 'j \<times> (proto_error + int option)) \<Rightarrow>
    bool \<Rightarrow> (mem_world, 'j) services" where
  "mem_services u c renamed recs =
     \<lparr>sv_rename = mem_rename u c, sv_stat = (\<lambda>w p. map_prod id (map_sum id (\<lambda>_. ())) (mem_stat u c w p)),
      sv_renamed = renamed, sv_records = recs\<rparr>"

lemma faults_keep [simp]:
  "rename_clobbers (fst (op_gate st)) = rename_clobbers st" "rename_clobbers (tick_rename st) = rename_clobbers st"
  "rename_clobbers (fst (ambiguous_gate st)) = rename_clobbers st"
  by (auto simp: op_gate_def tick_rename_def fire_def ambiguous_gate_def take_ambiguous_def split: option.splits nat.splits)

lemma gate_errors:
  "snd (op_gate st) = Inl e \<Longrightarrow> e = E_ProviderUnavailable True"
  "snd (ambiguous_gate st) = Inl e \<Longrightarrow> e = E_ProviderUnavailable True"
  by (auto simp: op_gate_def ambiguous_gate_def take_ambiguous_def split: option.splits nat.splits if_splits)

text \<open>A rename of an entry of the directory: refused or failed with nothing changed, or applied, with an error
  that leaves it open at most.\<close>

lemma mem_rename_sibling:
  assumes w: "mem_good (sensitive k) dir w" and ab: "sibling_of dir a" "sibling_of dir b" "a \<noteq> b"
    and src: "mem_entry dir w a \<noteq> None" and ren: "mem_rename u (volume k ca) w a b = (w', r)"
  shows "mem_good (sensitive k) dir w' \<and>
    (moved (mem_key (sensitive k)) (mem_entry dir w) a b = Some (mem_entry dir w') \<and>
       (\<forall>e. r = Inl e \<longrightarrow> e = E_ProviderUnavailable True) \<or>
     mem_entry dir w' = mem_entry dir w \<and> (\<exists>e. r = Inl e))"
proof -
  obtain st g where g: "op_gate (faults w) = (st, g)" by fastforce
  let ?w = "w\<lparr>faults := st\<rparr>"
  have st: "rename_clobbers st = rename_clobbers (faults w)" using faults_keep(1) [of "faults w"] g by simp
  have w1: "mem_good (sensitive k) dir ?w" by (rule mem_good_faults [OF w st])
  show ?thesis
  proof (cases "(\<exists>e. g = Inl e) \<or> fail_rename_at st = Some (segments a)")
    case True
    then have "w' = ?w \<and> (\<exists>e. r = Inl e)"
      using ren g by (auto simp: mem_rename_def gated_def seg_path_of_def split: sum.splits)
    with w1 show ?thesis by auto
  next
    case False
    let ?t = "tree_rename u (volume k ca) (rename_clobbers (faults ?w)) (tree ?w) (segments a) (segments b)"
    have eq: "(w', r) = (case ?t of Inl e \<Rightarrow> (?w, Inl e)
        | Inr t \<Rightarrow> (let (st', r) = ambiguous_gate (tick_rename st) in (w\<lparr>tree := t, faults := st'\<rparr>, r)))"
      using ren g False by (cases g) (auto simp: mem_rename_def gated_def seg_path_of_def split: sum.splits)
    have src1: "mem_entry dir ?w a \<noteq> None" using src by simp
    have same: "tree ?w = tree w" "mem_entry dir ?w = mem_entry dir w" by simp_all
    obtain c where t: "?t = (if occupied (mem_key (sensitive k)) (mem_entry dir w) b then Inl (E_Conflict c)
        else Inr (move_subtree (segments a) (segments b) (tree w)))"
      using tree_rename_sibling [OF w1 ab src1, of u ca, unfolded same(2)] unfolding same(1) by blast
    show ?thesis
    proof (cases "occupied (mem_key (sensitive k)) (mem_entry dir w) b")
      case True
      with eq t w1 show ?thesis by simp
    next
      case free: False
      obtain st' r' where st': "ambiguous_gate (tick_rename st) = (st', r')" by fastforce
      have w': "w' = w\<lparr>tree := move_subtree (segments a) (segments b) (tree w), faults := st'\<rparr>" "r = r'"
        using eq t free st' by simp_all
      have "rename_clobbers st' = rename_clobbers (faults w)" using faults_keep(3) [of "tick_rename st"] st st' by simp
      note moved = move_sibling [OF w ab src free this w'(1)]
      have "e = E_ProviderUnavailable True" if "r = Inl e" for e
        using gate_errors(2) [of "tick_rename st" e] st' w'(2) that by simp
      with moved show ?thesis by blast
    qed
  qed
qed

lemma mem_stat_sibling:
  assumes w: "mem_good (sensitive k) dir w" and p: "sibling_of dir p" and st: "mem_stat u (volume k ca) w p = (w', r)"
  shows "mem_good (sensitive k) dir w'" "mem_entry dir w' = mem_entry dir w"
    "r = Inr q \<Longrightarrow> occupied (mem_key (sensitive k)) (mem_entry dir w) p"
    "r = Inl E_NotFound \<Longrightarrow> \<not> occupied (mem_key (sensitive k)) (mem_entry dir w) p"
proof -
  obtain fs g where g: "op_gate (faults w) = (fs, g)" by fastforce
  have fs: "rename_clobbers fs = rename_clobbers (faults w)" using faults_keep(1) [of "faults w"] g by simp
  have w': "w' = w\<lparr>faults := fs\<rparr>" using st g by (auto simp: mem_stat_def gated_def split: sum.splits)
  show "mem_good (sensitive k) dir w'" "mem_entry dir w' = mem_entry dir w"
    unfolding w' using mem_good_faults [OF w fs] by simp_all
  have ne: "segments p \<noteq> []" using p by (simp add: sibling_of_def)
  let ?r = "mem_resolve u (tree w) (lookup_of (volume k ca)) (segments p)"
  have occ: "occupied (mem_key (sensitive k)) (mem_entry dir w) p \<longleftrightarrow> ?r \<noteq> None"
    unfolding occupied_iff [OF w p] mem_resolve_None by simp
  have r: "r = (case g of Inl e \<Rightarrow> Inl e | Inr _ \<Rightarrow> (case ?r of None \<Rightarrow> Inl E_NotFound
      | Some real \<Rightarrow> Inr (fold (\<lambda>seg q. VPath_join q seg) real (VPath_root (scheme p) (authority p)))))"
    using st g ne lookup_sibling(1) [OF w p, of u ca] mem_resolve_Some(1) [of u "tree w" k ca "segments p"]
    by (auto simp: mem_stat_def gated_def seg_path_of_def split: sum.splits option.splits)
  show "r = Inr q \<Longrightarrow> occupied (mem_key (sensitive k)) (mem_entry dir w) p"
    using r occ by (auto split: sum.splits option.splits)
  show "r = Inl E_NotFound \<Longrightarrow> \<not> occupied (mem_key (sensitive k)) (mem_entry dir w) p"
    using r occ gate_errors(1) [of "faults w"] g by (auto split: sum.splits option.splits)
qed

interpretation mem: rename_provider "mem_services u (volume k ca) renamed recs" "mem_good (sensitive k) dir" "sibling_of dir"
  "mem_entry dir" "mem_key (sensitive k)"
proof unfold_locales
  fix w a b w' r
  assume h: "mem_good (sensitive k) dir w" "sibling_of dir a" "sibling_of dir b" "a \<noteq> b" "mem_entry dir w a \<noteq> None"
  {
    assume "sv_rename (mem_services u (volume k ca) renamed recs) w a b = (w', r)"
    then show "mem_good (sensitive k) dir w'" using mem_rename_sibling [OF h] by (simp add: mem_services_def)
  next
    fix u'
    assume "sv_rename (mem_services u (volume k ca) renamed recs) w a b = (w', Inr u')"
    then show "moved (mem_key (sensitive k)) (mem_entry dir w) a b = Some (mem_entry dir w')"
      using mem_rename_sibling [OF h, of u ca w' "Inr u'"] by (simp add: mem_services_def)
  next
    fix e
    assume "sv_rename (mem_services u (volume k ca) renamed recs) w a b = (w', Inl e)"
    then show "mem_entry dir w' = mem_entry dir w \<or>
        may_have_applied e \<and> moved (mem_key (sensitive k)) (mem_entry dir w) a b = Some (mem_entry dir w')"
      using mem_rename_sibling [OF h, of u ca w' "Inl e"] by (auto simp: mem_services_def)
  }
next
  fix w p w' r
  assume h: "mem_good (sensitive k) dir w" "sibling_of dir p"
  obtain q where q: "mem_stat u (volume k ca) w p = q" by blast
  {
    assume "sv_stat (mem_services u (volume k ca) renamed recs) w p = (w', r)"
    then show "mem_good (sensitive k) dir w' \<and> mem_entry dir w' = mem_entry dir w"
      using mem_stat_sibling(1,2) [OF h, of u ca] q by (cases q) (simp add: mem_services_def)
  next
    fix u'
    assume "sv_stat (mem_services u (volume k ca) renamed recs) w p = (w', Inr u')"
    then show "occupied (mem_key (sensitive k)) (mem_entry dir w) p"
      using mem_stat_sibling(3) [OF h, of u ca] q by (cases q; cases "snd q") (auto simp: mem_services_def)
  next
    assume "sv_stat (mem_services u (volume k ca) renamed recs) w p = (w', Inl E_NotFound)"
    then show "\<not> occupied (mem_key (sensitive k)) (mem_entry dir w) p"
      using mem_stat_sibling(4) [OF h, of u ca] q by (cases q; cases "snd q") (auto simp: mem_services_def)
  }
next
  fix w
  assume "mem_good (sensitive k) dir w"
  then show "inj_on (mem_key (sensitive k)) (dom (mem_entry dir w))" by (rule entry_inj)
qed

section \<open>An instance\<close>

text \<open>A folder with the files \<^verbatim>\<open>a\<close> and \<^verbatim>\<open>b\<close>, on a volume where the rename of \<^verbatim>\<open>b\<close> fails.\<close>

definition photos :: vpath where
  "photos = \<lparr>scheme = ''mem'', authority = None, segments = [''p'']\<rparr>"

definition photo :: "bytes \<Rightarrow> vpath" where
  "photo n = VPath_join photos n"

definition photo_tree :: mem_tree where
  "photo_tree = \<lparr>nodes = [([''p''], Mem_Dir 1 1), ([''p'', ''a''], Mem_File ''x'' 2 2), ([''p'', ''b''], Mem_File ''y'' 3 3)],
     modes = [], clock = 3\<rparr>"

definition photo_step :: "bytes \<Rightarrow> bytes \<Rightarrow> nat \<Rightarrow> planned_step" where
  "photo_step m n i = \<lparr>ps_from = photo m, ps_to = photo n, ps_pair = i, ps_undoes = None\<rparr>"

definition photo_world :: "fault_state \<Rightarrow> mem_world" where
  "photo_world fs = \<lparr>tree = photo_tree, faults = fs\<rparr>"

definition silent :: "unit \<Rightarrow> vpath \<Rightarrow> vpath \<Rightarrow> int option \<Rightarrow> unit \<times> (proto_error + int option)" where
  "silent j a b q = (j, Inr None)"

definition started :: "'w \<Rightarrow> 'j \<Rightarrow> ('w, 'j) exec_state" where
  "started w j = \<lparr>world = w, recorder = j, report = report_default,
     progress = \<lparr>entries_total = None, entries_done = 0, current = None\<rparr>\<rparr>"

definition photo_volume :: "(mem_world, unit) services" where
  "photo_volume = mem_services ascii_tables (volume (caps mem_new) []) silent True"

definition photo_steps :: "planned_step list" where
  "photo_steps = [photo_step ''a'' ''c'' 0, photo_step ''b'' ''e'' 1]"

definition b_fails :: fault_state where
  "b_fails = no_faults\<lparr>fail_rename_at := Some [''p'', ''b'']\<rparr>"

lemma photo_volume_contract:
  "rename_provider photo_volume (mem_good True photos) (sibling_of photos) (mem_entry photos) (mem_key True)"
proof -
  have "sensitive (caps mem_new)" by (simp add: sensitive_def mem_new_def)
  then show ?thesis using mem.rename_provider_axioms [of ascii_tables "caps mem_new" "[]" silent True photos]
    by (simp add: photo_volume_def)
qed

lemma photo_paths [simp]: "sibling_of photos (photo n)" "photo m = photo n \<longleftrightarrow> m = n"
  "segments (photo n) = [''p'', n]"
  by (simp_all add: photo_def VPath_join_def photos_def sibling_of_def)

lemma photo_entries:
  "mem_entry photos (photo_world fs) = [photo ''a'' \<mapsto> 2, photo ''b'' \<mapsto> 3]"
proof
  fix p
  show "mem_entry photos (photo_world fs) p = [photo ''a'' \<mapsto> 2, photo ''b'' \<mapsto> 3] p"
  proof (cases "sibling_of photos p")
    case True
    then obtain n where "p = photo n" by (rule sibling_ofE) (simp add: photo_def)
    then show ?thesis by (simp add: mem_entry_def photo_world_def photo_tree_def)
  next
    case False
    then have "p \<noteq> photo n" for n by auto
    with False show ?thesis by (simp add: mem_entry_def)
  qed
qed

lemma photo_moves:
  "run_moves (mem_key True) (map step_move photo_steps) (mem_entry photos (photo_world fs)) =
     Some [photo ''c'' \<mapsto> 2, photo ''e'' \<mapsto> 3]"
  by (auto simp: photo_steps_def photo_step_def step_move_def photo_entries moved_def occupied_def mem_key_def fold_key_def
      fun_eq_iff split: if_splits)

section \<open>Properties\<close>

text \<open>C2: a batch rename is a transaction. Let the provider keep its contract: a rename that succeeds moves one
  file to a free name, one that fails changed nothing unless its error leaves that open, and a lookup that answers
  answers truly. If the steps are feasible one after the other, then a batch that returns success has applied all of
  them, and one that returns an error (of a rename, of the journal, or a cancellation) either left every file
  where it was, or its report says where it stopped: the first steps, as many as it counts, are still applied; or it
  names the step of which it could not find out whether it took effect.\<close>

theorem batch_transaction:
  assumes "rename_provider sv good sibling entry key" "good (world x)" "siblings sibling (map step_move ss)"
    and "report x = report_default" "run_moves key (map step_move ss) (entry (world x)) = Some d"
    and "exec_run sv cancel ss x = (x', r)"
  shows "case r of
      Inr _ \<Rightarrow> entry (world x') = d \<and> br_applied (report x') = length ss
    | Inl _ \<Rightarrow> rolled_or_stuck key (map step_move ss) (entry (world x)) (report x') (entry (world x'))"
  using rename_provider.exec_run_entry [OF assms] by (auto split: sum.splits)

theorem batch_transaction_witness:
  "let (x', r) = exec_run photo_volume (\<lambda>_. False) photo_steps (started (photo_world b_fails) ())
   in r = Inl (E_Io False) \<and> rolled_back (report x') = 1 \<and>
      mem_entry photos (world x') = [photo ''a'' \<mapsto> 2, photo ''b'' \<mapsto> 3]"
proof -
  let ?run = "exec_run photo_volume (\<lambda>_. False) photo_steps (started (photo_world b_fails) ())"
  have r: "snd ?run = Inl (E_Io False) \<and> rolled_back (report (fst ?run)) = 1 \<and> stuck (report (fst ?run)) = None \<and>
      uncertain (report (fst ?run)) = None"
    by code_simp
  obtain x' r where run: "?run = (x', r)" by fastforce
  have w: "mem_good True photos (world (started (photo_world b_fails) ()))" by code_simp
  have s: "siblings (sibling_of photos) (map step_move photo_steps)" by code_simp
  have e: "report (started (photo_world b_fails) ()) = report_default" by (simp add: started_def)
  have m: "run_moves (mem_key True) (map step_move photo_steps) (mem_entry photos (world (started (photo_world b_fails) ()))) =
      Some [photo ''c'' \<mapsto> 2, photo ''e'' \<mapsto> 3]"
    using photo_moves by (simp add: started_def)
  from batch_transaction [OF photo_volume_contract w s e m run] r run
  show ?thesis by (simp add: rolled_or_stuck_def started_def photo_entries)
qed

end
