(* ===== verification/Rename_Link.thy ===== *)
theory Rename_Link
  imports Mem_Directory
begin

text \<open>
  From the plan to the execution. The steps of a plan never rename a name to itself, and resolved to absolute
  paths they are moves of the provider's directory; so a batch that runs a plan to its end does to the
  provider's directory what \<open>Rename_Order\<close> says the plan does to a directory of names.
\<close>

section \<open>Steps that move\<close>

definition proper :: "rename_step \<Rightarrow> bool" where
  "proper s \<longleftrightarrow> step_from s \<noteq> step_to s"

lemma run_from_proper:
  assumes "\<forall>w \<in> set ws. w_from w \<noteq> w_to w" "list_all proper ss" "length ds = length ws"
  shows "list_all proper (fst (run_from ws waiter cur (ss, ds))) \<and> length (snd (run_from ws waiter cur (ss, ds))) = length ws"
  using assms
proof (induction ws waiter cur "(ss, ds)" arbitrary: ss ds rule: run_from.induct)
  case (2 ws waiter c ss ds)
  show ?case
  proof (cases "c < length ds \<and> \<not> ds ! c")
    case True
    have "proper (move_step (ws ! c))" using True "2.prems" by (simp add: proper_def move_step_def)
    with "2.hyps" [OF True] "2.prems" True show ?thesis by simp
  qed (use "2.prems" in auto)
qed simp

lemma run_chain_proper:
  assumes "\<forall>w \<in> set ws. w_from w \<noteq> w_to w" "list_all proper (fst acc)" "length (snd acc) = length ws"
  shows "list_all proper (fst (fold (run_chain ws waiter) ibs acc)) \<and> length (snd (fold (run_chain ws waiter) ibs acc)) = length ws"
  using assms(2,3)
proof (induction ibs arbitrary: acc)
  case (Cons ib ibs)
  have "list_all proper (fst (run_chain ws waiter ib acc)) \<and> length (snd (run_chain ws waiter ib acc)) = length ws"
    using run_from_proper [OF assms(1), of "fst acc" "snd acc"] Cons.prems by (auto simp: run_chain_def split: prod.splits)
  with Cons.IH show ?case by simp
qed simp

lemma temp_next_fresh: "temp_next key tag n taken = Some (temp, n', taken') \<Longrightarrow> key temp \<notin> taken \<and> taken' = insert (key temp) taken"
proof (induction key tag n taken rule: temp_next.induct)
  case (1 key tag n taken)
  then show ?case by (subst (asm) temp_next.simps) (auto simp: Let_def split: if_splits)
qed

lemma run_cycles_proper:
  assumes "\<forall>w \<in> set ws. w_from w \<noteq> w_to w \<and> key (w_from w) \<in> taken \<and> key (w_to w) \<in> taken"
    and "\<forall>i \<in> set is. i < length ws" "list_all proper ss" "length ds = length ws"
    and "run_cycles key tag ws waiter is n taken (ss, ds) = Some ss'"
  shows "list_all proper ss'"
  using assms
proof (induction key tag ws waiter "is" n taken "(ss, ds)" arbitrary: ss ds rule: run_cycles.induct)
  case (2 key tag ws waiter i "is" n taken ss ds)
  show ?case
  proof (cases "ds ! i")
    case True
    with 2 show ?thesis by simp
  next
    case False
    then obtain temp n' taken' where t: "temp_next key tag n taken = Some (temp, n', taken')"
      using "2.prems"(5) by (auto split: option.splits)
    obtain ss1 ds1 where r: "run_from ws waiter (waiter ! i) (ss @ [park_step (ws ! i) temp], ds[i := True]) = (ss1, ds1)"
      by fastforce
    have w: "ws ! i \<in> set ws" using "2.prems"(2) by simp
    have steps: "proper (park_step (ws ! i) temp)" "proper (land_step (ws ! i) temp)"
      using temp_next_fresh [OF t] "2.prems"(1) w by (auto simp: proper_def park_step_def land_step_def)
    then have "list_all proper ss1 \<and> length ds1 = length ws"
      using run_from_proper [of ws "ss @ [park_step (ws ! i) temp]" "ds[i := True]" waiter "waiter ! i"] r "2.prems"(1,3,4) by auto
    moreover have "run_cycles key tag ws waiter is n' taken' (ss1 @ [land_step (ws ! i) temp], ds1) = Some ss'"
      using "2.prems"(5) False t r by simp
    ultimately show ?thesis
      using "2.hyps"(2) [OF False t refl refl r [symmetric]] steps "2.prems"(1,2) temp_next_fresh [OF t] by auto
  qed
qed simp

lemma plan_steps_proper:
  assumes "plan_batch u sha mode pairs names = Some p"
  shows "list_all proper (steps p)"
  using assms
proof (cases rule: plan_batch_cases)
  case (accepted ws)
  let ?key = "\<lambda>name. name_key u name mode"
  let ?l = "Listing_index ?key names"
  have l: "listing_ok ?key (set names) ?l" by (rule listing_ok_index)
  have ws: "works_ok ?key (set names) ws" by (rule classify_works_ok [OF l accepted(2)])
  obtain wt bl where dp: "dependencies ws = (wt, bl)" by fastforce
  let ?acc = "fold (run_chain ws wt) (zip [0..<length ws] bl) ([], replicate (length ws) False)"
  have acc: "list_all proper (fst ?acc) \<and> length (snd ?acc) = length ws"
    using ws by (intro run_chain_proper) (auto simp: works_ok_def)
  have cyc: "run_cycles ?key (intent_tag sha mode pairs) ws wt [0..<length ws] 0 (into_keys ?l \<union> w_to_key ` set ws) (fst ?acc, snd ?acc) =
      Some (steps p)"
    using accepted(3) dp by (simp add: order_def Let_def)
  have taken: "\<forall>w \<in> set ws. w_from w \<noteq> w_to w \<and> ?key (w_from w) \<in> into_keys ?l \<union> w_to_key ` set ws \<and>
      ?key (w_to w) \<in> into_keys ?l \<union> w_to_key ` set ws"
    unfolding into_keys_eq [OF l]
  proof
    fix w
    assume w: "w \<in> set ws"
    then have "w_from w \<in> set names" "?key (w_to w) = w_to_key w" "w_from w \<noteq> w_to w"
      using ws unfolding works_ok_def by blast+
    then show "w_from w \<noteq> w_to w \<and> ?key (w_from w) \<in> ?key ` set names \<union> w_to_key ` set ws \<and>
        ?key (w_to w) \<in> ?key ` set names \<union> w_to_key ` set ws"
      using w by simp
  qed
  have "\<forall>i \<in> set [0..<length ws]. i < length ws" by simp
  from run_cycles_proper [OF taken this conjunct1 [OF acc] conjunct2 [OF acc] cyc] show ?thesis .
qed simp

section \<open>A directory of names and its paths\<close>

definition to_paths :: "vpath \<Rightarrow> 'f dir \<Rightarrow> vpath \<Rightarrow> 'f option" where
  "to_paths dir d p = (if sibling_of dir p then d (last (segments p)) else None)"

lemma join_inj [simp]: "VPath_join dir m = VPath_join dir n \<longleftrightarrow> m = n"
  by (auto simp: VPath_join_def dest: arg_cong [of _ _ segments])

lemma to_paths_join [simp]: "to_paths dir d (VPath_join dir n) = d n"
  by (simp add: to_paths_def) (simp add: VPath_join_def)

lemma to_paths_upd: "to_paths dir (d(n := v)) = (to_paths dir d)(VPath_join dir n := v)"
proof
  fix p
  show "to_paths dir (d(n := v)) p = ((to_paths dir d)(VPath_join dir n := v)) p"
  proof (cases "sibling_of dir p")
    case True
    then obtain m where "p = VPath_join dir m" by (rule sibling_ofE)
    then show ?thesis by simp
  next
    case False
    then have "p \<noteq> VPath_join dir n" by auto
    with False show ?thesis by (simp add: to_paths_def)
  qed
qed

text \<open>The volume's equality may be finer than the one the plan was made for, never coarser.\<close>

definition no_coarser :: "(bytes \<Rightarrow> bytes) \<Rightarrow> (vpath \<Rightarrow> 'k) \<Rightarrow> vpath \<Rightarrow> bool" where
  "no_coarser nk key dir \<longleftrightarrow> (\<forall>m n. key (VPath_join dir m) = key (VPath_join dir n) \<longrightarrow> nk m = nk n)"

lemma rename_entry_moved:
  assumes "rename_entry nk s d = Some d'" "no_coarser nk key dir"
    and "key (VPath_join dir (step_from s)) \<noteq> key (VPath_join dir (step_to s))"
  shows "moved key (to_paths dir d) (VPath_join dir (step_from s)) (VPath_join dir (step_to s)) = Some (to_paths dir d')"
proof -
  obtain f where f: "d (step_from s) = Some f" "\<forall>e \<in> dom d. e \<noteq> step_from s \<longrightarrow> nk e \<noteq> nk (step_to s)"
      "d' = (d(step_from s := None))(step_to s := Some f)"
    using assms(1) by (auto simp: rename_entry_def split: option.splits if_splits)
  have "\<not> occupied key (to_paths dir d) (VPath_join dir (step_to s))"
  proof
    assume "occupied key (to_paths dir d) (VPath_join dir (step_to s))"
    then obtain p where p: "to_paths dir d p \<noteq> None" "key p = key (VPath_join dir (step_to s))" by (auto simp: occupied_def)
    then have "sibling_of dir p" by (simp add: to_paths_def split: if_splits)
    then obtain n where n: "p = VPath_join dir n" by (rule sibling_ofE)
    have "nk n = nk (step_to s)" using p(2) assms(2) unfolding n no_coarser_def by blast
    moreover have "n \<in> dom d" using p(1) unfolding n by (simp add: domIff)
    ultimately have "n = step_from s" using f(2) by blast
    with n p(2) assms(3) show False by simp
  qed
  then show ?thesis using f(1) by (simp add: moved_def f(3) to_paths_upd)
qed

lemma absolute_Inr:
  "absolute dir s = Inr q \<Longrightarrow> q = \<lparr>ps_from = VPath_join dir (step_from s), ps_to = VPath_join dir (step_to s),
     ps_pair = step_pair s, ps_undoes = None\<rparr>"
  by (auto simp: absolute_def Segment_new_Inr split: sum.splits)

text \<open>A batch that runs to its end does what its plan says.\<close>

lemma run_batch_plan:
  assumes pr: "rename_provider sv good (sibling_of dir) entry key" and nk: "no_coarser nk key dir"
    and "good (world x)" "entry (world x) = to_paths dir d" "list_all proper ss" "try_map (absolute dir) ss = Inr ps"
    and "run_steps nk ss d = Some d'" "run_batch sv cancel n st ps x = (x', Inr u)"
  shows "entry (world x') = to_paths dir d'"
  using assms(3-)
proof (induction ss arbitrary: n st ps x d)
  case Nil
  then show ?case by simp
next
  case (Cons s ss)
  obtain q qs where q: "absolute dir s = Inr q" "try_map (absolute dir) ss = Inr qs" "ps = q # qs"
    using Cons.prems(4) by (auto simp: and_then_Inr_iff)
  obtain d1 where d1: "rename_entry nk s d = Some d1" "run_steps nk ss d1 = Some d'"
    using Cons.prems(5) by (auto simp: bind_eq_Some_conv)
  let ?a = "VPath_join dir (step_from s)" and ?b = "VPath_join dir (step_to s)"
  have ab: "ps_from q = ?a" "ps_to q = ?b" using absolute_Inr [OF q(1)] by simp_all
  have src: "?a \<noteq> ?b" "entry (world x) ?a \<noteq> None"
    using Cons.prems(2,3) d1(1) by (auto simp: proper_def rename_entry_def split: option.splits)
  obtain w r where ren: "sv_rename sv (world x) ?a ?b = (w, r)" by fastforce
  have r: "r = Inr ()" using Cons.prems(6) q(3) ren ab by (cases r) (auto split: if_splits prod.splits option.splits)
  note sib = sibling_of_join [of dir "step_from s"] sibling_of_join [of dir "step_to s"]
  have w: "good w" "moved key (entry (world x)) ?a ?b = Some (entry w)"
    using rename_provider.rename_kept [OF pr Cons.prems(1) sib src ren]
      rename_provider.rename_done [OF pr Cons.prems(1) sib src ren [unfolded r]] by simp_all
  have "entry w = to_paths dir d1"
    using rename_entry_moved [OF d1(1) nk] moved_keys [OF w(2)] w(2) Cons.prems(2) by simp
  moreover obtain j t where rec: "sv_renamed sv (recorder x) ?a ?b (ps_undoes q) = (j, t)" by fastforce
  moreover obtain q' where t: "t = Inr q'"
    using Cons.prems(6) q(3) ren r ab rec by (cases t) (auto split: if_splits prod.splits option.splits)
  ultimately show ?case
    using Cons.prems(3,6) q(2,3) ren r ab d1(2) w(1)
    by (intro Cons.IH [where x = "x\<lparr>world := w, recorder := j, report := (report x)\<lparr>br_applied := br_applied (report x) + 1\<rparr>,
        progress := (progress x)\<lparr>entries_done := entries_done (progress x) + 1, current := Some ?b\<rparr>\<rparr>" and d = d1])
      (auto split: if_splits prod.splits option.splits)
qed

lemma exec_run_plan:
  assumes "rename_provider sv good (sibling_of dir) entry key" "no_coarser (\<lambda>name. name_key u name mode) key dir"
    and "unicode_ascii u" "set names = dom d" "length names + 2 * length pairs + 1 < 2 ^ 32"
    and "plan_batch u sha mode pairs names = Some p" "executable p" "try_map (absolute dir) (steps p) = Inr ps"
    and "good (world x)" "entry (world x) = to_paths dir d" "exec_run sv cancel ps x = (x', Inr v)"
  shows "\<exists>d'. entry (world x') = to_paths dir d' \<and> requested (\<lambda>name. name_key u name mode) pairs d d' \<and> ran d' = ran d"
  using assms(6)
proof (cases rule: plan_batch_cases)
  case refused
  with assms(7) show ?thesis by (simp add: executable_def)
next
  case (accepted ws)
  obtain d' where d': "run_steps (\<lambda>name. name_key u name mode) (steps p) d = Some d'"
      "requested (\<lambda>name. name_key u name mode) pairs d d'"
    using accepted_order [OF assms(3-5) refl refl accepted(2), of sha] accepted(3) by (metis option.inject)
  have "entry (world x') = to_paths dir d'"
    by (rule run_batch_plan [OF assms(1,2) _ _ plan_steps_proper [OF assms(6)] assms(8) d'(1) assms(11) [unfolded exec_run_def]])
      (use assms(9,10) in simp_all)
  with d'(2) requested_ran [OF d'(2)] show ?thesis by blast
qed

end
