(* ===== verification/Rename_Journal.thy ===== *)
theory Rename_Journal
  imports Rename_Transaction
begin

text \<open>
  What a batch leaves in the journal. Every applied step is a row of the batch; a rollback adds one
  compensation per row, newest first. A batch that was rolled back leaves nothing to undo, whatever the
  provider did, and one that succeeded is, for its actor, one group of entries on top of what could be undone
  before.
\<close>

section \<open>Rows of a batch\<close>

definition old_rows :: "int \<Rightarrow> journal_row list \<Rightarrow> bool" where
  "old_rows n rs \<longleftrightarrow> (\<forall>r \<in> set rs. seq r \<le> n \<and> (\<forall>s. c_undoes_seq r = Val (Some s) \<longrightarrow> s \<le> n))"

definition forward_rows :: "int \<Rightarrow> journal_row list \<Rightarrow> bool" where
  "forward_rows n F \<longleftrightarrow> (\<forall>r \<in> set F. n < seq r \<and> c_undoes_seq r = Val None)"

text \<open>The compensations \<open>C\<close> of some of the rows \<open>F\<close>, numbered above all of them.\<close>

definition compensations :: "journal_row list \<Rightarrow> journal_row list \<Rightarrow> bool" where
  "compensations F C \<longleftrightarrow> (\<forall>c \<in> set C. (\<forall>r \<in> set F. seq r < seq c) \<and> (\<exists>r \<in> set F. c_undoes_seq c = Val (Some (seq r))))"

lemma undone_old:
  assumes "old_rows n rs" "forward_rows n F" "compensations F C" "s \<le> n"
  shows "undone (rs @ F @ C) s = undone rs s"
proof -
  have new: "c_undoes_seq c \<noteq> Val (Some t)" if "c \<in> set (F @ C)" "t \<le> n" for c t
    using assms(2,3) that by (fastforce simp: forward_rows_def compensations_def)
  have "(\<exists>d \<in> set (rs @ F @ C). c_undoes_seq d = Val (Some (seq c))) \<longleftrightarrow> (\<exists>d \<in> set rs. c_undoes_seq d = Val (Some (seq c)))"
    if "c \<in> set rs" for c
  proof -
    have "seq c \<le> n" using assms(1) that by (simp add: old_rows_def)
    with new show ?thesis by auto
  qed
  with new [OF _ assms(4)] show ?thesis unfolding undone_def list_ex_iff by auto
qed

lemma undone_new:
  assumes "old_rows n rs" "forward_rows n F" "compensations F C"
    and "r \<in> set F" "c \<in> set C" "c_undoes_seq c = Val (Some (seq r))"
  shows "undone (rs @ F @ C) (seq r)"
proof -
  have high: "n < seq c" "\<forall>f \<in> set F. seq f < seq c" using assms(2-5) by (fastforce simp: forward_rows_def compensations_def)+
  have "c_undoes_seq d \<noteq> Val (Some (seq c))" if "d \<in> set (rs @ F @ C)" for d
    using that assms(1-3) high by (fastforce simp: old_rows_def forward_rows_def compensations_def)
  with assms(5,6) show ?thesis unfolding undone_def list_ex_iff by auto
qed

lemma rolled_back_rows:
  assumes "old_rows n rs" "forward_rows n F" "compensations F C"
    and "\<forall>r \<in> set F. \<exists>c \<in> set C. c_undoes_seq c = Val (Some (seq r))"
  shows "filter (revertible a (rs @ F @ C)) (rs @ F @ C) = filter (revertible a rs) rs"
proof -
  have "revertible a (rs @ F @ C) r = revertible a rs r" if "r \<in> set rs" for r
    using undone_old [OF assms(1-3), of "seq r"] assms(1) that by (simp add: revertible_def old_rows_def)
  moreover have "\<not> revertible a (rs @ F @ C) r" if "r \<in> set F" for r
    using undone_new [OF assms(1-3) that] assms(4) that by (auto simp: revertible_def)
  moreover have "\<not> revertible a (rs @ F @ C) c" if "c \<in> set C" for c
    using assms(3) that by (auto simp: revertible_def compensations_def)
  ultimately show ?thesis by (simp cong: filter_cong)
qed

lemma applied_rows:
  assumes "old_rows n rs" "forward_rows n F" "0 \<le> n"
  shows "filter (revertible a (rs @ F)) (rs @ F) =
    filter (revertible a rs) rs @ filter (\<lambda>r. c_actor_kind r = Val (fst (actor_parts a)) \<and> c_actor_id r = Val (snd (actor_parts a))) F"
proof -
  have none: "compensations F []" by (simp add: compensations_def)
  have "revertible a (rs @ F) r = revertible a rs r" if "r \<in> set rs" for r
    using undone_old [OF assms(1,2) none, of "seq r"] assms(1) that by (simp add: revertible_def old_rows_def)
  moreover have "\<not> undone (rs @ F) (seq r)" if "r \<in> set F" for r
    using assms(1,2) that by (fastforce simp: undone_def list_ex_iff old_rows_def forward_rows_def)
  then have "revertible a (rs @ F) r = (c_actor_kind r = Val (fst (actor_parts a)) \<and> c_actor_id r = Val (snd (actor_parts a)))"
    if "r \<in> set F" for r
    using assms(2,3) that by (fastforce simp: revertible_def forward_rows_def)
  ultimately show ?thesis by (simp cong: filter_cong)
qed

section \<open>The recorder of a batch\<close>

definition step_row :: "actor \<Rightarrow> int \<Rightarrow> int option \<Rightarrow> journal_row \<Rightarrow> vpath \<times> vpath \<Rightarrow> bool" where
  "step_row act b u r m \<longleftrightarrow> (\<exists>s now p h. r = stored_row (entry_record s now (batch_entry act b (fst m) (snd m) u)) p h)"

lemma step_row_undoes: "step_row act b u r m \<Longrightarrow> c_undoes_seq r = Val u"
  by (auto simp: step_row_def entry_record_def batch_entry_def)

lemma renamed_step:
  assumes "journal_at sha (bj_journal bj) log ts k" "int (length log) < 2 ^ 63 - 1"
    and "BatchJournal_renamed sha bj source dest u = (bj', r)"
  shows "bj_actor bj' = bj_actor bj \<and> bj_batch bj' = bj_batch bj \<and>
    ((\<exists>e. r = Inl e) \<and> bj_journal bj' = bj_journal bj \<or>
     (\<exists>row log'. r = Inr (Some (int (length log) + 1)) \<and> seq row = int (length log) + 1 \<and>
        step_row (bj_actor bj) (bj_batch bj) u row (source, dest) \<and> rows (bj_journal bj') = rows (bj_journal bj) @ [row] \<and>
        journal_at sha (bj_journal bj') log' ts k \<and> length log' = length log + 1))"
proof -
  obtain io now where io: "bj_io bj (bj_calls bj) = (io, now)" by fastforce
  let ?e = "batch_entry (bj_actor bj) (bj_batch bj) source dest u"
  obtain j q where rec: "record_entry sha io now ?e (bj_journal bj) = (j, q)" by fastforce
  have bj': "bj' = bj\<lparr>bj_journal := j, bj_calls := bj_calls bj + 1\<rparr>"
      "r = (case q of Inl _ \<Rightarrow> Inl (E_Internal False) | Inr s \<Rightarrow> Inr (Some s))"
    using assms(3) io rec by (auto simp: BatchJournal_renamed_def Let_def split: sum.splits)
  have small: "last_seq (chain (bj_journal bj)) < 2 ^ 63 - 1" using assms(1,2) by (simp add: journal_at_def)
  show ?thesis
  proof (cases q)
    case (Inl e)
    then show ?thesis using bj' record_failed_unchanged [OF rec [unfolded Inl]] by simp
  next
    case (Inr s)
    note rec = rec [unfolded Inr]
    obtain p h where "rows j = rows (bj_journal bj) @ [stored_row (entry_record s now ?e) p h]"
      using record_rows [OF assms(1) small rec] by blast
    moreover have "journal_at sha j (log @ [entry_record s now ?e]) ts k" "s = int (length log) + 1"
      using record_step [OF assms(1) small rec] by blast+
    moreover have "seq (stored_row (entry_record s now ?e) p h) = s" by (simp add: entry_record_def)
    moreover have "step_row (bj_actor bj) (bj_batch bj) u (stored_row (entry_record s now ?e) p h) (source, dest)"
      by (auto simp: step_row_def)
    moreover have "length (log @ [entry_record s now ?e]) = length log + 1" by simp
    ultimately show ?thesis using bj' Inr by fastforce
  qed
qed

section \<open>Rolling back\<close>

text \<open>The state of a rollback: the rows of the batch, the compensations so far, and the steps still to undo.\<close>

definition unwinding :: "(bytes \<Rightarrow> bytes) \<Rightarrow> int \<Rightarrow> nat \<Rightarrow> int \<Rightarrow> journal_row list \<Rightarrow> journal_row list \<Rightarrow> applied_step list \<Rightarrow>
    batch_journal \<Rightarrow> bool" where
  "unwinding sha ts k n rs F st bj \<longleftrightarrow> (\<exists>log C. journal_at sha (bj_journal bj) log ts k \<and>
     int (length log) = n + int (length F) + int (length C) \<and> rows (bj_journal bj) = rs @ F @ C \<and> compensations F C \<and>
     length C + length (filter ap_journalled st) \<le> length F \<and>
     (\<forall>r \<in> set F. (\<exists>c \<in> set C. c_undoes_seq c = Val (Some (seq r))) \<or> (\<exists>a \<in> set st. ap_journalled a \<and> ap_seq a = Some (seq r))) \<and>
     (\<forall>a \<in> set st. ap_journalled a \<longrightarrow> (\<exists>r \<in> set F. ap_seq a = Some (seq r))))"

lemma unwinding_skip: "\<not> ap_journalled a \<Longrightarrow> unwinding sha ts k n rs F (a # st) bj = unwinding sha ts k n rs F st bj"
  by (simp add: unwinding_def)

lemma unwinding_pop:
  assumes "unwinding sha ts k n rs F (a # st) bj" "ap_journalled a" "n + 2 * int (length F) < 2 ^ 63 - 1"
    and "\<forall>r \<in> set F. seq r \<le> n + int (length F)"
    and "BatchJournal_renamed sha bj source dest (ap_seq a) = (bj', Inr q)"
  shows "unwinding sha ts k n rs F st bj'"
proof -
  obtain log C where C: "journal_at sha (bj_journal bj) log ts k" "int (length log) = n + int (length F) + int (length C)"
      "rows (bj_journal bj) = rs @ F @ C" "compensations F C" "length C + length (filter ap_journalled (a # st)) \<le> length F"
      "\<forall>r \<in> set F. (\<exists>c \<in> set C. c_undoes_seq c = Val (Some (seq r))) \<or> (\<exists>a' \<in> set (a # st). ap_journalled a' \<and> ap_seq a' = Some (seq r))"
      "\<forall>a' \<in> set (a # st). ap_journalled a' \<longrightarrow> (\<exists>r \<in> set F. ap_seq a' = Some (seq r))"
    using assms(1) unfolding unwinding_def by blast
  obtain r0 where r0: "r0 \<in> set F" "ap_seq a = Some (seq r0)" using C(7) assms(2) by auto
  have "length C < length F" using C(5) assms(2) by simp
  then have low: "int (length log) < 2 ^ 63 - 1" using C(2) assms(3) by linarith
  from renamed_step [OF C(1) this assms(5)]
  obtain row log' where row: "seq row = int (length log) + 1" "c_undoes_seq row = Val (ap_seq a)"
      "rows (bj_journal bj') = rs @ F @ C @ [row]" "journal_at sha (bj_journal bj') log' ts k" "length log' = length log + 1"
    using C(3) step_row_undoes by auto
  have "compensations F (C @ [row])"
    using C(2,4) row(1,2) r0 assms(4) by (fastforce simp: compensations_def)
  moreover have "(\<exists>c \<in> set (C @ [row]). c_undoes_seq c = Val (Some (seq r))) \<or> (\<exists>a' \<in> set st. ap_journalled a' \<and> ap_seq a' = Some (seq r))"
    if "r \<in> set F" for r
    using C(6) that row(2) by auto
  moreover have "int (length log') = n + int (length F) + int (length (C @ [row]))" using C(2) row(5) by simp
  moreover have "length (C @ [row]) + length (filter ap_journalled st) \<le> length F" using C(5) assms(2) by simp
  ultimately show ?thesis
    unfolding unwinding_def using row(3,4) C(7) by (intro exI [of _ log'] exI [of _ "C @ [row]"]) auto
qed

lemma compensate_journal:
  assumes "sv_renamed sv = BatchJournal_renamed sha" "unwinding sha ts k n rs F (a # st) (recorder x)"
    and "n + 2 * int (length F) < 2 ^ 63 - 1" "\<forall>r \<in> set F. seq r \<le> n + int (length F)"
  shows "compensations_lost (report x) < compensations_lost (report (compensate sv a x)) \<or>
    compensations_lost (report (compensate sv a x)) = compensations_lost (report x) \<and>
    unwinding sha ts k n rs F st (recorder (compensate sv a x))"
proof (cases "ap_journalled a")
  case True
  obtain bj r where rec: "BatchJournal_renamed sha (recorder x) (ap_to a) (ap_from a) (ap_seq a) = (bj, r)" by fastforce
  show ?thesis
  proof (cases r)
    case (Inl e)
    then show ?thesis using True rec assms(1) by (simp add: compensate_def Let_def)
  next
    case (Inr q)
    with unwinding_pop [OF assms(2) True assms(3,4) rec [unfolded Inr]] True rec assms(1)
    show ?thesis by (simp add: compensate_def Let_def)
  qed
next
  case False
  then show ?thesis using assms(2) by (simp add: compensate_def unwinding_skip)
qed

lemma unwind_lost: "compensations_lost (report x) \<le> compensations_lost (report (fst (unwind sv st x)))"
proof (induction st arbitrary: x)
  case (Cons a st)
  have mono: "compensations_lost (report y) \<le> compensations_lost (report (compensate sv a y))" for y
    by (auto simp: compensate_def Let_def split: prod.splits sum.splits)
  show ?case
  proof (cases "put_back sv (world x) a")
    case (Pair w r)
    then show ?thesis
      using order_trans [OF mono [of "x\<lparr>world := w\<rparr>"] order_trans [OF _ Cons.IH]]
      by (cases r) (simp_all add: Let_def)
  qed
qed simp

lemma unwind_journal:
  assumes "sv_renamed sv = BatchJournal_renamed sha" "n + 2 * int (length F) < 2 ^ 63 - 1"
    and "\<forall>r \<in> set F. seq r \<le> n + int (length F)"
    and "unwinding sha ts k n rs F st (recorder x)" "unwind sv st x = (x', r)"
    and "stuck (report x') = None" "compensations_lost (report x') = 0"
  shows "unwinding sha ts k n rs F [] (recorder x')"
  using assms(4-)
proof (induction st arbitrary: x)
  case (Cons a st)
  obtain w q where pb: "put_back sv (world x) a = (w, q)" by fastforce
  have q: "q = None" using Cons.prems(2,3) pb by (cases q) auto
  let ?x = "compensate sv a (x\<lparr>world := w\<rparr>)"
  let ?y = "?x\<lparr>report := (report ?x)\<lparr>rolled_back := rolled_back (report ?x) + 1\<rparr>\<rparr>"
  have un: "unwind sv st ?y = (x', r)" using Cons.prems(2) pb q by (simp add: Let_def)
  have "compensations_lost (report ?x) = 0" using unwind_lost [of ?y sv st] un Cons.prems(4) by simp
  then have "unwinding sha ts k n rs F st (recorder ?y)"
    using compensate_journal [OF assms(1) _ assms(2,3), of ts k rs a st "x\<lparr>world := w\<rparr>"] Cons.prems(1) by auto
  from Cons.IH [OF this un Cons.prems(3,4)] show ?case .
qed simp

section \<open>Running\<close>

definition forwarded :: "(bytes \<Rightarrow> bytes) \<Rightarrow> int \<Rightarrow> nat \<Rightarrow> int \<Rightarrow> journal_row list \<Rightarrow> actor \<Rightarrow> int \<Rightarrow> applied_step list \<Rightarrow>
    journal_row list \<Rightarrow> batch_journal \<Rightarrow> bool" where
  "forwarded sha ts k n rs act b st F bj \<longleftrightarrow> (\<exists>log. journal_at sha (bj_journal bj) log ts k \<and>
     int (length log) = n + int (length st)) \<and> rows (bj_journal bj) = rs @ F \<and> bj_actor bj = act \<and> bj_batch bj = b \<and>
     map (\<lambda>r. Some (seq r)) F = map ap_seq (rev st) \<and> list_all ap_journalled st \<and>
     (\<forall>r \<in> set F. n < seq r \<and> seq r \<le> n + int (length st)) \<and> list_all2 (step_row act b None) F (map applied_move (rev st))"

lemma list_all2_in_set1: "list_all2 P xs ys \<Longrightarrow> x \<in> set xs \<Longrightarrow> \<exists>y. P x y"
  by (induction rule: list_all2_induct) auto

lemma forwarded_rows:
  assumes "forwarded sha ts k n rs act b st F bj"
  shows "forward_rows n F" "length F = length st"
proof -
  have f: "list_all2 (step_row act b None) F (map applied_move (rev st))" "\<forall>r \<in> set F. n < seq r"
    using assms by (simp_all add: forwarded_def)
  show "length F = length st" using list_all2_lengthD [OF f(1)] by simp
  have "c_undoes_seq r = Val None" if mem: "r \<in> set F" for r
  proof -
    obtain m where "step_row act b None r m" using list_all2_in_set1 [OF f(1) mem] by blast
    then show ?thesis by (rule step_row_undoes)
  qed
  with f(2) show "forward_rows n F" by (simp add: forward_rows_def)
qed

lemma forwarded_push:
  assumes "forwarded sha ts k n rs act b st F bj" "n + int (length st) < 2 ^ 63 - 1" "sv_records sv"
    and "BatchJournal_renamed sha bj (ps_from s) (ps_to s) None = (bj', Inr q)"
  shows "\<exists>row. forwarded sha ts k n rs act b (applied_of sv s q # st) (F @ [row]) bj'"
proof -
  obtain log where log: "journal_at sha (bj_journal bj) log ts k" "int (length log) = n + int (length st)"
    using assms(1) by (auto simp: forwarded_def)
  have "int (length log) < 2 ^ 63 - 1" using log(2) assms(2) by simp
  from renamed_step [OF log(1) this assms(4)]
  obtain row log' where row: "q = Some (int (length log) + 1)" "seq row = int (length log) + 1"
      "step_row (bj_actor bj) (bj_batch bj) None row (ps_from s, ps_to s)"
      "rows (bj_journal bj') = rows (bj_journal bj) @ [row]" "journal_at sha (bj_journal bj') log' ts k"
      "length log' = length log + 1" "bj_actor bj' = bj_actor bj" "bj_batch bj' = bj_batch bj"
    by auto
  have "int (length log') = n + int (length (applied_of sv s q # st))" using row(6) log(2) by simp
  moreover have "list_all2 (step_row act b None) (F @ [row]) (map applied_move (rev (applied_of sv s q # st)))"
    using assms(1) row(3) by (auto simp: forwarded_def list_all2_appendI step_move_def)
  ultimately show ?thesis
    using assms(1,3) log(2) row by (intro exI [of _ row]) (auto simp: forwarded_def applied_of_def)
qed

lemma forwarded_unwinding:
  assumes "forwarded sha ts k n rs act b st F bj" "st' = st \<or> st' = unjournalled s # st"
  shows "unwinding sha ts k n rs F st' bj"
proof -
  obtain log where log: "journal_at sha (bj_journal bj) log ts k" "int (length log) = n + int (length st)"
    using assms(1) by (auto simp: forwarded_def)
  have f: "rows (bj_journal bj) = rs @ F" "map (\<lambda>r. Some (seq r)) F = map ap_seq (rev st)" "list_all ap_journalled st"
    using assms(1) by (simp_all add: forwarded_def)
  have "\<exists>a \<in> set st. ap_journalled a \<and> ap_seq a = Some (seq r)" if "r \<in> set F" for r
  proof -
    have "Some (seq r) \<in> set (map ap_seq (rev st))" unfolding f(2) [symmetric] using that by auto
    then show ?thesis using f(3) by (auto simp: list_all_iff)
  qed
  moreover have "\<exists>r \<in> set F. ap_seq a = Some (seq r)" if "a \<in> set st" for a
  proof -
    have "ap_seq a \<in> set (map (\<lambda>r. Some (seq r)) F)" unfolding f(2) using that by auto
    then show ?thesis by auto
  qed
  moreover have "\<not> ap_journalled (unjournalled s)" by (simp add: unjournalled_def)
  ultimately have "unwinding sha ts k n rs F st bj"
    using log f(1) forwarded_rows(2) [OF assms(1)] unfolding unwinding_def
    by (intro exI [of _ log] exI [of _ "[]"]) (auto simp: compensations_def)
  with assms(2) unwinding_skip [of "unjournalled s"] \<open>\<not> ap_journalled (unjournalled s)\<close> show ?thesis by blast
qed

lemma settle_failed_journal:
  "settle_failed sv s e st x = (st', x') \<Longrightarrow> (st' = st \<or> st' = unjournalled s # st) \<and> recorder x' = recorder x"
  by (auto simp: settle_failed_def split: if_splits prod.splits landed.splits)

lemma forwarded_rolled_back:
  assumes "sv_renamed sv = BatchJournal_renamed sha" "forwarded sha ts k n rs act b st F (recorder x)"
    and "n + 2 * int (length st) < 2 ^ 63 - 1" "st' = st \<or> st' = unjournalled s # st" "recorder y = recorder x"
    and "unwind sv st' y = (x', r)" "stuck (report x') = None" "compensations_lost (report x') = 0"
  shows "\<exists>F. forward_rows n F \<and> unwinding sha ts k n rs F [] (recorder x')"
proof -
  note F = forwarded_rows [OF assms(2)]
  have "n + 2 * int (length F) < 2 ^ 63 - 1" "\<forall>r \<in> set F. seq r \<le> n + int (length F)"
    using assms(2,3) F(2) by (simp_all add: forwarded_def)
  moreover have "unwinding sha ts k n rs F st' (recorder y)"
    using forwarded_unwinding [OF assms(2,4)] assms(5) by simp
  ultimately have "unwinding sha ts k n rs F [] (recorder x')"
    using unwind_journal [OF assms(1) _ _ _ assms(6-8)] by blast
  with F(1) show ?thesis by blast
qed

lemma run_batch_journal:
  assumes sv: "sv_renamed sv = BatchJournal_renamed sha" "sv_records sv"
    and "list_all (\<lambda>s. ps_undoes s = None) ss" "forwarded sha ts k n rs act b st F (recorder x)"
    and "n + 2 * int (length st + length ss) < 2 ^ 63 - 1" "run_batch sv cancel m st ss x = (x', r)"
  shows "case r of
      Inr _ \<Rightarrow> \<exists>F st'. forwarded sha ts k n rs act b st' F (recorder x') \<and>
        map applied_move (rev st') = map applied_move (rev st) @ map step_move ss
    | Inl _ \<Rightarrow> stuck (report x') = None \<longrightarrow> compensations_lost (report x') = 0 \<longrightarrow>
        (\<exists>F. forward_rows n F \<and> unwinding sha ts k n rs F [] (recorder x'))"
  using assms(3-)
proof (induction ss arbitrary: st F x m)
  case Nil
  then have "x' = x" "r = Inr ()" by simp_all
  with Nil.prems(2) show ?case by auto
next
  case (Cons s ss)
  have low: "n + 2 * int (length st) < 2 ^ 63 - 1" "n + int (length st) < 2 ^ 63 - 1"
    using Cons.prems(3) by (auto split: if_splits)
  note rolled = forwarded_rolled_back [OF sv(1) Cons.prems(2) low(1)]
  obtain w q where ren: "sv_rename sv (world x) (ps_from s) (ps_to s) = (w, q)" by fastforce
  show ?case
  proof (cases "cancel m")
    case True
    obtain y e where un: "unwind sv st x = (y, e)" by fastforce
    then have "x' = y \<and> (\<exists>e. r = Inl e)" using Cons.prems(4) True by (auto split: option.splits)
    with rolled [OF _ refl un] show ?thesis by auto
  next
    case go: False
    show ?thesis
    proof (cases q)
      case (Inl e)
      obtain st' y where se: "settle_failed sv s e st (fail_pair s (x\<lparr>world := w\<rparr>)) = (st', y)" by fastforce
      obtain z e' where un: "unwind sv st' y = (z, e')" by fastforce
      have "x' = z" "r = Inl e" using Cons.prems(4) go ren Inl se un by auto
      moreover have "st' = st \<or> st' = unjournalled s # st" "recorder y = recorder x"
        using settle_failed_journal [OF se] by (simp_all add: fail_pair_def)
      ultimately show ?thesis using rolled [OF _ _ un] by auto
    next
      case (Inr u)
      obtain j t where rec: "BatchJournal_renamed sha (recorder x) (ps_from s) (ps_to s) None = (j, t)" by fastforce
      have un0: "ps_undoes s = None" using Cons.prems(1) by simp
      show ?thesis
      proof (cases t)
        case (Inl e)
        let ?y = "fail_pair s (x\<lparr>world := w, recorder := j\<rparr>)"
        obtain z e' where un: "unwind sv (unjournalled s # st) ?y = (z, e')" by fastforce
        have x': "x' = z" "r = Inl e" using Cons.prems(4) go ren Inr rec un0 Inl sv(1) un by auto
        obtain log where log: "journal_at sha (bj_journal (recorder x)) log ts k" "int (length log) = n + int (length st)"
          using Cons.prems(2) by (auto simp: forwarded_def)
        then have "bj_journal j = bj_journal (recorder x) \<and> bj_actor j = bj_actor (recorder x) \<and> bj_batch j = bj_batch (recorder x)"
          using renamed_step [OF log(1) _ rec] Inl low(2) by auto
        then have "forwarded sha ts k n rs act b st F (recorder ?y)"
          using Cons.prems(2) by (simp add: forwarded_def fail_pair_def)
        from forwarded_rolled_back [OF sv(1) this low(1) _ refl un] x' show ?thesis by auto
      next
        case (Inr q')
        let ?y = "x\<lparr>world := w, recorder := j, report := (report x)\<lparr>br_applied := br_applied (report x) + 1\<rparr>,
          progress := (progress x)\<lparr>entries_done := entries_done (progress x) + 1, current := Some (ps_to s)\<rparr>\<rparr>"
        have run: "run_batch sv cancel (m + 1) (applied_of sv s q' # st) ss ?y = (x', r)"
          using Cons.prems(4) go ren \<open>q = Inr u\<close> rec un0 Inr sv(1) by simp
        obtain row where "forwarded sha ts k n rs act b (applied_of sv s q' # st) (F @ [row]) j"
          using forwarded_push [OF Cons.prems(2) low(2) sv(2) rec [unfolded Inr]] by blast
        then have "forwarded sha ts k n rs act b (applied_of sv s q' # st) (F @ [row]) (recorder ?y)" by simp
        from Cons.IH [OF _ this _ run] Cons.prems(1,3) show ?thesis by (auto split: sum.splits)
      qed
    qed
  qed
qed

lemma forwarded_start:
  assumes "journal_at sha (bj_journal bj) log ts k"
  shows "forwarded sha ts k (int (length log)) (rows (bj_journal bj)) (bj_actor bj) (bj_batch bj) [] [] bj"
  using assms by (auto simp: forwarded_def)

lemma old_rows_at: "journal_at sha j log ts k \<Longrightarrow> points_back log \<Longrightarrow> old_rows (int (length log)) (rows j)"
  using journal_at_undoes by (fastforce simp: old_rows_def)

lemma exec_run_journal:
  assumes "journal_at sha (bj_journal (recorder x)) log ts k" "sv_renamed sv = BatchJournal_renamed sha" "sv_records sv"
    and "list_all (\<lambda>s. ps_undoes s = None) ss" "int (length log) + 2 * int (length ss) < 2 ^ 63 - 1"
    and "exec_run sv cancel ss x = (x', r)"
  shows "case r of
      Inr _ \<Rightarrow> \<exists>F st. forwarded sha ts k (int (length log)) (rows (bj_journal (recorder x))) (bj_actor (recorder x))
        (bj_batch (recorder x)) st F (recorder x') \<and> map applied_move (rev st) = map step_move ss
    | Inl _ \<Rightarrow> stuck (report x') = None \<longrightarrow> compensations_lost (report x') = 0 \<longrightarrow>
        (\<exists>F. forward_rows (int (length log)) F \<and>
          unwinding sha ts k (int (length log)) (rows (bj_journal (recorder x))) F [] (recorder x'))"
  using run_batch_journal [OF assms(2-4), of _ _ _ _ _ _ "[]" "[]", OF _ _ assms(6) [unfolded exec_run_def]]
    forwarded_start [OF assms(1)] assms(5)
  by (auto split: sum.splits)

section \<open>A provider that answers by a script\<close>

text \<open>Its state is the list of answers its renames still give; nothing exists at any path.\<close>

definition scripted :: "(bytes \<Rightarrow> bytes) \<Rightarrow> ((proto_error + unit) list, batch_journal) services" where
  "scripted sha =
     \<lparr>sv_rename = (\<lambda>w a b. case w of [] \<Rightarrow> ([], Inl E_NotFound) | r # rs \<Rightarrow> (rs, r)),
      sv_stat = (\<lambda>w p. (w, Inl E_NotFound)), sv_renamed = BatchJournal_renamed sha, sv_records = True\<rparr>"

definition script_state :: "journal \<Rightarrow> (proto_error + unit) list \<Rightarrow> ((proto_error + unit) list, batch_journal) exec_state" where
  "script_state j answers =
     \<lparr>world = answers,
      recorder = \<lparr>bj_journal = j, bj_actor = Agent ''s1'', bj_batch = 1, bj_io = (\<lambda>_. (True, 9)), bj_calls = 0\<rparr>,
      report = report_default, progress = \<lparr>entries_total = None, entries_done = 0, current = None\<rparr>\<rparr>"

definition script_step :: "bytes \<Rightarrow> bytes \<Rightarrow> planned_step" where
  "script_step m n = \<lparr>ps_from = VPath_join home m, ps_to = VPath_join home n, ps_pair = 0, ps_undoes = None\<rparr>"

lemma renamed_accepted:
  assumes "\<forall>x. length (sha x) = 32" "journal_run sha (bj_journal bj) log" "journal_at sha (bj_journal bj) log ts k"
    and "int (length log) < 2 ^ 63 - 1" "bj_io bj = (\<lambda>_. (True, 9))"
  obtains bj' log' where "BatchJournal_renamed sha bj source dest u = (bj', Inr (Some (int (length log) + 1)))"
    "bj_io bj' = (\<lambda>_. (True, 9))" "journal_run sha (bj_journal bj') log'" "journal_at sha (bj_journal bj') log' ts k"
    "length log' = length log + 1"
proof -
  let ?e = "batch_entry (bj_actor bj) (bj_batch bj) source dest u"
  obtain j' where j': "record_entry sha True 9 ?e (bj_journal bj) = (j', Inr (int (length log) + 1))"
      "journal_run sha j' (log @ [entry_record (int (length log) + 1) 9 ?e])"
      "journal_at sha j' (log @ [entry_record (int (length log) + 1) 9 ?e]) ts k"
    using run_record [OF assms(1-4)] by blast
  show thesis
    by (rule that [of "bj\<lparr>bj_journal := j', bj_calls := bj_calls bj + 1\<rparr>" "log @ [entry_record (int (length log) + 1) 9 ?e]"])
      (use j' assms(5) in \<open>simp_all add: BatchJournal_renamed_def\<close>)
qed

lemma actor_parts_inj: "actor_parts a = actor_parts b \<longleftrightarrow> a = b"
  by (cases a; cases b) auto

text \<open>How an entry of the undo shows a step of a batch.\<close>

definition shows_step :: "actor \<Rightarrow> int \<Rightarrow> journal_entry \<Rightarrow> vpath \<times> vpath \<Rightarrow> bool" where
  "shows_step act b e m \<longleftrightarrow> e_op e = ''renamed'' \<and> e_path e = to_wire (snd m) \<and> e_path_to e = Some (to_wire (fst m)) \<and>
     e_reversal e = reversal_as_str RenameBack \<and> e_batch_id e = Some b \<and> (e_actor_kind e, e_actor_id e) = actor_parts act"

lemma step_row_entry:
  assumes "step_row act b None r m"
  obtains e where "row_to_entry r = Inr e" "shows_step act b e m"
proof -
  obtain s now p h where "r = stored_row (entry_record s now (batch_entry act b (fst m) (snd m) None)) p h"
    using assms by (auto simp: step_row_def)
  then show thesis by (intro that) (auto simp: row_to_entry_def shows_step_def entry_record_def batch_entry_def)
qed

lemma step_rows_entries:
  "list_all2 (step_row act b None) F ms \<Longrightarrow> \<exists>es. try_map row_to_entry F = Inr es \<and> list_all2 (shows_step act b) es ms"
proof (induction rule: list_all2_induct)
  case (Cons r F m ms)
  from Cons.hyps(1) obtain e where "row_to_entry r = Inr e" "shows_step act b e m" by (rule step_row_entry)
  with Cons.IH show ?case by auto
qed simp

lemma try_map_append: "try_map f xs = Inr us \<Longrightarrow> try_map f ys = Inr vs \<Longrightarrow> try_map f (xs @ ys) = Inr (us @ vs)"
  by (induction xs arbitrary: us) (auto simp: and_then_Inr_iff)

lemma step_row_actor:
  "step_row act b None r m \<Longrightarrow> (c_actor_kind r = Val (fst (actor_parts a)) \<and> c_actor_id r = Val (snd (actor_parts a))) = (a = act)"
  using actor_parts_inj [of act a] by (auto simp: step_row_def entry_record_def batch_entry_def prod_eq_iff)

lemma recorded_batch:
  assumes "\<forall>x. length (sha x) = 32" "journal_run sha (bj_journal (recorder x)) log" "points_back log"
    and "sv_renamed sv = BatchJournal_renamed sha" "sv_records sv" "list_all (\<lambda>s. ps_undoes s = None) ss"
    and "int (length log) + 2 * int (length ss) < 2 ^ 63 - 1"
    and "exec_run sv cancel ss x = (x', Inr u)" "revertible_for (bj_journal (recorder x)) a = Inr es"
  shows "\<exists>news. revertible_for (bj_journal (recorder x')) a = Inr (news @ es) \<and>
    (if a = bj_actor (recorder x) then list_all2 (shows_step a (bj_batch (recorder x))) news (map step_move (rev ss)) else news = [])"
proof -
  let ?j = "bj_journal (recorder x)" and ?j' = "bj_journal (recorder x')" and ?n = "int (length log)"
  let ?act = "bj_actor (recorder x)" and ?b = "bj_batch (recorder x)"
  obtain ts k where at: "journal_at sha ?j log ts k" using journal_run_at [OF assms(1,2)] by blast
  obtain F st where F: "forwarded sha ts k ?n (rows ?j) ?act ?b st F (recorder x')" "map applied_move (rev st) = map step_move ss"
    using exec_run_journal [OF at assms(4-8)] by auto
  have rows: "rows ?j' = rows ?j @ F" "list_all2 (step_row ?act ?b None) F (map step_move ss)"
    using F by (simp_all add: forwarded_def)
  have batch: "has_batch_id ?j" "has_batch_id ?j'" using at F(1) by (auto simp: journal_at_def forwarded_def)
  have "filter (\<lambda>r. c_actor_kind r = Val (fst (actor_parts a)) \<and> c_actor_id r = Val (snd (actor_parts a))) F =
      (if a = ?act then F else [])"
  proof -
    have "(c_actor_kind r = Val (fst (actor_parts a)) \<and> c_actor_id r = Val (snd (actor_parts a))) = (a = ?act)" if mem: "r \<in> set F" for r
      using list_all2_in_set1 [OF rows(2) mem] step_row_actor by blast
    then show ?thesis by (simp cong: filter_cong)
  qed
  then have live: "rev (filter (revertible a (rows ?j')) (rows ?j')) =
      rev (if a = ?act then F else []) @ rev (filter (revertible a (rows ?j)) (rows ?j))"
    using applied_rows [OF old_rows_at [OF at assms(3)] forwarded_rows(1) [OF F(1)], of a] rows(1) by simp
  obtain fs where fs: "try_map row_to_entry (rev F) = Inr fs" "list_all2 (shows_step ?act ?b) fs (rev (map step_move ss))"
    using step_rows_entries [of ?act ?b "rev F" "rev (map step_move ss)"] rows(2) by auto
  obtain news where news: "try_map row_to_entry (rev (if a = ?act then F else [])) = Inr news"
      "if a = ?act then list_all2 (shows_step a ?b) news (map step_move (rev ss)) else news = []"
    using fs by (cases "a = ?act") (simp_all add: rev_map)
  have "revertible_for ?j' a = Inr (news @ es)"
    unfolding revertible_for_rows [OF batch(2)] live
    by (rule try_map_append [OF news(1) assms(9) [unfolded revertible_for_rows [OF batch(1)]]])
  with news(2) show ?thesis by blast
qed

section \<open>Properties\<close>

text \<open>C16: a batch rename that fails and is rolled back leaves the undo history as it was. Whatever the provider
  answers and whenever the batch is cancelled, if its report names no stuck step and no lost compensation then
  for every actor exactly the same entries can be undone as before the batch, in the same order.\<close>

theorem failed_batch_keeps_undo:
  assumes "\<forall>x. length (sha x) = 32" "journal_run sha (bj_journal (recorder x)) log" "points_back log"
    and "sv_renamed sv = BatchJournal_renamed sha" "sv_records sv" "list_all (\<lambda>s. ps_undoes s = None) ss"
    and "int (length log) + 2 * int (length ss) < 2 ^ 63 - 1"
    and "exec_run sv cancel ss x = (x', Inl e)" "stuck (report x') = None" "compensations_lost (report x') = 0"
  shows "revertible_for (bj_journal (recorder x')) a = revertible_for (bj_journal (recorder x)) a"
proof -
  let ?j = "bj_journal (recorder x)" and ?j' = "bj_journal (recorder x')" and ?n = "int (length log)"
  obtain ts k where at: "journal_at sha ?j log ts k" using journal_run_at [OF assms(1,2)] by blast
  obtain F where F: "forward_rows ?n F" "unwinding sha ts k ?n (rows ?j) F [] (recorder x')"
    using exec_run_journal [OF at assms(4-8)] assms(9,10) by auto
  obtain log' C where C: "journal_at sha ?j' log' ts k" "rows ?j' = rows ?j @ F @ C" "compensations F C"
      "\<forall>r \<in> set F. \<exists>c \<in> set C. c_undoes_seq c = Val (Some (seq r))"
    using F(2) unfolding unwinding_def by auto
  have "has_batch_id ?j" "has_batch_id ?j'" using at C(1) by (simp_all add: journal_at_def)
  then show ?thesis
    using rolled_back_rows [OF old_rows_at [OF at assms(3)] F(1) C(3,4), of a] C(2)
    by (simp add: revertible_for_rows)
qed

theorem failed_batch_keeps_undo_witness:
  "\<exists>j x'. exec_run (scripted sample_sha) (\<lambda>_. False) [script_step ''a'' ''b'', script_step ''c'' ''d'']
       (script_state j [Inr (), Inl E_NotFound, Inr ()]) = (x', Inl E_NotFound) \<and>
     rolled_back (report x') = 1 \<and> count j \<noteq> count (bj_journal (recorder x')) \<and>
     revertible_for (bj_journal (recorder x')) (Agent ''s1'') = revertible_for j (Agent ''s1'')"
proof -
  let ?ss = "[script_step ''a'' ''b'', script_step ''c'' ''d'']"
  obtain j where j: "journal_run sample_sha j [sample_record 1 8 None]" "journal_at sample_sha j [sample_record 1 8 None] 7 0"
    using sample_run by blast
  let ?x = "script_state j [Inr (), Inl E_NotFound, Inr ()]"
  have j0: "journal_run sample_sha (bj_journal (recorder ?x)) [sample_record 1 8 None]"
      "journal_at sample_sha (bj_journal (recorder ?x)) [sample_record 1 8 None] 7 0" "bj_io (recorder ?x) = (\<lambda>_. (True, 9))"
    using j by (simp_all add: script_state_def)
  obtain b1 log1 where b1: "BatchJournal_renamed sample_sha (recorder ?x) (VPath_join home ''a'') (VPath_join home ''b'') None =
        (b1, Inr (Some 2))" "bj_io b1 = (\<lambda>_. (True, 9))" "journal_run sample_sha (bj_journal b1) log1"
      "journal_at sample_sha (bj_journal b1) log1 7 0" "length log1 = 2"
    by (rule renamed_accepted [OF sample_sha_32 j0(1,2) _ j0(3), of "VPath_join home ''a''" "VPath_join home ''b''" None])
      (auto simp: numeral_2_eq_2)
  obtain b2 log2 where b2: "BatchJournal_renamed sample_sha b1 (VPath_join home ''b'') (VPath_join home ''a'') (Some 2) =
        (b2, Inr (Some 3))" "journal_at sample_sha (bj_journal b2) log2 7 0" "length log2 = 3"
    by (rule renamed_accepted [OF sample_sha_32 b1(3,4) _ b1(2), of "VPath_join home ''b''" "VPath_join home ''a''" "Some 2"])
      (use b1(5) in \<open>auto simp: numeral_3_eq_3\<close>)
  have run: "\<exists>x'. exec_run (scripted sample_sha) (\<lambda>_. False) ?ss ?x = (x', Inl E_NotFound) \<and> recorder x' = b2 \<and>
      stuck (report x') = None \<and> compensations_lost (report x') = 0 \<and> rolled_back (report x') = 1"
    using b1(1) b2(1)
    by (simp add: exec_run_def scripted_def script_state_def script_step_def settle_failed_def fail_pair_def put_back_def
        is_free_def compensate_def applied_of_def report_default_def Let_def)
  then obtain x' where x': "exec_run (scripted sample_sha) (\<lambda>_. False) ?ss ?x = (x', Inl E_NotFound)" "recorder x' = b2"
      "stuck (report x') = None" "compensations_lost (report x') = 0" "rolled_back (report x') = 1"
    by blast
  have pb: "points_back [sample_record 1 8 None]"
    by (simp add: points_back_def sample_record_def entry_record_def sample_entry_def)
  have "revertible_for (bj_journal (recorder x')) (Agent ''s1'') = revertible_for (bj_journal (recorder ?x)) (Agent ''s1'')"
    by (rule failed_batch_keeps_undo [OF sample_sha_32 j0(1) pb _ _ _ _ x'(1,3,4)])
      (simp_all add: scripted_def script_step_def)
  moreover have "count j = 1" "count (bj_journal b2) = 3"
    using count_journal_at [OF j(2)] count_journal_at [OF b2(2)] b2(3) by simp_all
  ultimately show ?thesis using x' by (intro exI [of _ j] exI [of _ x']) (simp add: script_state_def)
qed

text \<open>A batch rename that succeeds is one undoable unit of its actor. On top of what its actor could undo
  before stand exactly the steps of the batch, newest first, each to be reversed by renaming back, and all with
  the number of the batch; nothing changes for any other actor.\<close>

theorem batch_is_one_unit:
  assumes "\<forall>x. length (sha x) = 32" "journal_run sha (bj_journal (recorder x)) log" "points_back log"
    and "sv_renamed sv = BatchJournal_renamed sha" "sv_records sv" "list_all (\<lambda>s. ps_undoes s = None) ss"
    and "int (length log) + 2 * int (length ss) < 2 ^ 63 - 1"
    and "exec_run sv cancel ss x = (x', Inr u)" "revertible_for (bj_journal (recorder x)) a = Inr es"
  shows "\<exists>news. revertible_for (bj_journal (recorder x')) a = Inr (news @ es) \<and>
    (if a = bj_actor (recorder x) then list_all2 (shows_step a (bj_batch (recorder x))) news (map step_move (rev ss)) else news = [])"
  by (rule recorded_batch [OF assms])

theorem batch_is_one_unit_witness:
  "\<exists>j x' e es. exec_run (scripted sample_sha) (\<lambda>_. False) [script_step ''a'' ''b''] (script_state j [Inr ()]) = (x', Inr ()) \<and>
     revertible_for j (Agent ''s1'') = Inr es \<and> revertible_for (bj_journal (recorder x')) (Agent ''s1'') = Inr (e # es) \<and>
     e_batch_id e = Some 1 \<and> e_path e = to_wire (VPath_join home ''b'')"
proof -
  let ?ss = "[script_step ''a'' ''b'']"
  obtain j where j: "journal_run sample_sha j [sample_record 1 8 None]" "journal_at sample_sha j [sample_record 1 8 None] 7 0"
    using sample_run by blast
  let ?x = "script_state j [Inr ()]"
  have j0: "journal_run sample_sha (bj_journal (recorder ?x)) [sample_record 1 8 None]"
      "journal_at sample_sha (bj_journal (recorder ?x)) [sample_record 1 8 None] 7 0" "bj_io (recorder ?x) = (\<lambda>_. (True, 9))"
      "bj_actor (recorder ?x) = Agent ''s1''" "bj_batch (recorder ?x) = 1"
    using j by (simp_all add: script_state_def)
  obtain b1 where b1: "BatchJournal_renamed sample_sha (recorder ?x) (VPath_join home ''a'') (VPath_join home ''b'') None =
        (b1, Inr (Some 2))"
    by (rule renamed_accepted [OF sample_sha_32 j0(1,2) _ j0(3), of "VPath_join home ''a''" "VPath_join home ''b''" None]) auto
  then have "\<exists>x'. exec_run (scripted sample_sha) (\<lambda>_. False) ?ss ?x = (x', Inr ())"
    by (simp add: exec_run_def scripted_def script_state_def script_step_def)
  then obtain x' where x': "exec_run (scripted sample_sha) (\<lambda>_. False) ?ss ?x = (x', Inr ())" by blast
  have pb: "points_back [sample_record 1 8 None]"
    by (simp add: points_back_def sample_record_def entry_record_def sample_entry_def)
  obtain es where es: "revertible_for (bj_journal (recorder ?x)) (Agent ''s1'') = Inr es"
    using sample_revertible [OF j0(2)] by blast
  obtain news where news: "revertible_for (bj_journal (recorder x')) (Agent ''s1'') = Inr (news @ es)"
      "if Agent ''s1'' = bj_actor (recorder ?x) then list_all2 (shows_step (Agent ''s1'') (bj_batch (recorder ?x))) news
        (map step_move (rev ?ss)) else news = []"
    using batch_is_one_unit [OF sample_sha_32 j0(1) pb _ _ _ _ x' es]
    by (auto simp: scripted_def script_step_def)
  then obtain e where "news = [e]" "shows_step (Agent ''s1'') 1 e (VPath_join home ''a'', VPath_join home ''b'')"
    using j0(4,5) by (auto simp: list_all2_Cons2 step_move_def script_step_def)
  with news(1) es x' show ?thesis
    by (intro exI [of _ j] exI [of _ x'] exI [of _ e] exI [of _ es]) (simp add: shows_step_def script_state_def)
qed

end
