(* ===== verification/Report_Ring.thy ===== *)
theory Report_Ring
  imports Policy
begin

text \<open>
  The rings in which the engine keeps the reports of finished tasks (\<^verbatim>\<open>evict_reports\<close> of
  \<^verbatim>\<open>norte-core/src/engine.rs\<close>), oldest first: how they are pruned to their caps, what survives, and what
  is lost.
\<close>

type_synonym 'r report_entry = "nat \<times> actor \<times> 'r"

definition of_agent :: "'r report_entry \<Rightarrow> bool" where
  "of_agent e \<longleftrightarrow> fst (snd e) \<noteq> User"

definition loud_entry :: "('r \<Rightarrow> bool) \<Rightarrow> 'r report_entry \<Rightarrow> bool" where
  "loud_entry loud e \<longleftrightarrow> loud (snd (snd e))"

definition remove_at :: "nat \<Rightarrow> 'a list \<Rightarrow> 'a list" where
  "remove_at i xs = take i xs @ drop (Suc i) xs"

definition drop_one :: "bool \<Rightarrow> ('r \<Rightarrow> bool) \<Rightarrow> 'r report_entry list \<Rightarrow> 'r report_entry list" where
  "drop_one agents_only loud ring =
     (let candidate = (\<lambda>e. \<not> agents_only \<or> of_agent e);
          quiet = position (\<lambda>e. candidate e \<and> \<not> loud_entry loud e) ring;
          victim = (case quiet of Some i \<Rightarrow> Some i | None \<Rightarrow> position candidate ring)
      in case victim of Some i \<Rightarrow> remove_at i ring | None \<Rightarrow> ring)"

text \<open>What one step of the pruning takes out: the first quiet candidate or, when all of them are loud, the first.\<close>

lemma drop_one_cases:
  assumes "\<exists>e \<in> set ring. \<not> agents_only \<or> of_agent e"
  obtains pre v post where "ring = pre @ v # post" "drop_one agents_only loud ring = pre @ post" "\<not> agents_only \<or> of_agent v"
    "loud_entry loud v \<longrightarrow> (\<forall>e \<in> set ring. \<not> agents_only \<or> of_agent e \<longrightarrow> loud_entry loud e)"
    "\<forall>e \<in> set pre. (\<not> agents_only \<or> of_agent e) \<longrightarrow> loud_entry loud e \<and> \<not> loud_entry loud v"
proof -
  let ?c = "\<lambda>e. \<not> agents_only \<or> of_agent e" and ?q = "\<lambda>e. (\<not> agents_only \<or> of_agent e) \<and> \<not> loud_entry loud e"
  have split: "ring = take i ring @ ring ! i # drop (Suc i) ring" if "i < length ring" for i
    using that by (simp add: Cons_nth_drop_Suc)
  show thesis
  proof (cases "position ?q ring")
    case None
    obtain i where i: "position ?c ring = Some i"
      using assms by (cases "position ?c ring") (auto simp: position_None_iff)
    then have n: "i < length ring" "?c (ring ! i)" "\<forall>e \<in> set (take i ring). \<not> ?c e"
      using position_SomeD [OF i] by (auto simp: in_set_conv_nth)
    have loud: "\<forall>e \<in> set ring. ?c e \<longrightarrow> loud_entry loud e" using None by (auto simp: position_None_iff)
    show thesis
      by (rule that [OF split [OF n(1)]]) (use None i n loud in \<open>auto simp: drop_one_def remove_at_def\<close>)
  next
    case (Some i)
    then have n: "i < length ring" "?q (ring ! i)" "\<forall>e \<in> set (take i ring). \<not> ?q e"
      using position_SomeD [OF Some] by (auto simp: in_set_conv_nth)
    show thesis
      by (rule that [OF split [OF n(1)]]) (use Some n in \<open>auto simp: drop_one_def remove_at_def\<close>)
  qed
qed

lemma drop_one_shorter:
  assumes "\<exists>e \<in> set ring. \<not> agents_only \<or> of_agent e"
  shows "length (drop_one agents_only loud ring) < length ring"
  using assms by (rule drop_one_cases [where loud = loud]) simp

function evict_agents :: "nat \<Rightarrow> ('r \<Rightarrow> bool) \<Rightarrow> 'r report_entry list \<Rightarrow> 'r report_entry list" where
  "evict_agents agents_cap loud ring =
     (if agents_cap < length (filter of_agent ring) then evict_agents agents_cap loud (drop_one True loud ring) else ring)"
  by auto

termination evict_agents
proof (relation "measure (\<lambda>(_, _, ring). length ring)", goal_cases)
  case (2 agents_cap loud ring)
  then have "filter of_agent ring \<noteq> []" by auto
  then have "\<exists>e \<in> set ring. of_agent e" by (auto simp: filter_empty_conv)
  then show ?case using drop_one_shorter [of ring True loud] by simp
qed simp

function evict_oldest :: "nat \<Rightarrow> ('r \<Rightarrow> bool) \<Rightarrow> 'r report_entry list \<Rightarrow> 'r report_entry list" where
  "evict_oldest cap loud ring =
     (if cap < length ring then evict_oldest cap loud (drop_one False loud ring) else ring)"
  by auto

termination evict_oldest
proof (relation "measure (\<lambda>(_, _, ring). length ring)", goal_cases)
  case (2 cap loud ring)
  then have "\<exists>e \<in> set ring. True" by (cases ring) auto
  then show ?case using drop_one_shorter [of ring False loud] by simp
qed simp

declare evict_agents.simps [simp del] evict_oldest.simps [simp del]

definition evict_reports :: "nat \<Rightarrow> nat \<Rightarrow> ('r \<Rightarrow> bool) \<Rightarrow> 'r report_entry list \<Rightarrow> 'r report_entry list" where
  "evict_reports cap agents_cap loud ring = evict_oldest cap loud (evict_agents agents_cap loud ring)"

definition push_report :: "nat \<Rightarrow> nat \<Rightarrow> ('r \<Rightarrow> bool) \<Rightarrow> 'r report_entry \<Rightarrow> 'r report_entry list \<Rightarrow> 'r report_entry list" where
  "push_report cap agents_cap loud e ring = evict_reports cap agents_cap loud (ring @ [e])"

definition find_report :: "nat \<Rightarrow> 'r report_entry list \<Rightarrow> (actor \<times> 'r) option" where
  "find_report t ring = map_option snd (find (\<lambda>e. fst e = t) ring)"

section \<open>What survives\<close>

lemma subseq_set: "subseq xs ys \<Longrightarrow> set xs \<subseteq> set ys"
  by (induction rule: list_emb.induct) auto

lemma drop_one_subseq:
  assumes "\<exists>e \<in> set ring. \<not> agents_only \<or> of_agent e"
  shows "subseq (drop_one agents_only loud ring) ring"
  using assms by (rule drop_one_cases [where loud = loud]) (simp add: list_emb_append_mono subseq_Cons')

lemma agents_exist: "n < length (filter of_agent ring) \<Longrightarrow> \<exists>e \<in> set ring. \<not> True \<or> of_agent e"
  by (metis filter_False length_0_conv not_less_zero)

lemma entries_exist: "n < length ring \<Longrightarrow> \<exists>e \<in> set ring. \<not> False \<or> of_agent e"
  by (cases ring) auto

lemma evict_agents_spec:
  "subseq (evict_agents cap loud ring) ring \<and> length (filter of_agent (evict_agents cap loud ring)) \<le> cap \<and>
   filter (\<lambda>e. \<not> of_agent e) (evict_agents cap loud ring) = filter (\<lambda>e. \<not> of_agent e) ring"
proof (induction cap loud ring rule: evict_agents.induct)
  case (1 cap loud ring)
  show ?case
  proof (cases "cap < length (filter of_agent ring)")
    case True
    note some = agents_exist [OF True]
    have "filter (\<lambda>e. \<not> of_agent e) (drop_one True loud ring) = filter (\<lambda>e. \<not> of_agent e) ring"
      using some by (rule drop_one_cases [where loud = loud]) simp
    with 1 [OF True] drop_one_subseq [OF some] True show ?thesis
      by (subst (1 2 3) evict_agents.simps) (auto intro: subseq_order.trans)
  qed (subst (1 2 3) evict_agents.simps, simp)
qed

lemma evict_oldest_spec:
  "subseq (evict_oldest cap loud ring) ring \<and> length (evict_oldest cap loud ring) \<le> cap"
proof (induction cap loud ring rule: evict_oldest.induct)
  case (1 cap loud ring)
  show ?case
  proof (cases "cap < length ring")
    case True
    with 1 [OF True] drop_one_subseq [OF entries_exist [OF True]] show ?thesis
      by (subst (1 2) evict_oldest.simps) (auto intro: subseq_order.trans)
  qed (subst (1 2) evict_oldest.simps, simp)
qed

text \<open>A loud report falls only when nothing quiet is left.\<close>

lemma evict_oldest_loud:
  assumes "e \<in> set ring" "loud_entry loud e" "e \<notin> set (evict_oldest cap loud ring)"
  shows "\<forall>x \<in> set (evict_oldest cap loud ring). loud_entry loud x"
  using assms
proof (induction cap loud ring rule: evict_oldest.induct)
  case (1 cap loud ring)
  show ?case
  proof (cases "cap < length ring")
    case True
    have step: "evict_oldest cap loud ring = evict_oldest cap loud (drop_one False loud ring)"
      using True by (subst evict_oldest.simps) simp
    show ?thesis
    proof (cases "e \<in> set (drop_one False loud ring)")
      case still: True
      from 1(1) [OF True still] 1(3,4) step show ?thesis by simp
    next
      case False
      obtain pre v post where v: "ring = pre @ v # post" "drop_one False loud ring = pre @ post"
          "loud_entry loud v \<longrightarrow> (\<forall>e \<in> set ring. \<not> False \<or> of_agent e \<longrightarrow> loud_entry loud e)"
        using entries_exist [OF True] by (rule drop_one_cases [where loud = loud])
      then have "v = e" using False 1(2) by auto
      then have "\<forall>x \<in> set ring. loud_entry loud x" using v(3) 1(3) by simp
      moreover have "set (evict_oldest cap loud ring) \<subseteq> set ring"
        using evict_oldest_spec by (metis subseq_set)
      ultimately show ?thesis by blast
    qed
  next
    case False
    then have "evict_oldest cap loud ring = ring" by (subst evict_oldest.simps) simp
    with 1(2,4) show ?thesis by simp
  qed
qed

lemma subseq_filter_length: "subseq xs ys \<Longrightarrow> length (filter P xs) \<le> length (filter P ys)"
  by (induction rule: list_emb.induct) auto

lemma evict_agents_length:
  "length (evict_agents cap loud ring) \<le> length (filter (\<lambda>e. \<not> of_agent e) ring) + cap"
proof -
  have "length (evict_agents cap loud ring) = length (filter of_agent (evict_agents cap loud ring)) +
      length (filter (\<lambda>e. \<not> of_agent e) (evict_agents cap loud ring))"
    by (rule sum_length_filter_compl [symmetric])
  with evict_agents_spec [of cap loud ring] show ?thesis by simp
qed

lemma evict_oldest_id: "length ring \<le> cap \<Longrightarrow> evict_oldest cap loud ring = ring"
  by (subst evict_oldest.simps) simp

section \<open>Properties\<close>

text \<open>What the ring of reports keeps. Pruning never exceeds the cap nor the cap of the agents, keeps the order
  and adds nothing; a person's report that tells of something broken falls only when every report that is kept tells
  of something broken; and as long as the reports of persons fit beside the share of the agents none of them
  falls, however many reports of agents come in.\<close>

theorem evict_reports_keeps:
  assumes "ring' = evict_reports cap agents_cap loud ring"
  shows "length ring' \<le> cap \<and> length (filter of_agent ring') \<le> agents_cap \<and> subseq ring' ring \<and>
    (\<forall>e \<in> set ring. \<not> of_agent e \<and> loud_entry loud e \<and> e \<notin> set ring' \<longrightarrow> (\<forall>x \<in> set ring'. loud_entry loud x)) \<and>
    (length (filter (\<lambda>e. \<not> of_agent e) ring) + agents_cap \<le> cap \<longrightarrow>
      filter (\<lambda>e. \<not> of_agent e) ring' = filter (\<lambda>e. \<not> of_agent e) ring)"
proof -
  let ?mid = "evict_agents agents_cap loud ring"
  have ring': "ring' = evict_oldest cap loud ?mid" using assms by (simp add: evict_reports_def)
  note mid = evict_agents_spec [of agents_cap loud ring] and post = evict_oldest_spec [of cap loud ?mid]
  have "\<forall>x \<in> set ring'. loud_entry loud x" if "e \<in> set ring" "\<not> of_agent e" "loud_entry loud e" "e \<notin> set ring'" for e
  proof -
    have "e \<in> set (filter (\<lambda>e. \<not> of_agent e) ?mid)" using mid that(1,2) by simp
    then show ?thesis using evict_oldest_loud [of e ?mid loud cap] that(3,4) by (simp add: ring')
  qed
  moreover have "length (filter of_agent ring') \<le> agents_cap"
    using subseq_filter_length [of ring' ?mid of_agent] mid post by (auto simp: ring')
  moreover have "filter (\<lambda>e. \<not> of_agent e) ring' = filter (\<lambda>e. \<not> of_agent e) ring"
    if "length (filter (\<lambda>e. \<not> of_agent e) ring) + agents_cap \<le> cap"
    using evict_agents_length [of agents_cap loud ring] that mid evict_oldest_id [of ?mid cap loud] by (simp add: ring')
  ultimately show ?thesis using mid post ring' subseq_order.trans by blast
qed

theorem evict_reports_keeps_witness:
  "filter (\<lambda>e. \<not> of_agent e) (evict_reports 3 1 (\<lambda>r. r) [(1, User, False), (2, Agent ''a'', True), (3, Agent ''a'', True)]) =
     [(1, User, False)]"
  using evict_reports_keeps [OF refl, where ring = "[(1, User, False), (2, Agent ''a'', True), (3, Agent ''a'', True)]" and cap = 3
      and agents_cap = 1 and loud = "\<lambda>r. r"]
  by (simp add: of_agent_def)

text \<open>C40: a ring that holds nothing but broken reports does not take a new one. A report is registered when its
  task starts and is empty then, so it is the only quiet one and the first to fall: what its task writes later
  can no longer be asked for, and the oldest report stays.\<close>

theorem full_ring_refuses_newest:
  assumes "length ring = cap" "length (filter of_agent ring) < agents_cap" "\<forall>e \<in> set ring. loud_entry loud e \<and> fst e \<noteq> t"
    and "\<not> loud r"
  shows "push_report cap agents_cap loud (t, a, r) ring = ring \<and> find_report t (push_report cap agents_cap loud (t, a, r) ring) = None"
proof -
  let ?ring = "ring @ [(t, a, r)]"
  have "length (filter of_agent ?ring) \<le> agents_cap" using assms(2) by simp
  then have mid: "evict_agents agents_cap loud ?ring = ?ring" by (subst evict_agents.simps) simp
  have "drop_one False loud ?ring = ring"
  proof -
    have "position (\<lambda>e. \<not> loud_entry loud e) ?ring = Some (length ring)"
      using assms(3,4) by (intro position_middle) (auto simp: loud_entry_def)
    then show ?thesis by (simp add: drop_one_def remove_at_def)
  qed
  then have "evict_oldest cap loud ?ring = ring"
    using assms(1) evict_oldest_id [of ring cap loud] by (subst evict_oldest.simps) simp
  moreover have "find (\<lambda>e. fst e = t) ring = None" using assms(3) by (auto simp: find_None_iff)
  ultimately show ?thesis by (simp add: push_report_def evict_reports_def mid find_report_def)
qed

theorem full_ring_refuses_newest_witness:
  "find_report 7 (push_report 2 2 (\<lambda>r. r) (7, User, False) [(1, User, True), (2, User, True)]) = None"
  using full_ring_refuses_newest [of "[(1, User, True), (2, User, True)]" 2 2 "\<lambda>r. r" 7 False User]
  by (simp add: of_agent_def loud_entry_def find_report_def)

end
