(* ===== verification/Rename_Engine.thy ===== *)
theory Rename_Engine
  imports Rename_Link Rename_Journal Report_Ring
begin

text \<open>
  A batch rename end to end (\<^verbatim>\<open>plan_for\<close>, \<^verbatim>\<open>rename_batch_plan_as\<close> and \<^verbatim>\<open>rename_batch_as\<close> of
  \<^verbatim>\<open>norte-core/src/engine.rs\<close>, \<^verbatim>\<open>DirPlan::bind\<close> of \<^verbatim>\<open>rename/exec.rs\<close>): the directory is listed and planned, the
  digest of plan and directory goes to whoever approves; execution plans again, compares the digest, resolves the
  steps, passes the gate once for all paths, chooses the recorder and hands the steps to the task.

  What the engine asks of the provider while planning is a record of its answers, \<open>planning\<close>: which provider serves the
  path, the stream of its listing and its capabilities. The task that is submitted is \<open>batch_task\<close>; its body
  is \<open>exec_run\<close>.
\<close>

section \<open>Planning\<close>

definition FS_RENAME_BATCH_MAX_PAIRS :: nat where
  "FS_RENAME_BATCH_MAX_PAIRS = 4096"

definition RENAME_BATCH_MAX_LISTING :: nat where
  "RENAME_BATCH_MAX_LISTING = 100000"

definition LIMIT_ENTRIES :: bytes where
  "LIMIT_ENTRIES = ''entries''"

fun list_base_names :: "(proto_error + vpath) list \<Rightarrow> bytes list \<Rightarrow> proto_error + bytes list" where
  "list_base_names [] names = Inr names"
| "list_base_names (item # rest) names =
     (case item of
        Inl e \<Rightarrow> Inl e
      | Inr p \<Rightarrow>
          if length names \<ge> RENAME_BATCH_MAX_LISTING then Inl (E_LimitExceeded LIMIT_ENTRIES)
          else case file_name p of
            Some n \<Rightarrow> list_base_names rest (names @ [n])
          | None \<Rightarrow> list_base_names rest names)"

record planning =
  pl_provider :: "proto_error + unit"
  pl_list :: "proto_error + (proto_error + vpath) list"
  pl_capabilities :: "proto_error + capabilities"

record dir_plan =
  dp_plan :: rename_plan
  dp_hash :: bytes

definition bind_input :: "vpath \<Rightarrow> rename_plan \<Rightarrow> bytes" where
  "bind_input dir p = ''norte-rename-plan-dir-v1'' @ feed (to_wire dir) @ feed (hash p)"

definition DirPlan_bind :: "(bytes \<Rightarrow> bytes) \<Rightarrow> vpath \<Rightarrow> rename_plan \<Rightarrow> dir_plan" where
  "DirPlan_bind sha dir p = \<lparr>dp_plan = p, dp_hash = hex_lower (sha (bind_input dir p))\<rparr>"

definition plan_for :: "unicode \<Rightarrow> (bytes \<Rightarrow> bytes) \<Rightarrow> planning \<Rightarrow> vpath \<Rightarrow> (bytes \<times> bytes) list \<Rightarrow> proto_error + dir_plan" where
  "plan_for u sha pl dir pairs =
     (if length pairs > FS_RENAME_BATCH_MAX_PAIRS then Inl E_InvalidPath
      else if list_ex (\<lambda>(f, t). \<not> is_ok (Segment_new f) \<or> \<not> is_ok (Segment_new t)) pairs then Inl E_InvalidPath
      else and_then (pl_provider pl) (\<lambda>_.
        and_then (and_then (pl_list pl) (\<lambda>items. list_base_names items [])) (\<lambda>names.
        and_then (pl_capabilities pl) (\<lambda>c.
          if READ_ONLY \<in> cap_flags c then Inl E_Unsupported
          else case plan_batch u sha (fold_mode_of c) pairs names of
            None \<Rightarrow> Inl (E_Internal True)
          | Some p \<Rightarrow> Inr (DirPlan_bind sha dir p)))))"

definition rename_batch_plan_as :: "unicode \<Rightarrow> (bytes \<Rightarrow> bytes) \<Rightarrow> planning \<Rightarrow> vpath \<Rightarrow> (bytes \<times> bytes) list \<Rightarrow> actor \<Rightarrow>
    proto_error + dir_plan" where
  "rename_batch_plan_as u sha pl dir pairs actor = plan_for u sha pl dir pairs"

section \<open>Executing\<close>

fun gate_error :: "engine_error \<Rightarrow> proto_error" where
  "gate_error (PolicyDenied rule) = E_PolicyDenied rule"
| "gate_error JournalUnavailable = E_JournalUnavailable"

text \<open>The recorder of the task: the journal under a batch of its own, or the observer, which keeps something
  unless the journal is lazy and absent.\<close>

datatype batch_recorder = InJournal journal int | ToObserver bool

record batch_task =
  bt_steps :: "planned_step list"
  bt_recorder :: batch_recorder
  bt_actor :: actor

text \<open>\<^verbatim>\<open>Engine::journal\<close>: what \<open>opened\<close> is for a lazy source is the answer of \<^verbatim>\<open>LazyJournal::get\<close>.\<close>

definition engine_journal :: "journal_source \<Rightarrow> journal option \<Rightarrow> journal option" where
  "engine_journal source opened = (case source of NoJournalSource \<Rightarrow> None | _ \<Rightarrow> opened)"

definition choose_recorder :: "journal_source \<Rightarrow> journal option \<Rightarrow> batch_recorder" where
  "choose_recorder source opened =
     (case engine_journal source opened of
        Some j \<Rightarrow> (let (j', b) = alloc_batch j in InJournal j' b)
      | None \<Rightarrow> ToObserver (source \<noteq> LazyJournal))"

definition gate_paths :: "planned_step list \<Rightarrow> vpath list" where
  "gate_paths ss = concat (map (\<lambda>s. [ps_from s, ps_to s]) ss)"

definition rename_batch_as :: "unicode \<Rightarrow> (bytes \<Rightarrow> bytes) \<Rightarrow> planning \<Rightarrow>
    (actor \<Rightarrow> policy_op \<Rightarrow> vpath list \<Rightarrow> engine_error + unit) \<Rightarrow> journal_source \<Rightarrow> journal option \<Rightarrow>
    vpath \<Rightarrow> (bytes \<times> bytes) list \<Rightarrow> bytes \<Rightarrow> actor \<Rightarrow> proto_error + batch_task" where
  "rename_batch_as u sha pl gate source opened dir pairs approved actor =
     and_then (plan_for u sha pl dir pairs) (\<lambda>plan.
       if dp_hash plan \<noteq> approved then Inl E_PlanStale
       else if \<not> executable (dp_plan plan) then Inl E_PlanNotExecutable
       else and_then (try_map (absolute dir) (steps (dp_plan plan))) (\<lambda>ss.
         case gate actor Move (gate_paths ss) of
           Inl e \<Rightarrow> Inl (gate_error e)
         | Inr _ \<Rightarrow> Inr \<lparr>bt_steps = ss, bt_recorder = choose_recorder source opened, bt_actor = actor\<rparr>))"

section \<open>Reports of batches\<close>

definition BATCH_REPORTS_MAX :: nat where
  "BATCH_REPORTS_MAX = 32"

definition BATCH_REPORTS_AGENTS_MAX :: nat where
  "BATCH_REPORTS_AGENTS_MAX = 16"

definition loud_batch :: "batch_report \<Rightarrow> bool" where
  "loud_batch r \<longleftrightarrow> stuck r \<noteq> None \<or> uncertain r \<noteq> None \<or> compensations_lost r > 0"

definition evict_batch_reports :: "batch_report report_entry list \<Rightarrow> batch_report report_entry list" where
  "evict_batch_reports ring = evict_reports BATCH_REPORTS_MAX BATCH_REPORTS_AGENTS_MAX loud_batch ring"

text \<open>The end of \<^verbatim>\<open>rename_batch_as\<close>: the report of the submitted task, empty at that time, is retained.\<close>

definition retain_report :: "nat \<Rightarrow> actor \<Rightarrow> batch_report report_entry list \<Rightarrow> batch_report report_entry list" where
  "retain_report t a ring = evict_batch_reports (ring @ [(t, a, report_default)])"

definition rename_batch_report :: "nat \<Rightarrow> batch_report report_entry list \<Rightarrow> (actor \<times> batch_report) option" where
  "rename_batch_report t ring = find_report t ring"

section \<open>What planning and approval fix\<close>

lemma list_base_names_Inr:
  "list_base_names items acc = Inr names \<Longrightarrow> length acc \<le> RENAME_BATCH_MAX_LISTING \<Longrightarrow> length names \<le> RENAME_BATCH_MAX_LISTING"
  by (induction items acc rule: list_base_names.induct) (auto split: sum.splits if_splits option.splits)

lemma list_base_names_siblings:
  assumes "\<forall>p \<in> set ps. sibling_of dir p" "list_base_names (map Inr ps) acc = Inr names"
  shows "set names = set acc \<union> (\<lambda>p. last (segments p)) ` set ps"
  using assms
proof (induction ps arbitrary: acc)
  case (Cons p ps)
  have "file_name p = Some (last (segments p))" using Cons.prems(1) by (auto simp: file_name_def sibling_of_def)
  with Cons show ?case by (auto split: if_splits)
qed simp

lemma plan_for_Inr:
  assumes "plan_for u sha pl dir pairs = Inr plan"
  obtains items names c p where "pl_list pl = Inr items" "list_base_names items [] = Inr names" "pl_capabilities pl = Inr c"
    "plan_batch u sha (fold_mode_of c) pairs names = Some p" "plan = DirPlan_bind sha dir p"
    "length names + 2 * length pairs + 1 < 2 ^ 32"
proof -
  obtain items names c p where h: "pl_list pl = Inr items" "list_base_names items [] = Inr names" "pl_capabilities pl = Inr c"
      "plan_batch u sha (fold_mode_of c) pairs names = Some p" "plan = DirPlan_bind sha dir p" "length pairs \<le> FS_RENAME_BATCH_MAX_PAIRS"
    using assms by (auto simp: plan_for_def and_then_Inr_iff split: if_splits option.splits)
  have "length names \<le> RENAME_BATCH_MAX_LISTING" using list_base_names_Inr [OF h(2)] by simp
  then have "length names + 2 * length pairs + 1 < 2 ^ 32"
    using h(6) by (simp add: RENAME_BATCH_MAX_LISTING_def FS_RENAME_BATCH_MAX_PAIRS_def)
  with h that show thesis by blast
qed

lemma rename_batch_as_Inr:
  assumes "rename_batch_as u sha pl gate source opened dir pairs approved actor = Inr task"
  obtains plan where "plan_for u sha pl dir pairs = Inr plan" "dp_hash plan = approved" "executable (dp_plan plan)"
    "try_map (absolute dir) (steps (dp_plan plan)) = Inr (bt_steps task)" "gate actor Move (gate_paths (bt_steps task)) = Inr ()"
    "bt_recorder task = choose_recorder source opened"
proof -
  obtain plan ss where h: "plan_for u sha pl dir pairs = Inr plan" "dp_hash plan = approved" "executable (dp_plan plan)"
      "try_map (absolute dir) (steps (dp_plan plan)) = Inr ss"
      "(case gate actor Move (gate_paths ss) of Inl e \<Rightarrow> Inl (gate_error e)
        | Inr _ \<Rightarrow> Inr \<lparr>bt_steps = ss, bt_recorder = choose_recorder source opened, bt_actor = actor\<rparr>) = Inr task"
    using assms by (auto simp: rename_batch_as_def and_then_Inr_iff split: if_splits)
  then have "gate actor Move (gate_paths ss) = Inr ()" by (cases "gate actor Move (gate_paths ss)") auto
  with h that show thesis by auto
qed

lemma absolute_moves:
  "try_map (absolute dir) ss = Inr ps \<Longrightarrow> map step_move ps = map (\<lambda>s. (VPath_join dir (step_from s), VPath_join dir (step_to s))) ss"
  by (induction ss arbitrary: ps) (auto simp: and_then_Inr_iff step_move_def dest!: absolute_Inr)

lemma hex_digit_inj: "m < 16 \<Longrightarrow> n < 16 \<Longrightarrow> HEX_LOWER ! m = HEX_LOWER ! n \<Longrightarrow> m = n"
proof -
  have "distinct HEX_LOWER" "length HEX_LOWER = 16" by (simp_all add: HEX_LOWER_def)
  then show "m < 16 \<Longrightarrow> n < 16 \<Longrightarrow> HEX_LOWER ! m = HEX_LOWER ! n \<Longrightarrow> m = n" by (simp add: nth_eq_iff_index_eq)
qed

lemma hex_lower_inj: "hex_lower a = hex_lower b \<Longrightarrow> a = b"
proof (induction a arbitrary: b)
  case Nil
  then show ?case by (cases b) (simp_all add: hex_lower_def)
next
  case (Cons x a)
  then obtain y c where b: "b = y # c" by (cases b) (simp_all add: hex_lower_def)
  with Cons.prems have h: "HEX_LOWER ! (u8 x div 16) = HEX_LOWER ! (u8 y div 16)" "HEX_LOWER ! (u8 x mod 16) = HEX_LOWER ! (u8 y mod 16)"
      "hex_lower a = hex_lower c"
    by (simp_all add: hex_lower_def)
  have "u8 x div 16 = u8 y div 16" "u8 x mod 16 = u8 y mod 16"
    using hex_digit_inj [OF _ _ h(1)] hex_digit_inj [OF _ _ h(2)] u8_less [of x] u8_less [of y]
    by (simp_all add: less_mult_imp_div_less)
  then have "u8 x = u8 y" by (metis div_mult_mod_eq)
  then show ?case using Cons.IH [OF h(3)] b by simp
qed

lemma plan_batch_hash: "plan_batch u sha mode pairs names = Some p \<Longrightarrow> hash p = sha (plan_hash_input mode (steps p) (collisions p))"
  by (auto simp: plan_batch_def plan_hash_def Let_def split: if_splits option.splits prod.splits)

definition plan_small :: "rename_plan \<Rightarrow> bool" where
  "plan_small p \<longleftrightarrow> length (steps p) < 2 ^ 64 \<and> length (collisions p) < 2 ^ 64 \<and> list_all step_small (steps p) \<and>
     list_all collision_small (collisions p)"

lemma bind_input_inj:
  assumes "bind_input dir p = bind_input dir' p'" "vpath_ok dir" "vpath_ok dir'" "length (to_wire dir) < 2 ^ 64"
    "length (to_wire dir') < 2 ^ 64" "length (hash p) = 32" "length (hash p') = 32"
  shows "dir = dir' \<and> hash p = hash p'"
proof -
  have "feed (to_wire dir) @ feed (hash p) = feed (to_wire dir') @ feed (hash p')" using assms(1) by (simp add: bind_input_def)
  from feed_append_inj [OF this assms(4,5)] have "to_wire dir = to_wire dir'" "feed (hash p) @ [] = feed (hash p') @ []" by simp_all
  with to_wire_inj [OF assms(2,3)] feed_append_inj [of "hash p" "[]" "hash p'" "[]"] assms(6,7) show ?thesis by simp
qed

section \<open>What a batch touches\<close>

text \<open>The same services, keeping a list of the renames that were asked for.\<close>

definition logged :: "('w, 'j) services \<Rightarrow> ('w \<times> (vpath \<times> vpath) list, 'j) services" where
  "logged sv =
     \<lparr>sv_rename = (\<lambda>(w, calls) a b. case sv_rename sv w a b of (w', r) \<Rightarrow> ((w', calls @ [(a, b)]), r)),
      sv_stat = (\<lambda>(w, calls) p. case sv_stat sv w p of (w', r) \<Rightarrow> ((w', calls), r)),
      sv_renamed = sv_renamed sv, sv_records = sv_records sv\<rparr>"

definition touches :: "(vpath \<times> vpath) set \<Rightarrow> ('w \<times> (vpath \<times> vpath) list) \<Rightarrow> bool" where
  "touches M w \<longleftrightarrow> (\<forall>m \<in> set (snd w). m \<in> M \<or> prod.swap m \<in> M)"

text \<open>What the executor keeps of the provider's state when its renames keep it that run along the moves of a set, in
  either direction.\<close>

locale watched_renames =
  fixes sv :: "('w, 'j) services" and good :: "'w \<Rightarrow> bool" and M :: "(vpath \<times> vpath) set"
  assumes rename_good: "good w \<Longrightarrow> (a, b) \<in> M \<or> (b, a) \<in> M \<Longrightarrow> sv_rename sv w a b = (w', r) \<Longrightarrow> good w'"
    and stat_good: "good w \<Longrightarrow> sv_stat sv w p = (w', s) \<Longrightarrow> good w'"
begin

lemma is_free_good: "good w \<Longrightarrow> is_free sv w p = (w', r) \<Longrightarrow> good w'"
  using stat_good [of w p] by (cases "sv_stat sv w p") (auto simp: is_free_def split: sum.splits proto_error.splits)

lemma put_back_good:
  assumes "good w" "applied_move a \<in> M" "put_back sv w a = (w', r)"
  shows "good w'"
proof -
  obtain v q where free: "is_free sv w (ap_from a) = (v, q)" by fastforce
  have v: "good v" by (rule is_free_good [OF assms(1) free])
  show ?thesis
  proof (cases "q = Inr True")
    case True
    obtain z t where ren: "sv_rename sv v (ap_to a) (ap_from a) = (z, t)" by fastforce
    have "good z" using rename_good [OF v _ ren] assms(2) by (simp add: applied_move_def)
    with assms(3) free True ren show ?thesis by (auto simp: put_back_def split: sum.splits)
  next
    case False
    with assms(3) free v show ?thesis by (cases q) (auto simp: put_back_def split: bool.splits)
  qed
qed

lemma unwind_good:
  assumes "good (world x)" "applied_move ` set st \<subseteq> M" "unwind sv st x = (x', r)"
  shows "good (world x')"
  using assms
proof (induction st arbitrary: x)
  case (Cons a st)
  obtain w q where pb: "put_back sv (world x) a = (w, q)" by fastforce
  have w: "good w" using put_back_good [OF Cons.prems(1) _ pb] Cons.prems(2) by simp
  have keep: "world (compensate sv a y) = world y" for y
    by (auto simp: compensate_def Let_def split: prod.splits sum.splits)
  show ?case
  proof (cases q)
    case None
    then have un: "unwind sv st (compensate sv a (x\<lparr>world := w\<rparr>)\<lparr>report :=
        (report (compensate sv a (x\<lparr>world := w\<rparr>)))\<lparr>rolled_back :=
          rolled_back (report (compensate sv a (x\<lparr>world := w\<rparr>))) + 1\<rparr>\<rparr>) = (x', r)"
      using Cons.prems(3) pb by (simp add: Let_def)
    from Cons.IH [OF _ _ un] w keep Cons.prems(2) show ?thesis by simp
  qed (use Cons.prems(3) pb w in auto)
qed simp

lemma settle_failed_good:
  assumes "good (world x)" "settle_failed sv s e st x = (st', x')"
  shows "good (world x') \<and> (st' = st \<or> st' = unjournalled s # st)"
proof -
  obtain w l where pr: "probe_landed sv (world x) s = (w, l)" by fastforce
  obtain w1 p where p: "is_free sv (world x) (ps_to s) = (w1, p)" by fastforce
  obtain w2 q where q: "is_free sv w1 (ps_from s) = (w2, q)" by fastforce
  have "w = w2" using pr p q by (simp add: probe_landed_def Let_def)
  then have "good w" using is_free_good [OF is_free_good [OF assms(1) p] q] by simp
  with assms pr show ?thesis by (cases l) (auto simp: settle_failed_def split: if_splits)
qed

lemma run_batch_good:
  assumes "good (world x)" "applied_move ` set st \<subseteq> M" "step_move ` set ss \<subseteq> M"
    and "run_batch sv cancel n st ss x = (x', r)"
  shows "good (world x')"
  using assms
proof (induction ss arbitrary: n st x)
  case (Cons s ss)
  obtain w q where ren: "sv_rename sv (world x) (ps_from s) (ps_to s) = (w, q)" by fastforce
  have s: "step_move s \<in> M" using Cons.prems(3) by simp
  have w: "good w" using rename_good [OF Cons.prems(1) _ ren] s by (simp add: step_move_def)
  have un: "good (world y)" if "unwind sv st' z = (y, e)" "good (world z)" "applied_move ` set st' \<subseteq> M" for st' z y e
    by (rule unwind_good [OF that(2,3,1)])
  show ?case
  proof (cases "cancel n")
    case True
    obtain y e where u: "unwind sv st x = (y, e)" by fastforce
    then have "x' = y" using Cons.prems(4) True by (auto split: option.splits)
    with un [OF u Cons.prems(1,2)] show ?thesis by simp
  next
    case go: False
    show ?thesis
    proof (cases q)
      case (Inl e)
      obtain st' y where se: "settle_failed sv s e st (fail_pair s (x\<lparr>world := w\<rparr>)) = (st', y)" by fastforce
      obtain z e' where u: "unwind sv st' y = (z, e')" by fastforce
      have "x' = z" using Cons.prems(4) go ren Inl se u by auto
      moreover have "good (world y) \<and> (st' = st \<or> st' = unjournalled s # st)"
        using settle_failed_good [OF _ se] w by (simp add: fail_pair_def)
      ultimately show ?thesis using un [OF u] Cons.prems(2) s by auto
    next
      case (Inr v)
      obtain j t where rec: "sv_renamed sv (recorder x) (ps_from s) (ps_to s) (ps_undoes s) = (j, t)" by fastforce
      show ?thesis
      proof (cases t)
        case (Inl e)
        obtain z e' where u: "unwind sv (unjournalled s # st) (fail_pair s (x\<lparr>world := w, recorder := j\<rparr>)) = (z, e')" by fastforce
        then have "x' = z" using Cons.prems(4) go ren Inr rec Inl by auto
        with un [OF u] w Cons.prems(2) s show ?thesis by (simp add: fail_pair_def)
      next
        case (Inr q')
        let ?y = "x\<lparr>world := w, recorder := j, report := (report x)\<lparr>br_applied := br_applied (report x) + 1\<rparr>,
          progress := (progress x)\<lparr>entries_done := entries_done (progress x) + 1, current := Some (ps_to s)\<rparr>\<rparr>"
        have run: "run_batch sv cancel (n + 1) (applied_of sv s q' # st) ss ?y = (x', r)"
          using Cons.prems(4) go ren \<open>q = Inr v\<close> rec Inr by simp
        show ?thesis by (rule Cons.IH [OF _ _ _ run]) (use w Cons.prems(2,3) s in auto)
      qed
    qed
  qed
qed simp

end

interpretation logged: watched_renames "logged sv" "touches M" M
proof
  fix w a b w' r
  assume "touches M w" "(a, b) \<in> M \<or> (b, a) \<in> M" "sv_rename (logged sv) w a b = (w', r)"
  then show "touches M w'" by (cases w) (auto simp: logged_def touches_def split: prod.splits)
next
  fix w p w' s
  assume "touches M w" "sv_stat (logged sv) w p = (w', s)"
  then show "touches M w'" by (cases w) (auto simp: logged_def touches_def split: prod.splits)
qed

end
