(* ===== verification/Rename_Approval.thy ===== *)
theory Rename_Approval
  imports Rename_Engine
begin

text \<open>
  What an approved batch rename does, from the plan that was shown to the files of the provider: the plan that
  is executed is the one that was approved, a run that succeeds does what the pairs asked for, every rename
  stays inside the scope the policy checked, and a change of spelling alone is planned but can never be run.

  The instance of the witnesses is the directory of \<open>Mem_Directory\<close> with two files \<^verbatim>\<open>a\<close> and \<^verbatim>\<open>b\<close>, of which the
  batch moves \<^verbatim>\<open>a\<close> out of the way to \<^verbatim>\<open>c\<close> and \<^verbatim>\<open>b\<close> to \<^verbatim>\<open>a\<close>.
\<close>

section \<open>The digest that is approved\<close>

definition collide :: "(bytes \<Rightarrow> bytes) \<Rightarrow> bytes \<Rightarrow> bytes \<Rightarrow> bool" where
  "collide sha x y \<longleftrightarrow> x \<noteq> y \<and> sha x = sha y"

definition plan_text :: "fold_mode \<Rightarrow> rename_plan \<Rightarrow> bytes" where
  "plan_text mode p = plan_hash_input mode (steps p) (collisions p)"

definition plan_moves :: "vpath \<Rightarrow> rename_plan \<Rightarrow> (vpath \<times> vpath) list" where
  "plan_moves dir p = map (\<lambda>s. (VPath_join dir (step_from s), VPath_join dir (step_to s))) (steps p)"

lemma plan_for_bound:
  assumes "plan_for u sha pl dir pairs = Inr plan" "pl_capabilities pl = Inr c"
  shows "plan = DirPlan_bind sha dir (dp_plan plan) \<and> hash (dp_plan plan) = sha (plan_text (fold_mode_of c) (dp_plan plan))"
proof -
  obtain names p where "plan_batch u sha (fold_mode_of c) pairs names = Some p" "plan = DirPlan_bind sha dir p"
    using plan_for_Inr [OF assms(1)] assms(2) by (metis sum.inject(2))
  then show ?thesis using plan_batch_hash by (fastforce simp: DirPlan_bind_def plan_text_def)
qed

lemma same_step_moves:
  "list_all2 same_step ss ts \<Longrightarrow>
     map (\<lambda>s. (VPath_join dir (step_from s), VPath_join dir (step_to s))) ss =
     map (\<lambda>s. (VPath_join dir (step_from s), VPath_join dir (step_to s))) ts"
  by (induction ss ts rule: list_all2_induct) (auto simp: same_step_def)

lemma ran_to_paths: "ran (to_paths dir d) = ran d"
proof
  show "ran (to_paths dir d) \<subseteq> ran d" by (auto simp: ran_def to_paths_def split: if_splits)
  show "ran d \<subseteq> ran (to_paths dir d)"
  proof
    fix f
    assume "f \<in> ran d"
    then obtain n where "d n = Some f" by (auto simp: ran_def)
    then have "to_paths dir d (VPath_join dir n) = Some f" by simp
    then show "f \<in> ran (to_paths dir d)" by (rule ranI)
  qed
qed

lemma listing_names:
  assumes "set ps = dom e" "\<forall>p \<in> set ps. sibling_of dir p" "list_base_names (map Inr ps) [] = Inr names"
  shows "set names = dom (\<lambda>n. e (VPath_join dir n))" "e = to_paths dir (\<lambda>n. e (VPath_join dir n))"
proof -
  have names: "set names = (\<lambda>p. last (segments p)) ` dom e" using list_base_names_siblings [OF assms(2,3)] assms(1) by simp
  have join: "VPath_join dir (last (segments p)) = p" if "sibling_of dir p" for p using that by (rule sibling_ofE) (simp add: VPath_join_def)
  show e: "e = to_paths dir (\<lambda>n. e (VPath_join dir n))"
  proof
    fix p
    show "e p = to_paths dir (\<lambda>n. e (VPath_join dir n)) p"
      using join [of p] assms(1,2) by (cases "e p") (auto simp: to_paths_def)
  qed
  show "set names = dom (\<lambda>n. e (VPath_join dir n))"
    unfolding names
  proof (intro set_eqI iffI)
    fix n
    assume "n \<in> (\<lambda>p. last (segments p)) ` dom e"
    then obtain p where p: "n = last (segments p)" "p \<in> dom e" by blast
    then have "VPath_join dir n = p" using join [of p] assms(1,2) by simp
    with p(2) show "n \<in> dom (\<lambda>n. e (VPath_join dir n))" by (simp add: domIff)
  next
    fix n
    assume "n \<in> dom (\<lambda>n. e (VPath_join dir n))"
    then have "VPath_join dir n \<in> dom e" by auto
    from imageI [OF this, of "\<lambda>p. last (segments p)"] show "n \<in> (\<lambda>p. last (segments p)) ` dom e"
      by (simp add: VPath_join_def)
  qed
qed

lemma gate_paths_set: "set (gate_paths ss) = fst ` step_move ` set ss \<union> snd ` step_move ` set ss"
  by (auto simp: gate_paths_def step_move_def image_image)

lemma exec_run_touches:
  assumes "snd (world x) = []" "exec_run (logged sv) cancel ss x = (x', r)"
  shows "touches (step_move ` set ss) (world x')"
  by (rule logged.run_batch_good [OF _ _ _ assms(2) [unfolded exec_run_def]]) (simp_all add: touches_def assms(1))

lemma gate_within:
  assumes "engine_gate (ScopedPolicy_evaluate reg cfg now) answer source ready (Agent sess) op paths = Inr ()" "p \<in> set paths"
  shows "permits reg sess op p now = Within"
proof (rule ccontr)
  assume "permits reg sess op p now \<noteq> Within"
  with scoped_boundary_denies [of "Agent sess" sess p paths reg op now cfg] assms(2)
  obtain d where "ScopedPolicy_evaluate reg cfg now (Agent sess) op paths = Deny d" by (auto simp: scope_key_def)
  with assms(1) show False unfolding scoped.gate_ok_iff scoped.check_ok_iff by simp
qed

lemma classify_one:
  assumes "f \<in> set names" "f \<noteq> t"
  shows "fst (classify key [(f, t)] (Listing_index key names)) =
    [\<lparr>w_index = 0, w_from = f, w_to = t, w_from_key = key f, w_to_key = key t\<rparr>]"
proof -
  have "resolve (Listing_index key names) f (key f) = One f"
    using listing_okD(1) [OF listing_ok_index] assms(1) by (simp add: resolve_def)
  then show ?thesis using assms(2) by (simp add: classify_def classify_pair_def classifier_new_def Let_def)
qed

lemma order_one:
  assumes "w_from_key w = w_to_key w"
  shows "order key [w] taken tag = Some [move_step w]"
proof -
  have "dependencies [w] = ([None], [False])"
    using assms by (simp add: dependencies_def block_entry_def source_index_def)
  then show ?thesis by (simp add: order_def run_chain_def)
qed

lemma case_only_plan:
  assumes "f \<noteq> t" "name_key u f mode = name_key u t mode" "f \<in> set names"
    and "\<forall>n \<in> set names. name_key u n mode = name_key u f mode \<longrightarrow> n = f" "plan_batch u sha mode [(f, t)] names = Some p"
  shows "executable p \<and> steps p = [\<lparr>step_from = f, step_to = t, step_temp = False, step_pair = pair_index 0\<rparr>]"
proof -
  let ?key = "\<lambda>name. name_key u name mode"
  have one: "moving ?key (set names) [(f, t)] = [(f, t)]"
    using assms(1,3) by (auto simp: moving_def meant_def)
  have m: "meant ?key (set names) f f" using assms(3) by (simp add: meant_def)
  have "e = f" if "e \<in> set names" "?key e = ?key t" for e using that assms(2,4) by auto
  then have "acceptable ?key (set names) [(f, t)]" using m unfolding acceptable_def one by simp blast
  then have ex: "executable p" using plan_batch_executable(1) [OF assms(5)] by simp
  let ?w = "\<lparr>w_index = 0, w_from = f, w_to = t, w_from_key = ?key f, w_to_key = ?key t\<rparr>"
  have "steps p = [move_step ?w]"
    using assms(5)
  proof (cases rule: plan_batch_cases)
    case refused
    with ex show ?thesis by (simp add: executable_def)
  next
    case (accepted ws)
    then have "ws = [?w]" using classify_one [OF assms(3,1), of ?key] by simp
    with accepted(3) order_one [of ?w ?key] assms(2) show ?thesis by simp
  qed
  with ex show ?thesis by (simp add: move_step_def)
qed

section \<open>An instance\<close>

definition shift_pairs :: "(bytes \<times> bytes) list" where
  "shift_pairs = [(''b'', ''a''), (''a'', ''c'')]"

definition shift_works :: "work list" where
  "shift_works = [\<lparr>w_index = 0, w_from = ''b'', w_to = ''a'', w_from_key = ''b'', w_to_key = ''a''\<rparr>,
     \<lparr>w_index = 1, w_from = ''a'', w_to = ''c'', w_from_key = ''a'', w_to_key = ''c''\<rparr>]"

definition shift_steps :: "rename_step list" where
  "shift_steps = [\<lparr>step_from = ''a'', step_to = ''c'', step_temp = False, step_pair = 1\<rparr>,
     \<lparr>step_from = ''b'', step_to = ''a'', step_temp = False, step_pair = 0\<rparr>]"

lemma shift_classified:
  "classify (\<lambda>name. name_key ascii_tables name FoldNone) shift_pairs
     (Listing_index (\<lambda>name. name_key ascii_tables name FoldNone) [''a'', ''b'']) = (shift_works, [])"
  by code_simp

lemma shift_ordered:
  "order (\<lambda>name. name_key ascii_tables name FoldNone) shift_works
     taken tag = Some shift_steps"
proof -
  have d: "dependencies shift_works = ([None, Some 0], [True, False])" by code_simp
  have i: "pair_index 0 = 0" "pair_index (Suc 0) = Suc 0" by (simp_all add: pair_index_def)
  have f: "fold (run_chain shift_works [None, Some 0]) [(0, True), (1, False)] ([], [False, False]) = (shift_steps, [True, True])"
    by (simp add: run_chain_def shift_works_def move_step_def shift_steps_def i)
  have "length shift_works = 2" "[0..<2] = [0, 1]" by (simp_all add: shift_works_def upt_rec)
  with f show ?thesis by (simp add: order_def d numeral_2_eq_2)
qed

lemma shift_plan:
  "plan_batch ascii_tables sha FoldNone shift_pairs [''a'', ''b''] =
     Some \<lparr>steps = shift_steps, collisions = [], hash = plan_hash sha FoldNone shift_steps []\<rparr>"
  by (simp add: plan_batch_def shift_classified shift_ordered)

definition shift_planning :: planning where
  "shift_planning = \<lparr>pl_provider = Inr (), pl_list = Inr [Inr (photo ''a''), Inr (photo ''b'')], pl_capabilities = Inr (caps mem_new)\<rparr>"

definition shift_dir_plan :: "(bytes \<Rightarrow> bytes) \<Rightarrow> dir_plan" where
  "shift_dir_plan sha = DirPlan_bind sha photos \<lparr>steps = shift_steps, collisions = [], hash = plan_hash sha FoldNone shift_steps []\<rparr>"

lemma shift_plan_for: "plan_for ascii_tables sha shift_planning photos shift_pairs = Inr (shift_dir_plan sha)"
proof -
  have "list_base_names [Inr (photo ''a''), Inr (photo ''b'')] [] = Inr [''a'', ''b'']"
    by (simp add: RENAME_BATCH_MAX_LISTING_def file_name_def)
  moreover have "fold_mode_of (caps mem_new) = FoldNone" "READ_ONLY \<notin> cap_flags (caps mem_new)"
    by (simp_all add: mem_new_def fold_mode_of_def)
  moreover have "length shift_pairs \<le> FS_RENAME_BATCH_MAX_PAIRS"
    by (simp add: shift_pairs_def FS_RENAME_BATCH_MAX_PAIRS_def)
  moreover have "\<not> list_ex (\<lambda>(f, t). \<not> is_ok (Segment_new f) \<or> \<not> is_ok (Segment_new t)) shift_pairs" by code_simp
  ultimately show ?thesis
    by (simp add: plan_for_def shift_planning_def shift_plan shift_dir_plan_def)
qed

definition shift_moves :: "planned_step list" where
  "shift_moves = [photo_step ''a'' ''c'' 1, photo_step ''b'' ''a'' 0]"

lemma shift_absolute: "try_map (absolute photos) shift_steps = Inr shift_moves"
  by code_simp

lemma shift_accepted:
  assumes "gate a Move (gate_paths shift_moves) = Inr ()"
  shows "rename_batch_as ascii_tables sha shift_planning gate source opened photos shift_pairs (dp_hash (shift_dir_plan sha)) a =
    Inr \<lparr>bt_steps = shift_moves, bt_recorder = choose_recorder source opened, bt_actor = a\<rparr>"
proof -
  have "steps (dp_plan (shift_dir_plan sha)) = shift_steps" "executable (dp_plan (shift_dir_plan sha))"
    by (simp_all add: shift_dir_plan_def DirPlan_bind_def executable_def)
  with assms shift_absolute show ?thesis by (simp add: rename_batch_as_def shift_plan_for)
qed

lemma shift_runs: "snd (exec_run photo_volume (\<lambda>_. False) shift_moves (started (photo_world no_faults) ())) = Inr ()"
  by code_simp

definition flat_sha :: "bytes \<Rightarrow> bytes" where
  "flat_sha bs = replicate 32 (CHR ''0'')"

lemma shift_caps: "pl_capabilities shift_planning = Inr (caps mem_new)"
  by (simp add: shift_planning_def)

lemma shift_shown:
  "vpath_ok photos" "length (to_wire photos) < 2 ^ 64" "plan_small (dp_plan (shift_dir_plan sha))"
proof -
  show "vpath_ok photos" by code_simp
  have "to_wire photos = ''mem:///p''" by code_simp
  then show "length (to_wire photos) < 2 ^ 64" by simp
  show "plan_small (dp_plan (shift_dir_plan sha))"
    by (simp add: plan_small_def shift_dir_plan_def DirPlan_bind_def shift_steps_def step_small_def)
qed

lemma photo_listing:
  "set [photo ''a'', photo ''b''] = dom (mem_entry photos (photo_world fs))" "\<forall>p \<in> set [photo ''a'', photo ''b'']. sibling_of photos p"
  by (auto simp: photo_entries)

lemma photo_no_coarser: "no_coarser (\<lambda>name. name_key u name mode) (mem_key True) photos"
  unfolding no_coarser_def
proof (intro allI impI)
  fix m n
  assume "mem_key True (VPath_join photos m) = mem_key True (VPath_join photos n)"
  then have "m = n" by (simp add: mem_key_def fold_key_def VPath_join_def)
  then show "name_key u m mode = name_key u n mode" by simp
qed

lemma photo_good: "mem_good True photos (photo_world no_faults)"
  by code_simp

definition photo_scope :: scope_registry where
  "photo_scope = grant 0 ''claude'' (Scope_forever [photos] OpSet_all) (ScopeRegistry_new home_config None)"

definition photo_rule :: rule where
  "photo_rule = \<lparr>rule_op = None, path_prefix = Some ''mem:///p'', rule_scheme = None, rule_actor = Some ''agent'', action = RuleAllow\<rparr>"

lemma photo_gate:
  "engine_gate (ScopedPolicy_evaluate photo_scope [photo_rule] 0) (\<lambda>_. Denied) NoJournalSource Opened (Agent ''claude'') Move
     (gate_paths shift_moves) = Inr ()"
  by code_simp

lemmas photo_task = shift_accepted [of "engine_gate (ScopedPolicy_evaluate photo_scope [photo_rule] 0) (\<lambda>_. Denied) NoJournalSource Opened",
  OF photo_gate, of flat_sha NoJournalSource None]

definition folding_volume :: "(mem_world, unit) services" where
  "folding_volume = mem_services ascii_tables (volume \<lparr>cap_flags = {CASE_PRESERVING}, max_path = None\<rparr> []) silent True"

lemma folding_volume_contract:
  "rename_provider folding_volume (mem_good False photos) (sibling_of photos) (mem_entry photos) (mem_key False)"
proof -
  have "\<not> sensitive \<lparr>cap_flags = {CASE_PRESERVING}, max_path = None\<rparr>" by (simp add: sensitive_def)
  then show ?thesis using mem.rename_provider_axioms [of ascii_tables "\<lparr>cap_flags = {CASE_PRESERVING}, max_path = None\<rparr>" "[]" silent True photos]
    by (simp add: folding_volume_def)
qed

lemma upper_key: "name_key ascii_tables ''a'' Simple = name_key ascii_tables ''A'' Simple"
proof -
  have "from_utf8 ''A'' = None" "text_of ''A'' = [65]" "bytes_of [97] = ''a''" by code_simp+
  moreover have "fold_run ascii_tables Simple [65] = [97]"
    by (simp add: fold_run_def folding_changes_def folds_def ascii_tables_def fold_delta_def FOLD_DELTA_def)
  ultimately have "name_key ascii_tables ''A'' Simple = ''a''" by (simp add: name_key_def del: from_utf8.simps)
  then show ?thesis by simp
qed

section \<open>Properties\<close>

text \<open>C7: the plan that is executed is the plan that was approved. A digest that was shown for a plan of one directory
  and is accepted later, when the directory has been listed and planned again, lets exactly the renames of the plan that
  was shown run, in that order and in that directory, and only if that plan was executable; or two of the texts that
  were digested collide.\<close>

theorem approved_plan_is_executed:
  assumes "\<forall>x. length (sha x) = 32" "vpath_ok dir" "vpath_ok dir'" "length (to_wire dir) < 2 ^ 64" "length (to_wire dir') < 2 ^ 64"
    and "rename_batch_plan_as u sha pl dir pairs a = Inr shown" "plan_small (dp_plan shown)"
    and "plan_for u sha pl' dir' pairs' = Inr again" "plan_small (dp_plan again)"
    and "rename_batch_as u sha pl' gate source opened dir' pairs' (dp_hash shown) a' = Inr task"
    and "pl_capabilities pl = Inr c" "pl_capabilities pl' = Inr c'"
  shows "collide sha (bind_input dir (dp_plan shown)) (bind_input dir' (dp_plan again)) \<or>
    collide sha (plan_text (fold_mode_of c) (dp_plan shown)) (plan_text (fold_mode_of c') (dp_plan again)) \<or>
    dir' = dir \<and> executable (dp_plan shown) \<and> map step_move (bt_steps task) = plan_moves dir (dp_plan shown)"
proof -
  let ?p = "dp_plan shown" and ?q = "dp_plan again"
  let ?m = "fold_mode_of c" and ?m' = "fold_mode_of c'"
  have p: "shown = DirPlan_bind sha dir ?p" "hash ?p = sha (plan_text ?m ?p)"
    using plan_for_bound [OF assms(6) [unfolded rename_batch_plan_as_def] assms(11)] by blast+
  have q: "again = DirPlan_bind sha dir' ?q" "hash ?q = sha (plan_text ?m' ?q)"
    using plan_for_bound [OF assms(8,12)] by blast+
  obtain plan where run: "plan_for u sha pl' dir' pairs' = Inr plan" "dp_hash plan = dp_hash shown" "executable (dp_plan plan)"
    "try_map (absolute dir') (steps (dp_plan plan)) = Inr (bt_steps task)"
    using rename_batch_as_Inr [OF assms(10)] by metis
  then have plan: "plan = again" using assms(8) by simp
  have sha: "sha (bind_input dir ?p) = sha (bind_input dir' ?q)"
    using run(2) p(1) q(1) plan hex_lower_inj unfolding DirPlan_bind_def by (metis dir_plan.select_convs(2))
  show ?thesis
  proof (cases "bind_input dir ?p = bind_input dir' ?q \<and> plan_text ?m ?p = plan_text ?m' ?q")
    case True
    from bind_input_inj [OF conjunct1 [OF True] assms(2-5)] p(2) q(2) assms(1) have "dir = dir'" by simp
    moreover have "list_all2 same_step (steps ?p) (steps ?q) \<and> collisions ?p = collisions ?q"
      using plan_hash_input_split [OF conjunct2 [OF True, unfolded plan_text_def]] assms(7,9) by (simp add: plan_small_def)
    ultimately show ?thesis using same_step_moves [of "steps ?p" "steps ?q" dir] run(3) plan absolute_moves [OF run(4)]
      by (simp add: executable_def plan_moves_def)
  next
    case False
    moreover have "hash ?p = hash ?q" if "bind_input dir ?p = bind_input dir' ?q"
      using bind_input_inj [OF that assms(2-5)] p(2) q(2) assms(1) by simp
    ultimately show ?thesis using sha p(2) q(2) unfolding collide_def by metis
  qed
qed

theorem approved_plan_is_executed_witness:
  "\<exists>task. rename_batch_as ascii_tables flat_sha shift_planning (\<lambda>_ _ _. Inr ()) NoJournalSource None photos shift_pairs
       (dp_hash (shift_dir_plan flat_sha)) User = Inr task \<and>
     map step_move (bt_steps task) = plan_moves photos (dp_plan (shift_dir_plan flat_sha))"
proof -
  have shown: "rename_batch_plan_as ascii_tables flat_sha shift_planning photos shift_pairs User = Inr (shift_dir_plan flat_sha)"
    by (simp add: rename_batch_plan_as_def shift_plan_for)
  have sha: "\<forall>x. length (flat_sha x) = 32" by (simp add: flat_sha_def)
  note run = shift_accepted [of "\<lambda>_ _ _. Inr ()" User flat_sha NoJournalSource None, OF refl]
  from approved_plan_is_executed [OF sha shift_shown(1,1,2,2) shown shift_shown(3) shift_plan_for shift_shown(3) run shift_caps shift_caps] run
  show ?thesis by (auto simp: collide_def)
qed

text \<open>C1: end to end, an approved batch does what was asked. Let the provider keep its contract, let its listing be truthful
  and let its equality of names be no coarser than the one its capabilities declare. If the engine accepts the batch and
  the task returns success, then every file that a pair named carries its new name, every other file its old one, and no
  file is lost, whatever chains and cycles the pairs form.\<close>

theorem approved_batch_correct:
  assumes "rename_provider sv good (sibling_of dir) entry key" "good (world x)"
    and "unicode_ascii u" "pl_capabilities pl = Inr c" "no_coarser (\<lambda>name. name_key u name (fold_mode_of c)) key dir"
    and "pl_list pl = Inr (map Inr ps)" "set ps = dom (entry (world x))" "\<forall>p \<in> set ps. sibling_of dir p"
    and "rename_batch_as u sha pl gate source opened dir pairs approved a = Inr task"
    and "exec_run sv cancel (bt_steps task) x = (x', Inr v)"
  shows "requested (\<lambda>name. name_key u name (fold_mode_of c)) pairs
      (\<lambda>n. entry (world x) (VPath_join dir n)) (\<lambda>n. entry (world x') (VPath_join dir n)) \<and>
    ran (entry (world x')) = ran (entry (world x))"
proof -
  obtain plan where run: "plan_for u sha pl dir pairs = Inr plan" "executable (dp_plan plan)"
    "try_map (absolute dir) (steps (dp_plan plan)) = Inr (bt_steps task)"
    using rename_batch_as_Inr [OF assms(9)] by metis
  obtain names p where p: "list_base_names (map Inr ps) [] = Inr names" "plan_batch u sha (fold_mode_of c) pairs names = Some p"
      "plan = DirPlan_bind sha dir p" "length names + 2 * length pairs + 1 < 2 ^ 32"
    using plan_for_Inr [OF run(1)] assms(4,6) by (metis sum.inject(2))
  let ?d = "\<lambda>n. entry (world x) (VPath_join dir n)"
  have names: "set names = dom ?d" and e: "entry (world x) = to_paths dir ?d"
    using listing_names [OF assms(7,8) p(1)] by simp_all
  obtain d' where "entry (world x') = to_paths dir d'" "requested (\<lambda>name. name_key u name (fold_mode_of c)) pairs ?d d'" "ran d' = ran ?d"
    using exec_run_plan [OF assms(1,5,3) names p(4,2) _ _ assms(2) e assms(10)] run(2,3) p(3) by (auto simp: DirPlan_bind_def)
  then show ?thesis using ran_to_paths [of dir d'] ran_to_paths [of dir ?d] e by simp
qed

theorem approved_batch_correct_witness:
  "\<exists>x'. exec_run photo_volume (\<lambda>_. False) shift_moves (started (photo_world no_faults) ()) = (x', Inr ()) \<and>
     mem_entry photos (world x') (photo ''c'') = Some 2 \<and> mem_entry photos (world x') (photo ''a'') = Some 3"
proof -
  let ?x = "started (photo_world no_faults) ()"
  obtain x' where run: "exec_run photo_volume (\<lambda>_. False) shift_moves ?x = (x', Inr ())"
    using shift_runs by (cases "exec_run photo_volume (\<lambda>_. False) shift_moves ?x") auto
  have w: "world ?x = photo_world no_faults" by (simp add: started_def)
  have good: "mem_good True photos (world ?x)" unfolding w by (rule photo_good)
  note task = shift_accepted [of "\<lambda>_ _ _. Inr ()" User flat_sha NoJournalSource None, OF refl]
  have list: "pl_list shift_planning = Inr (map Inr [photo ''a'', photo ''b''])" by (simp add: shift_planning_def)
  have dom: "set [photo ''a'', photo ''b''] = dom (mem_entry photos (world ?x))" unfolding w by (rule photo_listing)
  let ?task = "\<lparr>bt_steps = shift_moves, bt_recorder = choose_recorder NoJournalSource None, bt_actor = User\<rparr>"
  let ?key = "\<lambda>name. name_key ascii_tables name (fold_mode_of (caps mem_new))"
  let ?d = "\<lambda>n. mem_entry photos (world ?x) (VPath_join photos n)" and ?d' = "\<lambda>n. mem_entry photos (world x') (VPath_join photos n)"
  have run': "exec_run photo_volume (\<lambda>_. False) (bt_steps ?task) ?x = (x', Inr ())" using run by simp
  have req: "requested ?key shift_pairs ?d ?d'"
    using approved_batch_correct [OF photo_volume_contract good ascii_tables_ok(1) shift_caps photo_no_coarser list
        dom photo_listing(2) task run'] by blast
  have d: "?d = [''a'' \<mapsto> 2, ''b'' \<mapsto> 3]" by (auto simp: w photo_entries photo_def)
  have "meant ?key {''a'', ''b''} ''a'' ''a''" "meant ?key {''a'', ''b''} ''b'' ''b''" by (simp_all add: meant_def)
  moreover have "dom ?d = {''a'', ''b''}" by (auto simp: d)
  moreover have "?d ''a'' = Some 2" "?d ''b'' = Some 3" using fun_cong [OF d] by simp_all
  ultimately have "?d' ''c'' = Some 2" "?d' ''a'' = Some 3"
    using spec [OF spec [OF req [unfolded requested_def shift_pairs_def], of "''c''"], of 2]
      spec [OF spec [OF req [unfolded requested_def shift_pairs_def], of "''a''"], of 3] by auto
  with run show ?thesis by (auto simp: photo_def)
qed

text \<open>C8: an agent's batch stays in its scope. When the engine accepts a batch of an agent under the scoped policy, every
  rename that the executor then asks of the provider, on the way forward and on the way back, for every outcome and
  cancellation, is between names of the directory, and neither path is protected or outside the live scopes that allow
  the agent to move.\<close>

theorem batch_within_scope:
  assumes "rename_batch_as u sha pl (engine_gate (ScopedPolicy_evaluate reg cfg now) answer source ready) source opened dir
      pairs approved (Agent sess) = Inr task"
    and "exec_run (logged sv) cancel (bt_steps task) x = (x', r)" "snd (world x) = []" "(a, b) \<in> set (snd (world x'))" "p \<in> {a, b}"
  shows "(\<exists>n. p = VPath_join dir n) \<and> \<not> is_protected reg p \<and>
    (\<exists>sc \<in> set (live_scopes reg sess now). op_allows (ops sc) Move \<and> covers_path sc p)"
proof -
  let ?M = "step_move ` set (bt_steps task)"
  obtain plan :: dir_plan where run: "try_map (absolute dir) (steps (dp_plan plan)) = Inr (bt_steps task)"
      "engine_gate (ScopedPolicy_evaluate reg cfg now) answer source ready (Agent sess) Move (gate_paths (bt_steps task)) = Inr ()"
    by (rule rename_batch_as_Inr [OF assms(1)], rule that)
  have "touches ?M (world x')" by (rule exec_run_touches [OF assms(3,2)])
  then have ab: "(a, b) \<in> ?M \<or> (b, a) \<in> ?M" using assms(4) unfolding touches_def by fastforce
  obtain m where m: "m \<in> ?M" "p = fst m \<or> p = snd m"
  proof (cases "(a, b) \<in> ?M")
    case True
    show thesis by (rule that [OF True]) (use assms(5) in simp)
  next
    case False
    with ab have ba: "(b, a) \<in> ?M" by blast
    show thesis by (rule that [OF ba]) (use assms(5) in auto)
  qed
  then have p: "p \<in> set (gate_paths (bt_steps task))" unfolding gate_paths_set by blast
  have "?M = set (map (\<lambda>s. (VPath_join dir (step_from s), VPath_join dir (step_to s))) (steps (dp_plan plan)))"
    using absolute_moves [OF run(1)] by (metis list.set_map)
  then have "\<exists>n. p = VPath_join dir n" using m by auto
  with gate_within [OF run(2) p] show ?thesis unfolding permits.Within_iff by blast
qed

theorem batch_within_scope_witness:
  "\<not> is_protected photo_scope (photo ''c'') \<and>
   (\<exists>sc \<in> set (live_scopes photo_scope ''claude'' 0). op_allows (ops sc) Move \<and> covers_path sc (photo ''c''))"
proof -
  let ?run = "exec_run (logged photo_volume) (\<lambda>_. False) shift_moves (started (photo_world no_faults, []) ())"
  have calls: "snd (world (fst ?run)) = [(photo ''a'', photo ''c''), (photo ''b'', photo ''a'')]" by code_simp
  obtain x' r where run: "?run = (x', r)" by fastforce
  show ?thesis
    using batch_within_scope [OF photo_task, of photo_volume "\<lambda>_. False" "started (photo_world no_faults, []) ()" x' r
        "photo ''a''" "photo ''c''" "photo ''c''"] run calls by (simp add: started_def)
qed

text \<open>C39: a change of spelling alone is planned and never succeeds. On a volume that takes two spellings for one name the
  planner grants the pair as one rename, but a provider that renames without overwriting refuses it, because the
  destination is the file itself: the batch always fails.\<close>

theorem case_only_rename_fails:
  assumes "rename_provider sv good (sibling_of dir) entry key" "good (world x)" "entry (world x) (VPath_join dir f) \<noteq> None"
    and "f \<noteq> t" "name_key u f mode = name_key u t mode" "key (VPath_join dir f) = key (VPath_join dir t)"
    and "f \<in> set names" "\<forall>n \<in> set names. name_key u n mode = name_key u f mode \<longrightarrow> n = f"
    and "plan_batch u sha mode [(f, t)] names = Some p" "try_map (absolute dir) (steps p) = Inr ps"
  shows "executable p \<and> map step_move ps = [(VPath_join dir f, VPath_join dir t)] \<and>
    (\<exists>e. snd (exec_run sv cancel ps x) = Inl e)"
proof -
  note p = case_only_plan [OF assms(4,5,7,8,9)]
  then obtain s where s: "ps = [s]" "step_move s = (VPath_join dir f, VPath_join dir t)"
    using absolute_moves [OF assms(10)] by auto
  obtain w r where ren: "sv_rename sv (world x) (VPath_join dir f) (VPath_join dir t) = (w, r)" by fastforce
  obtain e where "r = Inl e"
    using rename_provider.same_name_refused [OF assms(1,2) sibling_of_join sibling_of_join _ assms(3,6) ren] assms(4) by auto
  then have "\<exists>e. snd (exec_run sv cancel ps x) = Inl e"
    using s ren by (auto simp: exec_run_def step_move_def split: prod.splits option.splits)
  with p s show ?thesis by simp
qed

theorem case_only_rename_fails_witness:
  "\<exists>p ps. plan_batch ascii_tables flat_sha Simple [(''a'', ''A'')] [''a'', ''b''] = Some p \<and> executable p \<and>
     try_map (absolute photos) (steps p) = Inr ps \<and>
     (\<exists>e. snd (exec_run folding_volume (\<lambda>_. False) ps (started (photo_world no_faults) ())) = Inl e)"
proof -
  have len: "length [''a'', ''b''] + 2 * length [(''a'', ''A'')] + 1 < 2 ^ 32" by simp
  from plan_batch_answers [OF ascii_tables_ok(1) len]
  obtain p where p: "plan_batch ascii_tables flat_sha Simple [(''a'', ''A'')] [''a'', ''b''] = Some p" .
  have only: "\<forall>n \<in> set [''a'', ''b'']. name_key ascii_tables n Simple = name_key ascii_tables ''a'' Simple \<longrightarrow> n = ''a''" by simp
  have "steps p = [\<lparr>step_from = ''a'', step_to = ''A'', step_temp = False, step_pair = pair_index 0\<rparr>]"
    using case_only_plan [OF _ upper_key _ only p] by simp
  moreover have "Segment_new ''a'' = Inr ''a''" "Segment_new ''A'' = Inr ''A''" by code_simp+
  ultimately obtain ps where ps: "try_map (absolute photos) (steps p) = Inr ps" by (simp add: absolute_def)
  have good: "mem_good False photos (world (started (photo_world no_faults) ()))" by code_simp
  have key: "mem_key False (VPath_join photos ''a'') = mem_key False (VPath_join photos ''A'')" by code_simp
  have entry: "mem_entry photos (world (started (photo_world no_faults) ())) (VPath_join photos ''a'') \<noteq> None"
    by (simp add: started_def photo_entries photo_def)
  from case_only_rename_fails [OF folding_volume_contract good entry _ upper_key key _ only p ps, of "\<lambda>_. False"] p ps
  show ?thesis by auto
qed

end
