(* ===== verification/Undo_Batch.thy ===== *)
theory Undo_Batch
  imports Rename_Approval
begin

text \<open>
  Undoing a batch of renames, \<^verbatim>\<open>norte-core/src/undo.rs\<close>: the entries an undo has selected are grouped into units,
  one per batch; a unit of renames is inverted, checked as a whole against the listing of its directory and run
  by the executor of \<open>Rename_Exec\<close>, each step as the compensation of its entry. The shapes that tell the kinds of
  units apart and the check against what another undo has done meanwhile are here too.
\<close>

section \<open>Units\<close>

definition undo_wire :: "bytes \<Rightarrow> proto_error + vpath" where
  "undo_wire bs =
     (if from_utf8 bs \<noteq> None then Inl E_InvalidPath
      else case VPath_parse bs of Inl _ \<Rightarrow> Inl E_InvalidPath | Inr p \<Rightarrow> Inr p)"

datatype reverted =
    RDone
  | SkippedIrreversible
  | SkippedNoTrash
  | SkippedNotOurs
  | Blocked int proto_error
  | Accounted
  | Stuck int proto_error

text \<open>\<open>at\<close> says where the unit of a batch is.\<close>

fun undo_units_loop :: "journal_entry list \<Rightarrow> journal_entry list list \<Rightarrow> (int \<rightharpoonup> nat) \<Rightarrow> journal_entry list list" where
  "undo_units_loop [] units at = units"
| "undo_units_loop (e # es) units at =
     (case e_batch_id e of
        Some b \<Rightarrow>
          (case at b of
             Some i \<Rightarrow> undo_units_loop es (units[i := units ! i @ [e]]) at
           | None \<Rightarrow> undo_units_loop es (units @ [[e]]) (at(b \<mapsto> length units)))
      | None \<Rightarrow> undo_units_loop es (units @ [[e]]) at)"

definition undo_units :: "journal_entry list \<Rightarrow> journal_entry list list" where
  "undo_units es = undo_units_loop es [] (\<lambda>_. None)"

definition is_sync_unit :: "journal_entry list \<Rightarrow> bool" where
  "is_sync_unit unit \<longleftrightarrow> unit \<noteq> [] \<and> list_all (\<lambda>e. e_batch_id e \<noteq> None \<and>
     e_op e \<in> {''created'', ''trashed'', ''removed''} \<and>
     e_reversal e \<in> {''delete'', ''restore_trash'', ''irreversible''}) unit"

definition OP_ORGANIZED :: bytes where
  "OP_ORGANIZED = ''organized''"

definition is_organize_unit :: "journal_entry list \<Rightarrow> bool" where
  "is_organize_unit unit \<longleftrightarrow> unit \<noteq> [] \<and> list_ex (\<lambda>e. e_op e = OP_ORGANIZED) unit \<and>
     list_all (\<lambda>e. e_batch_id e \<noteq> None \<and> e_op e \<in> {OP_ORGANIZED, ''created''} \<and>
       e_reversal e \<in> {''rename_back'', ''delete'', ''irreversible''}) unit"

definition is_mode_unit :: "journal_entry list \<Rightarrow> bool" where
  "is_mode_unit unit \<longleftrightarrow> unit \<noteq> [] \<and> list_all (\<lambda>e. e_batch_id e \<noteq> None \<and> e_op e = ''mode_changed'') unit"

datatype validity =
    Whole "journal_entry list"
  | Undone
  | InPart "journal_entry list"
  | Stop int

definition validity_of :: "journal_entry list \<Rightarrow> int set \<Rightarrow> validity" where
  "validity_of unit already_undone =
     (let how_many = length (filter (\<lambda>e. e_seq e \<in> already_undone) unit)
      in if how_many = 0 then Whole unit
         else if how_many = length unit then Undone
         else if is_sync_unit unit \<or> is_organize_unit unit \<or> is_mode_unit unit
           then InPart (filter (\<lambda>e. e_seq e \<notin> already_undone) unit)
         else Stop (case unit of [] \<Rightarrow> 0 | e # _ \<Rightarrow> e_seq e))"

section \<open>The inverse of a batch\<close>

record inverse =
  iv_from :: bytes
  iv_to :: bytes
  iv_seq :: int

fun inverse_chain :: "journal_entry list \<Rightarrow> vpath \<Rightarrow> reverted + inverse list" where
  "inverse_chain [] dir = Inr []"
| "inverse_chain (e # es) dir =
     (let bad = Inl (Blocked (e_seq e) E_InvalidPath)
      in if e_reversal e \<noteq> reversal_as_str RenameBack then Inl (Blocked (e_seq e) E_Unsupported)
         else case (undo_wire (e_path e), e_path_to e) of
           (Inr now, Some path_to) \<Rightarrow>
             (case undo_wire path_to of
                Inl _ \<Rightarrow> bad
              | Inr before \<Rightarrow>
                  if parent now \<noteq> Some dir \<or> parent before \<noteq> Some dir then bad
                  else case (file_name now, file_name before) of
                    (Some f, Some t) \<Rightarrow>
                      and_then (inverse_chain es dir) (\<lambda>steps. Inr (\<lparr>iv_from = f, iv_to = t, iv_seq = e_seq e\<rparr> # steps))
                  | _ \<Rightarrow> bad)
         | _ \<Rightarrow> bad)"

text \<open>The simulation of \<^verbatim>\<open>feasible\<close>: the exact names that are present, and how many of them share a key.\<close>

definition add_key :: "bytes \<Rightarrow> (bytes \<rightharpoonup> nat) \<Rightarrow> bytes \<rightharpoonup> nat" where
  "add_key k keys = keys(k \<mapsto> (case keys k of None \<Rightarrow> 0 | Some n \<Rightarrow> n) + 1)"

definition drop_key :: "bytes \<Rightarrow> (bytes \<rightharpoonup> nat) \<Rightarrow> bytes \<rightharpoonup> nat" where
  "drop_key k keys =
     (case keys k of
        None \<Rightarrow> keys
      | Some n \<Rightarrow> if n - 1 = 0 then keys(k := None) else keys(k \<mapsto> n - 1))"

fun feasible_from :: "(bytes \<Rightarrow> bytes) \<Rightarrow> nat \<Rightarrow> inverse list \<Rightarrow> bytes set \<Rightarrow> (bytes \<rightharpoonup> nat) \<Rightarrow> (nat \<times> proto_error) + unit" where
  "feasible_from key i [] names keys = Inr ()"
| "feasible_from key i (s # ss) names keys =
     (let fk = key (iv_from s); tk = key (iv_to s)
      in if keys fk = None then Inl (i, E_NotFound)
         else if iv_from s = iv_to s then feasible_from key (i + 1) ss names keys
         else if iv_to s \<in> names then Inl (i, E_Conflict Exists)
         else feasible_from key (i + 1) ss (insert (iv_to s) (names - {iv_from s}))
           (if fk = tk then keys else add_key tk (drop_key fk keys)))"

definition feasible :: "(bytes \<Rightarrow> bytes) \<Rightarrow> inverse list \<Rightarrow> bytes list \<Rightarrow> (nat \<times> proto_error) + unit" where
  "feasible key ss listing = feasible_from key 0 ss (set listing) (fold (\<lambda>n. add_key (key n)) listing (\<lambda>_. None))"

definition inverse_step :: "vpath \<Rightarrow> nat \<times> inverse \<Rightarrow> proto_error + planned_step" where
  "inverse_step dir = (\<lambda>(i, s).
     case (Segment_new (iv_from s), Segment_new (iv_to s)) of
       (Inr f, Inr t) \<Rightarrow>
         if i < 2 ^ 32 then Inr \<lparr>ps_from = VPath_join dir f, ps_to = VPath_join dir t, ps_pair = i, ps_undoes = Some (iv_seq s)\<rparr>
         else Inl (E_LimitExceeded LIMIT_ENTRIES)
     | _ \<Rightarrow> Inl E_InvalidPath)"

section \<open>Reverting a batch\<close>

record undo_report =
  ur_undone :: nat
  ur_skipped_irreversible :: nat
  ur_skipped_created_no_trash :: nat
  ur_skipped_not_ours :: nat
  ur_blocked :: "(int \<times> proto_error) option"
  ur_denied :: "(int \<times> proto_error) list"
  ur_denied_total :: nat
  ur_batch_stuck :: "stuck_step option"
  ur_compensations_lost :: nat
  ur_unreverted_paths :: "bytes list"

definition undo_report_default :: undo_report where
  "undo_report_default = \<lparr>ur_undone = 0, ur_skipped_irreversible = 0, ur_skipped_created_no_trash = 0,
     ur_skipped_not_ours = 0, ur_blocked = None, ur_denied = [], ur_denied_total = 0, ur_batch_stuck = None,
     ur_compensations_lost = 0, ur_unreverted_paths = []\<rparr>"

definition interpret_outcome :: "proto_error + unit \<Rightarrow> batch_report \<Rightarrow> inverse list \<Rightarrow> int \<Rightarrow> undo_report \<Rightarrow>
    undo_report \<times> (proto_error + reverted)" where
  "interpret_outcome outcome snapshot ss fallback_seq rep =
     (let seq_of = (\<lambda>i. if i < length ss then iv_seq (ss ! i) else fallback_seq);
          rep = (if compensations_lost snapshot > 0
                 then rep\<lparr>ur_compensations_lost := ur_compensations_lost rep + compensations_lost snapshot\<rparr> else rep)
      in case stuck snapshot of
           Some s \<Rightarrow> (rep\<lparr>ur_batch_stuck := Some s\<rparr>, Inr (Stuck (seq_of (st_pair s)) (st_error s)))
         | None \<Rightarrow>
             (case outcome of
                Inr _ \<Rightarrow> (rep, Inr RDone)
              | Inl E_Cancelled \<Rightarrow> (rep, Inl E_Cancelled)
              | Inl e \<Rightarrow> (rep, Inr (Blocked (case failed_pair snapshot of None \<Rightarrow> fallback_seq | Some i \<Rightarrow> seq_of i) e))))"

text \<open>What an undo asks of a provider, and what it works on: the provider's state, the journal with the writes that
  were made to it so far, how often the cancellation was polled, and the report of the session. Whether a write reaches
  the disk, and the clock, are the sequence \<open>io\<close>.\<close>

record 'w undo_provider =
  up_rename :: "'w \<Rightarrow> vpath \<Rightarrow> vpath \<Rightarrow> 'w \<times> (proto_error + unit)"
  up_stat :: "'w \<Rightarrow> vpath \<Rightarrow> 'w \<times> (proto_error + unit)"
  up_capabilities_at :: "'w \<Rightarrow> vpath \<Rightarrow> 'w \<times> (proto_error + capabilities)"
  up_list :: "'w \<Rightarrow> vpath \<Rightarrow> 'w \<times> (proto_error + (proto_error + vpath) list)"

record 'w undo_state =
  us_world :: 'w
  us_journal :: journal
  us_calls :: nat
  us_polls :: nat
  us_report :: undo_report

definition undo_services :: "(bytes \<Rightarrow> bytes) \<Rightarrow> 'w undo_provider \<Rightarrow> ('w, batch_journal) services" where
  "undo_services sha p =
     \<lparr>sv_rename = up_rename p, sv_stat = up_stat p, sv_renamed = BatchJournal_renamed sha, sv_records = True\<rparr>"

definition undo_run :: "(bytes \<Rightarrow> bytes) \<Rightarrow> 'w undo_provider \<Rightarrow> (nat \<Rightarrow> bool \<times> int) \<Rightarrow> (nat \<Rightarrow> bool) \<Rightarrow> actor \<Rightarrow>
    planned_step list \<Rightarrow> 'w undo_state \<Rightarrow> ('w, batch_journal) exec_state \<times> (proto_error + unit)" where
  "undo_run sha p io cancel a planned st =
     (let (j, b) = alloc_batch (us_journal st)
      in exec_run (undo_services sha p) cancel planned
           \<lparr>world = us_world st,
            recorder = \<lparr>bj_journal = j, bj_actor = a, bj_batch = b, bj_io = io, bj_calls = us_calls st\<rparr>,
            report = report_default, progress = \<lparr>entries_total = None, entries_done = 0, current = None\<rparr>\<rparr>)"

text \<open>What is decided before anything is renamed: the directory, the inverse steps, and that they fit.\<close>

definition undo_directory :: "journal_entry \<Rightarrow> vpath option" where
  "undo_directory first = (case undo_wire (e_path first) of Inl _ \<Rightarrow> None | Inr p \<Rightarrow> parent p)"

definition undo_check :: "unicode \<Rightarrow> 'w undo_provider \<Rightarrow> journal_entry \<Rightarrow> vpath \<Rightarrow> inverse list \<Rightarrow> 'w \<Rightarrow> 'w \<times> (reverted + unit)" where
  "undo_check u p first dir ss w =
     (case up_capabilities_at p w dir of
        (w, Inl e) \<Rightarrow> (w, Inl (Blocked (e_seq first) e))
      | (w, Inr c) \<Rightarrow>
          if READ_ONLY \<in> cap_flags c then (w, Inl (Blocked (e_seq first) E_Unsupported))
          else case up_list p w dir of
            (w, answer) \<Rightarrow>
              (w, case and_then answer (\<lambda>items. list_base_names items []) of
                    Inl e \<Rightarrow> Inl (Blocked (e_seq first) e)
                  | Inr listing \<Rightarrow>
                      (case feasible (\<lambda>n. name_key u n (fold_mode_of c)) ss listing of
                         Inl (i, e) \<Rightarrow> Inl (Blocked (iv_seq (ss ! i)) e)
                       | Inr _ \<Rightarrow> Inr ())))"

definition revert_batch :: "unicode \<Rightarrow> (bytes \<Rightarrow> bytes) \<Rightarrow> 'w undo_provider \<Rightarrow> (nat \<Rightarrow> bool \<times> int) \<Rightarrow> (nat \<Rightarrow> bool) \<Rightarrow>
    journal_entry list \<Rightarrow> actor \<Rightarrow> 'w undo_state \<Rightarrow> 'w undo_state \<times> (proto_error + reverted)" where
  "revert_batch u sha p io cancel unit a st =
     (case unit of
        [] \<Rightarrow> (st, Inr RDone)
      | first # _ \<Rightarrow>
          (case undo_directory first of
             None \<Rightarrow> (st, Inr (Blocked (e_seq first) E_InvalidPath))
           | Some dir \<Rightarrow>
               (case inverse_chain unit dir of
                  Inl b \<Rightarrow> (st, Inr b)
                | Inr ss \<Rightarrow>
                    (case undo_check u p first dir ss (us_world st) of
                       (w, Inl b) \<Rightarrow> (st\<lparr>us_world := w\<rparr>, Inr b)
                     | (w, Inr _) \<Rightarrow>
                         (case try_map (inverse_step dir) (zip [0..<length ss] ss) of
                            Inl e \<Rightarrow> (st\<lparr>us_world := w\<rparr>, Inl e)
                          | Inr planned \<Rightarrow>
                              (let (x, outcome) = undo_run sha p io cancel a planned (st\<lparr>us_world := w\<rparr>);
                                   (rep, r) = interpret_outcome outcome (report x) ss (e_seq first) (us_report st)
                               in (st\<lparr>us_world := world x, us_journal := bj_journal (recorder x),
                                    us_calls := bj_calls (recorder x), us_report := rep\<rparr>, r)))))))"

end
