(* ===== verification/Undo_Restores.thy ===== *)
theory Undo_Restores
  imports Undo_Batch
begin

text \<open>
  Undoing a batch of renames puts every file back. The units an undo works on are the batches, whole; the inverse of
  a unit of renames is feasible whenever its moves are; and with a provider that keeps its contract the reverted batch
  leaves the directory as it was before the batch. The locale \<open>undoable\<close> extends the contract of \<open>rename_provider\<close> by
  the two questions an undo asks first.
\<close>

section \<open>Units are whole batches\<close>

definition in_batch :: "int \<Rightarrow> journal_entry \<Rightarrow> bool" where
  "in_batch b e \<longleftrightarrow> e_batch_id e = Some b"

function units_spec :: "journal_entry list \<Rightarrow> journal_entry list list" where
  "units_spec [] = []"
| "units_spec (e # es) =
     (case e_batch_id e of
        None \<Rightarrow> [e] # units_spec es
      | Some b \<Rightarrow> (e # filter (in_batch b) es) # units_spec (filter (\<lambda>x. \<not> in_batch b x) es))"
  by pat_completeness auto

termination units_spec
  by (relation "measure length") (auto simp: le_imp_less_Suc)

definition unplaced :: "(int \<rightharpoonup> nat) \<Rightarrow> journal_entry \<Rightarrow> bool" where
  "unplaced at e \<longleftrightarrow> (case e_batch_id e of None \<Rightarrow> True | Some b \<Rightarrow> at b = None)"

definition joins :: "(int \<rightharpoonup> nat) \<Rightarrow> nat \<Rightarrow> journal_entry \<Rightarrow> bool" where
  "joins at i e \<longleftrightarrow> (case e_batch_id e of None \<Rightarrow> False | Some b \<Rightarrow> at b = Some i)"

lemma undo_units_loop_spec:
  assumes "\<forall>b i. at b = Some i \<longrightarrow> i < length units"
  shows "undo_units_loop es units at =
    map (\<lambda>i. units ! i @ filter (joins at i) es) [0..<length units] @ units_spec (filter (unplaced at) es)"
  using assms
proof (induction es arbitrary: units at)
  case Nil
  then show ?case by (simp add: map_nth)
next
  case (Cons e es)
  let ?n = "length units"
  have none: "\<not> joins at ?n x" for x using Cons.prems by (auto simp: joins_def split: option.splits)
  show ?case
  proof (cases "e_batch_id e")
    case None
    have "undo_units_loop es (units @ [[e]]) at =
        map (\<lambda>i. (units @ [[e]]) ! i @ filter (joins at i) es) [0..<?n + 1] @ units_spec (filter (unplaced at) es)"
      using Cons.prems Cons.IH [of at "units @ [[e]]"] by (simp add: less_Suc_eq)
    also have "\<dots> = map (\<lambda>i. units ! i @ filter (joins at i) (e # es)) [0..<?n] @ [e] # units_spec (filter (unplaced at) es)"
      using None none by (simp add: joins_def nth_append)
    moreover have "unplaced at e" using None by (simp add: unplaced_def)
    ultimately show ?thesis using None by simp
  next
    case (Some b)
    show ?thesis
    proof (cases "at b")
      case there: (Some i)
      have "undo_units_loop es (units[i := units ! i @ [e]]) at =
          map (\<lambda>k. units[i := units ! i @ [e]] ! k @ filter (joins at k) es) [0..<?n] @ units_spec (filter (unplaced at) es)"
        using Cons.prems Cons.IH [of at "units[i := units ! i @ [e]]"] by simp
      moreover have "map (\<lambda>k. units[i := units ! i @ [e]] ! k @ filter (joins at k) es) [0..<?n] =
          map (\<lambda>k. units ! k @ filter (joins at k) (e # es)) [0..<?n]"
        using Cons.prems there Some by (intro map_cong refl) (auto simp: joins_def nth_list_update)
      moreover have "\<not> unplaced at e" using there Some by (simp add: unplaced_def)
      ultimately show ?thesis using there Some by simp
    next
      case new: None
      let ?at = "at(b \<mapsto> ?n)"
      have at: "\<forall>c i. ?at c = Some i \<longrightarrow> i < length (units @ [[e]])" using Cons.prems by (auto simp: less_Suc_eq)
      have same: "joins ?at k = joins at k" if "k < ?n" for k using that new by (auto simp: joins_def fun_eq_iff split: option.splits)
      have "\<not> joins at k e" for k using Some new by (simp add: joins_def)
      then have old: "map (\<lambda>k. units ! k @ filter (joins ?at k) es) [0..<?n] = map (\<lambda>k. units ! k @ filter (joins at k) (e # es)) [0..<?n]"
        by (intro map_cong refl) (simp add: same)
      have batch: "joins ?at ?n = in_batch b"
        using Cons.prems by (force simp: joins_def in_batch_def fun_eq_iff split: option.splits)
      have pt: "unplaced ?at x \<longleftrightarrow> unplaced at x \<and> \<not> in_batch b x" "in_batch b x \<Longrightarrow> unplaced at x" for x
        using new by (auto simp: unplaced_def in_batch_def split: option.splits)
      then have "unplaced ?at = (\<lambda>x. unplaced at x \<and> \<not> in_batch b x)" "(\<lambda>x. unplaced at x \<and> in_batch b x) = in_batch b" by auto
      then have rest: "filter (unplaced ?at) es = filter (\<lambda>x. \<not> in_batch b x) (filter (unplaced at) es)"
        "filter (in_batch b) (filter (unplaced at) es) = filter (in_batch b) es"
        by simp_all
      have "undo_units_loop es (units @ [[e]]) ?at =
          map (\<lambda>k. (units @ [[e]]) ! k @ filter (joins ?at k) es) [0..<?n + 1] @ units_spec (filter (unplaced ?at) es)"
        using Cons.IH [of ?at "units @ [[e]]", OF at] unfolding length_append by (simp only: length_append list.size One_nat_def add_Suc_right add_0_right)
      also have "\<dots> = map (\<lambda>k. units ! k @ filter (joins ?at k) es) [0..<?n] @ (e # filter (in_batch b) es) # units_spec (filter (unplaced ?at) es)"
        by (simp add: nth_append batch)
      moreover have "unplaced at e" using new Some by (simp add: unplaced_def)
      ultimately show ?thesis using new Some old rest by simp
    qed
  qed
qed

lemma undo_units_spec: "undo_units es = units_spec es"
proof -
  have "filter (unplaced (\<lambda>_. None)) es = es" by (simp add: unplaced_def split: option.splits)
  then show ?thesis using undo_units_loop_spec [of "\<lambda>_. None" "[]" es] by (simp add: undo_units_def)
qed

lemma units_spec_front:
  assumes "news \<noteq> []" "\<forall>e \<in> set news. in_batch b e" "\<forall>e \<in> set es. \<not> in_batch b e"
  shows "units_spec (news @ es) = news # units_spec es"
proof -
  obtain n ns where "news = n # ns" using assms(1) by (cases news) auto
  then show ?thesis using assms(2,3) by (simp add: in_batch_def filter_id_conv filter_empty_conv)
qed

section \<open>Feasibility\<close>

definition present :: "vpath \<Rightarrow> (vpath \<Rightarrow> 'f option) \<Rightarrow> bytes set" where
  "present dir d = {n. d (VPath_join dir n) \<noteq> None}"

definition keys_of :: "(bytes \<Rightarrow> bytes) \<Rightarrow> bytes set \<Rightarrow> bytes \<rightharpoonup> nat" where
  "keys_of nk S k = (let c = card {n \<in> S. nk n = k} in if c = 0 then None else Some c)"

lemma keys_of_empty: "keys_of nk {} = (\<lambda>_. None)"
  by (simp add: keys_of_def fun_eq_iff)

lemma keys_of_None: "finite S \<Longrightarrow> keys_of nk S k = None \<longleftrightarrow> k \<notin> nk ` S"
  by (auto simp: keys_of_def Let_def)

lemma add_key_of:
  assumes "finite S" "n \<notin> S"
  shows "add_key (nk n) (keys_of nk S) = keys_of nk (insert n S)"
proof
  fix k
  have eq: "{m \<in> insert n S. nk m = k} = (if nk n = k then insert n {m \<in> S. nk m = k} else {m \<in> S. nk m = k})" by auto
  show "add_key (nk n) (keys_of nk S) k = keys_of nk (insert n S) k"
    unfolding keys_of_def add_key_def eq using assms by (simp add: Let_def)
qed

lemma drop_key_of:
  assumes "finite S" "n \<in> S"
  shows "drop_key (nk n) (keys_of nk S) = keys_of nk (S - {n})"
proof
  fix k
  have pos: "card {m \<in> S. nk m = nk n} \<noteq> 0" using assms by auto
  show "drop_key (nk n) (keys_of nk S) k = keys_of nk (S - {n}) k"
  proof (cases "nk n = k")
    case True
    have "{m \<in> S - {n}. nk m = k} = {m \<in> S. nk m = k} - {n}" by auto
    with assms True have "card {m \<in> S - {n}. nk m = k} = card {m \<in> S. nk m = k} - 1" by simp
    with True pos show ?thesis by (simp add: keys_of_def drop_key_def Let_def)
  next
    case False
    then have "{m \<in> S - {n}. nk m = k} = {m \<in> S. nk m = k}" by auto
    with False pos show ?thesis by (simp add: keys_of_def drop_key_def Let_def)
  qed
qed

lemma listing_keys:
  "distinct ns \<Longrightarrow> set ns \<inter> S = {} \<Longrightarrow> finite S \<Longrightarrow> fold (\<lambda>n. add_key (nk n)) ns (keys_of nk S) = keys_of nk (set ns \<union> S)"
proof (induction ns arbitrary: S)
  case (Cons n ns)
  then have "fold (\<lambda>n. add_key (nk n)) ns (keys_of nk (insert n S)) = keys_of nk (set ns \<union> insert n S)" by (intro Cons.IH) auto
  with Cons.prems show ?case by (simp add: add_key_of)
qed simp

lemma keys_of_pos: "keys_of nk S k = Some n \<Longrightarrow> n \<noteq> 0"
  by (simp add: keys_of_def Let_def split: if_splits)

lemma add_drop_key: "n \<noteq> 0 \<Longrightarrow> keys k = Some n \<Longrightarrow> add_key k (drop_key k keys) = keys"
  by (auto simp: add_key_def drop_key_def fun_eq_iff)

definition inverse_move :: "vpath \<Rightarrow> inverse \<Rightarrow> vpath \<times> vpath" where
  "inverse_move dir s = (VPath_join dir (iv_from s), VPath_join dir (iv_to s))"

lemma feasible_moves:
  assumes "finite (present dir d)" "run_moves key (map (inverse_move dir) ss) d \<noteq> None"
  shows "feasible_from nk i ss (present dir d) (keys_of nk (present dir d)) = Inr ()"
  using assms
proof (induction ss arbitrary: d i)
  case (Cons s ss)
  let ?a = "VPath_join dir (iv_from s)" and ?b = "VPath_join dir (iv_to s)"
  have first: "map (inverse_move dir) (s # ss) = (?a, ?b) # map (inverse_move dir) ss" by (simp add: inverse_move_def)
  obtain d1 where d1: "moved key d ?a ?b = Some d1" "run_moves key (map (inverse_move dir) ss) d1 \<noteq> None"
    using Cons.prems(2) unfolding first by (cases "moved key d ?a ?b") auto
  obtain f where f: "d ?a = Some f" "\<not> occupied key d ?b" "d1 = d(?a := None, ?b := Some f)" using d1(1) by (auto simp: moved_Some_iff)
  have ne: "iv_from s \<noteq> iv_to s" using moved_keys [OF d1(1)] by auto
  have p: "present dir d1 = insert (iv_to s) (present dir d - {iv_from s})"
    using f ne by (auto simp: present_def)
  have a: "iv_from s \<in> present dir d" using f(1) by (simp add: present_def)
  have b: "iv_to s \<notin> present dir d" using f(2) by (auto simp: present_def occupied_def)
  let ?K = "keys_of nk (present dir d)"
  have k: "?K (nk (iv_from s)) \<noteq> None" using a by (subst keys_of_None [OF Cons.prems(1)]) simp
  have keys: "(if nk (iv_from s) = nk (iv_to s) then ?K else add_key (nk (iv_to s)) (drop_key (nk (iv_from s)) ?K)) =
      keys_of nk (present dir d1)"
  proof -
    have both: "add_key (nk (iv_to s)) (drop_key (nk (iv_from s)) ?K) = keys_of nk (present dir d1)"
      unfolding p using Cons.prems(1) a b by (simp add: drop_key_of add_key_of)
    moreover have "add_key (nk (iv_to s)) (drop_key (nk (iv_from s)) ?K) = ?K" if "nk (iv_from s) = nk (iv_to s)"
      using k add_drop_key [OF keys_of_pos, of nk "present dir d" "nk (iv_to s)"] unfolding that by (cases "?K (nk (iv_to s))") auto
    ultimately show ?thesis by metis
  qed
  have "finite (present dir d1)" using Cons.prems(1) p by simp
  from Cons.IH [OF this d1(2)] k ne b keys p show ?case by (simp add: Let_def)
qed simp


section \<open>The inverse of a unit\<close>

lemma undo_wire_to_wire [simp]: "vpath_ok p \<Longrightarrow> undo_wire (to_wire p) = Inr p"
  using to_wire_utf8 [of p] by (simp add: undo_wire_def VPath_parse_to_wire_ok)

lemma parent_join [simp]: "parent (VPath_join dir n) = Some dir"
  by (simp add: parent_def VPath_join_def)

lemma file_name_join [simp]: "file_name (VPath_join dir n) = Some n"
  by (simp add: file_name_def VPath_join_def)

text \<open>The moves of a batch whose paths can be written to the journal and read back.\<close>

definition written :: "vpath \<Rightarrow> vpath \<times> vpath \<Rightarrow> bool" where
  "written dir m \<longleftrightarrow> vpath_ok (fst m) \<and> vpath_ok (snd m) \<and> sibling_of dir (fst m) \<and> sibling_of dir (snd m)"

lemma inverse_chain_shows:
  assumes "list_all2 (shows_step a b) unit ms" "list_all (written dir) ms"
  obtains ss where "inverse_chain unit dir = Inr ss" "map (inverse_move dir) ss = map prod.swap ms"
    "list_all (\<lambda>s. segment_ok (iv_from s) \<and> segment_ok (iv_to s)) ss" "length ss = length unit"
  using assms
proof (induction unit ms arbitrary: thesis rule: list_all2_induct)
  case Nil
  then show ?case by simp
next
  case (Cons e es m ms)
  obtain ss where ss: "inverse_chain es dir = Inr ss" "map (inverse_move dir) ss = map prod.swap ms"
      "list_all (\<lambda>s. segment_ok (iv_from s) \<and> segment_ok (iv_to s)) ss" "length ss = length es"
    using Cons.IH Cons.prems(2) by auto
  have w: "vpath_ok (fst m)" "vpath_ok (snd m)" "sibling_of dir (fst m)" "sibling_of dir (snd m)"
    using Cons.prems(2) by (simp_all add: written_def)
  obtain f where f: "fst m = VPath_join dir f" using w(3) by (rule sibling_ofE)
  obtain t where t: "snd m = VPath_join dir t" using w(4) by (rule sibling_ofE)
  have ok: "segment_ok f" "segment_ok t" using w(1,2) by (simp_all add: f t vpath_ok_def VPath_join_def)
  have chain: "inverse_chain (e # es) dir = Inr (\<lparr>iv_from = t, iv_to = f, iv_seq = e_seq e\<rparr> # ss)"
    using Cons.hyps(1) w(1,2) ss(1) unfolding shows_step_def f t by (simp add: Let_def)
  have "inverse_move dir \<lparr>iv_from = t, iv_to = f, iv_seq = e_seq e\<rparr> = prod.swap m"
    by (simp add: inverse_move_def prod_eq_iff f t)
  with ss ok show ?case by (intro Cons.prems(1) [OF chain]) simp_all
qed

lemma planned_inverse:
  assumes "list_all (\<lambda>s. segment_ok (iv_from s) \<and> segment_ok (iv_to s)) ss" "n + length ss \<le> 2 ^ 32"
  obtains planned where "try_map (inverse_step dir) (zip [n..<n + length ss] ss) = Inr planned"
    "map step_move planned = map (inverse_move dir) ss"
  using assms
proof (induction ss arbitrary: n thesis)
  case (Cons s ss)
  obtain planned where p: "try_map (inverse_step dir) (zip [n + 1..<n + 1 + length ss] ss) = Inr planned"
      "map step_move planned = map (inverse_move dir) ss"
    using Cons.IH [of "n + 1"] Cons.prems(2,3) by auto
  have seg: "Segment_new (iv_from s) = Inr (iv_from s)" "Segment_new (iv_to s) = Inr (iv_to s)"
    using Cons.prems(2) by (simp_all add: Segment_new_Inr)
  let ?q = "\<lparr>ps_from = VPath_join dir (iv_from s), ps_to = VPath_join dir (iv_to s), ps_pair = n, ps_undoes = Some (iv_seq s)\<rparr>"
  have q: "inverse_step dir (n, s) = Inr ?q" using seg Cons.prems(3) by (simp add: inverse_step_def)
  have zip: "zip [n..<n + length (s # ss)] (s # ss) = (n, s) # zip [n + 1..<n + 1 + length ss] ss"
    by (simp add: upt_conv_Cons del: upt_Suc)
  have tm: "try_map (inverse_step dir) (zip [n..<n + length (s # ss)] (s # ss)) = Inr (?q # planned)"
    using p(1) unfolding zip by (simp add: q del: upt_Suc)
  have "step_move ?q = inverse_move dir s" by (simp add: step_move_def inverse_move_def)
  then have mv: "map step_move (?q # planned) = map (inverse_move dir) (s # ss)" by (simp only: list.map p(2))
  show ?case by (rule Cons.prems(1) [OF tm mv])
qed simp

lemma run_moves_back:
  assumes "run_moves key ms d = Some d'" "inj_on key (dom d)"
  shows "run_moves key (map prod.swap (rev ms)) d' = Some d"
  using assms
proof (induction ms arbitrary: d)
  case (Cons m ms)
  obtain a b where m: "m = (a, b)" by (cases m)
  obtain d1 where d1: "moved key d a b = Some d1" "run_moves key ms d1 = Some d'"
    using Cons.prems(1) m by (auto split: bind_splits)
  from Cons.IH [OF d1(2) moved_inj [OF d1(1) Cons.prems(2)]] moved_back [OF d1(1) Cons.prems(2)] m
  show ?case by (simp add: run_moves_append)
qed simp

section \<open>What an undo asks of a provider\<close>

locale undoable = rename_provider "undo_services sha p" good "sibling_of dir" entry key
  for sha :: "bytes \<Rightarrow> bytes" and p :: "'w undo_provider" and good :: "'w \<Rightarrow> bool" and dir :: vpath
    and entry :: "'w \<Rightarrow> vpath \<Rightarrow> 'f option" and key :: "vpath \<Rightarrow> 'k" +
  assumes asked_kept: "good w \<Longrightarrow> up_capabilities_at p w dir = (w', c) \<Longrightarrow> good w' \<and> entry w' = entry w"
    and listed_kept: "good w \<Longrightarrow> up_list p w dir = (w', r) \<Longrightarrow> good w' \<and> entry w' = entry w"
    and listed: "good w \<Longrightarrow> up_list p w dir = (w', Inr (map Inr ps)) \<Longrightarrow> distinct ps \<and> set ps = dom (entry w)"
    and in_directory: "good w \<Longrightarrow> entry w a \<noteq> None \<Longrightarrow> sibling_of dir a"
begin

lemma undo_check_kept:
  assumes "good w" "undo_check u p first dir ss w = (w', r)"
  shows "good w' \<and> entry w' = entry w"
proof -
  obtain w1 c where c: "up_capabilities_at p w dir = (w1, c)" by fastforce
  obtain w2 a where a: "up_list p w1 dir = (w2, a)" by fastforce
  have w1: "good w1 \<and> entry w1 = entry w" by (rule asked_kept [OF assms(1) c])
  have "good w2 \<and> entry w2 = entry w1" by (rule listed_kept [OF conjunct1 [OF w1] a])
  moreover have "w' = w1 \<or> w' = w2" using assms(2) c a by (cases c) (auto simp: undo_check_def split: if_splits)
  ultimately show ?thesis using w1 by auto
qed

lemma undo_run_entry:
  assumes "undo_run sha p io cancel a planned st = (x, r)" "good (us_world st)" "siblings (sibling_of dir) (map step_move planned)"
    and "run_moves key (map step_move planned) (entry (us_world st)) = Some d"
  shows "case r of
      Inr _ \<Rightarrow> entry (world x) = d \<and> stuck (report x) = None
    | Inl _ \<Rightarrow> rolled_or_stuck key (map step_move planned) (entry (us_world st)) (report x) (entry (world x))"
proof -
  obtain j b where j: "alloc_batch (us_journal st) = (j, b)" by fastforce
  let ?x = "\<lparr>world = us_world st, recorder = \<lparr>bj_journal = j, bj_actor = a, bj_batch = b, bj_io = io, bj_calls = us_calls st\<rparr>,
    report = report_default, progress = \<lparr>entries_total = None, entries_done = 0, current = None\<rparr>\<rparr>"
  have run: "exec_run (undo_services sha p) cancel planned ?x = (x, r)" using assms(1) j by (simp add: undo_run_def)
  from exec_run_entry [OF _ assms(3) _ _ run, of d] assms(2,4) show ?thesis by (auto split: sum.splits)
qed

end

section \<open>Errors that were not understood\<close>

lemma unwind_keeps_uncertain: "uncertain (report (fst (unwind sv st x))) = uncertain (report x)"
proof (induction st arbitrary: x)
  case (Cons a st)
  obtain w q where pb: "put_back sv (world x) a = (w, q)" by fastforce
  have "uncertain (report (compensate sv a y)) = uncertain (report y)" for y
    by (auto simp: compensate_def Let_def split: prod.splits sum.splits)
  with Cons pb show ?case by (cases q) (simp_all add: Let_def)
qed simp

lemma settle_uncertain:
  "settle_failed sv s e st x = (st', x') \<Longrightarrow> uncertain (report x') = uncertain (report x) \<or> may_have_applied e"
  by (auto simp: settle_failed_def split: if_splits)

text \<open>The provider may answer a rename with an error that leaves open whether the rename took effect.\<close>

definition leaves_open :: "('w \<Rightarrow> vpath \<Rightarrow> vpath \<Rightarrow> 'w \<times> (proto_error + unit)) \<Rightarrow> proto_error \<Rightarrow> bool" where
  "leaves_open ren e \<longleftrightarrow> may_have_applied e \<and> (\<exists>w a b w'. ren w a b = (w', Inl e))"

lemma run_batch_uncertain:
  assumes "run_batch sv cancel n st ss x = (x', r)" "uncertain (report x) = None"
  shows "uncertain (report x') = None \<or> (\<exists>e. r = Inl e \<and> leaves_open (sv_rename sv) e)"
  using assms
proof (induction ss arbitrary: n st x)
  case (Cons s ss)
  obtain w q where ren: "sv_rename sv (world x) (ps_from s) (ps_to s) = (w, q)" by fastforce
  have un: "unwind sv st' z = (y, e) \<Longrightarrow> uncertain (report y) = uncertain (report z)" for st' z y e
    using unwind_keeps_uncertain [of sv st' z] by simp
  show ?case
  proof (cases "cancel n")
    case True
    obtain y e where u: "unwind sv st x = (y, e)" by fastforce
    then have "x' = y" using Cons.prems(1) True by (auto split: option.splits)
    with un [OF u] Cons.prems(2) show ?thesis by simp
  next
    case go: False
    show ?thesis
    proof (cases q)
      case (Inl e)
      obtain st' y where se: "settle_failed sv s e st (fail_pair s (x\<lparr>world := w\<rparr>)) = (st', y)" by fastforce
      have "r = Inl e" "x' = fst (unwind sv st' y)" using Cons.prems(1) go ren Inl se by auto
      with settle_uncertain [OF se] Cons.prems(2) ren Inl show ?thesis
        by (auto simp: unwind_keeps_uncertain fail_pair_def leaves_open_def)
    next
      case (Inr v)
      obtain j t where rec: "sv_renamed sv (recorder x) (ps_from s) (ps_to s) (ps_undoes s) = (j, t)" by fastforce
      show ?thesis
      proof (cases t)
        case (Inl e)
        then have "x' = fst (unwind sv (unjournalled s # st) (fail_pair s (x\<lparr>world := w, recorder := j\<rparr>)))"
          using Cons.prems(1) go ren Inr rec by auto
        with Cons.prems(2) show ?thesis by (simp add: unwind_keeps_uncertain fail_pair_def del: unwind.simps)
      next
        case (Inr q')
        let ?y = "x\<lparr>world := w, recorder := j, report := (report x)\<lparr>br_applied := br_applied (report x) + 1\<rparr>,
          progress := (progress x)\<lparr>entries_done := entries_done (progress x) + 1, current := Some (ps_to s)\<rparr>\<rparr>"
        have run: "run_batch sv cancel (n + 1) (applied_of sv s q' # st) ss ?y = (x', r)"
          using Cons.prems(1) go ren \<open>q = Inr v\<close> rec Inr by simp
        show ?thesis by (rule Cons.IH [OF run]) (simp add: Cons.prems(2))
      qed
    qed
  qed
qed simp

lemma exec_run_uncertain:
  assumes "exec_run sv cancel ss x = (x', Inl e)" "uncertain (report x) = None" "\<not> leaves_open (sv_rename sv) e"
  shows "uncertain (report x') = None"
  using run_batch_uncertain [OF assms(1) [unfolded exec_run_def]] assms(2,3) by simp

lemma undo_run_uncertain:
  assumes "undo_run sha p io cancel a planned st = (x, Inl e)" "\<not> leaves_open (up_rename p) e"
  shows "uncertain (report x) = None"
proof -
  have "\<not> leaves_open (sv_rename (undo_services sha p)) e" using assms(2) by (simp add: undo_services_def)
  from exec_run_uncertain [OF _ _ this] assms(1) show ?thesis
    by (cases "alloc_batch (us_journal st)") (fastforce simp: undo_run_def report_default_def)
qed

lemma undo_check_blocks: "undo_check u p first dir ss w = (w', Inl v) \<Longrightarrow> \<exists>n e. v = Blocked n e"
  by (auto simp: undo_check_def split: prod.splits sum.splits if_splits)

section \<open>Reverting a unit of renames\<close>

definition outcome_of_undo :: "(proto_error \<Rightarrow> bool) \<Rightarrow> (vpath \<Rightarrow> 'f option) \<Rightarrow> (vpath \<Rightarrow> 'f option) \<Rightarrow> (vpath \<Rightarrow> 'f option) \<Rightarrow> undo_report \<Rightarrow>
    proto_error + reverted \<Rightarrow> bool" where
  "outcome_of_undo unclear before now after rep r \<longleftrightarrow>
     (case r of
        Inl e \<Rightarrow> e = E_Cancelled \<and> (after = now \<or> unclear e)
      | Inr RDone \<Rightarrow> after = before
      | Inr (Blocked _ e) \<Rightarrow> after = now \<or> unclear e
      | Inr (Stuck _ _) \<Rightarrow> ur_batch_stuck rep \<noteq> None
      | Inr _ \<Rightarrow> False)"

lemma interpret_cases:
  "interpret_outcome out snap ss n rep = (rep', r) \<Longrightarrow>
    (\<exists>s q e. stuck snap = Some s \<and> r = Inr (Stuck q e) \<and> ur_batch_stuck rep' = Some s) \<or>
    stuck snap = None \<and> (out = Inr () \<and> r = Inr RDone \<or> out = Inl E_Cancelled \<and> r = Inl E_Cancelled \<or>
      (\<exists>q e. out = Inl e \<and> r = Inr (Blocked q e)))"
  by (cases "stuck snap"; cases out; cases "projl out = E_Cancelled")
    (auto simp: interpret_outcome_def Let_def split: proto_error.splits)

lemma undo_directory_shows:
  assumes "list_all2 (shows_step a b) unit ms" "list_all (written dir) ms" "unit = first # rest"
  shows "undo_directory first = Some dir"
proof -
  obtain m ms' where m: "ms = m # ms'" "shows_step a b first m" using assms(1,3) by (auto simp: list_all2_Cons1)
  have "written dir m" using assms(2) m(1) by simp
  then have "undo_wire (e_path first) = Inr (snd m)" "parent (snd m) = Some dir"
    using m(2) by (auto simp: written_def shows_step_def elim!: sibling_ofE)
  then show ?thesis by (simp add: undo_directory_def)
qed

context undoable
begin

lemma revert_batch_entry:
  assumes "unit \<noteq> []" "list_all2 (shows_step act b) unit ms" "list_all (written dir) ms" "length unit \<le> 2 ^ 32"
    and "good (us_world st)" "run_moves key (map prod.swap ms) (entry (us_world st)) = Some d"
    and "revert_batch u sha p io cancel unit a st = (st', r)"
  shows "outcome_of_undo (leaves_open (up_rename p)) d (entry (us_world st)) (entry (us_world st')) (us_report st') r"
proof -
  obtain first rest where unit: "unit = first # rest" using assms(1) by (cases unit) auto
  obtain ss where ss: "inverse_chain unit dir = Inr ss" "map (inverse_move dir) ss = map prod.swap ms"
      "list_all (\<lambda>s. segment_ok (iv_from s) \<and> segment_ok (iv_to s)) ss" "length ss = length unit"
    by (rule inverse_chain_shows [OF assms(2,3)])
  have dir: "undo_directory first = Some dir" by (rule undo_directory_shows [OF assms(2,3) unit])
  obtain w q where check: "undo_check u p first dir ss (us_world st) = (w, q)" by fastforce
  have w: "good w" "entry w = entry (us_world st)" using undo_check_kept [OF assms(5) check] by simp_all
  show ?thesis
  proof (cases q)
    case (Inl v)
    obtain n e where "v = Blocked n e" using undo_check_blocks [OF check [unfolded Inl]] by blast
    moreover have "us_world st' = w" "r = Inr v" using assms(7) [unfolded unit] dir ss(1) [unfolded unit] check Inl
      by (auto simp: revert_batch_def simp del: inverse_chain.simps)
    ultimately show ?thesis using w(2) by (simp add: outcome_of_undo_def)
  next
    case (Inr v)
    obtain planned where pl: "try_map (inverse_step dir) (zip [0..<0 + length ss] ss) = Inr planned"
        "map step_move planned = map (inverse_move dir) ss"
      by (rule planned_inverse [OF ss(3), of 0]) (use ss(4) assms(4) in auto)
    obtain x out where run: "undo_run sha p io cancel a planned (st\<lparr>us_world := w\<rparr>) = (x, out)" by fastforce
    obtain rep where rep: "interpret_outcome out (report x) ss (e_seq first) (us_report st) = (rep, r)" "us_report st' = rep" "us_world st' = world x"
      using assms(7) [unfolded unit] dir ss(1) [unfolded unit] check Inr pl(1) run
      by (auto simp: revert_batch_def Let_def simp del: inverse_chain.simps upt_Suc split: prod.splits)
    have moves: "siblings (sibling_of dir) (map step_move planned)" "run_moves key (map step_move planned) (entry w) = Some d"
      using pl(2) ss(2) assms(3,6) w(2) by (auto simp: siblings_def list_all_iff written_def)
    from moves(2) w have start: "good (us_world (st\<lparr>us_world := w\<rparr>))" "entry (us_world (st\<lparr>us_world := w\<rparr>)) = entry (us_world st)"
        "run_moves key (map step_move planned) (entry (us_world (st\<lparr>us_world := w\<rparr>))) = Some d" by simp_all
    note out = undo_run_entry [OF run start(1) moves(1) start(3), unfolded start(2)]
    have clean: "entry (world x) = entry (us_world st)" if "out = Inl e" "\<not> leaves_open (up_rename p) e" "stuck (report x) = None" for e
    proof -
      have "uncertain (report x) = None" using undo_run_uncertain [OF run [unfolded that(1)] that(2)] .
      with out that show ?thesis by (simp add: rolled_or_stuck_def)
    qed
    from interpret_cases [OF rep(1)] show ?thesis
    proof (elim disjE exE conjE)
      fix n e
      assume h: "stuck (report x) = None" "out = Inl e" "r = Inr (Blocked n e)"
      with clean [of e] rep show ?thesis by (auto simp: outcome_of_undo_def)
    next
      assume h: "stuck (report x) = None" "out = Inl E_Cancelled" "r = Inl E_Cancelled"
      with clean [of E_Cancelled] rep show ?thesis by (auto simp: outcome_of_undo_def)
    qed (use out rep in \<open>auto simp: outcome_of_undo_def\<close>)
  qed
qed

end


section \<open>A provider that does what it can\<close>

definition obliging :: "('w, 'j) services \<Rightarrow> ('w \<Rightarrow> bool) \<Rightarrow> (vpath \<Rightarrow> bool) \<Rightarrow> ('w \<Rightarrow> vpath \<Rightarrow> 'f option) \<Rightarrow> (vpath \<Rightarrow> 'k) \<Rightarrow> bool" where
  "obliging sv good sibling entry key \<longleftrightarrow> (\<forall>w a b. good w \<longrightarrow> sibling a \<longrightarrow> sibling b \<longrightarrow> moved key (entry w) a b \<noteq> None \<longrightarrow>
     (\<exists>w'. sv_rename sv w a b = (w', Inr ())))"

text \<open>A recorder whose next \<open>n\<close> writes reach the disk.\<close>

definition writes :: "(bytes \<Rightarrow> bytes) \<Rightarrow> batch_journal \<Rightarrow> nat \<Rightarrow> bool" where
  "writes sha bj n \<longleftrightarrow> (\<exists>log. journal_run sha (bj_journal bj) log \<and> int (length log) + int n < 2 ^ 63) \<and> (\<forall>k. fst (bj_io bj k))"

lemma writes_one:
  assumes "\<forall>x. length (sha x) = 32" "writes sha bj (Suc n)"
  obtains bj' q where "BatchJournal_renamed sha bj source dest u = (bj', Inr q)" "writes sha bj' n"
proof -
  obtain log where log: "journal_run sha (bj_journal bj) log" "int (length log) + int (Suc n) < 2 ^ 63" "\<forall>k. fst (bj_io bj k)"
    using assms(2) by (auto simp: writes_def)
  obtain ts k where at: "journal_at sha (bj_journal bj) log ts k" using journal_run_at [OF assms(1) log(1)] by blast
  obtain now where io: "bj_io bj (bj_calls bj) = (True, now)" using log(3) by (metis prod.collapse)
  let ?e = "batch_entry (bj_actor bj) (bj_batch bj) source dest u"
  have "int (length log) < 2 ^ 63 - 1" using log(2) by simp
  from run_record [OF assms(1) log(1) at this, of now ?e]
  obtain j' where j': "record_entry sha True now ?e (bj_journal bj) = (j', Inr (int (length log) + 1))"
      "journal_run sha j' (log @ [entry_record (int (length log) + 1) now ?e])" by blast
  let ?bj = "bj\<lparr>bj_journal := j', bj_calls := bj_calls bj + 1\<rparr>"
  have "BatchJournal_renamed sha bj source dest u = (?bj, Inr (Some (int (length log) + 1)))"
    using io j'(1) by (simp add: BatchJournal_renamed_def)
  moreover have "writes sha ?bj n"
    unfolding writes_def using j'(2) log(2,3) by (intro conjI exI [of _ "log @ [entry_record (int (length log) + 1) now ?e]"]) auto
  ultimately show thesis by (rule that)
qed

lemma run_batch_obliging:
  assumes pr: "rename_provider sv good sibling entry key" and "\<forall>x. length (sha x) = 32" "sv_renamed sv = BatchJournal_renamed sha" "obliging sv good sibling entry key"
    and "good (world x)" "siblings sibling (map step_move ss)" "run_moves key (map step_move ss) (entry (world x)) \<noteq> None"
    and "writes sha (recorder x) (length ss)"
  shows "snd (run_batch sv (\<lambda>_. False) n st ss x) = Inr ()"
  using assms(5-)
proof (induction ss arbitrary: n st x)
  case (Cons s ss)
  let ?a = "ps_from s" and ?b = "ps_to s"
  have sib: "sibling ?a" "sibling ?b" using Cons.prems(2) by (simp_all add: siblings_def step_move_def)
  obtain d1 where d1: "moved key (entry (world x)) ?a ?b = Some d1" "run_moves key (map step_move ss) d1 \<noteq> None"
    using Cons.prems(3) by (cases "moved key (entry (world x)) ?a ?b") (auto simp: step_move_def [of s])
  then obtain w where ren: "sv_rename sv (world x) ?a ?b = (w, Inr ())"
    using assms(4) Cons.prems(1) sib unfolding obliging_def by (metis option.distinct(1))
  have src: "?a \<noteq> ?b" "entry (world x) ?a \<noteq> None" using moved_keys [OF d1(1)] d1(1) by (auto simp: moved_Some_iff)
  have w: "good w" "entry w = d1"
    using rename_provider.rename_kept [OF pr Cons.prems(1) sib src ren] rename_provider.rename_done [OF pr Cons.prems(1) sib src ren] d1(1) by simp_all
  obtain bj q where rec: "BatchJournal_renamed sha (recorder x) ?a ?b (ps_undoes s) = (bj, Inr q)" "writes sha bj (length ss)"
    using writes_one [OF assms(2), of "recorder x" "length ss"] Cons.prems(4) by (metis list.size(4) add_Suc_right add.right_neutral)
  let ?y = "x\<lparr>world := w, recorder := bj, report := (report x)\<lparr>br_applied := br_applied (report x) + 1\<rparr>,
    progress := (progress x)\<lparr>entries_done := entries_done (progress x) + 1, current := Some ?b\<rparr>\<rparr>"
  have step: "run_batch sv (\<lambda>_. False) n st (s # ss) x = run_batch sv (\<lambda>_. False) (n + 1) (applied_of sv s q # st) ss ?y"
    using ren rec(1) assms(3) by simp
  show ?case unfolding step
    by (rule Cons.IH) (use w d1(2) rec(2) Cons.prems(2) in \<open>simp_all add: siblings_def\<close>)
qed simp

lemma base_names_answer:
  assumes "length acc + length ps \<le> RENAME_BATCH_MAX_LISTING" "\<forall>p \<in> set ps. sibling_of dir p"
  shows "list_base_names (map Inr ps) acc = Inr (acc @ map (\<lambda>p. last (segments p)) ps)"
  using assms
proof (induction ps arbitrary: acc)
  case (Cons p ps)
  have "file_name p = Some (last (segments p))" using Cons.prems(2) by (auto simp: file_name_def sibling_of_def)
  with Cons.prems Cons.IH [of "acc @ [last (segments p)]"] show ?case by simp
qed simp

lemma last_segment_inj: "inj_on (\<lambda>p. last (segments p)) (Collect (sibling_of dir))"
proof (rule inj_onI)
  fix p q
  assume h: "p \<in> Collect (sibling_of dir)" "q \<in> Collect (sibling_of dir)" "last (segments p) = last (segments q)"
  from h(1) have "sibling_of dir p" by simp
  then obtain m where m: "p = VPath_join dir m" by (rule sibling_ofE)
  from h(2) have "sibling_of dir q" by simp
  then obtain n where "q = VPath_join dir n" by (rule sibling_ofE)
  with m h(3) show "p = q" by (simp add: VPath_join_def)
qed

context undoable
begin

lemma undo_check_passes:
  assumes "good w" "up_capabilities_at p w dir = (w1, Inr c)" "READ_ONLY \<notin> cap_flags c"
    and "up_list p w1 dir = (w2, Inr (map Inr ps))" "length ps \<le> RENAME_BATCH_MAX_LISTING"
    and "run_moves key (map (inverse_move dir) ss) (entry w) \<noteq> None"
  shows "undo_check u p first dir ss w = (w2, Inr ())"
proof -
  let ?nk = "\<lambda>n. name_key u n (fold_mode_of c)" and ?names = "map (\<lambda>p. last (segments p)) ps"
  have w1: "good w1" "entry w1 = entry w" using asked_kept [OF assms(1,2)] by simp_all
  have ps: "distinct ps" "set ps = dom (entry w)" using listed [OF w1(1) assms(4)] w1(2) by simp_all
  have sib: "\<forall>q \<in> set ps. sibling_of dir q" using in_directory [OF assms(1)] ps(2) by auto
  have names: "list_base_names (map Inr ps) [] = Inr ?names" using base_names_answer [of "[]" ps dir] assms(5) sib by simp
  have present: "set ?names = present dir (entry w)"
    using listing_names(1) [OF ps(2) sib names] by (auto simp: present_def)
  have "distinct ?names" using ps(1) inj_on_subset [OF last_segment_inj, of "set ps" dir] sib by (auto simp: distinct_map)
  then have keys: "fold (\<lambda>n. add_key (?nk n)) ?names (\<lambda>_. None) = keys_of ?nk (set ?names)"
    using listing_keys [of ?names "{}" ?nk] unfolding keys_of_empty by simp
  have "finite (present dir (entry w))" unfolding present [symmetric] by simp
  from feasible_moves [OF this assms(6), of ?nk 0]
  have "feasible ?nk ss ?names = Inr ()" unfolding feasible_def keys present by simp
  then show ?thesis using assms(2-4) names by (simp add: undo_check_def)
qed

lemma revert_batch_done:
  assumes "\<forall>x. length (sha x) = 32" "obliging (undo_services sha p) good (sibling_of dir) entry key"
    and "unit \<noteq> []" "list_all2 (shows_step act b) unit ms" "list_all (written dir) ms" "length unit \<le> 2 ^ 32"
    and "good (us_world st)" "run_moves key (map prod.swap ms) (entry (us_world st)) = Some d"
    and "up_capabilities_at p (us_world st) dir = (w1, Inr c)" "READ_ONLY \<notin> cap_flags c"
    and "up_list p w1 dir = (w2, Inr (map Inr ps))" "length ps \<le> RENAME_BATCH_MAX_LISTING"
    and "journal_run sha (us_journal st) log" "int (length log) + int (length unit) < 2 ^ 63" "\<forall>k. fst (io k)"
  shows "snd (revert_batch u sha p io (\<lambda>_. False) unit a st) = Inr RDone"
proof -
  obtain first rest where unit: "unit = first # rest" using assms(3) by (cases unit) auto
  obtain ss where ss: "inverse_chain unit dir = Inr ss" "map (inverse_move dir) ss = map prod.swap ms"
      "list_all (\<lambda>s. segment_ok (iv_from s) \<and> segment_ok (iv_to s)) ss" "length ss = length unit"
    by (rule inverse_chain_shows [OF assms(4,5)])
  have dir: "undo_directory first = Some dir" by (rule undo_directory_shows [OF assms(4,5) unit])
  have check: "undo_check u p first dir ss (us_world st) = (w2, Inr ())"
    by (rule undo_check_passes [OF assms(7,9-12)]) (use ss(2) assms(8) in simp)
  have w2: "good w2" "entry w2 = entry (us_world st)" using undo_check_kept [OF assms(7) check] by simp_all
  obtain planned where pl: "try_map (inverse_step dir) (zip [0..<0 + length ss] ss) = Inr planned"
      "map step_move planned = map (inverse_move dir) ss"
    by (rule planned_inverse [OF ss(3), of 0]) (use ss(4) assms(6) in auto)
  obtain j' b' where j: "alloc_batch (us_journal st) = (j', b')" by fastforce
  have j': "journal_run sha j' log" using journal_run.alloc [OF assms(13)] j by simp
  let ?x = "\<lparr>world = w2, recorder = \<lparr>bj_journal = j', bj_actor = a, bj_batch = b', bj_io = io, bj_calls = us_calls st\<rparr>,
    report = report_default, progress = \<lparr>entries_total = Some (length planned), entries_done = 0, current = None\<rparr>\<rparr>"
  have len: "length planned = length unit" using pl(2) ss(4) by (metis length_map)
  have "snd (run_batch (undo_services sha p) (\<lambda>_. False) 0 [] planned ?x) = Inr ()"
  proof (rule run_batch_obliging [OF rename_provider_axioms assms(1) _ assms(2)])
    show "siblings (sibling_of dir) (map step_move planned)" "run_moves key (map step_move planned) (entry (world ?x)) \<noteq> None"
      using pl(2) ss(2) assms(5,8) w2(2) by (auto simp: siblings_def list_all_iff written_def)
    show "writes sha (recorder ?x) (length planned)" using j' assms(14,15) len by (auto simp: writes_def)
  qed (use w2 in \<open>simp_all add: undo_services_def\<close>)
  then obtain x where run: "undo_run sha p io (\<lambda>_. False) a planned (st\<lparr>us_world := w2\<rparr>) = (x, Inr ())"
    using j by (cases "run_batch (undo_services sha p) (\<lambda>_. False) 0 [] planned ?x") (simp add: undo_run_def exec_run_def)
  have moves: "siblings (sibling_of dir) (map step_move planned)" "run_moves key (map step_move planned) (entry w2) = Some d"
    using pl(2) ss(2) assms(5,8) w2(2) by (auto simp: siblings_def list_all_iff written_def)
  have "stuck (report x) = None" using undo_run_entry [OF run, of d] w2(1) moves by simp
  then show ?thesis using dir ss(1) check pl(1) run unfolding unit
    by (simp add: revert_batch_def interpret_outcome_def Let_def del: inverse_chain.simps upt_Suc split: prod.splits)
qed

end
end
