(* ===== verification/Undo_Directory.thy ===== *)
theory Undo_Directory
  imports Undo_Restores
begin

text \<open>
  The in-memory provider meets the contract of an undo, and with no faults armed it does every rename that is
  possible. With it, the properties of the undo of a batch: from the rows a batch of renames left in the
  journal to the files.
\<close>

section \<open>Listing the directory\<close>

definition mem_undo :: "unicode \<Rightarrow> mem_config \<Rightarrow> mem_world undo_provider" where
  "mem_undo u c =
     \<lparr>up_rename = mem_rename u c, up_stat = (\<lambda>w p. map_prod id (map_sum id (\<lambda>_. ())) (mem_stat u c w p)),
      up_capabilities_at = (\<lambda>w p. (w, Inr (capabilities_at c p))),
      up_list = (\<lambda>w p. map_prod id (map_sum id (map Inr)) (mem_list u c w p))\<rparr>"

lemma undo_services_mem [simp]: "undo_services sha (mem_undo u c) = mem_services u c (BatchJournal_renamed sha) True"
  by (simp add: undo_services_def mem_undo_def mem_services_def)

lemma list_target_dir:
  assumes "mem_good cs dir w"
  shows "list_target u (tree w) lk (segments dir) = Inr (segments dir)"
proof (cases "segments dir = []")
  case False
  have "list_all (\<lambda>d. d \<noteq> [] \<longrightarrow> is_dir (map_of (nodes (tree w)) d)) (prefixes (segments dir))"
    using assms by (simp add: mem_good_def)
  then have "is_dir (map_of (nodes (tree w)) (segments dir))" using False by (simp add: list_all_iff)
  then show ?thesis using False
    by (cases "map_of (nodes (tree w)) (segments dir)" rule: is_dir.cases) (simp_all add: list_target_def resolve_traversing_def)
qed (simp add: list_target_def)

definition children :: "vpath \<Rightarrow> mem_tree \<Rightarrow> vpath list" where
  "children dir t = map (\<lambda>(k, _). VPath_join dir (last k))
     (filter (\<lambda>(k, _). length k = length (segments dir) + 1 \<and> prefix (segments dir) k) (nodes t))"

lemma tick_list_clobbers [simp]: "rename_clobbers (tick_list st) = rename_clobbers st"
  by (simp add: tick_list_def fire_def split: option.splits)

lemma mem_list_dir:
  assumes "mem_good cs dir w" "mem_list u c w dir = (w', r)"
  shows "mem_good cs dir w'" "tree w' = tree w" "r = Inr ps \<Longrightarrow> ps = children dir (tree w)"
proof -
  obtain st g where g: "op_gate (faults w) = (st, g)" by fastforce
  have st: "rename_clobbers st = rename_clobbers (faults w)" using faults_keep(1) [of "faults w"] g by simp
  have target: "list_target u (tree w) (lookup_of c) (seg_path_of dir) = Inr (segments dir)"
    using list_target_dir [OF assms(1)] by (simp add: seg_path_of_def)
  have w': "\<exists>fs. w' = w\<lparr>faults := fs\<rparr> \<and> rename_clobbers fs = rename_clobbers (faults w)" "r = Inr ps \<Longrightarrow> ps = children dir (tree w)"
    using assms(2) g st target by (auto simp: mem_list_def gated_def children_def split: sum.splits if_splits)
  then show "mem_good cs dir w'" "tree w' = tree w" "r = Inr ps \<Longrightarrow> ps = children dir (tree w)"
    using assms(1) by (auto simp: mem_good_def)
qed

lemma children_entries:
  assumes "in_order (nodes (tree w))"
  shows "distinct (children dir (tree w)) \<and> set (children dir (tree w)) = dom (mem_entry dir w)"
proof -
  let ?D = "segments dir" and ?ns = "nodes (tree w)"
  let ?at = "\<lambda>k. length k = length ?D + 1 \<and> prefix ?D k"
  have join: "VPath_join dir (last k) = dir\<lparr>segments := k\<rparr>" "sibling_of dir (dir\<lparr>segments := k\<rparr>)" if at: "?at k" for k
  proof -
    obtain r where r: "k = ?D @ r" "length r = 1" using at by (auto simp: prefix_def)
    then obtain n where "k = ?D @ [n]" by (cases r) auto
    then show "VPath_join dir (last k) = dir\<lparr>segments := k\<rparr>" "sibling_of dir (dir\<lparr>segments := k\<rparr>)"
      by (simp_all add: VPath_join_def sibling_of_def)
  qed
  have eq: "children dir (tree w) = map (\<lambda>k. dir\<lparr>segments := k\<rparr>) (filter ?at (map fst ?ns))"
    unfolding children_def filter_map map_map by (rule map_cong) (auto simp: join(1) comp_def case_prod_beta')
  have "inj_on (\<lambda>k. dir\<lparr>segments := k\<rparr>) A" for A by (rule inj_onI) (metis vpath.select_convs(3) vpath.surjective vpath.update_convs(3))
  then have "distinct (children dir (tree w))" unfolding eq using in_order_distinct [OF assms] by (simp add: distinct_map)
  moreover have "set (children dir (tree w)) = dom (mem_entry dir w)"
  proof (intro set_eqI iffI)
    fix p
    assume "p \<in> set (children dir (tree w))"
    then obtain k where k: "p = dir\<lparr>segments := k\<rparr>" "k \<in> set (filter ?at (map fst ?ns))" unfolding eq set_map by blast
    then have m: "?at k" "map_of ?ns k \<noteq> None" using keys_map_of [of k ?ns] by simp_all
    show "p \<in> dom (mem_entry dir w)" unfolding k(1) domIff mem_entry_def using join(2) [OF m(1)] m(2) by simp
  next
    fix p
    assume "p \<in> dom (mem_entry dir w)"
    then have p: "sibling_of dir p" "map_of ?ns (segments p) \<noteq> None" by (auto simp: mem_entry_def split: if_splits)
    obtain n where n: "segments p = ?D @ [n]" "p = VPath_join dir n" using p(1) by (rule sibling_ofE)
    have mem: "segments p \<in> set (filter ?at (map fst ?ns))" using p(2) n(1) keys_map_of [of "segments p" ?ns] by simp
    have same: "p = dir\<lparr>segments := segments p\<rparr>" using n by (simp add: VPath_join_def)
    show "p \<in> set (children dir (tree w))" unfolding eq set_map by (rule image_eqI [where x = "segments p"], rule same, rule mem)
  qed
  ultimately show ?thesis ..
qed

section \<open>The contract of an undo\<close>

interpretation mem_undoable: undoable sha "mem_undo u (volume k ca)" "mem_good (sensitive k) dir" dir "mem_entry dir" "mem_key (sensitive k)"
proof (intro undoable.intro undoable_axioms.intro)
  show "rename_provider (undo_services sha (mem_undo u (volume k ca))) (mem_good (sensitive k) dir) (sibling_of dir)
      (mem_entry dir) (mem_key (sensitive k))"
    unfolding undo_services_mem by (rule mem.rename_provider_axioms)
next
  fix w w' c
  assume "mem_good (sensitive k) dir w" "up_capabilities_at (mem_undo u (volume k ca)) w dir = (w', c)"
  then show "mem_good (sensitive k) dir w' \<and> mem_entry dir w' = mem_entry dir w" by (simp add: mem_undo_def)
next
  fix w w' r
  assume w: "mem_good (sensitive k) dir w" and "up_list (mem_undo u (volume k ca)) w dir = (w', r)"
  then obtain q where "mem_list u (volume k ca) w dir = (w', q)"
    by (cases "mem_list u (volume k ca) w dir") (simp add: mem_undo_def)
  from mem_list_dir [OF w this] show "mem_good (sensitive k) dir w' \<and> mem_entry dir w' = mem_entry dir w"
    by (simp add: mem_entry_def fun_eq_iff)
next
  fix w w' ps
  assume w: "mem_good (sensitive k) dir w" and l: "up_list (mem_undo u (volume k ca)) w dir = (w', Inr (map Inr ps))"
  obtain v q where q: "mem_list u (volume k ca) w dir = (v, q)" by fastforce
  with l obtain qs where qs: "q = Inr qs" "map Inr qs = map (Inr :: vpath \<Rightarrow> proto_error + vpath) ps"
    by (cases q) (auto simp: mem_undo_def)
  then have "qs = ps" by (simp add: inj_map_eq_map)
  with mem_list_dir(3) [OF w q] qs(1) children_entries [of w dir] mem_goodD(1) [OF w]
  show "distinct ps \<and> set ps = dom (mem_entry dir w)" by simp
next
  fix w a
  assume "mem_good (sensitive k) dir w" "mem_entry dir w a \<noteq> None"
  then show "sibling_of dir a" by (simp add: mem_entry_def split: if_splits)
qed

section \<open>No faults\<close>

definition quiet :: "bool \<Rightarrow> vpath \<Rightarrow> mem_world \<Rightarrow> bool" where
  "quiet cs dir w \<longleftrightarrow> mem_good cs dir w \<and> faults w = no_faults"

lemma no_faults_gates [simp]:
  "op_gate no_faults = (no_faults, Inr ())" "ambiguous_gate no_faults = (no_faults, Inr ())"
  "tick_rename no_faults = no_faults" "tick_list no_faults = no_faults" "rename_clobbers no_faults = False"
  "fail_rename_at no_faults = None" "fail_list_at no_faults = None"
  by (simp_all add: no_faults_def op_gate_def ambiguous_gate_def take_ambiguous_def tick_rename_def tick_list_def)

lemma quiet_faults:
  assumes "faults w = no_faults"
  shows "faults (fst (mem_rename u c w a b)) = no_faults" "faults (fst (mem_stat u c w a)) = no_faults" "faults (fst (mem_list u c w a)) = no_faults"
  using assms by (auto simp: mem_rename_def mem_stat_def mem_list_def gated_def split: sum.splits)

lemma quiet_renames:
  assumes "quiet (sensitive k) dir w" "sibling_of dir a" "sibling_of dir b" "moved (mem_key (sensitive k)) (mem_entry dir w) a b \<noteq> None"
  shows "\<exists>w'. mem_rename u (volume k ca) w a b = (w', Inr ())"
proof -
  obtain d where d: "moved (mem_key (sensitive k)) (mem_entry dir w) a b = Some d" using assms(4) by blast
  have w: "mem_good (sensitive k) dir w" and f: "faults w = no_faults" using assms(1) by (simp_all add: quiet_def)
  have src: "a \<noteq> b" "mem_entry dir w a \<noteq> None" "\<not> occupied (mem_key (sensitive k)) (mem_entry dir w) b"
    using moved_keys [OF d] d by (auto simp: moved_Some_iff)
  obtain t where "tree_rename u (volume k ca) (rename_clobbers (faults w)) (tree w) (segments a) (segments b) = Inr t"
    using tree_rename_sibling [OF w assms(2,3) src(1,2), of u ca] src(3) by auto
  then show ?thesis using f by (simp add: mem_rename_def gated_def seg_path_of_def)
qed

interpretation quiet_undoable: undoable sha "mem_undo u (volume k ca)" "quiet (sensitive k) dir" dir "mem_entry dir" "mem_key (sensitive k)"
proof (intro undoable.intro undoable_axioms.intro, unfold undo_services_mem)
  let ?sv = "mem_services u (volume k ca) (BatchJournal_renamed sha) True"
  have ren: "sv_rename ?sv w a b = (w', r) \<Longrightarrow> faults w = no_faults \<Longrightarrow> faults w' = no_faults" for w a b w' r
    using quiet_faults(1) [of w u "volume k ca" a b] by (simp add: mem_services_def)
  have st: "sv_stat ?sv w q = (w', r) \<Longrightarrow> faults w = no_faults \<Longrightarrow> faults w' = no_faults" for w q w' r
    using quiet_faults(2) [of w u "volume k ca" q] by (cases "mem_stat u (volume k ca) w q") (auto simp: mem_services_def)
  note R = mem.rename_provider_axioms [of u k ca "BatchJournal_renamed sha" True dir]
  show "rename_provider ?sv (quiet (sensitive k) dir) (sibling_of dir) (mem_entry dir) (mem_key (sensitive k))"
  proof (rule rename_provider.intro, unfold quiet_def, goal_cases)
    case (1 w a b w' r)
    then show ?case using rename_provider.rename_kept [OF R, of w a b w' r] ren [of w a b w' r] by blast
  next
    case (2 w a b w' u')
    then show ?case using rename_provider.rename_done [OF R, of w a b w' u'] by blast
  next
    case (3 w a b w' e)
    then show ?case using rename_provider.rename_failed [OF R, of w a b w' e] by blast
  next
    case (4 w q w' r)
    then show ?case using rename_provider.stat_kept [OF R, of w q w' r] st [of w q w' r] by blast
  next
    case (5 w q w' u')
    then show ?case using rename_provider.stat_found [OF R, of w q w' u'] by blast
  next
    case (6 w q w')
    then show ?case using rename_provider.stat_missing [OF R, of w q w'] by blast
  next
    case (7 w)
    then show ?case using rename_provider.distinct_keys [OF R, of w] by blast
  qed
next
  fix w w' c
  assume "quiet (sensitive k) dir w" "up_capabilities_at (mem_undo u (volume k ca)) w dir = (w', c)"
  then show "quiet (sensitive k) dir w' \<and> mem_entry dir w' = mem_entry dir w" by (simp add: mem_undo_def)
next
  fix w w' r
  assume w: "quiet (sensitive k) dir w" and l: "up_list (mem_undo u (volume k ca)) w dir = (w', r)"
  then have "faults w' = no_faults" using quiet_faults(3) [of w u "volume k ca" dir]
    by (cases "mem_list u (volume k ca) w dir") (auto simp: mem_undo_def quiet_def)
  with mem_undoable.listed_kept [OF _ l] w show "quiet (sensitive k) dir w' \<and> mem_entry dir w' = mem_entry dir w"
    by (simp add: quiet_def)
next
  fix w w' ps
  assume "quiet (sensitive k) dir w" and l: "up_list (mem_undo u (volume k ca)) w dir = (w', Inr (map Inr ps))"
  with mem_undoable.listed [OF _ l] show "distinct ps \<and> set ps = dom (mem_entry dir w)" by (simp add: quiet_def)
next
  fix w a
  assume "quiet (sensitive k) dir w" "mem_entry dir w a \<noteq> None"
  then show "sibling_of dir a" by (simp add: mem_entry_def split: if_splits)
qed

end
