(* ===== verification/Undo_Properties.thy ===== *)
theory Undo_Properties
  imports Undo_Directory "HOL-Library.Multiset"
begin

section \<open>From a recorded batch to its undo\<close>

text \<open>A batch of renames ran to its end: its paths lie in the directory and can be read back from the journal, its
  moves were possible one after the other, and the journal had room for them.\<close>

definition batch_recorded :: "(bytes \<Rightarrow> bytes) \<Rightarrow> 'w undo_provider \<Rightarrow> ('w \<Rightarrow> bool) \<Rightarrow> vpath \<Rightarrow> ('w \<Rightarrow> vpath \<Rightarrow> 'f option) \<Rightarrow>
    (vpath \<Rightarrow> 'k) \<Rightarrow> planned_step list \<Rightarrow> ('w, batch_journal) exec_state \<Rightarrow> ('w, batch_journal) exec_state \<Rightarrow> bool" where
  "batch_recorded sha p good dir entry key ss x x' \<longleftrightarrow>
     ss \<noteq> [] \<and> length ss \<le> 2 ^ 32 \<and> list_all (\<lambda>s. ps_undoes s = None) ss \<and> list_all (written dir) (map step_move ss) \<and>
     good (world x) \<and> report x = report_default \<and> run_moves key (map step_move ss) (entry (world x)) \<noteq> None \<and>
     (\<exists>log. journal_run sha (bj_journal (recorder x)) log \<and> points_back log \<and>
        int (length log) + 2 * int (length ss) < 2 ^ 63 - 1) \<and>
     (\<exists>cancel. exec_run (undo_services sha p) cancel ss x = (x', Inr ()))"

lemma recorded_moves:
  assumes "undoable sha p good dir entry key" "batch_recorded sha p good dir entry key ss x x'"
  shows "run_moves key (map prod.swap (rev (map step_move ss))) (entry (world x')) = Some (entry (world x))"
proof -
  have pr: "rename_provider (undo_services sha p) good (sibling_of dir) entry key" using assms(1) by (rule undoable.axioms)
  have sib: "siblings (sibling_of dir) (map step_move ss)" using assms(2)
    by (auto simp: batch_recorded_def siblings_def list_all_iff written_def)
  obtain d where d: "run_moves key (map step_move ss) (entry (world x)) = Some d" using assms(2) by (auto simp: batch_recorded_def)
  obtain cancel where run: "exec_run (undo_services sha p) cancel ss x = (x', Inr ())" and x: "good (world x)" "report x = report_default"
    using assms(2) by (auto simp: batch_recorded_def)
  have "entry (world x') = d" using rename_provider.exec_run_entry [OF pr x(1) sib x(2) d run] by simp
  with run_moves_back [OF d rename_provider.distinct_keys [OF pr x(1)]] show ?thesis by simp
qed

lemma recorded_unit:
  assumes "\<forall>x. length (sha x) = 32" "batch_recorded sha p good dir entry key ss x x'"
    and "revertible_for (bj_journal (recorder x)) (bj_actor (recorder x)) = Inr es" "\<forall>e \<in> set es. \<not> in_batch (bj_batch (recorder x)) e"
    and "revertible_for (bj_journal (recorder x')) (bj_actor (recorder x)) = Inr all" "undo_units all = unit # units"
  shows "units = undo_units es \<and> list_all2 (shows_step (bj_actor (recorder x)) (bj_batch (recorder x))) unit (rev (map step_move ss))"
proof -
  obtain log cancel where run: "journal_run sha (bj_journal (recorder x)) log" "points_back log"
      "int (length log) + 2 * int (length ss) < 2 ^ 63 - 1" "exec_run (undo_services sha p) cancel ss x = (x', Inr ())"
      "list_all (\<lambda>s. ps_undoes s = None) ss" "ss \<noteq> []"
    using assms(2) by (auto simp: batch_recorded_def)
  have sv: "sv_renamed (undo_services sha p) = BatchJournal_renamed sha" "sv_records (undo_services sha p)"
    by (simp_all add: undo_services_def)
  obtain news where news: "all = news @ es" "list_all2 (shows_step (bj_actor (recorder x)) (bj_batch (recorder x))) news (rev (map step_move ss))"
    using recorded_batch [OF assms(1) run(1,2) sv run(5,3,4) assms(3)] assms(5) by (auto simp: rev_map)
  have "news \<noteq> []" using news(2) run(6) by auto
  moreover have "\<forall>e \<in> set news. in_batch (bj_batch (recorder x)) e"
    using list_all2_in_set1 [OF news(2)] by (fastforce simp: shows_step_def in_batch_def)
  ultimately have "undo_units all = news # undo_units es"
    using units_spec_front [OF _ _ assms(4), of news] by (simp add: news(1) undo_units_spec)
  with news(2) assms(6) show ?thesis by simp
qed

section \<open>An instance\<close>

definition photo_undo :: "mem_world undo_provider" where
  "photo_undo = mem_undo ascii_tables (volume (caps mem_new) [])"

lemma photo_undoable: "undoable sha photo_undo (quiet True photos) photos (mem_entry photos) (mem_key True)"
proof -
  have "sensitive (caps mem_new)" by (simp add: sensitive_def mem_new_def)
  then show ?thesis using quiet_undoable.undoable_axioms [of sha ascii_tables "caps mem_new" "[]" photos] by (simp add: photo_undo_def)
qed

lemma photo_obliging: "obliging (undo_services sha photo_undo) (quiet True photos) (sibling_of photos) (mem_entry photos) (mem_key True)"
proof -
  have "sensitive (caps mem_new)" by (simp add: sensitive_def mem_new_def)
  then show ?thesis using quiet_renames [of "caps mem_new" photos _ _ _ ascii_tables "[]"]
    by (auto simp: obliging_def photo_undo_def mem_services_def)
qed

definition batch_start :: "journal \<Rightarrow> (mem_world, batch_journal) exec_state" where
  "batch_start j = started (photo_world no_faults)
     \<lparr>bj_journal = j, bj_actor = Agent ''s1'', bj_batch = 1, bj_io = (\<lambda>_. (True, 9)), bj_calls = 0\<rparr>"

definition undo_start :: "(mem_world, batch_journal) exec_state \<Rightarrow> mem_world undo_state" where
  "undo_start x = \<lparr>us_world = world x, us_journal = bj_journal (recorder x), us_calls = 0, us_polls = 0, us_report = undo_report_default\<rparr>"

lemma shift_written: "list_all (written photos) (map step_move shift_moves)"
  by code_simp

lemma shift_possible:
  "run_moves (mem_key True) (map step_move shift_moves) (mem_entry photos (photo_world fs)) = Some [photo ''c'' \<mapsto> 2, photo ''a'' \<mapsto> 3]"
  by (auto simp: shift_moves_def photo_step_def step_move_def photo_entries moved_def occupied_def mem_key_def fold_key_def
      fun_eq_iff split: if_splits)


definition shift_world1 :: mem_world where
  "shift_world1 = fst (mem_rename ascii_tables (volume (caps mem_new) []) (photo_world no_faults) (photo ''a'') (photo ''c''))"

definition shift_world2 :: mem_world where
  "shift_world2 = fst (mem_rename ascii_tables (volume (caps mem_new) []) shift_world1 (photo ''b'') (photo ''a''))"

lemma shift_renames:
  "mem_rename ascii_tables (volume (caps mem_new) []) (photo_world no_faults) (photo ''a'') (photo ''c'') = (shift_world1, Inr ())"
  "mem_rename ascii_tables (volume (caps mem_new) []) shift_world1 (photo ''b'') (photo ''a'') = (shift_world2, Inr ())"
proof -
  have "snd (mem_rename ascii_tables (volume (caps mem_new) []) (photo_world no_faults) (photo ''a'') (photo ''c'')) = Inr ()"
    "snd (mem_rename ascii_tables (volume (caps mem_new) []) shift_world1 (photo ''b'') (photo ''a'')) = Inr ()"
    by code_simp+
  then show "mem_rename ascii_tables (volume (caps mem_new) []) (photo_world no_faults) (photo ''a'') (photo ''c'') = (shift_world1, Inr ())"
    "mem_rename ascii_tables (volume (caps mem_new) []) shift_world1 (photo ''b'') (photo ''a'') = (shift_world2, Inr ())"
    by (simp_all add: shift_world1_def shift_world2_def prod_eq_iff)
qed

lemma shift_quiet: "quiet True photos (photo_world no_faults)" "quiet True photos shift_world2"
proof -
  have "mem_good True photos shift_world2" "faults shift_world2 = no_faults" by code_simp+
  then show "quiet True photos (photo_world no_faults)" "quiet True photos shift_world2"
    using photo_good by (simp_all add: quiet_def photo_world_def)
qed

lemma shift_listed: "\<exists>w ps. up_list photo_undo shift_world2 photos = (w, Inr (map Inr ps)) \<and> length ps \<le> RENAME_BATCH_MAX_LISTING"
proof -
  have "map_sum id length (snd (mem_list ascii_tables (volume (caps mem_new) []) shift_world2 photos)) = Inr 2" by code_simp
  then obtain w ps where "mem_list ascii_tables (volume (caps mem_new) []) shift_world2 photos = (w, Inr ps)" "length ps = 2"
    by (cases "mem_list ascii_tables (volume (caps mem_new) []) shift_world2 photos") (auto simp: map_sum_def split: sum.splits)
  then show ?thesis by (simp add: photo_undo_def mem_undo_def RENAME_BATCH_MAX_LISTING_def)
qed


text \<open>The batch of two renames, recorded in a journal that already holds a mutation.\<close>

lemma shift_batch:
  obtains j x' log es all unit where
    "batch_recorded sample_sha photo_undo (quiet True photos) photos (mem_entry photos) (mem_key True) shift_moves (batch_start j) x'"
    "exec_run (undo_services sample_sha photo_undo) (\<lambda>_. False) shift_moves (batch_start j) = (x', Inr ())"
    "revertible_for j (Agent ''s1'') = Inr es" "\<forall>e \<in> set es. \<not> in_batch 1 e"
    "revertible_for (bj_journal (recorder x')) (Agent ''s1'') = Inr all" "undo_units all = unit # undo_units es"
    "world x' = shift_world2" "journal_run sample_sha (bj_journal (recorder x')) log" "length log = 3"
proof -
  obtain j where j: "journal_run sample_sha j [sample_record 1 8 None]" "journal_at sample_sha j [sample_record 1 8 None] 7 0"
    using sample_run by blast
  let ?x = "batch_start j" and ?moves = "[photo_step ''a'' ''c'' 1, photo_step ''b'' ''a'' 0]"
  have j0: "journal_run sample_sha (bj_journal (recorder ?x)) [sample_record 1 8 None]"
      "journal_at sample_sha (bj_journal (recorder ?x)) [sample_record 1 8 None] 7 0" "bj_io (recorder ?x) = (\<lambda>_. (True, 9))"
    using j by (simp_all add: batch_start_def started_def)
  obtain b1 log1 where b1: "BatchJournal_renamed sample_sha (recorder ?x) (photo ''a'') (photo ''c'') None =
        (b1, Inr (Some 2))" "bj_io b1 = (\<lambda>_. (True, 9))" "journal_run sample_sha (bj_journal b1) log1"
      "journal_at sample_sha (bj_journal b1) log1 7 0" "length log1 = 2"
    by (rule renamed_accepted [OF sample_sha_32 j0(1,2) _ j0(3), of "photo ''a''" "photo ''c''" None])
      (auto simp: numeral_2_eq_2)
  obtain b2 log2 where b2: "BatchJournal_renamed sample_sha b1 (photo ''b'') (photo ''a'') None =
        (b2, Inr (Some 3))" "journal_run sample_sha (bj_journal b2) log2" "length log2 = 3"
    by (rule renamed_accepted [OF sample_sha_32 b1(3,4) _ b1(2), of "photo ''b''" "photo ''a''" None])
      (use b1(5) in \<open>auto simp: numeral_3_eq_3\<close>)
  have sv: "undo_services sample_sha photo_undo =
      mem_services ascii_tables (volume (caps mem_new) []) (BatchJournal_renamed sample_sha) True"
    by (simp add: photo_undo_def)
  have start: "world ?x = photo_world no_faults" "report ?x = report_default"
    by (simp_all add: batch_start_def started_def)
  have "\<exists>x'. exec_run (undo_services sample_sha photo_undo) (\<lambda>_. False) shift_moves ?x = (x', Inr ()) \<and> recorder x' = b2 \<and> world x' = shift_world2"
    using b1(1) b2(1) shift_renames start(1) unfolding sv
    by (simp add: exec_run_def shift_moves_def photo_step_def mem_services_def)
  then obtain x' where x': "exec_run (undo_services sample_sha photo_undo) (\<lambda>_. False) shift_moves ?x = (x', Inr ())"
      "recorder x' = b2" "world x' = shift_world2" by blast
  have pb: "points_back [sample_record 1 8 None]"
    by (simp add: points_back_def sample_record_def entry_record_def sample_entry_def)
  have two: "length shift_moves = 2" "list_all (\<lambda>s. ps_undoes s = None) shift_moves"
    by (simp_all add: shift_moves_def photo_step_def)
  have rec: "batch_recorded sample_sha photo_undo (quiet True photos) photos (mem_entry photos) (mem_key True) shift_moves ?x x'"
    unfolding batch_recorded_def start
    using two shift_written shift_possible [of no_faults] shift_quiet(1) j0(1) pb x'(1)
    by (auto intro!: exI [of _ "[sample_record 1 8 None]"] exI [of _ "\<lambda>_. False"])
  obtain e where e: "revertible_for j (Agent ''s1'') = Inr [e]" "e_batch_id e = None" using sample_revertible [OF j(2)] by blast
  have act: "bj_actor (recorder ?x) = Agent ''s1''" "bj_batch (recorder ?x) = 1" "bj_journal (recorder ?x) = j"
    by (simp_all add: batch_start_def started_def)
  obtain news where news: "revertible_for (bj_journal (recorder x')) (Agent ''s1'') = Inr (news @ [e])"
      "list_all2 (shows_step (Agent ''s1'') 1) news (map step_move (rev shift_moves))"
    using recorded_batch [OF sample_sha_32 j0(1) pb _ _ two(2) _ x'(1), of "Agent ''s1''" "[e]"] act e(1) two(1)
    by (auto simp: undo_services_def)
  have "undo_units (news @ [e]) \<noteq> []" by (cases news) (simp_all add: undo_units_spec split: option.splits)
  then obtain unit units where units: "undo_units (news @ [e]) = unit # units" by (cases "undo_units (news @ [e])") auto
  have unb: "\<forall>e \<in> set [e]. \<not> in_batch (bj_batch (recorder ?x)) e" using e(2) by (simp add: in_batch_def)
  have "units = undo_units [e]"
    using recorded_unit [OF sample_sha_32 rec, unfolded act, OF e(1) unb [unfolded act] news(1) units] by simp
  with units b2(2,3) x' rec e(1) news(1) unb act show thesis
    by (intro that [of j x' "[e]" "news @ [e]" unit log2]) (simp_all add: in_batch_def)
qed

lemma shift_undo:
  "\<exists>w ps. up_list photo_undo shift_world2 photos = (w, Inr (map Inr ps)) \<and> length ps \<le> RENAME_BATCH_MAX_LISTING"
  "up_capabilities_at photo_undo w photos = (w, Inr (caps mem_new))" "READ_ONLY \<notin> cap_flags (caps mem_new)"
  "length shift_moves = 2" "bj_actor (recorder (batch_start j)) = Agent ''s1''" "bj_batch (recorder (batch_start j)) = 1"
  "bj_journal (recorder (batch_start j)) = j" "mem_entry photos (world (batch_start j)) = [photo ''a'' \<mapsto> 2, photo ''b'' \<mapsto> 3]"
  using shift_listed
  by (simp_all add: photo_undo_def mem_undo_def capabilities_at_def volume_def mem_new_def shift_moves_def batch_start_def
      started_def photo_entries)

lemma shift_reverted:
  assumes "list_all2 (shows_step (Agent ''s1'') 1) unit (rev (map step_move shift_moves))" "world x' = shift_world2"
    and "journal_run sample_sha (bj_journal (recorder x')) log" "length log = 3"
    and "run_moves (mem_key True) (map prod.swap (rev (map step_move shift_moves))) (mem_entry photos shift_world2) = Some d"
  shows "snd (revert_batch ascii_tables sample_sha photo_undo (\<lambda>_. (True, 9)) (\<lambda>_. False) unit (Agent ''s1'') (undo_start x')) = Inr RDone"
proof -
  have w: "us_world (undo_start x') = shift_world2" "us_journal (undo_start x') = bj_journal (recorder x')"
    using assms(2) by (simp_all add: undo_start_def)
  obtain w' ps where l: "up_list photo_undo shift_world2 photos = (w', Inr (map Inr ps))" "length ps \<le> RENAME_BATCH_MAX_LISTING"
    using shift_undo(1) by blast
  have len: "length unit = 2" using assms(1) shift_undo(4) by (auto dest: list_all2_lengthD)
  then have ne: "unit \<noteq> []" "length unit \<le> 2 ^ 32" "int (length log) + int (length unit) < 2 ^ 63" using assms(4) by auto
  have wr: "list_all (written photos) (rev (map step_move shift_moves))" using shift_written by simp
  show ?thesis
    by (rule undoable.revert_batch_done [OF photo_undoable sample_sha_32 photo_obliging ne(1) assms(1) wr ne(2), where st = "undo_start x'",
          unfolded w, OF shift_quiet(2) assms(5) shift_undo(2,3) l assms(3) ne(3)]) simp
qed

section \<open>Properties\<close>

text \<open>C35: the units of an undo are the batches, whole: the units are the entries without a batch, alone, and for every
  batch all of its entries in their order, at the place of the first; no entry is lost or doubled.\<close>

theorem undo_units_whole:
  "undo_units es = units_spec es \<and> mset (concat (undo_units es)) = mset es"
proof -
  have "mset (concat (units_spec es)) = mset es"
    by (induction es rule: units_spec.induct) (auto split: option.splits)
  then show ?thesis by (simp add: undo_units_spec)
qed

text \<open>C11: undoing a batch of renames puts every file back. After a batch has succeeded and been recorded, the newest
  unit of its actor's undo is exactly that batch, and the units behind it are those from before. Reverting it, in a
  directory that still is as the batch left it, either says that it is done and every file is where it was before the batch,
  or says that it stopped or was cancelled: then nothing was renamed, unless the provider answers renames with that
  very error and it leaves open what happened, or the report names the step that stayed applied.\<close>

theorem undo_restores_batch:
  assumes "\<forall>x. length (sha x) = 32" "undoable sha p good dir entry key" "batch_recorded sha p good dir entry key ss x x'"
    and "revertible_for (bj_journal (recorder x)) (bj_actor (recorder x)) = Inr es" "\<forall>e \<in> set es. \<not> in_batch (bj_batch (recorder x)) e"
    and "revertible_for (bj_journal (recorder x')) (bj_actor (recorder x)) = Inr all" "undo_units all = unit # units"
    and "good (us_world st)" "entry (us_world st) = entry (world x')"
    and "revert_batch u sha p io cancel unit a st = (st', r)"
  shows "units = undo_units es \<and>
    outcome_of_undo (leaves_open (up_rename p)) (entry (world x)) (entry (world x')) (entry (us_world st')) (us_report st') r"
proof -
  note unit = recorded_unit [OF assms(1,3-7)]
  note rback = recorded_moves [OF assms(2,3)]
  have ss: "ss \<noteq> []" "length ss \<le> 2 ^ 32" "list_all (written dir) (rev (map step_move ss))"
    using assms(3) by (auto simp: batch_recorded_def)
  have "length unit = length ss" using unit by (auto dest: list_all2_lengthD)
  then show ?thesis
    using undoable.revert_batch_entry [OF assms(2) _ conjunct2 [OF unit] ss(3) _ assms(8) _ assms(10)] unit rback ss(1,2) assms(9)
    by auto
qed

theorem undo_restores_batch_witness:
  "\<exists>j x' all unit units st'.
     exec_run (undo_services sample_sha photo_undo) (\<lambda>_. False) shift_moves (batch_start j) = (x', Inr ()) \<and>
     revertible_for (bj_journal (recorder x')) (Agent ''s1'') = Inr all \<and> undo_units all = unit # units \<and>
     revert_batch ascii_tables sample_sha photo_undo (\<lambda>_. (True, 9)) (\<lambda>_. False) unit (Agent ''s1'') (undo_start x') = (st', Inr RDone) \<and>
     mem_entry photos (us_world st') = [photo ''a'' \<mapsto> 2, photo ''b'' \<mapsto> 3]"
proof -
  obtain j x' log es all unit where b:
      "batch_recorded sample_sha photo_undo (quiet True photos) photos (mem_entry photos) (mem_key True) shift_moves (batch_start j) x'"
      "exec_run (undo_services sample_sha photo_undo) (\<lambda>_. False) shift_moves (batch_start j) = (x', Inr ())"
      "revertible_for j (Agent ''s1'') = Inr es" "\<forall>e \<in> set es. \<not> in_batch 1 e"
      "revertible_for (bj_journal (recorder x')) (Agent ''s1'') = Inr all" "undo_units all = unit # undo_units es"
      "world x' = shift_world2" "journal_run sample_sha (bj_journal (recorder x')) log" "length log = 3"
    by (rule shift_batch)
  let ?run = "revert_batch ascii_tables sample_sha photo_undo (\<lambda>_. (True, 9)) (\<lambda>_. False) unit (Agent ''s1'') (undo_start x')"
  obtain st' r where run: "?run = (st', r)" by fastforce
  have w: "us_world (undo_start x') = shift_world2" "us_journal (undo_start x') = bj_journal (recorder x')"
    using b(7) by (simp_all add: undo_start_def)
  note restored = undo_restores_batch [OF sample_sha_32 photo_undoable b(1), unfolded shift_undo(4-8), OF b(3,4,5,6) _ _ run, unfolded w b(7), OF shift_quiet(2) refl]
  have "r = Inr RDone"
    using shift_reverted [OF conjunct2 [OF recorded_unit [OF sample_sha_32 b(1), unfolded shift_undo(5-7), OF b(3-6)]] b(7,8,9)
        recorded_moves [OF photo_undoable b(1), unfolded b(7)]] run by simp
  with restored b run show ?thesis
    by (intro exI [of _ j] exI [of _ x'] exI [of _ all] exI [of _ unit] exI [of _ "undo_units es"] exI [of _ st'])
      (simp add: outcome_of_undo_def)
qed

text \<open>C12: the undo of a batch goes through. If moreover the provider does every rename that is possible, answers the
  questions of the undo about a directory that is not read only and not too long to list, the journal takes the
  compensations and nobody cancels, then reverting the batch succeeds and every file is where it was before the batch.\<close>

theorem undo_of_batch_completes:
  assumes "\<forall>x. length (sha x) = 32" "undoable sha p good dir entry key" "batch_recorded sha p good dir entry key ss x x'"
    and "revertible_for (bj_journal (recorder x)) (bj_actor (recorder x)) = Inr es" "\<forall>e \<in> set es. \<not> in_batch (bj_batch (recorder x)) e"
    and "revertible_for (bj_journal (recorder x')) (bj_actor (recorder x)) = Inr all" "undo_units all = unit # units"
    and "good (us_world st)" "entry (us_world st) = entry (world x')"
    and "obliging (undo_services sha p) good (sibling_of dir) entry key"
    and "up_capabilities_at p (us_world st) dir = (w, Inr c)" "READ_ONLY \<notin> cap_flags c"
    and "up_list p w dir = (w', Inr (map Inr ps))" "length ps \<le> RENAME_BATCH_MAX_LISTING"
    and "journal_run sha (us_journal st) log" "int (length log) + int (length ss) < 2 ^ 63" "\<forall>k. fst (io k)"
  shows "\<exists>st'. revert_batch u sha p io (\<lambda>_. False) unit a st = (st', Inr RDone) \<and> entry (us_world st') = entry (world x)"
proof -
  note unit = conjunct2 [OF recorded_unit [OF assms(1,3-7)]]
  note rback = recorded_moves [OF assms(2,3)]
  have ss: "ss \<noteq> []" "length ss \<le> 2 ^ 32" "list_all (written dir) (rev (map step_move ss))"
    using assms(3) by (auto simp: batch_recorded_def)
  have len: "length unit = length ss" using unit by (auto dest: list_all2_lengthD)
  then have ne: "unit \<noteq> []" "length unit \<le> 2 ^ 32" using ss(1,2) by auto
  have rback': "run_moves key (map prod.swap (rev (map step_move ss))) (entry (us_world st)) = Some (entry (world x))"
    using rback assms(9) by simp
  have room: "int (length log) + int (length unit) < 2 ^ 63" using assms(16) len by simp
  obtain st' r where run: "revert_batch u sha p io (\<lambda>_. False) unit a st = (st', r)" by fastforce
  have "r = Inr RDone"
    using undoable.revert_batch_done [OF assms(2,1,10) ne(1) unit ss(3) ne(2) assms(8) rback' assms(11-15) room assms(17), where u = u and a = a] run by simp
  moreover have "outcome_of_undo (leaves_open (up_rename p)) (entry (world x)) (entry (us_world st)) (entry (us_world st')) (us_report st') r"
    by (rule undoable.revert_batch_entry [OF assms(2) ne(1) unit ss(3) ne(2) assms(8) rback' run])
  ultimately show ?thesis using run by (simp add: outcome_of_undo_def)
qed

theorem undo_of_batch_completes_witness:
  "\<exists>j x' all unit units st'.
     exec_run (undo_services sample_sha photo_undo) (\<lambda>_. False) shift_moves (batch_start j) = (x', Inr ()) \<and>
     revertible_for (bj_journal (recorder x')) (Agent ''s1'') = Inr all \<and> undo_units all = unit # units \<and>
     revert_batch ascii_tables sample_sha photo_undo (\<lambda>_. (True, 9)) (\<lambda>_. False) unit (Agent ''s1'') (undo_start x') = (st', Inr RDone) \<and>
     mem_entry photos (us_world st') = mem_entry photos (photo_world no_faults)"
proof -
  obtain j x' log es all unit where b:
      "batch_recorded sample_sha photo_undo (quiet True photos) photos (mem_entry photos) (mem_key True) shift_moves (batch_start j) x'"
      "exec_run (undo_services sample_sha photo_undo) (\<lambda>_. False) shift_moves (batch_start j) = (x', Inr ())"
      "revertible_for j (Agent ''s1'') = Inr es" "\<forall>e \<in> set es. \<not> in_batch 1 e"
      "revertible_for (bj_journal (recorder x')) (Agent ''s1'') = Inr all" "undo_units all = unit # undo_units es"
      "world x' = shift_world2" "journal_run sample_sha (bj_journal (recorder x')) log" "length log = 3"
    by (rule shift_batch)
  have w: "us_world (undo_start x') = shift_world2" "us_journal (undo_start x') = bj_journal (recorder x')"
    using b(7) by (simp_all add: undo_start_def)
  obtain w' ps where l: "up_list photo_undo shift_world2 photos = (w', Inr (map Inr ps))" "length ps \<le> RENAME_BATCH_MAX_LISTING"
    using shift_undo(1) by blast
  have room: "int (length log) + int (length shift_moves) < 2 ^ 63" using b(9) shift_undo(4) by simp
  obtain st' where st': "revert_batch ascii_tables sample_sha photo_undo (\<lambda>_. (True, 9)) (\<lambda>_. False) unit (Agent ''s1'') (undo_start x') =
      (st', Inr RDone)" "mem_entry photos (us_world st') = mem_entry photos (photo_world no_faults)"
    using undo_of_batch_completes [OF sample_sha_32 photo_undoable b(1), unfolded shift_undo(4-8), OF b(3,4,5,6), where st = "undo_start x'",
      unfolded w b(7), OF shift_quiet(2) refl photo_obliging shift_undo(2,3) l b(8) room [unfolded shift_undo(4)],
      of "\<lambda>_. (True, 9)" ascii_tables "Agent ''s1''"] by (auto simp: photo_entries)
  with b show ?thesis
    by (intro exI [of _ j] exI [of _ x'] exI [of _ all] exI [of _ unit] exI [of _ "undo_units es"] exI [of _ st']) simp
qed

end
