(* ===== verification/Undo_Entry.thy ===== *)
theory Undo_Entry
  imports Undo_Batch
begin

text \<open>
  Reverting a single entry of the journal, \<^verbatim>\<open>revert_entry\<close> of \<^verbatim>\<open>norte-core/src/undo.rs\<close>, one definition per kind of
  reversal: the created node goes to the trash, the renamed one back to its name (by a detour where both spellings
  are one name), the permissions and the trashed node are restored. With it the retries of the trash of
  \<^verbatim>\<open>norte-core/src/ops.rs\<close>.
\<close>

unbundle bit_operations_syntax

section \<open>The provider\<close>

datatype entry_kind = KindFile | KindDir | KindSymlink | KindOther

datatype attr_value =
    AttrUint nat
  | AttrInt int
  | AttrText bytes
  | AttrBytes bytes
  | AttrTimeMs int
  | AttrBool bool
  | AttrUnknown

record node_ident =
  volume_of :: nat
  index_of :: nat

record trash_id =
  deleted_ms :: nat
  trash_counter :: nat

text \<open>The operations of the trait \<^verbatim>\<open>Provider\<close> an undo calls: \<open>fp_stat\<close> answers the kind of the entry, \<open>fp_stat_mode\<close> its
  attribute \<^verbatim>\<open>posix.mode\<close>.\<close>

record 'w full_provider =
  fp_capabilities :: capabilities
  fp_capabilities_at :: "'w \<Rightarrow> vpath \<Rightarrow> 'w \<times> (proto_error + capabilities)"
  fp_stat :: "'w \<Rightarrow> vpath \<Rightarrow> 'w \<times> (proto_error + entry_kind)"
  fp_stat_mode :: "'w \<Rightarrow> vpath \<Rightarrow> 'w \<times> (proto_error + attr_value option)"
  fp_node_id :: "'w \<Rightarrow> vpath \<Rightarrow> 'w \<times> (proto_error + node_ident option)"
  fp_list :: "'w \<Rightarrow> vpath \<Rightarrow> 'w \<times> (proto_error + (proto_error + vpath) list)"
  fp_rename :: "'w \<Rightarrow> vpath \<Rightarrow> vpath \<Rightarrow> 'w \<times> (proto_error + unit)"
  fp_set_mode :: "'w \<Rightarrow> vpath \<Rightarrow> nat \<Rightarrow> 'w \<times> (proto_error + unit)"
  fp_trash :: "'w \<Rightarrow> vpath \<Rightarrow> trash_id \<Rightarrow> 'w \<times> (proto_error + vpath option)"
  fp_restore_from :: "'w \<Rightarrow> vpath \<Rightarrow> vpath \<Rightarrow> 'w \<times> (proto_error + unit)"
  fp_restore_trashed :: "'w \<Rightarrow> vpath \<Rightarrow> 'w \<times> (proto_error + unit)"

definition plain_provider :: "'w full_provider \<Rightarrow> 'w undo_provider" where
  "plain_provider p =
     \<lparr>up_rename = fp_rename p, up_stat = (\<lambda>w q. map_prod id (map_sum id (\<lambda>_. ())) (fp_stat p w q)),
      up_capabilities_at = fp_capabilities_at p, up_list = fp_list p\<rparr>"

text \<open>What an undo runs in: the tables of Unicode, the digest, the outcome and the time of each write to the journal, the
  clock of the system and the answers of the cancellation token.\<close>

record undo_env =
  ue_unicode :: unicode
  ue_sha :: "bytes \<Rightarrow> bytes"
  ue_io :: "nat \<Rightarrow> bool \<times> int"
  ue_clock :: "nat \<Rightarrow> nat"
  ue_cancel :: "nat \<Rightarrow> bool"

definition entry_free :: "'w full_provider \<Rightarrow> 'w \<Rightarrow> vpath \<Rightarrow> 'w \<times> (proto_error + bool)" where
  "entry_free p w q =
     (case fp_stat p w q of
        (w', Inl E_NotFound) \<Rightarrow> (w', Inr True)
      | (w', Inr _) \<Rightarrow> (w', Inr False)
      | (w', Inl e) \<Rightarrow> (w', Inl e))"

definition OCCUPIED :: proto_error where
  "OCCUPIED = E_Conflict Exists"

definition same_node :: "'w full_provider \<Rightarrow> 'w \<Rightarrow> vpath \<Rightarrow> vpath \<Rightarrow> 'w \<times> (proto_error + bool)" where
  "same_node p w a b =
     (case fp_node_id p w a of
        (w, Inl e) \<Rightarrow> (w, Inl e)
      | (w, Inr ida) \<Rightarrow>
          (case fp_node_id p w b of
             (w, Inl e) \<Rightarrow> (w, Inl e)
           | (w, Inr idb) \<Rightarrow> (w, Inr (ida \<noteq> None \<and> ida = idb))))"

definition detour_name :: "nat \<Rightarrow> bytes" where
  "detour_name n = TEMP_PREFIX @ ''case-undo-'' @ decimal n"

text \<open>The loop of \<^verbatim>\<open>rename_via_detour\<close> over the numbers that are left.\<close>

fun detour_loop :: "'w full_provider \<Rightarrow> vpath \<Rightarrow> vpath \<Rightarrow> nat list \<Rightarrow> 'w \<Rightarrow> 'w \<times> (proto_error + unit)" where
  "detour_loop p source dest [] w = (w, Inl OCCUPIED)"
| "detour_loop p source dest (n # ns) w =
     (case Segment_new (detour_name n) of
        Inl _ \<Rightarrow> (w, Inl E_InvalidPath)
      | Inr s \<Rightarrow>
          (case with_file_name source s of
             None \<Rightarrow> (w, Inl E_InvalidPath)
           | Some temp \<Rightarrow>
               (case entry_free p w temp of
                  (w, Inl e) \<Rightarrow> (w, Inl e)
                | (w, Inr False) \<Rightarrow> detour_loop p source dest ns w
                | (w, Inr True) \<Rightarrow>
                    (case fp_rename p w source temp of
                       (w, Inl e) \<Rightarrow> (w, Inl e)
                     | (w, Inr _) \<Rightarrow>
                         (case fp_rename p w temp dest of
                            (w, Inl e) \<Rightarrow> (fst (fp_rename p w temp source), Inl e)
                          | (w, Inr _) \<Rightarrow> (w, Inr ()))))))"

definition rename_via_detour :: "'w full_provider \<Rightarrow> vpath \<Rightarrow> vpath \<Rightarrow> 'w \<Rightarrow> 'w \<times> (proto_error + unit)" where
  "rename_via_detour p source dest w = detour_loop p source dest [0..<1000] w"

definition MODE_PERMISSION_BITS :: nat where
  "MODE_PERMISSION_BITS = 4095"

definition mode_of :: "attr_value option \<Rightarrow> nat option" where
  "mode_of a = (case a of Some (AttrUint m) \<Rightarrow> if m < 2 ^ 32 then Some (m AND MODE_PERMISSION_BITS) else None | _ \<Rightarrow> None)"

definition modo_actual :: "'w full_provider \<Rightarrow> 'w \<Rightarrow> vpath \<Rightarrow> 'w \<times> nat option" where
  "modo_actual p w q = (case fp_stat_mode p w q of (w, Inl _) \<Rightarrow> (w, None) | (w, Inr a) \<Rightarrow> (w, mode_of a))"

definition has_children :: "'w full_provider \<Rightarrow> 'w \<Rightarrow> vpath \<Rightarrow> 'w \<times> (proto_error + bool)" where
  "has_children p w dir =
     (case fp_list p w dir of
        (w, Inl e) \<Rightarrow> (w, Inl e)
      | (w, Inr []) \<Rightarrow> (w, Inr False)
      | (w, Inr (Inl e # _)) \<Rightarrow> (w, Inl e)
      | (w, Inr (Inr _ # _)) \<Rightarrow> (w, Inr True))"

definition uint_from_str :: "nat \<Rightarrow> bytes \<Rightarrow> nat option" where
  "uint_from_str bits s =
     (let ds = (case s of c # r \<Rightarrow> if c = CHR ''+'' then r else s | [] \<Rightarrow> [])
      in if ds \<noteq> [] \<and> list_all (\<lambda>b. 48 \<le> u8 b \<and> u8 b \<le> 57) ds \<and> undecimal ds < 2 ^ bits
         then Some (undecimal ds) else None)"

definition footprint_to_node :: "bytes \<Rightarrow> node_ident option" where
  "footprint_to_node bs =
     (if \<not> utf8_valid bs then None
      else case split_once '':'' bs of
        None \<Rightarrow> None
      | Some (vol, idx) \<Rightarrow>
          (case (uint_from_str 64 vol, uint_from_str 128 idx) of
             (Some v, Some i) \<Rightarrow> Some \<lparr>volume_of = v, index_of = i\<rparr>
           | _ \<Rightarrow> None))"

section \<open>The trash and its retries\<close>

definition MAX_RETRIES :: nat where
  "MAX_RETRIES = 3"

fun is_transient :: "proto_error \<Rightarrow> bool" where
  "is_transient (E_ProviderUnavailable retryable) = retryable"
| "is_transient (E_Io retryable) = retryable"
| "is_transient E_Busy = True"
| "is_transient _ = False"

definition sows_doubt :: "proto_error \<Rightarrow> bool" where
  "sows_doubt e \<longleftrightarrow> is_transient e \<and> e \<noteq> E_Busy"

datatype ambiguity = NotApplied | MaybeApplied

definition doubtful :: "bool \<Rightarrow> ambiguity" where
  "doubtful amb = (if amb then MaybeApplied else NotApplied)"

text \<open>\<open>left\<close> counts the retries that remain. One attempt polls the token up to three times: before it, after a
  transient error, and during the pause.\<close>

fun trash_loop :: "'w full_provider \<Rightarrow> vpath \<Rightarrow> trash_id \<Rightarrow> (nat \<Rightarrow> bool) \<Rightarrow> nat \<Rightarrow> nat \<Rightarrow> bool \<Rightarrow> 'w \<Rightarrow>
    'w \<times> ((proto_error \<times> ambiguity) + vpath option)" where
  "trash_loop p q i cancel k left amb w =
     (if cancel k then (w, Inl (E_Cancelled, doubtful amb))
      else case fp_trash p w q i of
        (w, Inr dest) \<Rightarrow> (w, Inr dest)
      | (w, Inl e) \<Rightarrow>
          if e = E_NotFound \<and> amb then (w, Inr None)
          else if is_transient e then
            (let amb = amb \<or> sows_doubt e
             in if cancel (k + 1) then (w, Inl (e, doubtful amb))
                else case left of
                  0 \<Rightarrow> (w, Inl (e, doubtful amb))
                | Suc rest \<Rightarrow>
                    if cancel (k + 2) then (w, Inl (E_Cancelled, doubtful amb))
                    else trash_loop p q i cancel (k + 3) rest amb w)
          else (w, Inl (e, doubtful amb)))"

declare trash_loop.simps [simp del]

definition trash_retrying_amb :: "'w full_provider \<Rightarrow> vpath \<Rightarrow> trash_id \<Rightarrow> (nat \<Rightarrow> bool) \<Rightarrow> 'w \<Rightarrow>
    'w \<times> ((proto_error \<times> ambiguity) + vpath option)" where
  "trash_retrying_amb p q i cancel w = trash_loop p q i cancel 0 MAX_RETRIES False w"

definition trash_retrying :: "'w full_provider \<Rightarrow> vpath \<Rightarrow> trash_id \<Rightarrow> (nat \<Rightarrow> bool) \<Rightarrow> 'w \<Rightarrow>
    'w \<times> (proto_error + vpath option)" where
  "trash_retrying p q i cancel w = map_prod id (map_sum fst id) (trash_retrying_amb p q i cancel w)"

section \<open>Reverting one entry\<close>

text \<open>The write of a compensation.\<close>

definition write_entry :: "undo_env \<Rightarrow> new_entry \<Rightarrow> 'w undo_state \<Rightarrow> 'w undo_state \<times> (proto_error + unit)" where
  "write_entry env e st =
     (let (io, now) = ue_io env (us_calls st);
          (j, r) = record_entry (ue_sha env) io now e (us_journal st);
          st = st\<lparr>us_journal := j, us_calls := us_calls st + 1\<rparr>
      in (st, case r of Inl _ \<Rightarrow> Inl (E_Internal False) | Inr _ \<Rightarrow> Inr ()))"

definition finish_revert :: "undo_env \<Rightarrow> new_entry \<Rightarrow> 'w undo_state \<Rightarrow> 'w undo_state \<times> (proto_error + reverted)" where
  "finish_revert env e st = (case write_entry env e st of (st, Inl er) \<Rightarrow> (st, Inl er) | (st, Inr _) \<Rightarrow> (st, Inr RDone))"

definition compensation :: "bytes \<Rightarrow> bytes \<Rightarrow> bytes option \<Rightarrow> reversal \<Rightarrow> bytes option \<Rightarrow> actor \<Rightarrow> int option \<Rightarrow> journal_entry \<Rightarrow> new_entry" where
  "compensation op p p_to rv rref a b e =
     \<lparr>n_op = op, n_path = p, n_path_to = p_to, n_reversal = rv, n_reversal_ref = rref, n_actor = a,
      n_undoes_seq = Some (e_seq e), n_batch_id = b\<rparr>"

text \<open>The node at the path is the one the entry created, as far as that can be told.\<close>

definition not_ours :: "'w full_provider \<Rightarrow> journal_entry \<Rightarrow> vpath \<Rightarrow> 'w \<Rightarrow> 'w \<times> (proto_error + bool)" where
  "not_ours p e q w =
     (case (case e_reversal_ref e of None \<Rightarrow> None | Some bs \<Rightarrow> footprint_to_node bs) of
        None \<Rightarrow> (w, Inr False)
      | Some expected \<Rightarrow>
          (case fp_node_id p w q of
             (w, Inl er) \<Rightarrow> (w, Inl er)
           | (w, Inr now) \<Rightarrow> (w, Inr (now \<noteq> None \<and> now \<noteq> Some expected))))"

definition occupied_dir :: "'w full_provider \<Rightarrow> entry_kind \<Rightarrow> vpath \<Rightarrow> 'w \<Rightarrow> 'w \<times> (proto_error + bool)" where
  "occupied_dir p k q w = (if k = KindDir then has_children p w q else (w, Inr False))"

definition revert_created :: "undo_env \<Rightarrow> 'w full_provider \<Rightarrow> journal_entry \<Rightarrow> actor \<Rightarrow> int option \<Rightarrow> vpath \<Rightarrow> 'w undo_state \<Rightarrow>
    'w undo_state \<times> (proto_error + reverted)" where
  "revert_created env p e a b q st =
     (let blocked = (\<lambda>w er. (st\<lparr>us_world := w\<rparr>, Inr (Blocked (e_seq e) er)))
      in case fp_stat p (us_world st) q of
        (w, Inl er) \<Rightarrow> blocked w er
      | (w, Inr k) \<Rightarrow>
          (case not_ours p e q w of
             (w, Inl er) \<Rightarrow> blocked w er
           | (w, Inr True) \<Rightarrow> (st\<lparr>us_world := w\<rparr>, Inr SkippedNotOurs)
           | (w, Inr False) \<Rightarrow>
               (case occupied_dir p k q w of
                  (w, Inl er) \<Rightarrow> blocked w er
                | (w, Inr True) \<Rightarrow> blocked w OCCUPIED
                | (w, Inr False) \<Rightarrow>
                    if TRASH \<notin> cap_flags (fp_capabilities p) then (st\<lparr>us_world := w\<rparr>, Inr SkippedNoTrash)
                    else
                      (let i = \<lparr>deleted_ms = ue_clock env (us_calls st), trash_counter = nat \<bar>e_seq e\<bar>\<rparr>;
                           (w, r) = trash_retrying p q i (\<lambda>n. ue_cancel env (us_polls st + n)) w;
                           st = st\<lparr>us_world := w, us_polls := us_polls st + 3 * (MAX_RETRIES + 1)\<rparr>
                       in case r of
                            Inl er \<Rightarrow> (st, if er = E_Cancelled then Inl E_Cancelled else Inr (Blocked (e_seq e) er))
                          | Inr dest \<Rightarrow>
                              finish_revert env
                                (compensation ''trashed'' (e_path e) None RestoreTrash (map_option to_wire dest) a b e) st))))"

text \<open>Whether the name to go back to is taken by the very node that goes back.\<close>

definition same_node_occupies :: "'w full_provider \<Rightarrow> vpath \<Rightarrow> vpath \<Rightarrow> 'w \<Rightarrow> 'w \<times> (proto_error + bool)" where
  "same_node_occupies p q source w =
     (case entry_free p w source of
        (w, Inl er) \<Rightarrow> (w, Inl er)
      | (w, Inr True) \<Rightarrow> (w, Inr False)
      | (w, Inr False) \<Rightarrow>
          (case same_node p w q source of
             (w, Inl er) \<Rightarrow> (w, Inl er)
           | (w, Inr True) \<Rightarrow> (w, Inr True)
           | (w, Inr False) \<Rightarrow> (w, Inl OCCUPIED)))"

definition revert_renamed :: "undo_env \<Rightarrow> 'w full_provider \<Rightarrow> journal_entry \<Rightarrow> actor \<Rightarrow> int option \<Rightarrow> vpath \<Rightarrow> 'w undo_state \<Rightarrow>
    'w undo_state \<times> (proto_error + reverted)" where
  "revert_renamed env p e a b q st =
     (case e_path_to e of
        None \<Rightarrow> (st, Inr (Blocked (e_seq e) E_InvalidPath))
      | Some from_bytes \<Rightarrow>
          (case undo_wire from_bytes of
             Inl er \<Rightarrow> (st, Inl er)
           | Inr source \<Rightarrow>
               (case same_node_occupies p q source (us_world st) of
                  (w, Inl er) \<Rightarrow> (st\<lparr>us_world := w\<rparr>, Inr (Blocked (e_seq e) er))
                | (w, Inr detour) \<Rightarrow>
                    (case (if detour then rename_via_detour p q source w else fp_rename p w q source) of
                       (w, Inl er) \<Rightarrow> (st\<lparr>us_world := w\<rparr>, Inr (Blocked (e_seq e) er))
                     | (w, Inr _) \<Rightarrow>
                         finish_revert env (compensation ''renamed'' from_bytes (Some (e_path e)) RenameBack None a b e)
                           (st\<lparr>us_world := w\<rparr>)))))"

text \<open>\<open>previous_mode\<close> is the mode that \<^verbatim>\<open>reversal_ref\<close> carries in decimal.\<close>

definition previous_mode :: "journal_entry \<Rightarrow> nat option" where
  "previous_mode e =
     (case e_reversal_ref e of
        None \<Rightarrow> None
      | Some bs \<Rightarrow> if utf8_valid bs then u32_from_str bs else None)"

definition revert_mode :: "undo_env \<Rightarrow> 'w full_provider \<Rightarrow> journal_entry \<Rightarrow> actor \<Rightarrow> int option \<Rightarrow> vpath \<Rightarrow> 'w undo_state \<Rightarrow>
    'w undo_state \<times> (proto_error + reverted)" where
  "revert_mode env p e a b q st =
     (case previous_mode e of
        None \<Rightarrow> (st, Inr (Blocked (e_seq e) E_InvalidPath))
      | Some previous \<Rightarrow>
          if previous AND MODE_PERMISSION_BITS \<noteq> previous then (st, Inr (Blocked (e_seq e) E_InvalidPath))
          else
            (let (w, now) = modo_actual p (us_world st) q
             in case fp_set_mode p w q previous of
                  (w, Inl er) \<Rightarrow> (st\<lparr>us_world := w\<rparr>, Inr (Blocked (e_seq e) er))
                | (w, Inr _) \<Rightarrow>
                    finish_revert env
                      (compensation ''mode_changed'' (e_path e) (Some (decimal previous))
                         (if now \<noteq> None then SetModeBack else Irreversible) (map_option decimal now) a b e)
                      (st\<lparr>us_world := w\<rparr>)))"

definition revert_trashed :: "undo_env \<Rightarrow> 'w full_provider \<Rightarrow> journal_entry \<Rightarrow> actor \<Rightarrow> int option \<Rightarrow> vpath \<Rightarrow> 'w undo_state \<Rightarrow>
    'w undo_state \<times> (proto_error + reverted)" where
  "revert_trashed env p e a b q st =
     (let blocked = (\<lambda>w er. (st\<lparr>us_world := w\<rparr>, Inr (Blocked (e_seq e) er)))
      in case entry_free p (us_world st) q of
        (w, Inl er) \<Rightarrow> blocked w er
      | (w, Inr False) \<Rightarrow> blocked w OCCUPIED
      | (w, Inr True) \<Rightarrow>
          (case (case e_reversal_ref e of
                   None \<Rightarrow> Inr (fp_restore_trashed p w q)
                 | Some dest_bytes \<Rightarrow>
                     (case undo_wire dest_bytes of Inl er \<Rightarrow> Inl er | Inr dest \<Rightarrow> Inr (fp_restore_from p w dest q))) of
             Inl er \<Rightarrow> (st\<lparr>us_world := w\<rparr>, Inl er)
           | Inr (w, Inl er) \<Rightarrow> blocked w er
           | Inr (w, Inr _) \<Rightarrow>
               finish_revert env (compensation ''created'' (e_path e) None DeleteNode None a b e) (st\<lparr>us_world := w\<rparr>)))"

definition revert_entry :: "undo_env \<Rightarrow> 'w full_provider \<Rightarrow> journal_entry \<Rightarrow> actor \<Rightarrow> int option \<Rightarrow> 'w undo_state \<Rightarrow>
    'w undo_state \<times> (proto_error + reverted)" where
  "revert_entry env p e a b st =
     (case undo_wire (e_path e) of
        Inl er \<Rightarrow> (st, Inl er)
      | Inr q \<Rightarrow>
          if e_reversal e = ''irreversible'' then (st, Inr SkippedIrreversible)
          else if e_reversal e = ''delete'' then revert_created env p e a b q st
          else if e_reversal e = ''rename_back'' then revert_renamed env p e a b q st
          else if e_reversal e = ''set_mode_back'' then revert_mode env p e a b q st
          else if e_reversal e = ''restore_trash'' then revert_trashed env p e a b q st
          else (st, Inr (Blocked (e_seq e) E_Unsupported)))"

end
