(* ===== verification/Undo_Unit.thy ===== *)
theory Undo_Unit
  imports Undo_Entry
begin

text \<open>
  Reverting one unit of an undo, \<^verbatim>\<open>norte-core/src/undo.rs\<close>: the batches of the synchroniser and of organizing, entry
  by entry and naming what did not come back; the batches of permissions; and \<^verbatim>\<open>revert_unit\<close>, which chooses by the shape
  of the entries between these, a single entry and a batch of renames.
\<close>

section \<open>Reports\<close>

definition UNDO_MAX_UNREVERTED_PATHS :: nat where
  "UNDO_MAX_UNREVERTED_PATHS = 64"

definition note_unreverted :: "bytes \<Rightarrow> 'w undo_state \<Rightarrow> 'w undo_state" where
  "note_unreverted path st =
     (if length (ur_unreverted_paths (us_report st)) < UNDO_MAX_UNREVERTED_PATHS
      then st\<lparr>us_report := (us_report st)\<lparr>ur_unreverted_paths := ur_unreverted_paths (us_report st) @ [path]\<rparr>\<rparr> else st)"

definition count_undone :: "nat \<Rightarrow> 'w undo_state \<Rightarrow> 'w undo_state" where
  "count_undone n st = st\<lparr>us_report := (us_report st)\<lparr>ur_undone := ur_undone (us_report st) + n\<rparr>\<rparr>"

definition count_irreversible :: "'w undo_state \<Rightarrow> 'w undo_state" where
  "count_irreversible st =
     st\<lparr>us_report := (us_report st)\<lparr>ur_skipped_irreversible := ur_skipped_irreversible (us_report st) + 1\<rparr>\<rparr>"

definition count_no_trash :: "'w undo_state \<Rightarrow> 'w undo_state" where
  "count_no_trash st =
     st\<lparr>us_report := (us_report st)\<lparr>ur_skipped_created_no_trash := ur_skipped_created_no_trash (us_report st) + 1\<rparr>\<rparr>"

definition count_not_ours :: "'w undo_state \<Rightarrow> 'w undo_state" where
  "count_not_ours st =
     st\<lparr>us_report := (us_report st)\<lparr>ur_skipped_not_ours := ur_skipped_not_ours (us_report st) + 1\<rparr>\<rparr>"

definition count_lost :: "'w undo_state \<Rightarrow> 'w undo_state" where
  "count_lost st =
     st\<lparr>us_report := (us_report st)\<lparr>ur_compensations_lost := ur_compensations_lost (us_report st) + 1\<rparr>\<rparr>"

text \<open>A look at the cancellation token.\<close>

definition poll :: "undo_env \<Rightarrow> 'w undo_state \<Rightarrow> 'w undo_state \<times> bool" where
  "poll env st = (st\<lparr>us_polls := us_polls st + 1\<rparr>, ue_cancel env (us_polls st))"

section \<open>Batches of the synchroniser\<close>

definition same_place :: "vpath \<Rightarrow> vpath \<Rightarrow> bool" where
  "same_place a b \<longleftrightarrow> scheme a = scheme b \<and> authority a = authority b"

fun on_provider :: "vpath \<Rightarrow> journal_entry \<Rightarrow> bytes list \<Rightarrow> reverted + unit" where
  "on_provider origin e [] = Inr ()"
| "on_provider origin e (bs # rest) =
     (case undo_wire bs of
        Inl er \<Rightarrow> Inl (Blocked (e_seq e) er)
      | Inr path \<Rightarrow>
          if same_place path origin then on_provider origin e rest else Inl (Blocked (e_seq e) E_InvalidPath))"

definition provider_refs :: "journal_entry \<Rightarrow> bytes list" where
  "provider_refs e =
     e_path e # (if e_reversal e \<noteq> ''delete'' then (case e_reversal_ref e of Some bs \<Rightarrow> [bs] | None \<Rightarrow> []) else [])"

fun all_on_provider :: "vpath \<Rightarrow> journal_entry list \<Rightarrow> reverted + unit" where
  "all_on_provider origin [] = Inr ()"
| "all_on_provider origin (e # es) = and_then (on_provider origin e (provider_refs e)) (\<lambda>_. all_on_provider origin es)"

definition one_provider :: "journal_entry list \<Rightarrow> journal_entry \<Rightarrow> reverted + unit" where
  "one_provider unit first =
     (case undo_wire (e_path first) of
        Inl er \<Rightarrow> Inl (Blocked (e_seq first) er)
      | Inr origin \<Rightarrow> all_on_provider origin unit)"

definition ambiguous_restores :: "journal_entry list \<Rightarrow> bytes list" where
  "ambiguous_restores unit =
     (let buried = map e_path (filter (\<lambda>e. e_reversal e = reversal_as_str RestoreTrash \<and> e_reversal_ref e = None) unit)
      in map e_path (filter (\<lambda>e. e_reversal e = reversal_as_str DeleteNode \<and> e_path e \<in> set buried) unit))"

text \<open>Newest first.\<close>

definition newest_first :: "journal_entry list \<Rightarrow> journal_entry list" where
  "newest_first unit = sort_key (\<lambda>e. - e_seq e) unit"

definition first_block :: "(int \<times> proto_error) option \<Rightarrow> int \<Rightarrow> proto_error \<Rightarrow> (int \<times> proto_error) option" where
  "first_block blocked n er = (case blocked of None \<Rightarrow> Some (n, er) | Some b \<Rightarrow> Some b)"

fun sync_loop :: "undo_env \<Rightarrow> 'w full_provider \<Rightarrow> bytes list \<Rightarrow> actor \<Rightarrow> int \<Rightarrow> journal_entry list \<Rightarrow> (int \<times> proto_error) option \<Rightarrow>
    'w undo_state \<Rightarrow> 'w undo_state \<times> (proto_error + reverted)" where
  "sync_loop env p ambiguous a b [] blocked st =
     (st, Inr (case blocked of Some (n, er) \<Rightarrow> Blocked n er | None \<Rightarrow> Accounted))"
| "sync_loop env p ambiguous a b (e # es) blocked st =
     (case poll env st of
        (st, True) \<Rightarrow> (st, Inl E_Cancelled)
      | (st, False) \<Rightarrow>
          if e_path e \<in> set ambiguous then
            sync_loop env p ambiguous a b es (first_block blocked (e_seq e) E_Unsupported)
              (if e_reversal e = reversal_as_str RestoreTrash then note_unreverted (e_path e) st else st)
          else (case revert_entry env p e a (Some b) st of
            (st, Inr RDone) \<Rightarrow> sync_loop env p ambiguous a b es blocked (count_undone 1 st)
          | (st, Inr SkippedIrreversible) \<Rightarrow>
              sync_loop env p ambiguous a b es blocked (note_unreverted (e_path e) (count_irreversible st))
          | (st, Inr SkippedNoTrash) \<Rightarrow>
              sync_loop env p ambiguous a b es blocked (note_unreverted (e_path e) (count_no_trash st))
          | (st, Inr SkippedNotOurs) \<Rightarrow>
              sync_loop env p ambiguous a b es blocked (note_unreverted (e_path e) (count_not_ours st))
          | (st, Inr (Blocked n er)) \<Rightarrow>
              sync_loop env p ambiguous a b es (first_block blocked n er) (note_unreverted (e_path e) st)
          | (st, Inr (Stuck n er)) \<Rightarrow> (st, Inr (Stuck n er))
          | (st, Inr Accounted) \<Rightarrow> sync_loop env p ambiguous a b es blocked st
          | (st, Inl er) \<Rightarrow> (count_lost st, Inl er)))"

definition revert_sync_batch :: "undo_env \<Rightarrow> 'w full_provider \<Rightarrow> journal_entry list \<Rightarrow> actor \<Rightarrow> 'w undo_state \<Rightarrow>
    'w undo_state \<times> (proto_error + reverted)" where
  "revert_sync_batch env p unit a st =
     (case unit of
        [] \<Rightarrow> (st, Inr Accounted)
      | first # _ \<Rightarrow>
          (case one_provider unit first of
             Inl refused \<Rightarrow> (st, Inr refused)
           | Inr _ \<Rightarrow>
               (let (j, b) = alloc_batch (us_journal st)
                in sync_loop env p (ambiguous_restores unit) a b (newest_first unit) None (st\<lparr>us_journal := j\<rparr>))))"

section \<open>Batches of permissions\<close>

fun mode_places :: "vpath \<Rightarrow> journal_entry list \<Rightarrow> reverted + unit" where
  "mode_places origin [] = Inr ()"
| "mode_places origin (e # es) =
     (case undo_wire (e_path e) of
        Inr p \<Rightarrow> if same_place p origin then mode_places origin es else Inl (Blocked (e_seq e) E_InvalidPath)
      | Inl er \<Rightarrow> Inl (Blocked (e_seq e) er))"

text \<open>\<open>n\<close> counts what came back; it reaches the report only when the loop has run to its end.\<close>

fun mode_loop :: "undo_env \<Rightarrow> 'w full_provider \<Rightarrow> actor \<Rightarrow> int \<Rightarrow> journal_entry list \<Rightarrow> nat \<Rightarrow> reverted option \<Rightarrow>
    'w undo_state \<Rightarrow> 'w undo_state \<times> (proto_error + reverted)" where
  "mode_loop env p a b [] n blocked st =
     (count_undone n st, Inr (case blocked of Some r \<Rightarrow> r | None \<Rightarrow> Accounted))"
| "mode_loop env p a b (e # es) n blocked st =
     (case poll env st of
        (st, True) \<Rightarrow> (st, Inl E_Cancelled)
      | (st, False) \<Rightarrow>
          (case revert_entry env p e a (Some b) st of
             (st, Inl er) \<Rightarrow> (st, Inl er)
           | (st, Inr r) \<Rightarrow>
               if r = RDone then mode_loop env p a b es (n + 1) blocked st
               else mode_loop env p a b es n (case blocked of None \<Rightarrow> Some r | Some r' \<Rightarrow> Some r')
                 (note_unreverted (e_path e) st)))"

definition revert_mode_batch :: "undo_env \<Rightarrow> 'w full_provider \<Rightarrow> journal_entry list \<Rightarrow> actor \<Rightarrow> 'w undo_state \<Rightarrow>
    'w undo_state \<times> (proto_error + reverted)" where
  "revert_mode_batch env p unit a st =
     (case unit of
        [] \<Rightarrow> (st, Inr Accounted)
      | first # _ \<Rightarrow>
          (case undo_wire (e_path first) of
             Inl er \<Rightarrow> (st, Inr (Blocked (e_seq first) er))
           | Inr origin \<Rightarrow>
               (case mode_places origin unit of
                  Inl refused \<Rightarrow> (st, Inr refused)
                | Inr _ \<Rightarrow>
                    (let (j, b) = alloc_batch (us_journal st)
                     in mode_loop env p a b (newest_first unit) 0 None (st\<lparr>us_journal := j\<rparr>)))))"

section \<open>One unit\<close>

text \<open>The executor polls the token once per step, and each of its steps belongs to an entry.\<close>

definition revert_rename_batch :: "undo_env \<Rightarrow> 'w full_provider \<Rightarrow> journal_entry list \<Rightarrow> actor \<Rightarrow> 'w undo_state \<Rightarrow>
    'w undo_state \<times> (proto_error + reverted)" where
  "revert_rename_batch env p unit a st =
     (case revert_batch (ue_unicode env) (ue_sha env) (plain_provider p) (ue_io env) (\<lambda>n. ue_cancel env (us_polls st + n)) unit a st of
        (st, r) \<Rightarrow> (st\<lparr>us_polls := us_polls st + length unit\<rparr>, r))"

definition revert_unit :: "undo_env \<Rightarrow> 'w full_provider \<Rightarrow> journal_entry list \<Rightarrow> actor \<Rightarrow> 'w undo_state \<Rightarrow>
    'w undo_state \<times> (proto_error + reverted)" where
  "revert_unit env p unit a st =
     (if is_sync_unit unit then revert_sync_batch env p unit a st
      else if is_organize_unit unit then revert_sync_batch env p unit a st
      else if is_mode_unit unit then revert_mode_batch env p unit a st
      else case unit of
        [e] \<Rightarrow> revert_entry env p e a None st
      | _ \<Rightarrow> revert_rename_batch env p unit a st)"

end
