(* ===== verification/Undo_Session.thy ===== *)
theory Undo_Session
  imports Undo_Unit
begin

text \<open>
  An undo as the engine runs it, \<^verbatim>\<open>norte-core/src/engine.rs\<close>: what an undo selects, the units with the provider of each,
  the questions to the policy unit by unit, the loop of the task, and the reports that are kept.
\<close>

section \<open>The questions to the policy\<close>

record gate_targets =
  gt_anchored :: bool
  gt_moves :: "vpath list"
  gt_deletes :: "vpath list"
  gt_modes :: "(nat \<times> vpath list) list"

definition no_targets :: gate_targets where
  "no_targets = \<lparr>gt_anchored = False, gt_moves = [], gt_deletes = [], gt_modes = []\<rparr>"

definition add_second :: "bytes option \<Rightarrow> gate_targets \<Rightarrow> proto_error + gate_targets" where
  "add_second bs t =
     (case bs of
        None \<Rightarrow> Inr t
      | Some raw \<Rightarrow> and_then (undo_wire raw) (\<lambda>q. Inr (t\<lparr>gt_moves := gt_moves t @ [q]\<rparr>)))"

definition mode_paths :: "nat \<Rightarrow> gate_targets \<Rightarrow> vpath list" where
  "mode_paths m t = (case map_of (gt_modes t) m of None \<Rightarrow> [] | Some ps \<Rightarrow> ps)"

definition add_target :: "journal_entry \<Rightarrow> gate_targets \<Rightarrow> proto_error + gate_targets" where
  "add_target e t =
     and_then (undo_wire (e_path e)) (\<lambda>path.
       let t = t\<lparr>gt_anchored := True\<rparr>
       in if e_reversal e = ''irreversible'' then Inr t
          else if e_reversal e = ''rename_back'' then add_second (e_path_to e) (t\<lparr>gt_moves := gt_moves t @ [path]\<rparr>)
          else if e_reversal e = ''restore_trash'' then add_second (e_reversal_ref e) (t\<lparr>gt_moves := gt_moves t @ [path]\<rparr>)
          else if e_reversal e = ''set_mode_back'' then
            (let m = (case previous_mode e of None \<Rightarrow> 0 | Some m \<Rightarrow> m)
             in Inr (t\<lparr>gt_modes := btree_insert m (mode_paths m t @ [path]) (gt_modes t)\<rparr>))
          else Inr (t\<lparr>gt_deletes := gt_deletes t @ [path]\<rparr>))"

fun add_targets :: "journal_entry list \<Rightarrow> gate_targets \<Rightarrow> proto_error + gate_targets" where
  "add_targets [] t = Inr t"
| "add_targets (e # es) t = and_then (add_target e t) (add_targets es)"

definition target_gates :: "gate_targets \<Rightarrow> (policy_op \<times> vpath list) list" where
  "target_gates t =
     map (\<lambda>(m, ps). (SetMode m False None, ps)) (gt_modes t) @
     (if gt_deletes t = [] then [] else [(Delete Trash, gt_deletes t)]) @
     (if gt_moves t = [] then [] else [(Move, gt_moves t)])"

definition undo_gate_targets :: "journal_entry list \<Rightarrow> proto_error + (policy_op \<times> vpath list) list option" where
  "undo_gate_targets unit =
     and_then (add_targets unit no_targets) (\<lambda>t. Inr (if gt_anchored t then Some (target_gates t) else None))"

fun gates_denial :: "(policy_op \<Rightarrow> vpath list \<Rightarrow> engine_error + unit) \<Rightarrow> (policy_op \<times> vpath list) list \<Rightarrow> proto_error option" where
  "gates_denial check [] = None"
| "gates_denial check ((op, paths) # gs) =
     (case check op paths of Inl er \<Rightarrow> Some (gate_error er) | Inr _ \<Rightarrow> gates_denial check gs)"

definition undo_unit_denial :: "(policy_op \<Rightarrow> vpath list \<Rightarrow> engine_error + unit) \<Rightarrow> journal_entry list \<Rightarrow> proto_error option" where
  "undo_unit_denial check unit =
     (case undo_gate_targets unit of
        Inl er \<Rightarrow> Some er
      | Inr None \<Rightarrow> None
      | Inr (Some gates) \<Rightarrow> gates_denial check gates)"

section \<open>The task\<close>

definition UNDO_MAX_DENIED_REPORTED :: nat where
  "UNDO_MAX_DENIED_REPORTED = 256"

definition report_blocked :: "int \<Rightarrow> proto_error \<Rightarrow> 'w undo_state \<Rightarrow> 'w undo_state" where
  "report_blocked n er st = st\<lparr>us_report := (us_report st)\<lparr>ur_blocked := Some (n, er)\<rparr>\<rparr>"

definition report_denied :: "journal_entry list \<Rightarrow> proto_error \<Rightarrow> 'w undo_state \<Rightarrow> 'w undo_state" where
  "report_denied unit er st =
     (case unit of
        [] \<Rightarrow> st
      | first # _ \<Rightarrow>
          st\<lparr>us_report := (us_report st)\<lparr>ur_denied_total := ur_denied_total (us_report st) + 1,
            ur_denied := (if length (ur_denied (us_report st)) < UNDO_MAX_DENIED_REPORTED
              then ur_denied (us_report st) @ [(e_seq first, er)] else ur_denied (us_report st))\<rparr>\<rparr>)"

text \<open>\<open>check k\<close> is what the policy answers while the unit \<open>k\<close> of the plan is asked about.\<close>

type_synonym verdicts = "nat \<Rightarrow> policy_op \<Rightarrow> vpath list \<Rightarrow> engine_error + unit"

fun undo_loop :: "undo_env \<Rightarrow> verdicts \<Rightarrow> actor \<Rightarrow> int set \<Rightarrow> nat \<Rightarrow> (journal_entry list \<times> 'w full_provider) list \<Rightarrow>
    'w undo_state \<Rightarrow> 'w undo_state \<times> (proto_error + unit)" where
  "undo_loop env check a already k [] st = (st, Inr ())"
| "undo_loop env check a already k ((unit, p) # plan) st =
     (case poll env st of
        (st, True) \<Rightarrow> (st, Inl E_Cancelled)
      | (st, False) \<Rightarrow>
          (let revert = (\<lambda>unit.
             (case undo_unit_denial (check k) unit of
                Some er \<Rightarrow> undo_loop env check a already (k + 1) plan (report_denied unit er st)
              | None \<Rightarrow>
                  (case revert_unit env p unit a st of
                     (st, Inl er) \<Rightarrow> (st, Inl er)
                   | (st, Inr RDone) \<Rightarrow> undo_loop env check a already (k + 1) plan (count_undone (length unit) st)
                   | (st, Inr Accounted) \<Rightarrow> undo_loop env check a already (k + 1) plan st
                   | (st, Inr SkippedIrreversible) \<Rightarrow> undo_loop env check a already (k + 1) plan (count_irreversible st)
                   | (st, Inr SkippedNoTrash) \<Rightarrow> undo_loop env check a already (k + 1) plan (count_no_trash st)
                   | (st, Inr SkippedNotOurs) \<Rightarrow> undo_loop env check a already (k + 1) plan (count_not_ours st)
                   | (st, Inr (Blocked n er)) \<Rightarrow> (report_blocked n er st, Inr ())
                   | (st, Inr (Stuck n er)) \<Rightarrow> (report_blocked n er st, Inl er))))
           in case validity_of unit already of
                Whole u \<Rightarrow> revert u
              | InPart u \<Rightarrow> revert u
              | Undone \<Rightarrow> undo_loop env check a already (k + 1) plan st
              | Stop n \<Rightarrow> (report_blocked n E_PlanStale st, Inr ())))"

text \<open>The task waits for its turn, which can be cancelled, and then asks what others have undone meanwhile.\<close>

definition undo_task :: "undo_env \<Rightarrow> verdicts \<Rightarrow> actor \<Rightarrow> (journal_entry list \<times> 'w full_provider) list \<Rightarrow> 'w undo_state \<Rightarrow>
    'w undo_state \<times> (proto_error + unit)" where
  "undo_task env check a plan st =
     (case poll env st of
        (st, True) \<Rightarrow> (st, Inl E_Cancelled)
      | (st, False) \<Rightarrow>
          undo_loop env check a (set (undone_among (us_journal st) (concat (map (map e_seq \<circ> fst) plan)))) 0 plan st)"

section \<open>What is undone\<close>

text \<open>\<^verbatim>\<open>undo_entries\<close> up to the submission of its task.\<close>

definition plan_unit :: "(vpath \<Rightarrow> proto_error + 'w full_provider) \<Rightarrow> journal_entry list \<Rightarrow>
    proto_error + (journal_entry list \<times> 'w full_provider)" where
  "plan_unit provider_for unit =
     and_then (undo_wire (e_path (hd unit))) (\<lambda>anchor. and_then (provider_for anchor) (\<lambda>p. Inr (unit, p)))"

definition undo_entries :: "(vpath \<Rightarrow> proto_error + 'w full_provider) \<Rightarrow> journal_source \<Rightarrow> journal option \<Rightarrow>
    journal_entry list \<Rightarrow> proto_error + (journal_entry list \<times> 'w full_provider) list" where
  "undo_entries provider_for source opened es =
     (case engine_journal source opened of
        None \<Rightarrow> Inl E_Unsupported
      | Some _ \<Rightarrow> try_map (plan_unit provider_for) (filter (\<lambda>unit. unit \<noteq> []) (undo_units es)))"

definition select_entries :: "journal_source \<Rightarrow> journal_open \<Rightarrow> journal option \<Rightarrow> (journal \<Rightarrow> proto_error + journal_entry list) \<Rightarrow>
    proto_error + journal_entry list" where
  "select_entries source resolved opened select =
     and_then (map_sum gate_error id (journal_gate source resolved)) (\<lambda>_.
       case engine_journal source opened of None \<Rightarrow> Inl E_Unsupported | Some j \<Rightarrow> select j)"

definition undo_session_for :: "(vpath \<Rightarrow> proto_error + 'w full_provider) \<Rightarrow> journal_source \<Rightarrow> journal_open \<Rightarrow> journal option \<Rightarrow>
    actor \<Rightarrow> proto_error + (journal_entry list \<times> 'w full_provider) list" where
  "undo_session_for provider_for source resolved opened whose =
     and_then (select_entries source resolved opened
         (\<lambda>j. map_sum (\<lambda>_. E_Internal False) id (revertible_for j whose)))
       (undo_entries provider_for source opened)"

definition undo_after :: "(vpath \<Rightarrow> proto_error + 'w full_provider) \<Rightarrow> journal_source \<Rightarrow> journal_open \<Rightarrow> journal option \<Rightarrow>
    int \<Rightarrow> int option \<Rightarrow> proto_error + (journal_entry list \<times> 'w full_provider) list" where
  "undo_after provider_for source resolved opened after_seq upto_seq =
     and_then (select_entries source resolved opened (\<lambda>j.
         case entry_hash_at j after_seq of
           Inl _ \<Rightarrow> Inl (E_Internal False)
         | Inr None \<Rightarrow> Inl E_NotFound
         | Inr (Some _) \<Rightarrow> map_sum (\<lambda>_. E_Internal False) id (revertible_for_after j User after_seq upto_seq)))
       (undo_entries provider_for source opened)"

section \<open>Reports\<close>

definition UNDO_REPORTS_MAX :: nat where
  "UNDO_REPORTS_MAX = 8"

definition UNDO_REPORTS_AGENTS_MAX :: nat where
  "UNDO_REPORTS_AGENTS_MAX = 4"

definition loud_undo :: "undo_report \<Rightarrow> bool" where
  "loud_undo r \<longleftrightarrow> ur_blocked r \<noteq> None \<or> ur_batch_stuck r \<noteq> None \<or> ur_compensations_lost r > 0 \<or> ur_denied_total r > 0"

definition evict_undo_reports :: "undo_report report_entry list \<Rightarrow> undo_report report_entry list" where
  "evict_undo_reports ring = evict_reports UNDO_REPORTS_MAX UNDO_REPORTS_AGENTS_MAX loud_undo ring"

definition retain_undo_report :: "nat \<Rightarrow> actor \<Rightarrow> undo_report report_entry list \<Rightarrow> undo_report report_entry list" where
  "retain_undo_report t owner ring = evict_undo_reports (ring @ [(t, owner, undo_report_default)])"

definition forget_undo_report :: "nat \<Rightarrow> undo_report report_entry list \<Rightarrow> undo_report report_entry list" where
  "forget_undo_report t ring = filter (\<lambda>e. fst e \<noteq> t) ring"

definition read_undo_report :: "nat \<Rightarrow> undo_report report_entry list \<Rightarrow> (actor \<times> undo_report) option" where
  "read_undo_report t ring = find_report t ring"

end
