(* ===== verification/Undo_Gated.thy ===== *)
theory Undo_Gated
  imports Undo_Session
begin

text \<open>
  What an undo may touch: every call of a whole undo that changes something in a provider is covered by a question
  to the policy that was answered with yes for its executor, in its own class of operations.
\<close>

section \<open>Calls that change something\<close>

datatype undo_call =
    CRename vpath vpath
  | CSetMode vpath nat
  | CTrash vpath
  | CRestoreFrom vpath vpath
  | CRestoreTrashed vpath

text \<open>The temporary name of a detour, beside a path.\<close>

definition detour_beside :: "vpath \<Rightarrow> vpath \<Rightarrow> bool" where
  "detour_beside a t \<longleftrightarrow> (\<exists>n s. Segment_new (detour_name n) = Inr s \<and> with_file_name a s = Some t)"

text \<open>What reverting an entry may call; the renames of a batch may also be taken back.\<close>

definition may_call :: "journal_entry \<Rightarrow> undo_call \<Rightarrow> bool" where
  "may_call e c \<longleftrightarrow> (\<exists>q. undo_wire (e_path e) = Inr q \<and>
     (e_reversal e = ''delete'' \<and> c = CTrash q \<or>
      e_reversal e = ''rename_back'' \<and> (\<exists>bs f. e_path_to e = Some bs \<and> undo_wire bs = Inr f \<and>
        (c = CRename q f \<or> c = CRename f q \<or>
         (\<exists>t. detour_beside q t \<and> (c = CRename q t \<or> c = CRename t f \<or> c = CRename t q)))) \<or>
      e_reversal e = ''set_mode_back'' \<and> (\<exists>m. previous_mode e = Some m \<and> c = CSetMode q m) \<or>
      e_reversal e = ''restore_trash'' \<and>
        (case e_reversal_ref e of None \<Rightarrow> c = CRestoreTrashed q | Some bs \<Rightarrow> \<exists>d. undo_wire bs = Inr d \<and> c = CRestoreFrom d q)))"

locale watched_provider =
  fixes p :: "'w full_provider" and good :: "'w \<Rightarrow> bool" and ok :: "undo_call \<Rightarrow> bool"
  assumes stat_good: "good w \<Longrightarrow> fp_stat p w q = (w', r1) \<Longrightarrow> good w'"
    and stat_mode_good: "good w \<Longrightarrow> fp_stat_mode p w q = (w', r2) \<Longrightarrow> good w'"
    and node_id_good: "good w \<Longrightarrow> fp_node_id p w q = (w', r3) \<Longrightarrow> good w'"
    and list_good: "good w \<Longrightarrow> fp_list p w q = (w', r4) \<Longrightarrow> good w'"
    and capabilities_good: "good w \<Longrightarrow> fp_capabilities_at p w q = (w', r5) \<Longrightarrow> good w'"
    and rename_good: "good w \<Longrightarrow> ok (CRename a b) \<Longrightarrow> fp_rename p w a b = (w', r6) \<Longrightarrow> good w'"
    and set_mode_good: "good w \<Longrightarrow> ok (CSetMode q m) \<Longrightarrow> fp_set_mode p w q m = (w', r7) \<Longrightarrow> good w'"
    and trash_good: "good w \<Longrightarrow> ok (CTrash q) \<Longrightarrow> fp_trash p w q i = (w', r8) \<Longrightarrow> good w'"
    and restore_from_good: "good w \<Longrightarrow> ok (CRestoreFrom d q) \<Longrightarrow> fp_restore_from p w d q = (w', r9) \<Longrightarrow> good w'"
    and restore_trashed_good: "good w \<Longrightarrow> ok (CRestoreTrashed q) \<Longrightarrow> fp_restore_trashed p w q = (w', r10) \<Longrightarrow> good w'"
begin

lemma entry_free_good: "good w \<Longrightarrow> entry_free p w q = (w', r) \<Longrightarrow> good w'"
  using stat_good [of w q] by (cases "fp_stat p w q") (auto simp: entry_free_def split: sum.splits proto_error.splits)

lemma same_node_good: "good w \<Longrightarrow> same_node p w a b = (w', r) \<Longrightarrow> good w'"
  by (auto simp: same_node_def split: prod.splits sum.splits dest: node_id_good)

lemma has_children_good: "good w \<Longrightarrow> has_children p w q = (w', r) \<Longrightarrow> good w'"
  by (auto simp: has_children_def split: prod.splits sum.splits list.splits dest: list_good)

lemma modo_actual_good: "good w \<Longrightarrow> modo_actual p w q = (w', r) \<Longrightarrow> good w'"
  by (auto simp: modo_actual_def split: prod.splits sum.splits dest: stat_mode_good)

lemma detour_loop_good:
  assumes "good w" "\<And>t. detour_beside a t \<Longrightarrow> ok (CRename a t) \<and> ok (CRename t b) \<and> ok (CRename t a)"
    and "detour_loop p a b ns w = (w', r)"
  shows "good w'"
  using assms(1,3)
proof (induction ns arbitrary: w)
  case (Cons n ns)
  obtain s where s: "Segment_new (detour_name n) = Inr s \<or> w' = w" using Cons.prems(2) by (auto split: sum.splits)
  show ?case
  proof (cases "\<exists>t. Segment_new (detour_name n) = Inr s \<and> with_file_name a s = Some t")
    case False
    with s Cons.prems show ?thesis by (auto split: sum.splits option.splits)
  next
    case True
    then obtain t where t: "Segment_new (detour_name n) = Inr s" "with_file_name a s = Some t" by blast
    then have ok: "ok (CRename a t)" "ok (CRename t b)" "ok (CRename t a)" using assms(2) [of t] by (auto simp: detour_beside_def)
    obtain w1 r1 where free: "entry_free p w t = (w1, r1)" by fastforce
    have w1: "good w1" by (rule entry_free_good [OF Cons.prems(1) free])
    obtain w2 r2 where ren: "fp_rename p w1 a t = (w2, r2)" by fastforce
    have w2: "good w2" by (rule rename_good [OF w1 ok(1) ren])
    obtain w3 r3 where ren': "fp_rename p w2 t b = (w3, r3)" by fastforce
    have w3: "good w3" by (rule rename_good [OF w2 ok(2) ren'])
    obtain w4 r4 where ren'': "fp_rename p w3 t a = (w4, r4)" by fastforce
    have w4: "good w4" by (rule rename_good [OF w3 ok(3) ren''])
    from Cons.prems(2) Cons.IH [OF w1] w1 w2 w3 w4 show ?thesis
      by (auto simp: t free ren ren' ren'' split: sum.splits bool.splits)
  qed
qed simp

lemma trash_loop_good:
  assumes "good w" "ok (CTrash q)" "trash_loop p q i cancel k left amb w = (w', r)"
  shows "good w'"
  using assms(1,3)
proof (induction left arbitrary: k amb w)
  case 0
  then show ?case using trash_good [OF _ assms(2)]
    by (subst (asm) trash_loop.simps) (auto simp: Let_def split: prod.splits sum.splits if_splits)
next
  case (Suc left)
  obtain w1 r1 where t: "fp_trash p w q i = (w1, r1)" by fastforce
  have w1: "good w1" by (rule trash_good [OF Suc.prems(1) assms(2) t])
  from Suc.prems(2) Suc.IH [OF w1] Suc.prems(1) w1 show ?case
    by (subst (asm) trash_loop.simps) (auto simp: Let_def t split: sum.splits if_splits)
qed

lemma trash_retrying_good:
  "good w \<Longrightarrow> ok (CTrash q) \<Longrightarrow> trash_retrying p q i cancel w = (w', r) \<Longrightarrow> good w'"
  using trash_loop_good by (fastforce simp: trash_retrying_def trash_retrying_amb_def map_prod_def split: prod.splits)

end

lemma write_entry_world: "write_entry env e st = (st', r) \<Longrightarrow> us_world st' = us_world st"
  by (auto simp: write_entry_def Let_def split: prod.splits)

lemma finish_revert_world: "finish_revert env e st = (st', r) \<Longrightarrow> us_world st' = us_world st"
  by (auto simp: finish_revert_def split: prod.splits sum.splits dest: write_entry_world)

lemma keep_world [simp]:
  "us_world (note_unreverted b st) = us_world st" "us_world (count_undone n st) = us_world st"
  "us_world (count_irreversible st) = us_world st" "us_world (count_no_trash st) = us_world st"
  "us_world (count_not_ours st) = us_world st" "us_world (count_lost st) = us_world st"
  "us_world (report_blocked i er st) = us_world st" "us_world (report_denied unit er st) = us_world st"
  by (simp_all add: note_unreverted_def count_undone_def count_irreversible_def count_no_trash_def count_not_ours_def
      count_lost_def report_blocked_def report_denied_def split: list.splits)

lemma join_parts: "parent p = Some d \<Longrightarrow> file_name p = Some n \<Longrightarrow> VPath_join d n = p"
  by (auto simp: parent_def file_name_def VPath_join_def split: if_splits)

lemma finish_revert_result: "finish_revert env e st = (st', r) \<Longrightarrow> r = Inr RDone \<or> (\<exists>er. r = Inl er)"
  by (auto simp: finish_revert_def split: prod.splits sum.splits)

context watched_provider
begin

lemma revert_created_good:
  assumes "good (us_world st)" "ok (CTrash q)" "revert_created env p e a b q st = (st', r)"
  shows "good (us_world st')"
proof -
  obtain w1 r1 where 1: "fp_stat p (us_world st) q = (w1, r1)" by fastforce
  have g1: "good w1" by (rule stat_good [OF assms(1) 1])
  obtain w2 r2 where 2: "not_ours p e q w1 = (w2, r2)" by fastforce
  have g2: "good w2" using 2 g1 by (auto simp: not_ours_def split: option.splits prod.splits sum.splits dest: node_id_good)
  show ?thesis
  proof (cases r1)
    case (Inr k)
    obtain w3 r3 where 3: "occupied_dir p k q w2 = (w3, r3)" by fastforce
    have g3: "good w3" using 3 g2 by (auto simp: occupied_dir_def split: if_splits dest: has_children_good)
    let ?i = "\<lparr>deleted_ms = ue_clock env (us_calls st), trash_counter = nat \<bar>e_seq e\<bar>\<rparr>"
    obtain w4 r4 where 4: "trash_retrying p q ?i (\<lambda>n. ue_cancel env (us_polls st + n)) w3 = (w4, r4)" by fastforce
    have g4: "good w4" by (rule trash_retrying_good [OF g3 assms(2) 4])
    from assms(3) g1 g2 g3 g4 show ?thesis
      by (auto simp: revert_created_def Let_def 1 2 3 4 Inr split: sum.splits bool.splits if_splits dest!: finish_revert_world)
  qed (use assms(3) g1 in \<open>auto simp: revert_created_def 1\<close>)
qed

lemma revert_renamed_good:
  assumes "good (us_world st)" "undo_wire (e_path e) = Inr q" "e_reversal e = ''rename_back''" "\<And>c. may_call e c \<Longrightarrow> ok c"
    and "revert_renamed env p e a b q st = (st', r)"
  shows "good (us_world st')"
proof (cases "\<exists>bs f. e_path_to e = Some bs \<and> undo_wire bs = Inr f")
  case False
  with assms(1,5) show ?thesis by (auto simp: revert_renamed_def split: option.splits sum.splits)
next
  case True
  then obtain bs f where f: "e_path_to e = Some bs" "undo_wire bs = Inr f" by blast
  obtain w1 r1 where 1: "same_node_occupies p q f (us_world st) = (w1, r1)" by fastforce
  have g1: "good w1" using 1 assms(1)
    by (auto simp: same_node_occupies_def split: prod.splits sum.splits bool.splits dest: entry_free_good same_node_good)
  obtain w2 r2 where 2: "(if projr r1 then rename_via_detour p q f w1 else fp_rename p w1 q f) = (w2, r2)" by fastforce
  have "may_call e (CRename q t) \<and> may_call e (CRename t f) \<and> may_call e (CRename t q)" if "detour_beside q t" for t
    using assms(2,3) f that by (auto simp: may_call_def)
  moreover have "may_call e (CRename q f)" using assms(2,3) f by (auto simp: may_call_def)
  ultimately have "good w2" using 2 g1 assms(4)
    by (auto simp: rename_via_detour_def split: if_splits intro: detour_loop_good rename_good)
  with assms(5) g1 show ?thesis
    by (cases r1) (use 2 in \<open>auto simp: revert_renamed_def f 1 split: sum.splits if_splits dest!: finish_revert_world\<close>)
qed

lemma revert_mode_good:
  assumes "good (us_world st)" "\<And>m. previous_mode e = Some m \<Longrightarrow> ok (CSetMode q m)" "revert_mode env p e a b q st = (st', r)"
  shows "good (us_world st')"
proof (cases "previous_mode e")
  case (Some m)
  obtain w1 r1 where 1: "modo_actual p (us_world st) q = (w1, r1)" by fastforce
  have g1: "good w1" by (rule modo_actual_good [OF assms(1) 1])
  obtain w2 r2 where 2: "fp_set_mode p w1 q m = (w2, r2)" by fastforce
  have "good w2" by (rule set_mode_good [OF g1 assms(2) [OF Some] 2])
  with assms(1,3) show ?thesis
    by (auto simp: revert_mode_def Let_def Some 1 2 split: sum.splits if_splits dest!: finish_revert_world)
qed (use assms(1,3) in \<open>simp add: revert_mode_def\<close>)

lemma revert_trashed_good:
  assumes "good (us_world st)" "undo_wire (e_path e) = Inr q" "e_reversal e = ''restore_trash''" "\<And>c. may_call e c \<Longrightarrow> ok c"
    and "revert_trashed env p e a b q st = (st', r)"
  shows "good (us_world st')"
proof -
  obtain w1 r1 where 1: "entry_free p (us_world st) q = (w1, r1)" by fastforce
  have g1: "good w1" by (rule entry_free_good [OF assms(1) 1])
  show ?thesis
  proof (cases "e_reversal_ref e")
    case None
    obtain w2 r2 where 2: "fp_restore_trashed p w1 q = (w2, r2)" by fastforce
    have "ok (CRestoreTrashed q)" using assms(2-4) None by (auto simp: may_call_def)
    then have "good w2" by (rule restore_trashed_good [OF g1 _ 2])
    with assms(5) g1 show ?thesis
      by (auto simp: revert_trashed_def Let_def None 1 2 split: sum.splits bool.splits dest!: finish_revert_world)
  next
    case (Some bs)
    show ?thesis
    proof (cases "undo_wire bs")
      case (Inl er)
      with assms(5) g1 show ?thesis
        by (auto simp: revert_trashed_def Let_def Some 1 split: sum.splits bool.splits)
    next
      case (Inr d)
      obtain w2 r2 where 2: "fp_restore_from p w1 d q = (w2, r2)" by fastforce
      have "ok (CRestoreFrom d q)" using assms(2-4) Some Inr by (auto simp: may_call_def)
      then have "good w2" by (rule restore_from_good [OF g1 _ 2])
      with assms(5) g1 show ?thesis
        by (auto simp: revert_trashed_def Let_def Some Inr 1 2 split: sum.splits bool.splits dest!: finish_revert_world)
    qed
  qed
qed

lemma revert_entry_good:
  assumes "good (us_world st)" "\<And>c. may_call e c \<Longrightarrow> ok c" "revert_entry env p e a b st = (st', r)"
  shows "good (us_world st')"
proof (cases "undo_wire (e_path e)")
  case (Inr q)
  have "e_reversal e = ''delete'' \<Longrightarrow> ok (CTrash q)" using assms(2) Inr by (auto simp: may_call_def)
  moreover have "good (us_world st')" if "e_reversal e = ''set_mode_back''" "revert_mode env p e a b q st = (st', r)"
    by (rule revert_mode_good [OF assms(1) _ that(2)]) (use assms(2) Inr that(1) in \<open>auto simp: may_call_def\<close>)
  ultimately show ?thesis
    using assms(1,3) revert_created_good [OF assms(1)] revert_renamed_good [OF assms(1) Inr _ assms(2)]
      revert_trashed_good [OF assms(1) Inr _ assms(2)]
    by (auto simp: revert_entry_def Inr split: if_splits)
qed (use assms(1,3) in \<open>simp add: revert_entry_def\<close>)

text \<open>The batches.\<close>

lemma sync_loop_good:
  assumes "good (us_world st)" "\<And>e c. e \<in> set es \<Longrightarrow> may_call e c \<Longrightarrow> ok c"
    and "sync_loop env p amb a b es blocked st = (st', r)"
  shows "good (us_world st')"
  using assms
proof (induction es arbitrary: blocked st)
  case (Cons e es)
  obtain st1 c where 1: "poll env st = (st1, c)" by fastforce
  have g1: "good (us_world st1)" using 1 Cons.prems(1) by (auto simp: poll_def)
  obtain st2 r2 where 2: "revert_entry env p e a (Some b) st1 = (st2, r2)" by fastforce
  have g2: "good (us_world st2)" by (rule revert_entry_good [OF g1 _ 2]) (use Cons.prems(2) in auto)
  have IH: "sync_loop env p amb a b es bl s = (st', r) \<Longrightarrow> good (us_world s) \<Longrightarrow> good (us_world st')" for bl s
    using Cons.IH Cons.prems(2) by auto
  from Cons.prems(3) g1 g2 show ?case
    by (auto simp: 1 2 split: bool.splits sum.splits if_splits reverted.splits elim!: IH)
qed simp

lemma mode_loop_good:
  assumes "good (us_world st)" "\<And>e c. e \<in> set es \<Longrightarrow> may_call e c \<Longrightarrow> ok c"
    and "mode_loop env p a b es n blocked st = (st', r)"
  shows "good (us_world st')"
  using assms
proof (induction es arbitrary: n blocked st)
  case (Cons e es)
  obtain st1 c where 1: "poll env st = (st1, c)" by fastforce
  have g1: "good (us_world st1)" using 1 Cons.prems(1) by (auto simp: poll_def)
  obtain st2 r2 where 2: "revert_entry env p e a (Some b) st1 = (st2, r2)" by fastforce
  have g2: "good (us_world st2)" by (rule revert_entry_good [OF g1 _ 2]) (use Cons.prems(2) in auto)
  have IH: "good (us_world st')" if "mode_loop env p a b es m bl s = (st', r)" "good (us_world s)" for m bl s
    by (rule Cons.IH [OF that(2) _ that(1)]) (use Cons.prems(2) in auto)
  from Cons.prems(3) g1 g2 show ?case
    by (auto simp: 1 2 split: bool.splits sum.splits if_splits elim!: IH)
qed auto

lemma revert_sync_batch_good:
  assumes "good (us_world st)" "\<And>e c. e \<in> set unit \<Longrightarrow> may_call e c \<Longrightarrow> ok c"
    and "revert_sync_batch env p unit a st = (st', r)"
  shows "good (us_world st')"
  using assms(1,3) sync_loop_good [of "st\<lparr>us_journal := fst (alloc_batch (us_journal st))\<rparr>" "newest_first unit"] assms(2)
  by (fastforce simp: revert_sync_batch_def newest_first_def split: list.splits sum.splits prod.splits)

lemma revert_mode_batch_good:
  assumes "good (us_world st)" "\<And>e c. e \<in> set unit \<Longrightarrow> may_call e c \<Longrightarrow> ok c"
    and "revert_mode_batch env p unit a st = (st', r)"
  shows "good (us_world st')"
  using assms(1,3) mode_loop_good [of "st\<lparr>us_journal := fst (alloc_batch (us_journal st))\<rparr>" "newest_first unit"] assms(2)
  by (fastforce simp: revert_mode_batch_def newest_first_def split: list.splits sum.splits prod.splits)

text \<open>A batch of renames, by the contract of the executor.\<close>

lemma inverse_chain_calls:
  assumes "inverse_chain unit dir = Inr ss" "try_map (inverse_step dir) (zip [k..<k + length ss] ss) = Inr planned" "s \<in> set planned"
  shows "\<exists>e \<in> set unit. may_call e (CRename (ps_from s) (ps_to s)) \<and> may_call e (CRename (ps_to s) (ps_from s))"
  using assms
proof (induction unit arbitrary: ss k planned)
  case (Cons e es)
  obtain now bs before f t rest where e: "e_reversal e = ''rename_back''" "undo_wire (e_path e) = Inr now" "e_path_to e = Some bs"
      "undo_wire bs = Inr before" "parent now = Some dir" "parent before = Some dir" "file_name now = Some f"
      "file_name before = Some t" "inverse_chain es dir = Inr rest" "ss = \<lparr>iv_from = f, iv_to = t, iv_seq = e_seq e\<rparr> # rest"
    using Cons.prems(1) by (auto simp: Let_def and_then_Inr_iff split: sum.splits option.splits if_splits)
  have pl: "\<exists>f' t' tl. Segment_new f = Inr f' \<and> Segment_new t = Inr t' \<and>
      planned = \<lparr>ps_from = VPath_join dir f', ps_to = VPath_join dir t', ps_pair = k, ps_undoes = Some (e_seq e)\<rparr> # tl \<and>
      try_map (inverse_step dir) (zip [k + 1..<k + 1 + length rest] rest) = Inr tl"
    using Cons.prems(2) unfolding e(10)
    by (auto simp: upt_conv_Cons inverse_step_def and_then_Inr_iff split: sum.splits if_splits simp del: upt_Suc)
  then obtain f' t' tl where tl: "Segment_new f = Inr f'" "Segment_new t = Inr t'"
      "planned = \<lparr>ps_from = VPath_join dir f', ps_to = VPath_join dir t', ps_pair = k, ps_undoes = Some (e_seq e)\<rparr> # tl"
      "try_map (inverse_step dir) (zip [k + 1..<k + 1 + length rest] rest) = Inr tl" by blast
  have same: "VPath_join dir f' = now" "VPath_join dir t' = before"
    using join_parts [OF e(5,7)] join_parts [OF e(6,8)] tl(1,2) by (simp_all add: Segment_new_Inr)
  show ?case
  proof (cases "s \<in> set tl")
    case True
    with Cons.IH [OF e(9) tl(4)] show ?thesis by auto
  next
    case False
    then have "ps_from s = now" "ps_to s = before" using Cons.prems(3) tl(3) same by auto
    then show ?thesis using e(1-4) by (auto simp: may_call_def)
  qed
qed simp

lemma watched_services:
  assumes "\<And>a b. (a, b) \<in> M \<Longrightarrow> ok (CRename a b) \<and> ok (CRename b a)"
  shows "watched_renames (undo_services sha (plain_provider p)) good M"
proof
  fix w a b w' r
  assume "good w" "(a, b) \<in> M \<or> (b, a) \<in> M" "sv_rename (undo_services sha (plain_provider p)) w a b = (w', r)"
  moreover from this have "ok (CRename a b)" using assms by blast
  ultimately show "good w'" using rename_good [of w a b] by (simp add: undo_services_def plain_provider_def)
next
  fix w q w' r
  assume w: "good w" and "sv_stat (undo_services sha (plain_provider p)) w q = (w', r)"
  then show "good w'" using stat_good [OF w] by (cases "fp_stat p w q") (auto simp: undo_services_def plain_provider_def)
qed

lemma undo_check_good: "good w \<Longrightarrow> undo_check u (plain_provider p) e dir ss w = (w', r) \<Longrightarrow> good w'"
  by (auto simp: undo_check_def plain_provider_def split: prod.splits sum.splits if_splits dest: capabilities_good list_good)

lemma undo_run_good:
  assumes "good (us_world st)" "\<And>s. s \<in> set planned \<Longrightarrow> ok (CRename (ps_from s) (ps_to s)) \<and> ok (CRename (ps_to s) (ps_from s))"
    and "undo_run sha (plain_provider p) io cancel a planned st = (x, r)"
  shows "good (world x)"
proof -
  obtain j b where jb: "alloc_batch (us_journal st) = (j, b)" by fastforce
  have w: "watched_renames (undo_services sha (plain_provider p)) good (step_move ` set planned)"
    by (rule watched_services) (use assms(2) in \<open>auto simp: step_move_def\<close>)
  show ?thesis
    by (rule watched_renames.run_batch_good [OF w _ _ subset_refl, where st = "[]"])
      (use assms(1,3) jb in \<open>auto simp: undo_run_def exec_run_def\<close>)
qed

lemma revert_rename_batch_good:
  assumes "good (us_world st)" "\<And>e c. e \<in> set unit \<Longrightarrow> may_call e c \<Longrightarrow> ok c"
    and "revert_rename_batch env p unit a st = (st', r)"
  shows "good (us_world st')"
proof -
  let ?sha = "ue_sha env" and ?cancel = "\<lambda>n. ue_cancel env (us_polls st + n)"
  obtain st1 r1 where run: "revert_batch (ue_unicode env) ?sha (plain_provider p) (ue_io env) ?cancel unit a st = (st1, r1)" by fastforce
  have "good (us_world st1)"
  proof (cases unit)
    case (Cons first rest)
    show ?thesis
    proof (cases "\<exists>dir ss w planned. undo_directory first = Some dir \<and> inverse_chain unit dir = Inr ss \<and>
        undo_check (ue_unicode env) (plain_provider p) first dir ss (us_world st) = (w, Inr ()) \<and>
        try_map (inverse_step dir) (zip [0..<0 + length ss] ss) = Inr planned")
      case True
      then obtain dir ss w planned where h: "undo_directory first = Some dir" "inverse_chain unit dir = Inr ss"
          "undo_check (ue_unicode env) (plain_provider p) first dir ss (us_world st) = (w, Inr ())"
          "try_map (inverse_step dir) (zip [0..<0 + length ss] ss) = Inr planned" by blast
      obtain x out where x: "undo_run ?sha (plain_provider p) (ue_io env) ?cancel a planned (st\<lparr>us_world := w\<rparr>) = (x, out)" by fastforce
      have w: "good (us_world (st\<lparr>us_world := w\<rparr>))" using undo_check_good [OF assms(1) h(3)] by simp
      have "good (world x)"
        by (rule undo_run_good [OF w _ x]) (use inverse_chain_calls [OF h(2,4)] assms(2) in blast)
      moreover have "us_world st1 = world x" using run h x Cons
        by (auto simp: revert_batch_def Let_def simp del: inverse_chain.simps upt_Suc split: prod.splits)
      ultimately show ?thesis by simp
    next
      case False
      have "good (us_world st1)" if "undo_directory first = Some dir" "inverse_chain unit dir = Inr ss" for dir ss
      proof -
        obtain w q where c: "undo_check (ue_unicode env) (plain_provider p) first dir ss (us_world st) = (w, q)" by fastforce
        have "good w" by (rule undo_check_good [OF assms(1) c])
        moreover have "us_world st1 = w" using run False that c Cons
          by (cases q) (auto simp: revert_batch_def Let_def simp del: inverse_chain.simps upt_Suc split: sum.splits)
        ultimately show ?thesis by simp
      qed
      with run assms(1) Cons show ?thesis
        by (cases "undo_directory first"; cases "inverse_chain unit (the (undo_directory first))")
          (auto simp: revert_batch_def simp del: inverse_chain.simps)
    qed
  qed (use run assms(1) in \<open>auto simp: revert_batch_def\<close>)
  with assms(3) run show ?thesis by (auto simp: revert_rename_batch_def)
qed

lemma revert_unit_good:
  assumes "good (us_world st)" "\<And>e c. e \<in> set unit \<Longrightarrow> may_call e c \<Longrightarrow> ok c" "revert_unit env p unit a st = (st', r)"
  shows "good (us_world st')"
proof (cases "is_sync_unit unit \<or> is_organize_unit unit \<or> is_mode_unit unit \<or> (\<forall>e. unit \<noteq> [e])")
  case True
  have "good (us_world st')" if "revert_sync_batch env p unit a st = (st', r)"
    by (rule revert_sync_batch_good [OF assms(1,2) that])
  moreover have "good (us_world st')" if "revert_mode_batch env p unit a st = (st', r)"
    by (rule revert_mode_batch_good [OF assms(1,2) that])
  moreover have "good (us_world st')" if "revert_rename_batch env p unit a st = (st', r)"
    by (rule revert_rename_batch_good [OF assms(1,2) that])
  ultimately show ?thesis using assms(3) True
    by (auto simp: revert_unit_def split: if_splits list.splits)
next
  case False
  then obtain e where e: "unit = [e]" by blast
  with False assms(3) have run: "revert_entry env p e a None st = (st', r)" by (auto simp: revert_unit_def)
  show ?thesis by (rule revert_entry_good [OF assms(1) _ run]) (use assms(2) e in auto)
qed

end

section \<open>What the policy was asked\<close>

definition beside :: "vpath list \<Rightarrow> vpath \<Rightarrow> bool" where
  "beside ps t \<longleftrightarrow> (\<exists>a \<in> set ps. detour_beside a t)"

text \<open>A call is covered by a question when its operation is the one of the question and its paths are among those of
  the question; of a rename one end may be the temporary name of a detour beside such a path.\<close>

fun covers :: "policy_op \<Rightarrow> vpath list \<Rightarrow> undo_call \<Rightarrow> bool" where
  "covers op ps (CRename a b) \<longleftrightarrow> op = Move \<and> (a \<in> set ps \<and> (b \<in> set ps \<or> beside ps b) \<or> beside ps a \<and> b \<in> set ps)"
| "covers op ps (CSetMode q m) \<longleftrightarrow> op = SetMode m False None \<and> q \<in> set ps"
| "covers op ps (CTrash q) \<longleftrightarrow> op = Delete Trash \<and> q \<in> set ps"
| "covers op ps (CRestoreFrom d q) \<longleftrightarrow> op = Move \<and> d \<in> set ps \<and> q \<in> set ps"
| "covers op ps (CRestoreTrashed q) \<longleftrightarrow> op = Move \<and> q \<in> set ps"

definition targets_le :: "gate_targets \<Rightarrow> gate_targets \<Rightarrow> bool" where
  "targets_le t t' \<longleftrightarrow> (gt_anchored t \<longrightarrow> gt_anchored t') \<and> set (gt_moves t) \<subseteq> set (gt_moves t') \<and>
     set (gt_deletes t) \<subseteq> set (gt_deletes t') \<and> (\<forall>m. set (mode_paths m t) \<subseteq> set (mode_paths m t'))"

lemma targets_le_trans: "targets_le t t' \<Longrightarrow> targets_le t' t'' \<Longrightarrow> targets_le t t''"
  by (fastforce simp: targets_le_def)

definition covered_targets :: "gate_targets \<Rightarrow> undo_call \<Rightarrow> bool" where
  "covered_targets t c \<longleftrightarrow> covers Move (gt_moves t) c \<or> covers (Delete Trash) (gt_deletes t) c \<or>
     (\<exists>m. covers (SetMode m False None) (mode_paths m t) c)"

lemma covers_mono: "covers op ps c \<Longrightarrow> set ps \<subseteq> set ps' \<Longrightarrow> covers op ps' c"
  by (cases c) (auto simp: beside_def)

lemma covered_mono: "covered_targets t c \<Longrightarrow> targets_le t t' \<Longrightarrow> covered_targets t' c"
  unfolding covered_targets_def targets_le_def using covers_mono by blast

lemma covers_Nil: "\<not> covers op [] c"
  by (cases c) (auto simp: beside_def)

lemma add_target_grows:
  assumes "add_target e t = Inr t'"
  shows "targets_le t t' \<and> gt_anchored t'"
  using assms
  by (auto simp: add_target_def add_second_def and_then_Inr_iff targets_le_def mode_paths_def Let_def split: if_splits option.splits)

lemma covered_gates:
  assumes "covered_targets t c"
  obtains op ps where "(op, ps) \<in> set (target_gates t)" "covers op ps c"
proof -
  consider (move) "covers Move (gt_moves t) c" | (trash) "covers (Delete Trash) (gt_deletes t) c"
    | (mode) m where "covers (SetMode m False None) (mode_paths m t) c"
    using assms by (auto simp: covered_targets_def)
  then show thesis
  proof cases
    case move
    then have "gt_moves t \<noteq> []" using covers_Nil by auto
    with move show thesis by (intro that) (auto simp: target_gates_def)
  next
    case trash
    then have "gt_deletes t \<noteq> []" using covers_Nil by auto
    with trash show thesis by (intro that) (auto simp: target_gates_def)
  next
    case mode
    then have "mode_paths m t \<noteq> []" using covers_Nil by auto
    then obtain ps where "map_of (gt_modes t) m = Some ps" "mode_paths m t = ps" by (auto simp: mode_paths_def split: option.splits)
    then have "(m, mode_paths m t) \<in> set (gt_modes t)" by (auto dest: map_of_SomeD)
    then have "(SetMode m False None, mode_paths m t) \<in> set (target_gates t)" by (force simp: target_gates_def)
    with mode show thesis by (intro that)
  qed
qed

lemma add_target_covers:
  assumes "add_target e t = Inr t'" "may_call e c"
  shows "covered_targets t' c"
proof -
  obtain q where q: "undo_wire (e_path e) = Inr q" using assms(2) by (auto simp: may_call_def)
  from assms q show ?thesis
    by (auto simp: add_target_def add_second_def and_then_Inr_iff may_call_def covered_targets_def beside_def mode_paths_def
        Let_def split: if_splits option.splits)
qed

lemma add_targets_covers:
  "add_targets es t = Inr t' \<Longrightarrow> targets_le t t' \<and> (es \<noteq> [] \<longrightarrow> gt_anchored t') \<and>
     (\<forall>e \<in> set es. \<forall>c. may_call e c \<longrightarrow> covered_targets t' c)"
proof (induction es arbitrary: t)
  case (Cons e es)
  then obtain t1 where t1: "add_target e t = Inr t1" "add_targets es t1 = Inr t'" by (auto simp: and_then_Inr_iff)
  have le: "targets_le t t1" "gt_anchored t1" "targets_le t1 t'" using add_target_grows [OF t1(1)] Cons.IH [OF t1(2)] by simp_all
  have "covered_targets t' c" if "may_call e c" for c
    by (rule covered_mono [OF add_target_covers [OF t1(1) that] le(3)])
  moreover have "targets_le t t'" by (rule targets_le_trans [OF le(1,3)])
  moreover have "gt_anchored t'" using le(2,3) by (simp add: targets_le_def)
  ultimately show ?case using Cons.IH [OF t1(2)] by simp
qed (simp add: targets_le_def)

lemma gates_denial_None: "gates_denial check gs = None \<longleftrightarrow> (\<forall>(op, ps) \<in> set gs. \<exists>u. check op ps = Inr u)"
  by (induction check gs rule: gates_denial.induct) (auto split: sum.splits)

text \<open>A unit that is not denied: each of its calls is covered by a question that was answered with yes.\<close>

lemma not_denied:
  assumes "undo_unit_denial check unit = None" "e \<in> set unit" "may_call e c"
  shows "\<exists>op ps. check op ps = Inr () \<and> covers op ps c"
proof -
  have "undo_gate_targets unit \<noteq> Inl er" for er using assms(1) by (auto simp: undo_unit_denial_def)
  then obtain t where t: "add_targets unit no_targets = Inr t"
    by (cases "add_targets unit no_targets") (auto simp: undo_gate_targets_def)
  from add_targets_covers [OF t] assms(2,3) have c: "gt_anchored t" "covered_targets t c" by auto
  obtain op ps where g: "(op, ps) \<in> set (target_gates t)" "covers op ps c" by (rule covered_gates [OF c(2)])
  have "gates_denial check (target_gates t) = None" using assms(1) t c(1) by (simp add: undo_unit_denial_def undo_gate_targets_def)
  with g(1) have "check op ps = Inr ()" by (auto simp: gates_denial_None)
  with g(2) show ?thesis by blast
qed

section \<open>A whole undo\<close>

lemma validity_of_members: "validity_of unit already \<in> {Whole u, InPart u} \<Longrightarrow> set u \<subseteq> set unit"
  by (auto simp: validity_of_def Let_def split: if_splits)

lemma undo_loop_good:
  assumes "good (us_world st)" "\<forall>(unit, p) \<in> set plan. watched_provider p good ok"
    and "\<And>j unit e c. undo_unit_denial (check j) unit = None \<Longrightarrow> e \<in> set unit \<Longrightarrow> may_call e c \<Longrightarrow> ok c"
    and "undo_loop env check a already k plan st = (st', r)"
  shows "good (us_world st')"
  using assms(1,2,4)
proof (induction plan arbitrary: k st)
  case (Cons up plan)
  obtain unit p where up: "up = (unit, p)" by fastforce
  have p: "watched_provider p good ok" using Cons.prems(2) up by simp
  obtain st1 c where 1: "poll env st = (st1, c)" by fastforce
  have g1: "good (us_world st1)" using 1 Cons.prems(1) by (auto simp: poll_def)
  have IH: "good (us_world st')" if "undo_loop env check a already j plan s = (st', r)" "good (us_world s)" for j s
    by (rule Cons.IH [OF that(2) _ that(1)]) (use Cons.prems(2) in auto)
  have rev: "good (us_world st2)" if "undo_unit_denial (check k) u = None" "revert_unit env p u a st1 = (st2, r2)" for u st2 r2
    by (rule watched_provider.revert_unit_good [OF p g1 _ that(2)]) (rule assms(3) [OF that(1)])
  show ?case
  proof (cases "c \<or> validity_of unit already = Undone \<or> (\<exists>n. validity_of unit already = Stop n)")
    case True
    with Cons.prems(3) g1 IH show ?thesis by (auto simp: up 1 Let_def split: bool.splits)
  next
    case False
    then obtain u where u: "validity_of unit already = Whole u \<or> validity_of unit already = InPart u"
      by (cases "validity_of unit already") auto
    show ?thesis
    proof (cases "undo_unit_denial (check k) u")
      case None
      obtain st2 r2 where 2: "revert_unit env p u a st1 = (st2, r2)" by fastforce
      have g2: "good (us_world st2)" by (rule rev [OF None 2])
      from Cons.prems(3) False u None g2 show ?thesis
        by (auto simp: up 1 2 Let_def split: bool.splits sum.splits reverted.splits elim!: IH)
    next
      case (Some er)
      with Cons.prems(3) False u g1 show ?thesis by (auto simp: up 1 Let_def split: bool.splits elim!: IH)
    qed
  qed
qed simp

text \<open>The same provider, keeping a list of the calls that change something.\<close>

definition logged_read :: "('w \<Rightarrow> vpath \<Rightarrow> 'w \<times> 'r) \<Rightarrow> 'w \<times> undo_call list \<Rightarrow> vpath \<Rightarrow> ('w \<times> undo_call list) \<times> 'r" where
  "logged_read f w q = (case f (fst w) q of (v, r) \<Rightarrow> ((v, snd w), r))"

definition logged_call :: "undo_call \<Rightarrow> 'w \<times> 'r \<Rightarrow> 'w \<times> undo_call list \<Rightarrow> ('w \<times> undo_call list) \<times> 'r" where
  "logged_call c vr w = ((fst vr, snd w @ [c]), snd vr)"

definition logged_provider :: "'w full_provider \<Rightarrow> ('w \<times> undo_call list) full_provider" where
  "logged_provider p =
     \<lparr>fp_capabilities = fp_capabilities p, fp_capabilities_at = logged_read (fp_capabilities_at p),
      fp_stat = logged_read (fp_stat p), fp_stat_mode = logged_read (fp_stat_mode p),
      fp_node_id = logged_read (fp_node_id p), fp_list = logged_read (fp_list p),
      fp_rename = (\<lambda>w a b. logged_call (CRename a b) (fp_rename p (fst w) a b) w),
      fp_set_mode = (\<lambda>w q m. logged_call (CSetMode q m) (fp_set_mode p (fst w) q m) w),
      fp_trash = (\<lambda>w q i. logged_call (CTrash q) (fp_trash p (fst w) q i) w),
      fp_restore_from = (\<lambda>w d q. logged_call (CRestoreFrom d q) (fp_restore_from p (fst w) d q) w),
      fp_restore_trashed = (\<lambda>w q. logged_call (CRestoreTrashed q) (fp_restore_trashed p (fst w) q) w)\<rparr>"

definition calls_ok :: "(undo_call \<Rightarrow> bool) \<Rightarrow> 'w \<times> undo_call list \<Rightarrow> bool" where
  "calls_ok ok w \<longleftrightarrow> (\<forall>c \<in> set (snd w). ok c)"

interpretation logged_calls: watched_provider "logged_provider p" "calls_ok ok" ok
  by unfold_locales (auto simp: logged_provider_def logged_read_def logged_call_def calls_ok_def split: prod.splits)

lemma undo_calls_asked:
  assumes "us_world st = (w, [])" "undo_task env check a (map (\<lambda>(unit, p). (unit, logged_provider p)) plan) st = (st', r)"
    and "c \<in> set (snd (us_world st'))"
  shows "\<exists>k op ps. check k op ps = Inr () \<and> covers op ps c"
proof -
  let ?ok = "\<lambda>c. \<exists>k op ps. check k op ps = Inr () \<and> covers op ps c" and ?plan = "map (\<lambda>(unit, p). (unit, logged_provider p)) plan"
  obtain st1 q where 1: "poll env st = (st1, q)" by fastforce
  have w1: "us_world st1 = (w, [])" using 1 assms(1) by (auto simp: poll_def)
  have "calls_ok ?ok (us_world st')"
  proof (cases q)
    case True
    with assms(2) 1 w1 show ?thesis by (auto simp: undo_task_def calls_ok_def)
  next
    case False
    with assms(2) 1 have run: "undo_loop env check a (set (undone_among (us_journal st1) (concat (map (map e_seq \<circ> fst) ?plan)))) 0 ?plan st1 = (st', r)"
      by (simp add: undo_task_def)
    have "calls_ok ?ok (us_world st1)" using w1 by (simp add: calls_ok_def)
    moreover have "\<forall>(unit, p) \<in> set ?plan. watched_provider p (calls_ok ?ok) ?ok" using logged_calls.watched_provider_axioms by auto
    moreover have "?ok c" if "undo_unit_denial (check k) unit = None" "e \<in> set unit" "may_call e c" for k unit e c
      using not_denied [OF that] by blast
    ultimately show ?thesis by (rule undo_loop_good [OF _ _ _ run])
  qed
  with assms(3) show ?thesis by (auto simp: calls_ok_def)
qed

section \<open>An instance\<close>

text \<open>A provider that does everything it is asked, and an entry for a file that was created.\<close>

definition easy_provider :: "unit full_provider" where
  "easy_provider =
     \<lparr>fp_capabilities = caps mem_new, fp_capabilities_at = (\<lambda>w q. (w, Inr (caps mem_new))),
      fp_stat = (\<lambda>w q. (w, Inr KindFile)), fp_stat_mode = (\<lambda>w q. (w, Inr None)), fp_node_id = (\<lambda>w q. (w, Inr None)),
      fp_list = (\<lambda>w q. (w, Inr [])), fp_rename = (\<lambda>w a b. (w, Inr ())), fp_set_mode = (\<lambda>w q m. (w, Inr ())),
      fp_trash = (\<lambda>w q i. (w, Inr None)), fp_restore_from = (\<lambda>w d q. (w, Inr ())), fp_restore_trashed = (\<lambda>w q. (w, Inr ()))\<rparr>"

definition created_entry :: journal_entry where
  "created_entry = \<lparr>e_seq = 1, e_ts_ms = 8, e_entry_hash = [], e_actor_kind = ''agent'', e_actor_id = Some ''claude'', e_op = ''created'',
     e_path = to_wire (photo ''a''), e_path_to = None, e_reversal = ''delete'', e_reversal_ref = None, e_undoes_seq = None,
     e_batch_id = None\<rparr>"

definition calm_env :: undo_env where
  "calm_env = \<lparr>ue_unicode = ascii_tables, ue_sha = flat_sha, ue_io = (\<lambda>_. (True, 9)), ue_clock = (\<lambda>_. 9), ue_cancel = (\<lambda>_. False)\<rparr>"

definition bare_journal :: journal where
  "bare_journal = \<lparr>file_db = \<lparr>table_columns = [], table_rows = [], base_table = None\<rparr>,
     chain = \<lparr>last_seq = 1, last_hash = [], batch_counter = 0\<rparr>, has_batch_id = True, read_only = False, hooks = None\<rparr>"

definition calm_state :: "'w \<Rightarrow> 'w undo_state" where
  "calm_state w = \<lparr>us_world = w, us_journal = bare_journal, us_calls = 0, us_polls = 0, us_report = undo_report_default\<rparr>"

lemma none_undone: "undone_among bare_journal seqs = []"
  by (simp add: undone_among_def bare_journal_def)

lemma created_allowed:
  "undo_unit_denial (policy_check (ScopedPolicy_evaluate photo_scope [photo_rule] 0) (\<lambda>_. Denied) (Agent ''claude'')) [created_entry] = None"
  by code_simp

text \<open>What the provider does with permissions is left open.\<close>

lemma created_trashed:
  assumes "p = easy_provider\<lparr>fp_set_mode := f\<rparr>" "us_world st = ((), cs)"
    and "revert_unit calm_env (logged_provider p) [created_entry] a st = (st', r)"
  shows "us_world st' = ((), cs @ [CTrash (photo ''a'')]) \<and> (r = Inr RDone \<or> (\<exists>er. r = Inl er))"
proof -
  let ?p = "logged_provider p"
  have e: "undo_wire (e_path created_entry) = Inr (photo ''a'')" "e_reversal created_entry = ''delete''"
      "e_reversal_ref created_entry = None" "e_batch_id created_entry = None"
    by code_simp+
  have p: "fp_stat ?p w q = (((), snd w), Inr KindFile)" "fp_trash ?p w q i = (((), snd w @ [CTrash q]), Inr None)"
      "TRASH \<in> cap_flags (fp_capabilities ?p)" for w q i
    by (simp_all add: assms(1) logged_provider_def easy_provider_def logged_read_def logged_call_def mem_new_def)
  have t: "trash_retrying ?p q i (\<lambda>n. ue_cancel calm_env (k + n)) w = (((), snd w @ [CTrash q]), Inr None)" for q i k w
    by (simp add: trash_retrying_def trash_retrying_amb_def trash_loop.simps calm_env_def p)
  have "revert_entry calm_env ?p created_entry a None st = (st', r)"
    using assms(3) e(4) by (simp add: revert_unit_def is_sync_unit_def is_organize_unit_def is_mode_unit_def)
  with assms(2) e show ?thesis
    by (auto simp: revert_entry_def revert_created_def Let_def p t not_ours_def occupied_dir_def
        dest: finish_revert_world finish_revert_result)
qed

section \<open>Properties\<close>

text \<open>C13: an undo by an agent stays in its scopes. Whatever the journal holds, whatever the provider answers, and however
  the scopes change while the undo runs: every call of it that changes something in a provider was covered by a question
  about that operation, answered with yes while a unit was asked about, and every path of that question lay then within
  the live scopes of the agent for that operation.\<close>

theorem agent_undo_within_scope:
  assumes "us_world st = (w, [])"
    and "undo_task env (\<lambda>k. policy_check (ScopedPolicy_evaluate (reg k) (cfg k) (now k)) (answer k) (Agent sess)) (Agent sess)
      (map (\<lambda>(unit, p). (unit, logged_provider p)) plan) st = (st', r)"
    and "c \<in> set (snd (us_world st'))"
  shows "\<exists>k op paths. covers op paths c \<and> (\<forall>q \<in> set paths. permits (reg k) sess op q (now k) = Within)"
proof -
  obtain k op paths where k: "policy_check (ScopedPolicy_evaluate (reg k) (cfg k) (now k)) (answer k) (Agent sess) op paths = Inr ()"
      "covers op paths c"
    using undo_calls_asked [OF assms] by blast
  have "permits (reg k) sess op q (now k) = Within" if "q \<in> set paths" for q
    by (rule gate_within [where source = NoJournalSource and ready = Opened and cfg = "cfg k" and answer = "answer k", OF _ that])
      (use k(1) in \<open>simp add: engine_gate_def journal_gate_def\<close>)
  with k(2) show ?thesis by blast
qed

theorem agent_undo_within_scope_witness:
  "\<exists>st' r. undo_task calm_env
       (\<lambda>k. policy_check (ScopedPolicy_evaluate photo_scope [photo_rule] 0) (\<lambda>_. Denied) (Agent ''claude'')) (Agent ''claude'')
       [([created_entry], logged_provider easy_provider)] (calm_state ((), [])) = (st', r) \<and>
     CTrash (photo ''a'') \<in> set (snd (us_world st')) \<and> permits photo_scope ''claude'' (Delete Trash) (photo ''a'') 0 = Within"
proof -
  let ?check = "\<lambda>k :: nat. policy_check (ScopedPolicy_evaluate photo_scope [photo_rule] 0) (\<lambda>_. Denied) (Agent ''claude'')"
  let ?plan = "[([created_entry], logged_provider easy_provider)]" and ?st = "calm_state ((), [] :: undo_call list)"
  obtain st' r where run: "undo_task calm_env ?check (Agent ''claude'') ?plan ?st = (st', r)" by fastforce
  obtain st1 where 1: "poll calm_env ?st = (st1, False)" "us_world st1 = ((), [])" "us_journal st1 = bare_journal"
    by (simp add: poll_def calm_env_def calm_state_def)
  obtain st2 where 2: "poll calm_env st1 = (st2, False)" "us_world st2 = ((), [])"
    using 1 by (simp add: poll_def calm_env_def)
  obtain st3 r3 where 3: "revert_unit calm_env (logged_provider easy_provider) [created_entry] (Agent ''claude'') st2 = (st3, r3)"
    by fastforce
  have whole: "validity_of [created_entry] {} = Whole [created_entry]" by (simp add: validity_of_def)
  have "undo_loop calm_env ?check (Agent ''claude'') {} 0 ?plan st1 = (st', r)"
    using run 1 by (simp add: undo_task_def none_undone)
  then have "us_world st' = us_world st3"
    by (auto simp: 2 whole created_allowed 3 split: sum.splits reverted.splits)
  then have called: "CTrash (photo ''a'') \<in> set (snd (us_world st'))" using created_trashed [OF _ 2(2) 3, of "fp_set_mode easy_provider"] by simp
  have plan: "?plan = map (\<lambda>(unit, p). (unit, logged_provider p)) [([created_entry], easy_provider)]" by simp
  have start: "us_world ?st = ((), [])" by (simp add: calm_state_def)
  obtain k :: nat and op paths where "covers op paths (CTrash (photo ''a''))"
      "\<forall>q \<in> set paths. permits photo_scope ''claude'' op q 0 = Within"
    using agent_undo_within_scope [where reg = "\<lambda>_. photo_scope" and cfg = "\<lambda>_. [photo_rule]" and now = "\<lambda>_. 0" and answer = "\<lambda>_ _. Denied",
        OF start run [unfolded plan] called] by blast
  with run called show ?thesis by auto
qed

end
