(* ===== verification/Undo_Account.thy ===== *)
theory Undo_Account
  imports Undo_Gated Undo_Properties
begin

text \<open>
  What the report of an undo says: the counters of a batch of the synchroniser against the journal, where a session
  stops, and where the report of a batch of permissions, of a cancelled undo or of a rename without an answer is wrong.
\<close>

section \<open>Entries\<close>

lemma length_split_while: "length (takeWhile P xs) + length (dropWhile P xs) = length xs"
  by (metis length_append takeWhile_dropWhile_id)

lemma record_entry_rows:
  "record_entry sha io now e j = (j', r) \<Longrightarrow>
    length (rows j') = length (rows j) + (case r of Inl _ \<Rightarrow> 0 | Inr _ \<Rightarrow> 1)"
  by (auto simp: record_entry_def insert_entry_def Let_def length_split_while split: sum.splits if_splits)

definition row_count :: "'w undo_state \<Rightarrow> nat" where
  "row_count st = length (rows (us_journal st))"

lemma finish_revert_rows:
  "finish_revert env e st = (st', r) \<Longrightarrow> us_report st' = us_report st \<and>
    (r = Inr RDone \<and> row_count st' = row_count st + 1 \<or> (\<exists>er. r = Inl er) \<and> row_count st' = row_count st)"
  by (auto simp: finish_revert_def write_entry_def row_count_def Let_def split: prod.splits sum.splits dest: record_entry_rows)

text \<open>Reverting an entry writes its compensation or nothing, and leaves the report alone.\<close>

definition one_entry :: "'w undo_state \<Rightarrow> 'w undo_state \<Rightarrow> proto_error + reverted \<Rightarrow> bool" where
  "one_entry st st' r \<longleftrightarrow> us_report st' = us_report st \<and> (\<forall>n er. r \<noteq> Inr (Stuck n er)) \<and> r \<noteq> Inr Accounted \<and>
     row_count st' = row_count st + (if r = Inr RDone then 1 else 0)"

lemma one_entry_here:
  "one_entry st (st\<lparr>us_world := w\<rparr>) (Inl er)" "one_entry st st (Inl er)"
  "one_entry st (st\<lparr>us_world := w\<rparr>) (Inr (Blocked n er))" "one_entry st st (Inr (Blocked n er))"
  "one_entry st (st\<lparr>us_world := w, us_polls := k\<rparr>) (Inl er)" "one_entry st (st\<lparr>us_world := w, us_polls := k\<rparr>) (Inr (Blocked n er))"
  "one_entry st (st\<lparr>us_world := w\<rparr>) (Inr SkippedNotOurs)" "one_entry st (st\<lparr>us_world := w\<rparr>) (Inr SkippedNoTrash)"
  "one_entry st st (Inr SkippedIrreversible)"
  by (simp_all add: one_entry_def row_count_def)

lemma one_entry_finish:
  "finish_revert env e (st\<lparr>us_world := w\<rparr>) = (st', r) \<Longrightarrow> one_entry st st' r"
  "finish_revert env e (st\<lparr>us_world := w, us_polls := k\<rparr>) = (st', r) \<Longrightarrow> one_entry st st' r"
  by (auto simp: one_entry_def row_count_def dest!: finish_revert_rows)

lemma revert_entry_one: "revert_entry env p e a b st = (st', r) \<Longrightarrow> one_entry st st' r"
  by (auto simp: revert_entry_def revert_created_def revert_renamed_def revert_mode_def revert_trashed_def Let_def one_entry_here
      split: sum.splits option.splits prod.splits bool.splits if_splits dest: one_entry_finish)

section \<open>Batches of the synchroniser\<close>

definition counted :: "undo_report \<Rightarrow> nat" where
  "counted r = ur_undone r + ur_skipped_irreversible r + ur_skipped_created_no_trash r + ur_skipped_not_ours r"

text \<open>The counters after some entries: each compensation is one entry undone, and all entries are counted when nothing
  blocked, fewer when something did or the batch was broken off.\<close>

definition accounts :: "nat \<Rightarrow> 'w undo_state \<Rightarrow> 'w undo_state \<Rightarrow> proto_error + reverted \<Rightarrow> bool" where
  "accounts n st st' r \<longleftrightarrow>
     ur_undone (us_report st) \<le> ur_undone (us_report st') \<and>
     row_count st' = row_count st + (ur_undone (us_report st') - ur_undone (us_report st)) \<and>
     (case r of
        Inr Accounted \<Rightarrow> counted (us_report st') = counted (us_report st) + n
      | Inr (Blocked _ _) \<Rightarrow> counted (us_report st') < counted (us_report st) + n
      | Inl _ \<Rightarrow> counted (us_report st') < counted (us_report st) + n
      | _ \<Rightarrow> False)"

lemma count_reports [simp]:
  "us_report (note_unreverted b st) = (us_report st)\<lparr>ur_unreverted_paths :=
     ur_unreverted_paths (us_report st) @ (if length (ur_unreverted_paths (us_report st)) < UNDO_MAX_UNREVERTED_PATHS then [b] else [])\<rparr>"
  "us_report (count_undone n st) = (us_report st)\<lparr>ur_undone := ur_undone (us_report st) + n\<rparr>"
  "us_report (count_irreversible st) = (us_report st)\<lparr>ur_skipped_irreversible := ur_skipped_irreversible (us_report st) + 1\<rparr>"
  "us_report (count_no_trash st) = (us_report st)\<lparr>ur_skipped_created_no_trash := ur_skipped_created_no_trash (us_report st) + 1\<rparr>"
  "us_report (count_not_ours st) = (us_report st)\<lparr>ur_skipped_not_ours := ur_skipped_not_ours (us_report st) + 1\<rparr>"
  "us_report (count_lost st) = (us_report st)\<lparr>ur_compensations_lost := ur_compensations_lost (us_report st) + 1\<rparr>"
  by (simp_all add: note_unreverted_def count_undone_def count_irreversible_def count_no_trash_def count_not_ours_def count_lost_def)

lemma count_rows [simp]:
  "row_count (note_unreverted b st) = row_count st" "row_count (count_undone n st) = row_count st"
  "row_count (count_irreversible st) = row_count st" "row_count (count_no_trash st) = row_count st"
  "row_count (count_not_ours st) = row_count st" "row_count (count_lost st) = row_count st"
  by (simp_all add: row_count_def note_unreverted_def count_undone_def count_irreversible_def count_no_trash_def count_not_ours_def
      count_lost_def)

lemma poll_keeps: "poll env st = (st', c) \<Longrightarrow> us_report st' = us_report st \<and> row_count st' = row_count st"
  by (auto simp: poll_def row_count_def)

lemma sync_loop_accounts:
  assumes "sync_loop env p amb a b es blocked st = (st', r)" "blocked \<noteq> None \<longrightarrow> counted (us_report st) < c" "blocked = None \<longrightarrow> counted (us_report st) = c"
  shows "ur_undone (us_report st) \<le> ur_undone (us_report st') \<and>
     row_count st' = row_count st + (ur_undone (us_report st') - ur_undone (us_report st)) \<and>
     (case r of
        Inr Accounted \<Rightarrow> counted (us_report st') = c + length es
      | Inr (Blocked _ _) \<Rightarrow> counted (us_report st') < c + length es
      | Inl _ \<Rightarrow> counted (us_report st') < c + length es
      | _ \<Rightarrow> False)"
  using assms
proof (induction es arbitrary: blocked st c)
  case (Cons e es)
  obtain st1 q where 1: "poll env st = (st1, q)" by fastforce
  note k1 = poll_keeps [OF 1]
  show ?case
  proof (cases q)
    case True
    with Cons.prems k1 show ?thesis by (cases blocked) (auto simp: 1)
  next
    case go: False
    show ?thesis
    proof (cases "e_path e \<in> set amb")
      case True
      let ?st = "if e_reversal e = reversal_as_str RestoreTrash then note_unreverted (e_path e) st1 else st1"
      have run: "sync_loop env p amb a b es (first_block blocked (e_seq e) E_Unsupported) ?st = (st', r)"
        using Cons.prems(1) True go by (simp add: 1)
      have keep: "ur_undone (us_report ?st) = ur_undone (us_report st)" "row_count ?st = row_count st" "counted (us_report ?st) = counted (us_report st)"
        using k1 by (simp_all add: counted_def)
      have "first_block blocked (e_seq e) E_Unsupported \<noteq> None" by (simp add: first_block_def split: option.splits)
      with Cons.IH [OF run, of "c + 1"] keep Cons.prems(2,3) show ?thesis by (cases blocked) (auto split: sum.splits reverted.splits)
    next
      case False
      obtain st2 r2 where 2: "revert_entry env p e a (Some b) st1 = (st2, r2)" by fastforce
      note one = revert_entry_one [OF 2, unfolded one_entry_def]
      have blk: "first_block blocked n er \<noteq> None" for n er by (simp add: first_block_def split: option.splits)
      show ?thesis
      proof (cases r2)
        case (Inl er)
        then show ?thesis using Cons.prems go False one k1 by (cases blocked) (auto simp: 1 2 counted_def)
      next
        case (Inr v)
        from Cons.prems(1) go False Inr one
        obtain bl s where step: "sync_loop env p amb a b es bl s = (st', r)"
            "ur_undone (us_report st) + (if v = RDone then 1 else 0) = ur_undone (us_report s)" "row_count s = row_count st + (if v = RDone then 1 else 0)"
            "(\<exists>n er. v = Blocked n er) \<and> bl \<noteq> None \<and> counted (us_report s) = counted (us_report st) \<or>
             bl = blocked \<and> counted (us_report s) = counted (us_report st) + 1"
          using k1 blk by (cases v) (auto simp: 1 2 counted_def)
        with Cons.IH [OF step(1), of "c + 1"] Cons.prems(2,3) show ?thesis
          by (cases blocked) (auto split: sum.splits reverted.splits if_splits)
      qed
    qed
  qed
qed (auto simp: counted_def split: option.splits)

lemma one_provider_refuses: "one_provider unit first = Inl v \<Longrightarrow> \<exists>n er. v = Blocked n er"
proof -
  have on: "on_provider origin e bs = Inl v \<Longrightarrow> \<exists>n er. v = Blocked n er" for origin e bs
    by (induction origin e bs rule: on_provider.induct) (auto split: sum.splits if_splits)
  have all: "all_on_provider origin es = Inl v \<Longrightarrow> \<exists>n er. v = Blocked n er" for origin es
    by (induction es) (auto simp: and_then_Inl_iff dest: on)
  assume "one_provider unit first = Inl v"
  then show ?thesis by (auto simp: one_provider_def split: sum.splits dest: all)
qed

lemma revert_sync_batch_accounts:
  assumes "unit \<noteq> []" "revert_sync_batch env p unit a st = (st', r)"
  shows "accounts (length unit) st st' r"
proof -
  obtain first rest where unit: "unit = first # rest" using assms(1) by (cases unit) auto
  show ?thesis
  proof (cases "one_provider unit first")
    case (Inl v)
    with assms(2) one_provider_refuses [OF Inl] show ?thesis
      by (auto simp: revert_sync_batch_def unit accounts_def)
  next
    case (Inr u)
    obtain j b where jb: "alloc_batch (us_journal st) = (j, b)" by fastforce
    then have "rows j = rows (us_journal st)" by (auto simp: alloc_batch_def Let_def)
    then have keep: "row_count (st\<lparr>us_journal := j\<rparr>) = row_count st" by (simp add: row_count_def)
    have run: "sync_loop env p (ambiguous_restores unit) a b (newest_first unit) None (st\<lparr>us_journal := j\<rparr>) = (st', r)"
      using assms(2) Inr jb by (simp add: revert_sync_batch_def unit)
    have len: "length (newest_first unit) = length unit" by (simp add: newest_first_def)
    from sync_loop_accounts [OF run, of "counted (us_report st)", unfolded len] keep show ?thesis by (simp add: accounts_def)
  qed
qed

section \<open>Where a session stops\<close>

lemma keep_blocked [simp]:
  "ur_blocked (us_report (report_denied unit er st)) = ur_blocked (us_report st)"
  by (simp add: report_denied_def split: list.splits)

lemma sync_loop_blocked:
  "sync_loop env p amb a b es blocked st = (st', r) \<Longrightarrow> ur_blocked (us_report st') = ur_blocked (us_report st)"
proof (induction es arbitrary: blocked st)
  case (Cons e es)
  obtain st1 q where 1: "poll env st = (st1, q)" by fastforce
  obtain st2 r2 where 2: "revert_entry env p e a (Some b) st1 = (st2, r2)" by fastforce
  have "us_report st1 = us_report st" "us_report st2 = us_report st"
    using poll_keeps [OF 1] revert_entry_one [OF 2] by (simp_all add: one_entry_def)
  with Cons.prems show ?case
    by (auto simp: 1 2 split: bool.splits sum.splits reverted.splits if_splits dest!: Cons.IH)
qed simp

lemma mode_loop_blocked:
  "mode_loop env p a b es n blocked st = (st', r) \<Longrightarrow> ur_blocked (us_report st') = ur_blocked (us_report st)"
proof (induction es arbitrary: n blocked st)
  case (Cons e es)
  obtain st1 q where 1: "poll env st = (st1, q)" by fastforce
  obtain st2 r2 where 2: "revert_entry env p e a (Some b) st1 = (st2, r2)" by fastforce
  have "us_report st1 = us_report st" "us_report st2 = us_report st"
    using poll_keeps [OF 1] revert_entry_one [OF 2] by (simp_all add: one_entry_def)
  with Cons.prems show ?case
    by (auto simp: 1 2 split: bool.splits sum.splits if_splits dest!: Cons.IH)
qed auto

lemma interpret_blocked: "interpret_outcome out snap ss n rep = (rep', r) \<Longrightarrow> ur_blocked rep' = ur_blocked rep"
  by (auto simp: interpret_outcome_def Let_def split: option.splits sum.splits proto_error.splits if_splits)

lemma revert_batch_blocked:
  "revert_batch u sha p io cancel unit a st = (st', r) \<Longrightarrow> ur_blocked (us_report st') = ur_blocked (us_report st)"
  by (auto simp: revert_batch_def Let_def split: list.splits option.splits sum.splits prod.splits dest: interpret_blocked)

lemma revert_unit_blocked:
  assumes "revert_unit env p unit a st = (st', r)"
  shows "ur_blocked (us_report st') = ur_blocked (us_report st)"
proof -
  have "ur_blocked (us_report st') = ur_blocked (us_report st)" if "revert_sync_batch env p unit a st = (st', r)"
    using that by (auto simp: revert_sync_batch_def split: list.splits sum.splits prod.splits dest!: sync_loop_blocked)
  moreover have "ur_blocked (us_report st') = ur_blocked (us_report st)" if "revert_mode_batch env p unit a st = (st', r)"
    using that by (auto simp: revert_mode_batch_def split: list.splits sum.splits prod.splits dest!: mode_loop_blocked)
  moreover have "ur_blocked (us_report st') = ur_blocked (us_report st)" if "revert_rename_batch env p unit a st = (st', r)"
    using that by (auto simp: revert_rename_batch_def split: prod.splits dest!: revert_batch_blocked)
  moreover have "ur_blocked (us_report st') = ur_blocked (us_report st)" if "revert_entry env p e a None st = (st', r)" for e
    using revert_entry_one [OF that] by (simp add: one_entry_def)
  ultimately show ?thesis using assms by (auto simp: revert_unit_def split: if_splits list.splits)
qed

text \<open>One round of the loop: the task ends there, or it goes on with the rest.\<close>

definition round_ends :: "'w undo_state \<times> (proto_error + unit) \<Rightarrow> bool" where
  "round_ends x \<longleftrightarrow> (\<exists>er. snd x = Inl er) \<or> ur_blocked (us_report (fst x)) \<noteq> None"

lemma undo_loop_append:
  assumes "ur_blocked (us_report st) = None" "undo_loop env check a already k xs st = (st', r)"
  shows "undo_loop env check a already k (xs @ ys) st =
    (if round_ends (st', r) then (st', r) else undo_loop env check a already (k + length xs) ys st')"
  using assms
proof (induction xs arbitrary: k st)
  case Nil
  then show ?case by (auto simp: round_ends_def)
next
  case (Cons up xs)
  obtain unit p where up: "up = (unit, p)" by fastforce
  obtain st1 c where 1: "poll env st = (st1, c)" by fastforce
  have n1: "ur_blocked (us_report st1) = None" using poll_keeps [OF 1] Cons.prems(1) by simp
  have IH: "undo_loop env check a already (k + 1) (xs @ ys) s =
      (if round_ends (st', r) then (st', r) else undo_loop env check a already (k + length (up # xs)) ys st')"
    if "ur_blocked (us_report s) = None" "undo_loop env check a already (k + 1) xs s = (st', r)" for s
    using Cons.IH [OF that] by simp
  show ?case
  proof (cases "c \<or> validity_of unit already = Undone \<or> (\<exists>n. validity_of unit already = Stop n)")
    case True
    with Cons.prems(2) show ?thesis using IH [OF n1]
      by (auto simp: up 1 Let_def round_ends_def report_blocked_def split: bool.splits)
  next
    case False
    then obtain u where u: "validity_of unit already = Whole u \<or> validity_of unit already = InPart u"
      by (cases "validity_of unit already") auto
    show ?thesis
    proof (cases "undo_unit_denial (check k) u")
      case None
      obtain st2 r2 where 2: "revert_unit env p u a st1 = (st2, r2)" by fastforce
      have n2: "ur_blocked (us_report st2) = None" using revert_unit_blocked [OF 2] n1 by simp
      show ?thesis
      proof (cases "\<exists>er. r2 = Inl er \<or> (\<exists>n. r2 = Inr (Blocked n er) \<or> r2 = Inr (Stuck n er))")
        case True
        with Cons.prems(2) False u None show ?thesis
          by (auto simp: up 1 2 Let_def round_ends_def report_blocked_def split: bool.splits)
      next
        case on: False
        let ?s = "case projr r2 of RDone \<Rightarrow> count_undone (length u) st2 | SkippedIrreversible \<Rightarrow> count_irreversible st2
          | SkippedNoTrash \<Rightarrow> count_no_trash st2 | SkippedNotOurs \<Rightarrow> count_not_ours st2 | _ \<Rightarrow> st2"
        have s: "ur_blocked (us_report ?s) = None" using n2 by (simp split: reverted.splits)
        have go: "undo_loop env check a already k ((unit, p) # zs) st = undo_loop env check a already (k + 1) zs ?s" for zs
          using on False u None by (cases r2; cases "projr r2") (auto simp: 1 2 Let_def split: bool.splits)
        with Cons.prems(2) IH [OF s] show ?thesis by (simp add: up)
      qed
    next
      case (Some er)
      have "ur_blocked (us_report (report_denied u er st1)) = None" using n1 by simp
      from IH [OF this] Cons.prems(2) False u Some show ?thesis by (auto simp: up 1 Let_def split: bool.splits)
    qed
  qed
qed

section \<open>A rename whose answer is lost\<close>

text \<open>The check of a batch of renames passed and the rename of its newest entry came back with an error which does not
  say that nothing happened; asked afterwards, the provider left the question as \<open>landed\<close>. Of the two worlds, the first is
  the one the undo starts from and the second the one it is left with.\<close>

definition rename_unanswered :: "undo_env \<Rightarrow> 'w undo_provider \<Rightarrow> journal_entry list \<Rightarrow> landed \<Rightarrow> proto_error \<Rightarrow> 'w \<Rightarrow> 'w \<Rightarrow> bool" where
  "rename_unanswered env p unit landed er w w' \<longleftrightarrow> may_have_applied er \<and> er \<noteq> E_Cancelled \<and>
     (\<exists>dir ss planned w1 w2. undo_directory (hd unit) = Some dir \<and> inverse_chain unit dir = Inr ss \<and>
        undo_check (ue_unicode env) p (hd unit) dir ss w = (w1, Inr ()) \<and>
        try_map (inverse_step dir) (zip [0..<length ss] ss) = Inr planned \<and>
        up_rename p w1 (ps_from (hd planned)) (ps_to (hd planned)) = (w2, Inl er) \<and>
        probe_landed (undo_services (ue_sha env) p) w2 (hd planned) = (w', landed))"

lemma renames_go_to_batch:
  assumes "2 \<le> length unit" "\<forall>e \<in> set unit. e_op e = ''renamed''"
  shows "revert_unit env p unit a st = revert_rename_batch env p unit a st"
proof -
  obtain e e' es where unit: "unit = e # e' # es" using assms(1)
    by (cases unit rule: remdups_adj.cases) auto
  with assms(2) have "\<not> is_sync_unit unit" "\<not> is_organize_unit unit" "\<not> is_mode_unit unit"
    by (auto simp: is_sync_unit_def is_organize_unit_def is_mode_unit_def OP_ORGANIZED_def list_ex_iff)
  then show ?thesis by (simp add: revert_unit_def unit)
qed

text \<open>The first planned step undoes the first entry.\<close>

lemma inverse_chain_first:
  "inverse_chain (e # es) dir = Inr ss \<Longrightarrow> \<exists>iv ivs. ss = iv # ivs \<and> iv_seq iv = e_seq e"
  by (auto simp: Let_def and_then_Inr_iff split: option.splits sum.splits if_splits)

lemma planned_first:
  "try_map (inverse_step dir) (zip [0..<length (iv # ivs)] (iv # ivs)) = Inr planned \<Longrightarrow> \<exists>s ss. planned = s # ss \<and> ps_pair s = 0"
  by (auto simp: upt_conv_Cons inverse_step_def and_then_Inr_iff simp del: upt_Suc split: sum.splits option.splits)

lemma alloc_keeps_rows: "alloc_batch j = (j', b) \<Longrightarrow> rows j' = rows j"
  by (auto simp: alloc_batch_def Let_def)

lemma unanswered_blocks:
  assumes "unit \<noteq> []" "rename_unanswered env (plain_provider p) unit landed er (us_world st) w'" "landed \<noteq> Landed_Yes"
    and "\<not> ue_cancel env (us_polls st)" "revert_rename_batch env p unit a st = (st', r)"
  shows "r = Inr (Blocked (e_seq (hd unit)) er) \<and> us_world st' = w' \<and> us_report st' = us_report st \<and> row_count st' = row_count st"
proof -
  let ?p = "plain_provider p"
  obtain e es where unit: "unit = e # es" using assms(1) by (cases unit) auto
  obtain dir ss planned w1 w2 where run: "undo_directory e = Some dir" "inverse_chain (e # es) dir = Inr ss"
      "undo_check (ue_unicode env) ?p e dir ss (us_world st) = (w1, Inr ())"
      "try_map (inverse_step dir) (zip [0..<length ss] ss) = Inr planned"
      "up_rename ?p w1 (ps_from (hd planned)) (ps_to (hd planned)) = (w2, Inl er)"
      "probe_landed (undo_services (ue_sha env) ?p) w2 (hd planned) = (w', landed)" "may_have_applied er" "er \<noteq> E_Cancelled"
    using assms(2) by (auto simp: rename_unanswered_def unit)
  obtain iv ivs where ss: "ss = iv # ivs" "iv_seq iv = e_seq e" using inverse_chain_first [OF run(2)] by blast
  obtain s steps where planned: "planned = s # steps" "ps_pair s = 0" using planned_first run(4) ss(1) by blast
  obtain j b where jb: "alloc_batch (us_journal st) = (j, b)" by fastforce
  have ren: "sv_rename (undo_services (ue_sha env) ?p) = up_rename ?p" by (simp add: undo_services_def)
  obtain x res where x: "undo_run (ue_sha env) ?p (ue_io env) (\<lambda>n. ue_cancel env (us_polls st + n)) a planned (st\<lparr>us_world := w1\<rparr>) = (x, res)"
    by fastforce
  then have ran: "world x = w' \<and> stuck (report x) = None \<and> compensations_lost (report x) = 0 \<and> failed_pair (report x) = Some 0 \<and>
      bj_journal (recorder x) = j \<and> res = Inl er"
    using assms(3,4) run(5-7) planned jb
    by (cases landed) (auto simp: undo_run_def exec_run_def ren settle_failed_def fail_pair_def report_default_def)
  have "revert_batch (ue_unicode env) (ue_sha env) ?p (ue_io env) (\<lambda>n. ue_cancel env (us_polls st + n)) unit a st =
     (st\<lparr>us_world := w', us_journal := j, us_calls := bj_calls (recorder x), us_report := us_report st\<rparr>, Inr (Blocked (e_seq e) er))"
    using run(1-4,8) x ran ss by (cases er) (auto simp: revert_batch_def unit interpret_outcome_def)
  with assms(5) show ?thesis using alloc_keeps_rows [OF jb] by (auto simp: revert_rename_batch_def unit row_count_def)
qed


section \<open>Instances\<close>

definition future_entry :: journal_entry where
  "future_entry = created_entry\<lparr>e_reversal := ''future''\<rparr>"

text \<open>Two entries of a batch of permissions: of the newer one the mode before is not known, the older one can be reverted.\<close>

definition mode_entry :: "int \<Rightarrow> bytes \<Rightarrow> bytes \<Rightarrow> bytes option \<Rightarrow> journal_entry" where
  "mode_entry n name rv rref = \<lparr>e_seq = n, e_ts_ms = 8, e_entry_hash = [], e_actor_kind = ''user'', e_actor_id = None,
     e_op = ''mode_changed'', e_path = to_wire (photo name), e_path_to = None, e_reversal = rv, e_reversal_ref = rref,
     e_undoes_seq = None, e_batch_id = Some 1\<rparr>"

definition mode_unit :: "journal_entry list" where
  "mode_unit = [mode_entry 3 ''c'' ''irreversible'' None, mode_entry 2 ''b'' ''set_mode_back'' (Some ''7'')]"

definition locked_provider :: "unit full_provider" where
  "locked_provider = easy_provider\<lparr>fp_set_mode := \<lambda>w q m. (w, Inl E_PermissionDenied)\<rparr>"

lemma mode_entries:
  "undo_wire (to_wire (photo ''b'')) = Inr (photo ''b'')" "undo_wire (to_wire (photo ''c'')) = Inr (photo ''c'')"
  "same_place (photo m) (photo m')" "previous_mode (mode_entry n name rv (Some ''7'')) = Some 7"
  "e_reversal (mode_entry n name rv rref) = rv" "e_seq (mode_entry n name rv rref) = n" "e_batch_id (mode_entry n name rv rref) = Some 1"
  "e_op (mode_entry n name rv rref) = ''mode_changed''" "e_path (mode_entry n name rv rref) = to_wire (photo name)"
proof -
  show "undo_wire (to_wire (photo ''b'')) = Inr (photo ''b'')" "undo_wire (to_wire (photo ''c'')) = Inr (photo ''c'')" by code_simp+
  have "utf8_valid ''7''" "undecimal ''7'' = 7" by code_simp+
  then show "previous_mode (mode_entry n name rv (Some ''7'')) = Some 7" by (simp add: previous_mode_def mode_entry_def u32_from_str_def)
qed (simp_all add: mode_entry_def same_place_def photo_def VPath_join_def)

lemma mode_unit_shape:
  "\<not> is_sync_unit mode_unit" "\<not> is_organize_unit mode_unit" "is_mode_unit mode_unit" "newest_first mode_unit = mode_unit"
  by (simp_all add: mode_unit_def is_sync_unit_def is_organize_unit_def is_mode_unit_def mode_entries OP_ORGANIZED_def newest_first_def)

lemma mode_unit_locked:
  assumes "revert_unit calm_env (logged_provider locked_provider) mode_unit User st = (st', r)"
  shows "r = Inr SkippedIrreversible \<and> us_report st' = us_report (note_unreverted (to_wire (photo ''b'')) (note_unreverted (to_wire (photo ''c'')) st)) \<and>
    us_world st' = ((), snd (us_world st) @ [CSetMode (photo ''b'') 7])"
proof -
  obtain j b where jb: "alloc_batch (us_journal st) = (j, b)" by fastforce
  have p: "fp_stat_mode (logged_provider locked_provider) w q = (((), snd w), Inr None)"
    "fp_set_mode (logged_provider locked_provider) w q m = (((), snd w @ [CSetMode q m]), Inl E_PermissionDenied)" for w q m
    by (simp_all add: logged_provider_def locked_provider_def easy_provider_def logged_read_def logged_call_def)
  have places: "mode_places (photo ''c'') mode_unit = Inr ()" by (simp add: mode_unit_def mode_entries)
  have "(7 :: nat) AND 4095 = 7" by simp
  then have run: "revert_entry calm_env (logged_provider locked_provider) (mode_entry 2 ''b'' ''set_mode_back'' (Some ''7'')) User (Some b) s =
      (s\<lparr>us_world := ((), snd (us_world s) @ [CSetMode (photo ''b'') 7])\<rparr>, Inr (Blocked 2 E_PermissionDenied))" for s
    by (simp add: revert_entry_def revert_mode_def mode_entries MODE_PERMISSION_BITS_def modo_actual_def p mode_of_def)
  have skip: "revert_entry calm_env (logged_provider locked_provider) (mode_entry 3 ''c'' ''irreversible'' None) User (Some b) s =
      (s, Inr SkippedIrreversible)" for s
    by (simp add: revert_entry_def mode_entries)
  have "poll calm_env s = (s\<lparr>us_polls := us_polls s + 1\<rparr>, False)" for s :: "(unit \<times> undo_call list) undo_state"
    by (simp add: poll_def calm_env_def)
  moreover have "revert_mode_batch calm_env (logged_provider locked_provider) mode_unit User st = (st', r)"
    using assms mode_unit_shape by (simp add: revert_unit_def)
  moreover have "newest_first [mode_entry 3 ''c'' ''irreversible'' None, mode_entry 2 ''b'' ''set_mode_back'' (Some ''7'')] =
      [mode_entry 3 ''c'' ''irreversible'' None, mode_entry 2 ''b'' ''set_mode_back'' (Some ''7'')]"
    using mode_unit_shape(4) by (simp add: mode_unit_def)
  ultimately show ?thesis using jb places run skip
    by (auto simp: revert_mode_batch_def mode_unit_def mode_entries note_unreverted_def count_undone_def)
qed

lemma created_alone:
  "\<not> is_sync_unit [created_entry]" "\<not> is_organize_unit [created_entry]" "\<not> is_mode_unit [created_entry]"
  by (simp_all add: is_sync_unit_def is_organize_unit_def is_mode_unit_def created_entry_def)

lemma whole_unit: "validity_of unit {} = Whole unit"
  by (simp add: validity_of_def)

lemma nobody_denies:
  "undo_unit_denial (\<lambda>_ _. Inr ()) mode_unit = None" "undo_unit_denial (\<lambda>_ _. Inr ()) [created_entry] = None"
proof -
  have all: "gates_denial (\<lambda>_ _. Inr ()) gs = None" for gs by (simp add: gates_denial_None)
  show "undo_unit_denial (\<lambda>_ _. Inr ()) mode_unit = None"
    by (simp add: undo_unit_denial_def undo_gate_targets_def mode_unit_def add_target_def Let_def mode_entries no_targets_def all)
  have "undo_wire (e_path created_entry) = Inr (photo ''a'')" "e_reversal created_entry = ''delete''" by code_simp+
  then show "undo_unit_denial (\<lambda>_ _. Inr ()) [created_entry] = None"
    by (simp add: undo_unit_denial_def undo_gate_targets_def add_target_def Let_def no_targets_def all)
qed

subsection \<open>A lost answer\<close>

text \<open>The provider in memory, as an undo sees it; its other operations are those of \<open>others\<close>.\<close>

definition mem_kind :: "mem_tree \<Rightarrow> vpath \<Rightarrow> entry_kind" where
  "mem_kind t p =
     (case map_of (nodes t) (segments p) of
        Some (Mem_File _ _ _) \<Rightarrow> KindFile
      | Some (Mem_Symlink _ _ _ _) \<Rightarrow> KindSymlink
      | _ \<Rightarrow> KindDir)"

definition on_mem :: "unicode \<Rightarrow> mem_config \<Rightarrow> mem_world full_provider \<Rightarrow> mem_world full_provider" where
  "on_mem u c others = others
     \<lparr>fp_capabilities := caps c, fp_capabilities_at := (\<lambda>w p. (w, Inr (capabilities_at c p))),
      fp_stat := (\<lambda>w p. case mem_stat u c w p of (w, r) \<Rightarrow> (w, map_sum id (mem_kind (tree w)) r)),
      fp_list := (\<lambda>w p. map_prod id (map_sum id (map Inr)) (mem_list u c w p)), fp_rename := mem_rename u c\<rparr>"

lemma plain_on_mem [simp]: "plain_provider (on_mem u c others) = mem_undo u c"
  by (auto simp: plain_provider_def on_mem_def mem_undo_def fun_eq_iff sum.map_comp o_def id_def split: prod.splits)

text \<open>A batch renamed first \<open>d\<close> to \<open>b\<close>, then \<open>c\<close> to \<open>a\<close>. The undo lists the directory and renames \<open>a\<close> back to \<open>c\<close>, of which
  no answer comes; then the provider is gone.\<close>

definition renamed_entry :: "int \<Rightarrow> bytes \<Rightarrow> bytes \<Rightarrow> journal_entry" where
  "renamed_entry n new old = \<lparr>e_seq = n, e_ts_ms = 9, e_entry_hash = [], e_actor_kind = ''user'', e_actor_id = None, e_op = ''renamed'',
     e_path = to_wire (photo new), e_path_to = Some (to_wire (photo old)), e_reversal = reversal_as_str RenameBack,
     e_reversal_ref = None, e_undoes_seq = None, e_batch_id = Some 1\<rparr>"

definition renamed_unit :: "journal_entry list" where
  "renamed_unit = [renamed_entry 3 ''a'' ''c'', renamed_entry 2 ''b'' ''d'']"

definition lost_answer :: fault_state where
  "lost_answer = no_faults\<lparr>ambiguous_next := 1, disconnect_after := Some 2\<rparr>"

definition lost_inverses :: "inverse list" where
  "lost_inverses = [\<lparr>iv_from = ''a'', iv_to = ''c'', iv_seq = 3\<rparr>, \<lparr>iv_from = ''b'', iv_to = ''d'', iv_seq = 2\<rparr>]"

definition lost_steps :: "planned_step list" where
  "lost_steps = [(photo_step ''a'' ''c'' 0)\<lparr>ps_undoes := Some 3\<rparr>, (photo_step ''b'' ''d'' 1)\<lparr>ps_undoes := Some 2\<rparr>]"

definition lost_world1 :: mem_world where
  "lost_world1 = photo_world (lost_answer\<lparr>disconnect_after := Some 1\<rparr>)"

definition lost_world2 :: mem_world where
  "lost_world2 = fst (mem_rename ascii_tables (volume (caps mem_new) []) lost_world1 (photo ''a'') (photo ''c''))"

lemma lost_listed: "mem_list ascii_tables (volume (caps mem_new) []) (photo_world lost_answer) photos = (lost_world1, Inr [photo ''a'', photo ''b''])"
  by code_simp

lemma lost_checked:
  "undo_directory (renamed_entry 3 ''a'' ''c'') = Some photos" "inverse_chain renamed_unit photos = Inr lost_inverses"
  by code_simp+

lemma lost_feasible:
  "feasible (\<lambda>n. name_key ascii_tables n FoldNone) lost_inverses [''a'', ''b''] = Inr ()"
  by code_simp

lemma lost_checks: "undo_check ascii_tables photo_undo e photos lost_inverses (photo_world lost_answer) = (lost_world1, Inr ())"
proof -
  have l: "up_list photo_undo (photo_world lost_answer) photos = (lost_world1, Inr (map Inr [photo ''a'', photo ''b'']))"
    by (simp add: photo_undo_def mem_undo_def lost_listed)
  have "list_base_names [Inr (photo ''a''), Inr (photo ''b'')] [] = Inr [''a'', ''b'']"
    by (simp add: RENAME_BATCH_MAX_LISTING_def file_name_def)
  moreover have "fold_mode_of (caps mem_new) = FoldNone" by (simp add: mem_new_def fold_mode_of_def)
  ultimately show ?thesis using lost_feasible shift_undo(3) by (simp add: undo_check_def shift_undo(2) l)
qed

lemma lost_planned: "try_map (inverse_step photos) (zip [0..<length lost_inverses] lost_inverses) = Inr lost_steps"
proof -
  have "Segment_new ''a'' = Inr ''a''" "Segment_new ''c'' = Inr ''c''" "Segment_new ''b'' = Inr ''b''" "Segment_new ''d'' = Inr ''d''"
    by code_simp+
  then show ?thesis by (simp add: inverse_step_def lost_inverses_def lost_steps_def photo_step_def photo_def)
qed

lemma lost_renamed:
  "mem_rename ascii_tables (volume (caps mem_new) []) lost_world1 (photo ''a'') (photo ''c'') = (lost_world2, Inl (E_ProviderUnavailable True))"
proof -
  have "snd (mem_rename ascii_tables (volume (caps mem_new) []) lost_world1 (photo ''a'') (photo ''c'')) = Inl (E_ProviderUnavailable True)"
    by code_simp
  then show ?thesis by (simp add: lost_world2_def prod_eq_iff)
qed

lemma lost_stat:
  "mem_stat ascii_tables (volume (caps mem_new) []) lost_world2 p = (lost_world2, Inl (E_ProviderUnavailable True))"
proof -
  have "op_gate (faults lost_world2) = (faults lost_world2, Inl (E_ProviderUnavailable True))" by code_simp
  then show ?thesis by (simp add: mem_stat_def gated_def)
qed

lemma lost_entries:
  "mem_entry photos lost_world2 (photo ''a'') = None" "mem_entry photos lost_world2 (photo ''c'') = Some 2"
  by code_simp+

lemma lost_unanswered:
  "rename_unanswered calm_env photo_undo renamed_unit Landed_Unknown (E_ProviderUnavailable True) (photo_world lost_answer) lost_world2"
proof -
  let ?sv = "undo_services (ue_sha calm_env) photo_undo"
  have sv: "?sv = mem_services ascii_tables (volume (caps mem_new) []) (BatchJournal_renamed (ue_sha calm_env)) True"
    by (simp add: photo_undo_def)
  have "probe_landed ?sv lost_world2 (hd lost_steps) = (lost_world2, Landed_Unknown)"
    unfolding sv by (simp add: probe_landed_def is_free_def mem_services_def lost_stat)
  moreover have "up_rename photo_undo lost_world1 (ps_from (hd lost_steps)) (ps_to (hd lost_steps)) = (lost_world2, Inl (E_ProviderUnavailable True))"
    by (simp add: photo_undo_def mem_undo_def lost_steps_def photo_step_def lost_renamed)
  moreover have "hd renamed_unit = renamed_entry 3 ''a'' ''c''" "ue_unicode calm_env = ascii_tables"
    by (simp_all add: renamed_unit_def calm_env_def)
  ultimately show ?thesis using lost_checked lost_checks lost_planned unfolding rename_unanswered_def by auto
qed

lemma renamed_unit_allowed: "undo_unit_denial (\<lambda>_ _. Inr ()) renamed_unit = None"
proof -
  have all: "gates_denial (\<lambda>_ _. Inr ()) gs = None" for gs by (simp add: gates_denial_None)
  have "undo_gate_targets renamed_unit \<noteq> Inl er" for er by code_simp
  then show ?thesis by (simp add: undo_unit_denial_def all split: sum.splits option.splits)
qed

section \<open>Properties\<close>

text \<open>C15: the report of a batch of the synchroniser, or of organizing, adds up. Whatever the provider answers, the entries
  counted as undone are exactly as many as the compensations written to the journal; when the unit comes back as
  accounted for, every entry is in one of the counters, and when it comes back as blocked or with an error,
  some are not.\<close>

theorem sync_batch_accounts:
  assumes "is_sync_unit unit \<or> is_organize_unit unit" "revert_unit env p unit a st = (st', r)"
  shows "accounts (length unit) st st' r"
proof -
  have "unit \<noteq> []" using assms(1) by (auto simp: is_sync_unit_def is_organize_unit_def)
  moreover have "revert_sync_batch env p unit a st = (st', r)" using assms by (auto simp: revert_unit_def split: if_splits)
  ultimately show ?thesis by (rule revert_sync_batch_accounts)
qed

theorem sync_batch_accounts_witness:
  "\<exists>st' r. revert_unit calm_env (logged_provider easy_provider) [created_entry\<lparr>e_batch_id := Some 1\<rparr>] User (calm_state ((), [])) = (st', r) \<and>
     accounts 1 (calm_state ((), [])) st' r"
proof -
  let ?e = "created_entry\<lparr>e_batch_id := Some 1\<rparr>"
  obtain st' r where run: "revert_unit calm_env (logged_provider easy_provider) [?e] User (calm_state ((), [])) = (st', r)" by fastforce
  have sync: "is_sync_unit [?e] \<or> is_organize_unit [?e]" by (simp add: is_sync_unit_def created_entry_def)
  from sync_batch_accounts [OF sync run] run show ?thesis by auto
qed

text \<open>C14: an undo is strict. Once a unit blocks, or fails, or the task is cancelled, nothing older is touched: the task ends as
  if the older units were not in its plan at all.\<close>

theorem undo_stops_at_block:
  assumes "ur_blocked (us_report st) = None" "undo_loop env check a already k xs st = (st', r)"
    and "r \<noteq> Inr () \<or> ur_blocked (us_report st') \<noteq> None"
  shows "undo_loop env check a already k (xs @ ys) st = (st', r)"
proof -
  have "round_ends (st', r)" using assms(3) by (cases r) (auto simp: round_ends_def)
  with undo_loop_append [OF assms(1,2)] show ?thesis by simp
qed

theorem undo_stops_at_block_witness:
  "\<exists>st'. undo_loop calm_env (\<lambda>_ _ _. Inr ()) User {} 0
       ([([future_entry], logged_provider easy_provider)] @ [([created_entry], logged_provider easy_provider)]) (calm_state ((), [])) =
       (st', Inr ()) \<and>
     ur_blocked (us_report st') = Some (1, E_Unsupported) \<and> snd (us_world st') = []"
proof -
  let ?p = "logged_provider easy_provider" and ?loop = "undo_loop calm_env (\<lambda>_ _ _. Inr ()) User {} 0"
  have e: "undo_wire (e_path future_entry) = Inr (photo ''a'')" "e_reversal future_entry = ''future''" "e_batch_id future_entry = None"
      "e_seq future_entry = 1"
    by code_simp+
  have allowed: "undo_unit_denial (\<lambda>_ _. Inr ()) [future_entry] = None"
    using e by (simp add: undo_unit_denial_def undo_gate_targets_def add_target_def Let_def no_targets_def gates_denial_None)
  obtain st1 where 1: "poll calm_env (calm_state ((), [] :: undo_call list)) = (st1, False)" "us_world st1 = ((), [])"
    by (simp add: poll_def calm_env_def calm_state_def)
  have "revert_unit calm_env ?p [future_entry] User st1 = (st1, Inr (Blocked 1 E_Unsupported))"
    using e by (simp add: revert_unit_def is_sync_unit_def is_organize_unit_def is_mode_unit_def revert_entry_def)
  then have run: "?loop [([future_entry], ?p)] (calm_state ((), [])) = (report_blocked 1 E_Unsupported st1, Inr ())"
    by (simp add: 1 whole_unit allowed)
  have start: "ur_blocked (us_report (calm_state ((), [] :: undo_call list))) = None" by (simp add: calm_state_def undo_report_default_def)
  have "ur_blocked (us_report (report_blocked 1 E_Unsupported st1)) = Some (1, E_Unsupported)" by (simp add: report_blocked_def)
  with undo_stops_at_block [OF start run, of "[([created_entry], ?p)]"] 1(2) show ?thesis by simp
qed

text \<open>C36: a node of a batch of permissions that blocks does not always stop the session. When a newer entry of the batch
  is skipped, because the mode before is not known, the batch comes back as skipped: the session reports no block, though
  the older node kept its mode, and goes on to older units.\<close>

theorem mode_batch_hides_block:
  "let (st', r) = undo_loop calm_env (\<lambda>_ _ _. Inr ()) User {} 0
       [(mode_unit, logged_provider locked_provider), ([created_entry], logged_provider locked_provider)] (calm_state ((), []))
   in ur_blocked (us_report st') = None \<and> ur_skipped_irreversible (us_report st') = 1 \<and>
     ur_unreverted_paths (us_report st') = [to_wire (photo ''c''), to_wire (photo ''b'')] \<and>
     snd (us_world st') = [CSetMode (photo ''b'') 7, CTrash (photo ''a'')]"
proof -
  let ?p = "logged_provider locked_provider"
  obtain st' r where run: "undo_loop calm_env (\<lambda>_ _ _. Inr ()) User {} 0 [(mode_unit, ?p), ([created_entry], ?p)] (calm_state ((), [])) = (st', r)"
    by fastforce
  obtain st1 where 1: "poll calm_env (calm_state ((), [] :: undo_call list)) = (st1, False)" "us_world st1 = ((), [])" "us_report st1 = undo_report_default"
    by (simp add: poll_def calm_env_def calm_state_def)
  obtain st2 r2 where 2: "revert_unit calm_env ?p mode_unit User st1 = (st2, r2)" by fastforce
  note locked = mode_unit_locked [OF 2]
  obtain st3 where 3: "poll calm_env (count_irreversible st2) = (st3, False)" "us_world st3 = us_world st2"
      "us_report st3 = us_report (count_irreversible st2)"
    by (simp add: poll_def calm_env_def)
  obtain st4 r4 where 4: "revert_unit calm_env ?p [created_entry] User st3 = (st4, r4)" by fastforce
  have w4: "us_world st4 = ((), [CSetMode (photo ''b'') 7, CTrash (photo ''a'')])" "r4 = Inr RDone \<or> (\<exists>er. r4 = Inl er)"
    using created_trashed [OF locked_provider_def _ 4, of "[CSetMode (photo ''b'') 7]"] locked 1(2) 3(2) by simp_all
  have report: "us_report st4 = us_report st3"
  proof -
    have "revert_entry calm_env ?p created_entry User None st3 = (st4, r4)" using 4 created_alone by (simp add: revert_unit_def)
    from revert_entry_one [OF this] show ?thesis unfolding one_entry_def by (rule conjunct1)
  qed
  have "us_world st' = us_world st4 \<and> ur_blocked (us_report st') = ur_blocked (us_report st4) \<and>
      ur_skipped_irreversible (us_report st') = ur_skipped_irreversible (us_report st4) \<and>
      ur_unreverted_paths (us_report st') = ur_unreverted_paths (us_report st4)"
    using run w4(2) by (auto simp: 1 2 3 4 whole_unit nobody_denies locked)
  with run w4(1) report locked 1(3) 3(3) show ?thesis
    by (simp add: undo_report_default_def UNDO_MAX_UNREVERTED_PATHS_def)
qed

text \<open>C37: cancelling the undo of a batch of the synchroniser can report a lost compensation although nothing was done. The token
  is seen by the retries of the trash before anything reaches the provider; the batch takes the answer for a failed
  write to the journal.\<close>

theorem cancelled_trash_counts_lost:
  "let (st', r) = revert_unit (calm_env\<lparr>ue_cancel := \<lambda>k. k \<ge> 1\<rparr>) (logged_provider easy_provider)
       [created_entry\<lparr>e_batch_id := Some 1\<rparr>] User (calm_state ((), []))
   in r = Inl E_Cancelled \<and> ur_compensations_lost (us_report st') = 1 \<and> snd (us_world st') = [] \<and> row_count st' = 0"
proof -
  let ?e = "created_entry\<lparr>e_batch_id := Some 1\<rparr>" and ?p = "logged_provider easy_provider"
    and ?env = "calm_env\<lparr>ue_cancel := \<lambda>k. k \<ge> 1\<rparr>"
  have e: "undo_wire (e_path ?e) = Inr (photo ''a'')" "e_reversal ?e = ''delete''" "e_reversal_ref ?e = None" "e_op ?e = ''created''"
      "e_batch_id ?e = Some 1" "provider_refs ?e = [e_path ?e]" "ambiguous_restores [?e] = []" "newest_first [?e] = [?e]"
    by code_simp+
  have sync: "is_sync_unit [?e]" using e(2,4,5) by (simp add: is_sync_unit_def)
  have place: "one_provider [?e] ?e = Inr ()"
    using e(1,6) by (simp add: one_provider_def same_place_def)
  have p: "fp_stat ?p w q = (((), snd w), Inr KindFile)" "TRASH \<in> cap_flags (fp_capabilities ?p)" for w q
    by (simp_all add: logged_provider_def easy_provider_def logged_read_def mem_new_def)
  have t: "trash_retrying ?p q i (\<lambda>n. True) w = (w, Inl E_Cancelled)" for q i w
    by (simp add: trash_retrying_def trash_retrying_amb_def trash_loop.simps)
  obtain j b where jb: "alloc_batch bare_journal = (j, b)" "rows j = []" by (simp add: alloc_batch_def bare_journal_def Let_def)
  let ?st = "calm_state ((), [] :: undo_call list)\<lparr>us_journal := j, us_polls := 1\<rparr>"
  have entry: "revert_entry ?env ?p ?e User (Some b) ?st = (?st\<lparr>us_polls := 1 + 3 * (MAX_RETRIES + 1)\<rparr>, Inl E_Cancelled)"
    using e by (simp add: revert_entry_def revert_created_def Let_def p not_ours_def occupied_dir_def t calm_state_def)
  have "revert_unit ?env ?p [?e] User (calm_state ((), [])) = (count_lost (?st\<lparr>us_polls := 1 + 3 * (MAX_RETRIES + 1)\<rparr>), Inl E_Cancelled)"
    using sync place jb(1) e(7,8) entry
    by (simp add: revert_unit_def revert_sync_batch_def poll_def calm_state_def)
  then show ?thesis using jb(2) by (simp add: calm_state_def undo_report_default_def row_count_def count_lost_def)
qed

text \<open>C38: a blocked undo may have moved a file. Let the undo reach a batch of two or more renames, nobody having denied it, and
  let its first rename come back with an error that leaves open whether the file moved. Unless asking afterwards shows
  that it did move, the undo stops there and completes, and its report is the one from before with the unit as
  blocked: the same whether the provider said that nothing moved or could not say. The mark the executor sets for a step it
  could not settle does not reach the report of an undo, and the provider stays as the rename left it. In the witness the file has moved.\<close>

theorem blocked_undo_may_have_moved:
  assumes "2 \<le> length unit" "\<forall>e \<in> set unit. e_op e = ''renamed'' \<and> e_seq e \<notin> already"
    and "undo_unit_denial (check k) unit = None"
    and "\<not> ue_cancel env (us_polls st)" "\<not> ue_cancel env (us_polls st + 1)"
    and "rename_unanswered env (plain_provider p) unit landed er (us_world st) w'" "landed \<in> {Landed_No, Landed_Unknown}"
    and "undo_loop env check a already k ((unit, p) # older) st = (st', r)"
  shows "r = Inr () \<and> us_report st' = (us_report st)\<lparr>ur_blocked := Some (e_seq (hd unit), er)\<rparr> \<and>
    us_world st' = w' \<and> row_count st' = row_count st"
proof -
  let ?st = "st\<lparr>us_polls := us_polls st + 1\<rparr>"
  obtain st2 r2 where 2: "revert_rename_batch env p unit a ?st = (st2, r2)" by fastforce
  have ren: "\<forall>e \<in> set unit. e_op e = ''renamed''" using assms(2) by blast
  have "unit \<noteq> []" "landed \<noteq> Landed_Yes" using assms(1,7) by auto
  then have b: "r2 = Inr (Blocked (e_seq (hd unit)) er) \<and> us_world st2 = w' \<and> us_report st2 = us_report ?st \<and> row_count st2 = row_count ?st"
    using unanswered_blocks [OF _ _ _ _ 2, of landed er w'] assms(5,6) by simp
  have "validity_of unit already = Whole unit" using assms(2) by (simp add: validity_of_def filter_empty_conv)
  moreover have "poll env st = (?st, False)" using assms(4) by (simp add: poll_def)
  moreover have "revert_unit env p unit a ?st = (st2, r2)" using renames_go_to_batch [OF assms(1) ren, of env p a ?st] 2 by simp
  ultimately show ?thesis using assms(3,8) b by (auto simp: report_blocked_def row_count_def)
qed

theorem blocked_undo_may_have_moved_witness:
  "\<forall>others older. let (st', r) = undo_loop calm_env (\<lambda>_ _ _. Inr ()) User {} 0
       ((renamed_unit, on_mem ascii_tables (volume (caps mem_new) []) others) # older) (calm_state (photo_world lost_answer))
   in r = Inr () \<and> us_report st' = undo_report_default\<lparr>ur_blocked := Some (3, E_ProviderUnavailable True)\<rparr> \<and> row_count st' = 0 \<and>
     mem_entry photos (photo_world lost_answer) (photo ''a'') = Some 2 \<and>
     mem_entry photos (us_world st') (photo ''a'') = None \<and> mem_entry photos (us_world st') (photo ''c'') = Some 2"
proof (intro allI)
  fix others and older :: "(journal_entry list \<times> mem_world full_provider) list"
  let ?p = "on_mem ascii_tables (volume (caps mem_new) []) others" and ?st = "calm_state (photo_world lost_answer)"
  obtain st' r where run: "undo_loop calm_env (\<lambda>_ _ _. Inr ()) User {} 0 ((renamed_unit, ?p) # older) ?st = (st', r)" by fastforce
  have un: "rename_unanswered calm_env (plain_provider ?p) renamed_unit Landed_Unknown (E_ProviderUnavailable True) (us_world ?st) lost_world2"
    using lost_unanswered by (simp add: photo_undo_def calm_state_def)
  have unit: "2 \<le> length renamed_unit" "\<forall>e \<in> set renamed_unit. e_op e = ''renamed'' \<and> e_seq e \<notin> {}" "e_seq (hd renamed_unit) = 3"
    by (simp_all add: renamed_unit_def renamed_entry_def)
  have go: "\<not> ue_cancel calm_env n" for n by (simp add: calm_env_def)
  have start: "us_report ?st = undo_report_default" "row_count ?st = 0" by (simp_all add: calm_state_def row_count_def bare_journal_def)
  from blocked_undo_may_have_moved [OF unit(1,2) renamed_unit_allowed go go un _ run] unit(3) start lost_entries
  show "let (st', r) = undo_loop calm_env (\<lambda>_ _ _. Inr ()) User {} 0 ((renamed_unit, ?p) # older) ?st
     in r = Inr () \<and> us_report st' = undo_report_default\<lparr>ur_blocked := Some (3, E_ProviderUnavailable True)\<rparr> \<and> row_count st' = 0 \<and>
       mem_entry photos (photo_world lost_answer) (photo ''a'') = Some 2 \<and>
       mem_entry photos (us_world st') (photo ''a'') = None \<and> mem_entry photos (us_world st') (photo ''c'') = Some 2"
    unfolding run by (simp add: photo_entries)
qed

end
