(* ===== verification/Spec2Isabelle.thy ===== *)
theory Spec2Isabelle
  imports Framing Policy Approvals Orders_Language Undo_Properties Undo_Account
begin

text \<open>
  A verification development for norte, a file commander whose front ends (terminal, desktop, command
  line, agents over MCP, plugins) drive one engine, embedded or in a daemon. The program is a Rust
  workspace under \<^verbatim>\<open>src/crates\<close>; this development models its core: how files are named
  on the wire, how messages are framed, who may do what, how a human is asked, how a batch of renames is
  planned, approved, executed and rolled back, how the order line is read, and how every mutation is journaled and undone.

  \<^bold>\<open>How the parts interact.\<close> A connection of the daemon cuts its byte stream into frames (\<^verbatim>\<open>wire/framing.rs\<close>,
  \<^verbatim>\<open>daemon/server.rs\<close>) and queues the requests in them. Requests name files by virtual paths
  (\<^verbatim>\<open>norte-proto/src/vpath.rs\<close>). Before an operation touches anything the engine asks the policy
  (\<^verbatim>\<open>policy.rs\<close>, \<^verbatim>\<open>policy/config.rs\<close>) about the actor, the operation and every path; the policy consults the
  scopes granted to the actor and the rules of the user and answers allow, ask or deny. An ask goes to the
  approval resolver of the daemon (\<^verbatim>\<open>daemon/approvals.rs\<close>), which waits for a human. What passes needs a
  journal that can be written. Each mutation becomes one row of the journal (\<^verbatim>\<open>journal.rs\<close>) with the digest
  of the row before it; the undo reads back from it what can still be reverted. Batch renames are planned
  before anything moves (\<^verbatim>\<open>rename/plan.rs\<close>) with collision keys from \<^verbatim>\<open>norte-encoding\<close>; the engine binds the digest of
  the plan to its directory, plans again when an approved digest comes back, passes the gate once for all paths and runs
  the steps (\<^verbatim>\<open>rename/exec.rs\<close>) on a provider, under one batch of the journal, with a way back when a step fails. An undo groups what it selected into units,
  asks the policy about each, and reverts entries singly and batches of renames with the same executor (\<^verbatim>\<open>undo.rs\<close>). The
  order line of the front ends is parsed and printed by \<^verbatim>\<open>norte-orders\<close>.

  \<^bold>\<open>Conventions.\<close> A Rust byte is a \<open>char\<close>, a string is its UTF-8 bytes, a \<^verbatim>\<open>Result\<close> is a sum
  with \<open>Inl\<close> for the error, a struct is a record and an enum a datatype. Unsigned counters that the code
  bounds are \<open>nat\<close> with the bound written out; the \<^verbatim>\<open>i64\<close> numbers of the journal are integers whose additions
  wrap. Loops are recursive functions with a termination proof. Code outside the repository is a parameter of
  the definitions that call it: SHA-256 (\<open>sha\<close>, of which the theorems assume only that a digest has 32 bytes),
  the Unicode tables behind lowercase and normal form (record \<open>unicode\<close>), the character classes beyond ASCII
  in the order language, the JSON and TOML parsers, the clock and the outcome of a write. SQLite is explicit
  state, a table being the list of its rows in key order.

  \<^bold>\<open>The theories.\<close>
  \<^item> \<open>Norte_Prelude\<close>: results, the string functions of the Rust library that the sources call, list and
    decimal lemmas. \<open>Rust_Utf8\<close>: UTF-8 validity, character boundaries and lossy decoding as in \<^verbatim>\<open>core::str\<close>.
  \<^item> \<open>Vpath_Codec\<close> (\<^verbatim>\<open>wire/vpath_codec.rs\<close>): the percent codec of path segments; it loses no byte.
    The locale \<open>segment_codec\<close> is its contract towards
    \<open>Vpath\<close> (\<^verbatim>\<open>vpath.rs\<close> and \<^verbatim>\<open>RelPath\<close> of \<^verbatim>\<open>methods.rs\<close>): parsing, printing, display, joining, archive
    addressing. Lemmas: round trips, no traversal segment or password survives parsing, the display form
    never parses, composing and splitting archives are inverse.
  \<^item> \<open>Framing\<close> (\<^verbatim>\<open>wire/framing.rs\<close> and the read loop of \<^verbatim>\<open>daemon/server.rs\<close>): the incremental decoder refines
    the splitting of the whole stream. The locale \<open>frame_source\<close> states the contract of a decoder;
    its lemmas hold for every interleaving of feeding and pulling.
  \<^item> \<open>Policy\<close> (\<^verbatim>\<open>policy.rs\<close>, \<^verbatim>\<open>policy/config.rs\<close>, the gates of \<^verbatim>\<open>engine.rs\<close>, \<^verbatim>\<open>daemon/server.rs\<close>, \<^verbatim>\<open>hooks.rs\<close>):
    scopes, rules, decisions and gates. The locales \<open>boundary_gate\<close> (what no grant can open) and
    \<open>policy_gate\<close> (what every installed policy guarantees the engine) are interpreted on the three
    verdict functions and on both policies.
  \<^item> \<open>Approvals\<close> (\<^verbatim>\<open>daemon/approvals.rs\<close>): the resolver as a step relation over the events of its requests,
    deciders and deadlines, with an invariant by rule induction.
  \<^item> \<open>Name_Key\<close> (\<^verbatim>\<open>norte-encoding\<close>): the collision key of a file name and its reference definition.
    Of a name that is not UTF-8 the code folds the leading valid run only, as the comment of \<^verbatim>\<open>fold_lossy\<close> explains; the
    public documentation of \<^verbatim>\<open>name_key\<close> describes folding on both sides of an invalid byte, and the theory follows the code.
    \<open>Rename_Plan\<close>, \<open>Rename_Order\<close>, \<open>Rename_Batch\<close> (\<^verbatim>\<open>rename/plan.rs\<close>, \<^verbatim>\<open>rename/naming.rs\<close>,
    \<^verbatim>\<open>hashing.rs\<close>): classification of the pairs, the order of the steps with parked cycles, digests; a plan
    that is executable does what was asked when its steps are run on a directory.
  \<^item> \<open>Orders_Lex\<close>, \<open>Orders_Parse\<close>, \<open>Orders_Print\<close> (\<^verbatim>\<open>norte-orders\<close>): lexer, parser with colour spans and
    printer of the order line. \<open>Orders_Roundtrip\<close>, \<open>Orders_Correct\<close>, \<open>Orders_Spans\<close>,
    \<open>Orders_Language\<close>: printing and parsing are inverse, the trees the parser can give, spans and quoting.
  \<^item> \<open>Journal\<close> (\<^verbatim>\<open>journal.rs\<close>): rows, opening, recording, verification, compaction and undo
    selections. \<open>Journal_Chain\<close>: the life of a journal as a step relation and its invariant.
    \<open>Journal_Verify\<close>: what the walk over the chain proves of an arbitrary file. \<open>Journal_Undo\<close>:
    compaction, bounded undo, undoing an undo.
  \<^item> \<open>Proto_Error\<close> (\<^verbatim>\<open>error.rs\<close>) and \<open>Capabilities\<close> (\<^verbatim>\<open>caps.rs\<close>): the errors that travel and the flags of a
    volume with their wire form, which reads back what was printed.
  \<^item> \<open>Rename_Exec\<close> (\<^verbatim>\<open>rename/exec.rs\<close>): the executor of a plan over the operations of a provider and a recorder.
    \<open>Rename_Transaction\<close> states what it needs of a provider, as the locale \<open>rename_provider\<close>, and what
    a run then does to the files; \<open>Rename_Journal\<close> what it does to the journal.
  \<^item> \<open>Mem_Provider\<close> (\<^verbatim>\<open>norte-testkit/src/mem.rs\<close>, \<^verbatim>\<open>faults.rs\<close>): the provider in memory with its faults.
    \<open>Mem_Directory\<close> interprets the locale on it, for every configuration, tree and schedule of faults that is
    \<open>mem_good\<close>, and holds the property that a batch is a transaction.
  \<^item> \<open>Rename_Link\<close> connects the steps of a plan with the moves of the executor. \<open>Report_Ring\<close> and \<open>Rename_Engine\<close>
    (\<^verbatim>\<open>engine.rs\<close>): retained reports, and the entry points that plan, approve and execute. \<open>Rename_Approval\<close>: the
    properties from the approved digest to the files.
  \<^item> \<open>Undo_Batch\<close> (\<^verbatim>\<open>undo.rs\<close>): the units of an undo and the reversal of a batch of renames: its inverse, the check of
    the whole against the listing, the run and what its outcome is reported as. \<open>Undo_Restores\<close>: the locale \<open>undoable\<close>, what
    that needs of a provider beyond \<open>rename_provider\<close>, and what reverting does to the files. \<open>Undo_Directory\<close> interprets it
    on the provider in memory, with its faults and without. \<open>Undo_Properties\<close>: from a recorded batch to its undo.
  \<^item> \<open>Undo_Entry\<close> (\<^verbatim>\<open>undo.rs\<close>, the trash of \<^verbatim>\<open>ops.rs\<close>): the reversal of single entries. \<open>Undo_Unit\<close> (\<^verbatim>\<open>undo.rs\<close>): batches
    of the synchroniser, of organizing and of permissions, and the choice between the reversals. \<open>Undo_Session\<close> (\<^verbatim>\<open>engine.rs\<close>):
    selection, questions to the policy, the loop of the task and the reports. \<open>Undo_Gated\<close>: the locale \<open>watched_provider\<close>,
    interpreted on every provider with a list of its changing calls; an undo makes only calls the policy was asked about.
    \<open>Undo_Account\<close>: the counters against the journal, the strictness of a session, and where a report is wrong: a
    batch of permissions that hides a block, a cancellation counted as a loss, a rename without an answer that
    passes for a clean block.
  \<^item> This theory: the property that spans the policy, the engine and the approvals.

  \<^bold>\<open>Bounds.\<close> Request identifiers are 64 bit counters, so properties of the resolver hold for runs
  shorter than the counter's range; the rename planner numbers its temporary names with 32 bits and is total
  for fewer names than that; sequence numbers of the journal stay below \<open>2 ^ 63\<close>. The frame cap and the
  capacity of the resolver are the constants of the sources. No definition uses fuel. The detour of
  an undo tries a thousand names and the trash is retried three times, as in the sources. Cancellation is a sequence of
  answers to the polls of the token, of which a state counts how many were used.

  \<^bold>\<open>Not modelled.\<close> The VFS providers other than the one in memory (system calls and network clients), the file
  operations of \<^verbatim>\<open>ops.rs\<close> other than the retries of the trash, the synchroniser and the comparer, the task scheduler, sessions and the RPC dispatcher, the
  plugin host and the updater, the front ends and their layout, the configuration loader and the translations: they are
  listed with their reason in the manifest. In the modelled files, logging, latency, file permissions, connection options,
  \<^verbatim>\<open>VACUUM\<close> and the masking of rows for display are left out; they change no modelled state. Errors carry the fields
  that the modelled code reads.

  \<^bold>\<open>What the statements leave out.\<close> An entry is recorded and offered to the hook sender in one step: the code offers it after
  the lock of the chain is released, so with several writers the offers may come in another order, and a full queue drops
  them; the property of the hooks is about the sequence of offers of writes that follow each other. What an undo has
  already undone is read without an error; in the code a journal that cannot be read fails the task before anything is
  touched. After a batch of renames the poll counter of an undo advances by the length of the unit, whatever the
  executor polled: the answers of the token are arbitrary, so no property depends on it. The verdict on a chain is described
  exactly for files that were never compacted; a compacted one is covered by the invariant of the journals this program writes. The
  question that covers a call of an undo is one asked in that undo, while some unit of it was up; the statement does not say which.
\<close>

section \<open>An asked operation needs a human\<close>

text \<open>C22: When the policy answers ask for an operation of an agent, the engine lets it through only if the
  resolver finished a request that describes exactly this operation, and then exactly one decision was
  applied to that request, an approval, whatever requests, decisions and deadlines were interleaved.\<close>

theorem asked_operation_needs_human:
  assumes "trace seed tr st" "seed + length tr < 2 ^ 64"
    and "requests st i = Some r" "rq_phase r = Done (Some (answer (rq_req r)))"
    and "rq_req r = \<lparr>req_actor = Agent sess, req_op = op,
      req_paths = map span_path (take APPROVAL_PATHS_SHOWN paths), paths_total = length paths\<rparr>"
    and "evaluate (Agent sess) op paths = Ask"
    and "engine_gate evaluate answer source opened (Agent sess) op paths = Inr ()"
  shows "applied i tr = [True]"
proof -
  have "answer (rq_req r) = Approved"
    using assms(5-7) by (simp add: engine_gate_def and_then_Inr_iff policy_check_def split: approval_outcome.splits)
  with assms(4) show ?thesis using approved_applied [OF assms(1-3)] by simp
qed

theorem asked_operation_needs_human_witness:
  "\<exists>tr st r. trace 7 tr st \<and> requests st 7 = Some r \<and> req_op (rq_req r) = policy_op.Mkdir \<and>
     engine_gate (\<lambda>_ _ _. Ask) (\<lambda>_. Approved) OpenJournal Opened (Agent ''claude'') policy_op.Mkdir [home] = Inr () \<and>
     applied 7 tr = [True]"
proof -
  let ?req = "\<lparr>req_actor = Agent ''claude'', req_op = policy_op.Mkdir,
    req_paths = map span_path (take APPROVAL_PATHS_SHOWN [home]), paths_total = length [home]\<rparr>"
  obtain tr st r where run: "trace 7 tr st" "7 + length tr < 2 ^ 64" "requests st 7 = Some r" "rq_req r = ?req"
      "rq_phase r = Done (Some Approved)"
    by (rule approved_run_result)
  have gate: "engine_gate (\<lambda>_ _ _. Ask) (\<lambda>_. Approved) OpenJournal Opened (Agent ''claude'') policy_op.Mkdir [home] = Inr ()"
    by (simp add: engine_gate_def policy_check_def journal_gate_def)
  have "applied 7 tr = [True]"
    by (rule asked_operation_needs_human [where answer = "\<lambda>_. Approved", OF run(1-3) _ run(4) refl gate]) (rule run(5))
  moreover have "req_op (rq_req r) = policy_op.Mkdir" using run(4) by simp
  ultimately show ?thesis using run(1,3) gate by blast
qed

end
